(* ===== verification/Prelude.thy ===== *)
theory Prelude
  imports Main "HOL-Library.Word" "HOL-Library.Multiset"
begin

text \<open>
  Shared vocabulary of the development: the byte-level types of the program, little-endian
  integer encodings (the program runs on little-endian memory layouts and calls
  \<^verbatim>\<open>latest_crypto::ReadLE16\<close> and \<^verbatim>\<open>ReadLE32\<close> of \<^verbatim>\<open>src/src/crypto/common.h\<close>), the
  rules for bit masks on bytes, and the theorem collections the component theories fill.
\<close>

unbundle bit_operations_syntax

section \<open>Types\<close>

type_synonym byte = "8 word"
type_synonym bytes = "byte list"
type_synonym uint160 = "160 word"
type_synonym uint256 = "256 word"

section \<open>Theorem collections\<close>

named_theorems num_simps \<open>rules that evaluate script numbers\<close>
named_theorems op_simps \<open>rules that evaluate the opcode reader and writers\<close>
named_theorems exec_simps \<open>rules that evaluate single interpreter steps\<close>

section \<open>Little-endian integers\<close>

fun le_nat :: "bytes \<Rightarrow> nat" where
  "le_nat [] = 0"
| "le_nat (b # bs) = unat b + 256 * le_nat bs"

fun le_bytes :: "nat \<Rightarrow> nat \<Rightarrow> bytes" where
  "le_bytes 0 n = []"
| "le_bytes (Suc k) n = word_of_nat (n mod 256) # le_bytes k (n div 256)"

lemma unat_byte_less [simp]: "unat (b :: byte) < 256"
  using unsigned_less [of b] by simp

lemma unat_of_byte [simp]: "n < 256 \<Longrightarrow> unat (word_of_nat n :: byte) = n"
  by (simp add: unat_of_nat)

lemma le_bytes_numeral:
  "le_bytes (numeral k) n = word_of_nat (n mod 256) # le_bytes (pred_numeral k) (n div 256)"
  by (metis le_bytes.simps(2) numeral_eq_Suc)

lemma length_le_bytes [simp]: "length (le_bytes k n) = k"
  by (induction k arbitrary: n) auto

lemma le_nat_less: "le_nat bs < 256 ^ length bs"
proof (induction bs)
  case Nil
  then show ?case by simp
next
  case (Cons b bs)
  have "unat b + 256 * le_nat bs < 256 + 256 * le_nat bs"
    by simp
  also have "\<dots> = 256 * Suc (le_nat bs)"
    by simp
  also have "\<dots> \<le> 256 * 256 ^ length bs"
    using Cons.IH by (intro mult_le_mono2) simp
  finally show ?case by simp
qed

lemma le_nat_pos_iff: "0 < le_nat bs \<longleftrightarrow> (\<exists>b \<in> set bs. b \<noteq> 0)"
  by (induction bs) (auto simp: unat_gt_0)

lemma le_nat_le_bytes: "le_nat (le_bytes k n) = n mod 256 ^ k"
proof (induction k arbitrary: n)
  case 0
  then show ?case by simp
next
  case (Suc k)
  have "n mod 256 ^ Suc k = n mod 256 + 256 * (n div 256 mod 256 ^ k)"
    by (simp add: mod_mult2_eq)
  with Suc show ?case by simp
qed

lemma le_nat_le_bytes_id [simp]: "n < 256 ^ k \<Longrightarrow> le_nat (le_bytes k n) = n"
  by (simp add: le_nat_le_bytes)

lemma le_bytes_le_nat [simp]: "le_bytes (length bs) (le_nat bs) = bs"
  by (induction bs) auto

lemma le_bytes_inj: "length bs = length cs \<Longrightarrow> le_nat bs = le_nat cs \<Longrightarrow> bs = cs"
  by (metis le_bytes_le_nat)

lemma le_nat_append: "le_nat (bs @ cs) = le_nat bs + 256 ^ length bs * le_nat cs"
  by (induction bs) (auto simp: algebra_simps)

section \<open>Masks on bytes\<close>

lemma byte_mod_128: "unat (b :: byte) mod 128 = (if 128 \<le> unat b then unat b - 128 else unat b)"
  using unat_byte_less [of b] by (simp add: le_mod_geq del: unat_byte_less)

lemma byte_bit7_iff: "bit (b :: byte) 7 \<longleftrightarrow> 128 \<le> unat b"
proof -
  have "bit b 7 \<longleftrightarrow> bit (unat b) 7"
    by (simp add: bit_unsigned_iff)
  also have "\<dots> \<longleftrightarrow> odd (unat b div 128)"
    by (simp add: bit_iff_odd)
  also have "\<dots> \<longleftrightarrow> 128 \<le> unat b"
  proof (cases "unat b < 128")
    case True
    then show ?thesis by simp
  next
    case False
    then have "unat b div 128 = 1"
      using unat_byte_less [of b] by (intro div_nat_eqI) simp_all
    with False show ?thesis by simp
  qed
  finally show ?thesis .
qed

lemma byte_and_80_iff [simp]: "(b :: byte) AND 0x80 = 0 \<longleftrightarrow> unat b < 128"
  using and_exp_eq_0_iff_not_bit [of b 7] byte_bit7_iff [of b] by auto

lemma byte_and_7f [simp]: "unat ((b :: byte) AND 0x7f) = unat b mod 128"
proof -
  have "b AND 0x7f = b mod 128"
    using take_bit_eq_mask [of 7 b] by (simp add: mask_numeral take_bit_eq_mod)
  then show ?thesis by (simp add: unat_mod)
qed

lemma byte_or_80 [simp]: "unat b < 128 \<Longrightarrow> unat ((b :: byte) OR 0x80) = unat b + 128"
proof -
  assume "unat b < 128"
  then have "\<not> bit b 7" by (simp add: byte_bit7_iff)
  then have "b AND 0x80 = 0"
    using and_exp_eq_0_iff_not_bit [of b 7] by simp
  then have "b OR 0x80 = b + 0x80"
    by (simp add: disjunctive_add_eq_or)
  then show ?thesis
    using \<open>unat b < 128\<close> by (simp add: unat_word_ariths)
qed

end
