(* ===== verification/Script_Num.thy ===== *)
theory Script_Num
  imports Prelude
begin

text \<open>
  Script numbers: the class \<^verbatim>\<open>CScriptNum\<close> of \<^verbatim>\<open>src/src/script/scriptnum.h\<close>. A number is
  read from a byte vector of bounded length (sign and magnitude, little-endian) and written
  back in its shortest form. The value \<^verbatim>\<open>m_value\<close> is an \<^verbatim>\<open>int64_t\<close>; it is modelled as an
  \<^typ>\<open>int\<close>, and the bounds proved here show that reading at most five bytes and one addition,
  subtraction or negation stay inside 64 bits. The exceptions the constructor throws and the
  assertions of the operators are values of a sum type.
\<close>

unbundle bit_operations_syntax

section \<open>Definitions\<close>

datatype scriptnum_error = ScriptNumOverflow | NonMinimal

definition int64_min :: int where
  "int64_min = - (2 ^ 63)"

definition int64_max :: int where
  "int64_max = 2 ^ 63 - 1"

text \<open>The loop of \<^verbatim>\<open>set_vch\<close>: the bytes from index \<open>i\<close> on are or-ed into \<open>result\<close>.\<close>

fun set_vch_loop :: "nat \<Rightarrow> bytes \<Rightarrow> int \<Rightarrow> int" where
  "set_vch_loop i [] result = result"
| "set_vch_loop i (b # bs) result = set_vch_loop (Suc i) bs (result OR push_bit (8 * i) (uint b))"

definition set_vch :: "bytes \<Rightarrow> int" where
  "set_vch vch =
     (if vch = [] then 0
      else let result = set_vch_loop 0 vch 0
           in if last vch AND 0x80 \<noteq> 0
              then - (result AND NOT (push_bit (8 * (length vch - 1)) 0x80))
              else result)"

definition CScriptNum :: "bytes \<Rightarrow> bool \<Rightarrow> nat \<Rightarrow> scriptnum_error + int" where
  "CScriptNum vch fRequireMinimal nMaxNumSize =
     (if length vch > nMaxNumSize then Inl ScriptNumOverflow
      else if fRequireMinimal \<and> length vch > 0 \<and> last vch AND 0x7f = 0 \<and>
              (length vch \<le> 1 \<or> vch ! (length vch - 2) AND 0x80 = 0)
      then Inl NonMinimal
      else Inr (set_vch vch))"

definition nDefaultMaxNumSize :: nat where
  "nDefaultMaxNumSize = 4"

text \<open>The loop of \<^verbatim>\<open>serialize\<close> over the absolute value.\<close>

fun serialize_abs :: "nat \<Rightarrow> bytes" where
  "serialize_abs absvalue =
     (if absvalue = 0 then [] else word_of_nat (absvalue mod 256) # serialize_abs (absvalue div 256))"

declare serialize_abs.simps [simp del]

definition serialize :: "int \<Rightarrow> bytes" where
  "serialize v =
     (if v = 0 then []
      else let neg = v < 0; result = serialize_abs (nat \<bar>v\<bar>)
           in if last result AND 0x80 \<noteq> 0 then result @ [if neg then 0x80 else 0]
              else if neg then butlast result @ [last result OR 0x80]
              else result)"

definition getint :: "int \<Rightarrow> int" where
  "getint m_value =
     (if m_value > 2147483647 then 2147483647
      else if m_value < - 2147483648 then - 2147483648
      else m_value)"

text \<open>
  The operators with assertions: \<open>None\<close> is an assertion failure. The arguments are the
  values \<^verbatim>\<open>m_value\<close> and \<^verbatim>\<open>rhs\<close>.
\<close>

definition num_add_assign :: "int \<Rightarrow> int \<Rightarrow> int option" where
  "num_add_assign m_value rhs =
     (if rhs = 0 \<or> (rhs > 0 \<and> m_value \<le> int64_max - rhs) \<or> (rhs < 0 \<and> m_value \<ge> int64_min - rhs)
      then Some (m_value + rhs) else None)"

definition num_sub_assign :: "int \<Rightarrow> int \<Rightarrow> int option" where
  "num_sub_assign m_value rhs =
     (if rhs = 0 \<or> (rhs > 0 \<and> m_value \<ge> int64_min + rhs) \<or> (rhs < 0 \<and> m_value \<le> int64_max + rhs)
      then Some (m_value - rhs) else None)"

definition num_negate :: "int \<Rightarrow> int option" where
  "num_negate m_value = (if m_value \<noteq> int64_min then Some (- m_value) else None)"

section \<open>Reading\<close>

lemma set_vch_loop_eq:
  "0 \<le> r \<Longrightarrow> r < 2 ^ (8 * i) \<Longrightarrow> set_vch_loop i bs r = r + 2 ^ (8 * i) * int (le_nat bs)"
proof (induction bs arbitrary: i r)
  case Nil
  then show ?case by simp
next
  case (Cons b bs)
  let ?p = "push_bit (8 * i) (uint b)"
  have "r AND ?p = 0"
  proof (rule bit_eqI)
    fix n
    have "\<not> bit r n" if "8 * i \<le> n"
      using Cons.prems that
      by (metis bit_take_bit_iff leD order_less_imp_le take_bit_int_eq_self)
    then show "bit (r AND ?p) n \<longleftrightarrow> bit 0 n"
      by (auto simp: bit_simps)
  qed
  then have or: "r OR ?p = r + 2 ^ (8 * i) * int (unat b)"
    by (simp add: disjunctive_add_eq_or [symmetric] push_bit_eq_mult mult.commute)
  have "int (unat b) \<le> 255"
    using unat_byte_less [of b] by linarith
  then have "2 ^ (8 * i) * int (unat b) \<le> 2 ^ (8 * i) * 255"
    by (intro mult_left_mono) simp_all
  moreover have "(2 :: int) ^ (8 * Suc i) = 256 * 2 ^ (8 * i)"
    by (simp add: power_add)
  ultimately have "r + 2 ^ (8 * i) * int (unat b) < 2 ^ (8 * Suc i)"
    using Cons.prems(2) by linarith
  with Cons.IH [of "r + 2 ^ (8 * i) * int (unat b)" "Suc i"] Cons.prems(1) or show ?case
    by (simp add: power_add algebra_simps)
qed

text \<open>
  The magnitude of a non-empty vector \<open>init @ [b]\<close>: its little-endian value with the top bit
  of the last byte cleared. That bit is the sign.
\<close>

definition vch_mag :: "bytes \<Rightarrow> byte \<Rightarrow> nat" where
  "vch_mag init b = le_nat init + 256 ^ length init * (unat b mod 128)"

lemma vch_mag_less: "vch_mag init b < 2 ^ (8 * length init + 7)"
proof -
  have "unat b mod 128 \<le> 127" by simp
  then have "256 ^ length init * (unat b mod 128) \<le> 256 ^ length init * (127 :: nat)"
    by (rule mult_le_mono2)
  then have "vch_mag init b < 256 ^ length init * 128"
    unfolding vch_mag_def using le_nat_less [of init] by linarith
  then show ?thesis
    by (simp add: power_add power_mult)
qed

lemma le_nat_snoc_mag:
  "le_nat (init @ [b]) = vch_mag init b + (if 128 \<le> unat b then 2 ^ (8 * length init + 7) else 0)"
proof (cases "128 \<le> unat b")
  case True
  then have ub: "unat b = 128 + unat b mod 128"
    by (simp add: byte_mod_128)
  have "256 ^ length init * unat b = 256 ^ length init * (unat b mod 128) + 256 ^ length init * 128"
    by (subst (1) ub) (simp add: distrib_left)
  with True show ?thesis
    by (simp add: le_nat_append vch_mag_def power_add power_mult)
next
  case False
  then show ?thesis by (simp add: le_nat_append vch_mag_def)
qed

lemma set_vch_snoc:
  "set_vch (init @ [b]) = (if 128 \<le> unat b then - int (vch_mag init b) else int (vch_mag init b))"
proof -
  let ?r = "int (le_nat (init @ [b]))" and ?k = "8 * length init + 7"
  have loop: "set_vch_loop 0 (init @ [b]) 0 = ?r"
    by (simp add: set_vch_loop_eq)
  show ?thesis
  proof (cases "128 \<le> unat b")
    case True
    have mask: "push_bit (8 * (length (init @ [b]) - 1)) 0x80 = push_bit ?k (1 :: int)"
      by (simp add: push_bit_eq_mult power_add)
    have r: "?r = int (vch_mag init b) + 2 ^ ?k"
      using True by (simp only: le_nat_snoc_mag) simp
    have m: "int (vch_mag init b) < 2 ^ ?k"
      using vch_mag_less [of init b] by (metis of_nat_less_iff of_nat_numeral of_nat_power)
    then have "?r div 2 ^ ?k = 1"
      unfolding r by (simp add: div_add_self2)
    then have "bit ?r ?k"
      unfolding bit_iff_odd by simp
    then have "unset_bit ?k ?r = ?r - 2 ^ ?k"
      by (simp only: unset_bit_eq) simp
    then have "?r AND NOT (push_bit ?k 1) = ?r - 2 ^ ?k"
      by (simp only: unset_bit_eq_and_not)
    then have "?r AND NOT (push_bit (8 * (length (init @ [b]) - 1)) 0x80) = int (vch_mag init b)"
      by (simp only: mask r)
    with True show ?thesis
      by (simp only: set_vch_def loop Let_def) simp
  next
    case False
    then have "?r = int (vch_mag init b)"
      by (simp only: le_nat_snoc_mag) simp
    with False show ?thesis
      by (simp only: set_vch_def loop Let_def) simp
  qed
qed

lemma set_vch_Nil [simp, num_simps]: "set_vch [] = 0"
  by (simp add: set_vch_def)

lemma set_vch_bound:
  assumes "length vch \<le> k" and "0 < k"
  shows "\<bar>set_vch vch\<bar> < 2 ^ (8 * k - 1)"
proof (cases vch rule: rev_cases)
  case Nil
  then show ?thesis by simp
next
  case (snoc init b)
  have "vch_mag init b < 2 ^ (8 * k - 1)"
    using assms snoc by (intro less_le_trans [OF vch_mag_less] power_increasing) auto
  then have "int (vch_mag init b) < 2 ^ (8 * k - 1)"
    by (metis of_nat_less_iff of_nat_numeral of_nat_power)
  then show ?thesis
    by (simp add: snoc set_vch_snoc)
qed

lemma CScriptNum_bound:
  "CScriptNum vch m k = Inr n \<Longrightarrow> 0 < k \<Longrightarrow> \<bar>n\<bar> < 2 ^ (8 * k - 1)"
  unfolding CScriptNum_def by (metis Inl_Inr_False Inr_inject leI set_vch_bound)

section \<open>Writing\<close>

lemma serialize_abs_0 [simp]: "serialize_abs 0 = []"
  by (simp add: serialize_abs.simps)

lemma serialize_abs_pos:
  "0 < n \<Longrightarrow> serialize_abs n = word_of_nat (n mod 256) # serialize_abs (n div 256)"
  by (subst serialize_abs.simps) simp

lemma serialize_abs_Nil_iff [simp]: "serialize_abs n = [] \<longleftrightarrow> n = 0"
  by (cases "n = 0") (simp_all add: serialize_abs_pos)

lemma le_nat_serialize_abs [simp]: "le_nat (serialize_abs n) = n"
proof (induction n rule: serialize_abs.induct)
  case (1 n)
  then show ?case by (cases "n = 0") (simp_all add: serialize_abs_pos)
qed

lemma last_serialize_abs: "0 < n \<Longrightarrow> last (serialize_abs n) \<noteq> 0"
proof (induction n rule: serialize_abs.induct)
  case (1 n)
  show ?case
  proof (cases "n div 256 = 0")
    case True
    then have "n < 256" by auto
    with "1.prems" show ?thesis
      by (auto simp: serialize_abs_pos dest: arg_cong [where f = unat])
  next
    case False
    with 1 show ?thesis by (simp add: serialize_abs_pos)
  qed
qed

lemma serialize_abs_le_nat: "bs = [] \<or> last bs \<noteq> 0 \<Longrightarrow> serialize_abs (le_nat bs) = bs"
proof (induction bs)
  case Nil
  then show ?case by simp
next
  case (Cons b bs)
  have "le_nat (b # bs) \<noteq> 0"
    using Cons.prems last_in_set [of "b # bs"] le_nat_pos_iff [of "b # bs"] by blast
  moreover have "bs = [] \<or> last bs \<noteq> 0"
    using Cons.prems by auto
  ultimately show ?case
    using Cons.IH by (simp add: serialize_abs_pos)
qed

text \<open>
  The shape of a serialised number: the last byte carries the sign, and the vector is minimal
  in the sense of the constructor's test.
\<close>

definition minimal_vch :: "bytes \<Rightarrow> bool" where
  "minimal_vch vch \<longleftrightarrow>
     vch = [] \<or> unat (last vch) mod 128 \<noteq> 0 \<or> (1 < length vch \<and> 128 \<le> unat (vch ! (length vch - 2)))"

lemma minimal_vch_snoc:
  "minimal_vch (init @ [b]) \<longleftrightarrow> unat b mod 128 \<noteq> 0 \<or> (init \<noteq> [] \<and> 128 \<le> unat (last init))"
  by (cases init rule: rev_cases) (auto simp: minimal_vch_def nth_append)

lemma byte_and_7f_0_iff: "(b :: byte) AND 0x7f = 0 \<longleftrightarrow> unat b mod 128 = 0"
  by (metis byte_and_7f unat_eq_0)

lemma CScriptNum_eq:
  "CScriptNum vch fRequireMinimal nMaxNumSize =
     (if length vch > nMaxNumSize then Inl ScriptNumOverflow
      else if fRequireMinimal \<and> \<not> minimal_vch vch then Inl NonMinimal
      else Inr (set_vch vch))"
  by (auto simp: CScriptNum_def minimal_vch_def byte_and_7f_0_iff)

lemma serialize_0 [simp, num_simps]: "serialize 0 = []"
  by (simp add: serialize_def)

text \<open>
  Serialising a non-zero number, seen from the vector: the magnitude's own bytes when their
  top bit is free for the sign, one more byte otherwise.
\<close>

lemma serialize_cases:
  assumes "v \<noteq> 0"
  obtains
    (sign_in_last) init b where "serialize_abs (nat \<bar>v\<bar>) = init @ [b]" "b \<noteq> 0" "unat b < 128"
      "serialize v = init @ [if v < 0 then b OR 0x80 else b]"
  | (sign_appended) init where "serialize_abs (nat \<bar>v\<bar>) = init" "init \<noteq> []" "128 \<le> unat (last init)"
      "serialize v = init @ [if v < 0 then 0x80 else 0]"
proof -
  let ?a = "serialize_abs (nat \<bar>v\<bar>)"
  have ne: "?a \<noteq> []" and l: "last ?a \<noteq> 0"
    using assms last_serialize_abs [of "nat \<bar>v\<bar>"] by auto
  then have a: "?a = butlast ?a @ [last ?a]" by simp
  show ?thesis
  proof (cases "unat (last ?a) < 128")
    case True
    with assms have "serialize v = butlast ?a @ [if v < 0 then last ?a OR 0x80 else last ?a]"
      using a by (simp add: serialize_def Let_def)
    with a l True show ?thesis by (rule sign_in_last)
  next
    case False
    with assms ne show ?thesis
      by (intro sign_appended [of ?a]) (simp_all add: serialize_def Let_def)
  qed
qed

lemma set_vch_serialize [num_simps]: "set_vch (serialize v) = v"
proof (cases "v = 0")
  case False
  then show ?thesis
  proof (cases v rule: serialize_cases)
    case (sign_in_last init b)
    have "le_nat (init @ [b]) = nat \<bar>v\<bar>"
      using sign_in_last(1) le_nat_serialize_abs [of "nat \<bar>v\<bar>"] by simp
    then have "vch_mag init b = nat \<bar>v\<bar>"
      using sign_in_last(3) by (simp add: vch_mag_def le_nat_append)
    moreover have "vch_mag init (b OR 0x80) = vch_mag init b"
      using sign_in_last(3) by (simp add: vch_mag_def)
    ultimately show ?thesis
      using sign_in_last by (simp add: set_vch_snoc)
  next
    case (sign_appended init)
    have "vch_mag init c = nat \<bar>v\<bar>" if "unat c mod 128 = 0" for c
      using sign_appended(1) that le_nat_serialize_abs [of "nat \<bar>v\<bar>"] by (simp add: vch_mag_def)
    then show ?thesis
      using sign_appended(4) by (simp add: set_vch_snoc)
  qed
qed simp

lemma minimal_serialize: "minimal_vch (serialize v)"
proof (cases "v = 0")
  case False
  then show ?thesis
  proof (cases v rule: serialize_cases)
    case (sign_in_last init b)
    then have "unat b mod 128 \<noteq> 0"
      using unat_gt_0 [of b] by simp
    with sign_in_last show ?thesis
      by (simp add: minimal_vch_snoc)
  next
    case (sign_appended init)
    then show ?thesis by (simp add: minimal_vch_snoc)
  qed
qed (simp add: minimal_vch_def)

lemma length_serialize:
  assumes "\<bar>v\<bar> < 2 ^ (8 * k - 1)" and "0 < k"
  shows "length (serialize v) \<le> k"
proof (cases "v = 0")
  case False
  have len: "length bs \<le> j" if "le_nat bs < 256 ^ j" "last bs \<noteq> 0" "bs \<noteq> []" for bs j
  proof (rule ccontr)
    assume "\<not> length bs \<le> j"
    then have "256 ^ j \<le> (256 :: nat) ^ (length bs - 1)"
      by (intro power_increasing) auto
    also have "\<dots> \<le> le_nat (butlast bs @ [last bs])"
    proof -
      have "1 \<le> unat (last bs)"
        using that(2) by (simp add: unat_gt_0 Suc_leI)
      then have "256 ^ (length bs - 1) * 1 \<le> (256 :: nat) ^ (length bs - 1) * unat (last bs)"
        by (rule mult_le_mono2)
      then show ?thesis
        by (simp only: le_nat_append le_nat.simps length_butlast mult_0_right add_0_right mult_1_right trans_le_add2)
    qed
    finally show False using that by simp
  qed
  have v: "nat \<bar>v\<bar> < 2 ^ (8 * k - 1)"
    using assms(1) by (metis nat_less_iff abs_ge_zero of_nat_numeral of_nat_power)
  also have "2 ^ (8 * k - 1) \<le> (256 :: nat) ^ k"
  proof -
    have "(2 :: nat) ^ (8 * k - 1) \<le> 2 ^ (8 * k)" by (intro power_increasing) auto
    then show ?thesis by (simp add: power_mult)
  qed
  finally have vk: "nat \<bar>v\<bar> < 256 ^ k" .
  from False show ?thesis
  proof (cases v rule: serialize_cases)
    case (sign_in_last init b)
    then have "le_nat (init @ [b]) < 256 ^ k"
      using vk le_nat_serialize_abs [of "nat \<bar>v\<bar>"] by simp
    from len [OF this] sign_in_last show ?thesis by simp
  next
    case (sign_appended init)
    have "length init < k"
    proof (rule ccontr)
      assume "\<not> length init < k"
      then have "2 ^ (8 * k - 1) \<le> (2 :: nat) ^ (8 * (length init - 1) + 7)"
        using assms(2) sign_appended(2) by (intro power_increasing) (auto simp: Suc_le_eq)
      also have "\<dots> = 256 ^ (length init - 1) * 128"
        by (simp add: power_add power_mult)
      also have "\<dots> \<le> le_nat (butlast init @ [last init])"
        using mult_le_mono2 [OF sign_appended(3), of "256 ^ (length init - 1)"]
        by (simp only: le_nat_append le_nat.simps length_butlast mult_0_right add_0_right trans_le_add2)
      also have "\<dots> = nat \<bar>v\<bar>"
        using sign_appended(2) by (simp add: sign_appended(1) [symmetric])
      finally show False using v by simp
    qed
    with sign_appended(4) show ?thesis by simp
  qed
qed simp

lemma serialize_set_vch:
  assumes "minimal_vch vch"
  shows "serialize (set_vch vch) = vch"
proof (cases vch rule: rev_cases)
  case (snoc init b)
  define n where "n = set_vch vch"
  have mag: "nat \<bar>n\<bar> = vch_mag init b"
    by (simp add: n_def snoc set_vch_snoc)
  have minimal: "unat b mod 128 \<noteq> 0 \<or> (init \<noteq> [] \<and> 128 \<le> unat (last init))"
    using assms by (simp add: snoc minimal_vch_snoc)
  have "vch_mag init b \<noteq> 0"
  proof (cases "unat b mod 128 = 0")
    case True
    with minimal have "last init \<in> set init" "last init \<noteq> 0" by auto
    then show ?thesis
      using le_nat_pos_iff [of init] True by (auto simp: vch_mag_def)
  qed (simp add: vch_mag_def)
  then have n0: "n \<noteq> 0" and neg: "n < 0 \<longleftrightarrow> 128 \<le> unat b"
    using mag by (auto simp: n_def snoc set_vch_snoc)
  show ?thesis
  proof (cases "unat b mod 128 = 0")
    case True
    with minimal have i: "init \<noteq> []" "128 \<le> unat (last init)" by auto
    then have "last init \<noteq> 0" by auto
    then have "serialize_abs (nat \<bar>n\<bar>) = init"
      using True by (simp add: mag vch_mag_def serialize_abs_le_nat)
    then have "serialize n = init @ [if n < 0 then 0x80 else 0]"
      using n0 i by (simp add: serialize_def Let_def)
    moreover have "b = (if n < 0 then 0x80 else 0)"
      using True neg byte_mod_128 [of b] by (auto simp: word_unat_eq_iff split: if_splits)
    ultimately have "serialize n = vch" by (simp only: snoc)
    then show ?thesis by (simp only: n_def)
  next
    case False
    define c :: byte where "c = word_of_nat (unat b mod 128)"
    have c: "unat c = unat b mod 128" by (simp add: c_def)
    with False have "c \<noteq> 0" by auto
    then have "serialize_abs (le_nat (init @ [c])) = init @ [c]"
      by (intro serialize_abs_le_nat) simp
    moreover have "le_nat (init @ [c]) = nat \<bar>n\<bar>"
      by (simp add: mag vch_mag_def c le_nat_append)
    ultimately have "serialize n = init @ [if n < 0 then c OR 0x80 else c]"
      using n0 c by (simp add: serialize_def Let_def)
    moreover have "b = (if n < 0 then c OR 0x80 else c)"
    proof (cases "128 \<le> unat b")
      case True
      then have "unat c = unat b - 128" and "unat c < 128"
        using c byte_mod_128 [of b] by simp_all
      with True have "unat (c OR 0x80) = unat b" by simp
      with True neg show ?thesis by (simp only: word_unat_eq_iff if_True)
    next
      case False
      then have "unat c = unat b" using c byte_mod_128 [of b] by simp
      with False neg show ?thesis by (simp only: word_unat_eq_iff if_False)
    qed
    ultimately have "serialize n = vch" by (simp only: snoc)
    then show ?thesis by (simp only: n_def)
  qed
qed (simp add: minimal_vch_def)

section \<open>Properties\<close>

text \<open>
  Round trip of script numbers: a number whose magnitude fits in \<open>k\<close> bytes less the sign
  bit is written by \<^verbatim>\<open>serialize\<close> (which \<^verbatim>\<open>getvch\<close> calls) in at most \<open>k\<close> bytes, and
  the constructor, with or without the minimality rule, reads the same number back.
\<close>

theorem CScriptNum_serialize:
  assumes "0 < k" and "\<bar>v\<bar> < 2 ^ (8 * k - 1)"
  shows "CScriptNum (serialize v) fRequireMinimal k = Inr v"
  using assms length_serialize [of v k] by (simp add: CScriptNum_eq minimal_serialize set_vch_serialize)

theorem CScriptNum_serialize_witness:
  "CScriptNum (serialize (- 255)) True 4 = Inr (- 255) \<and> serialize (- 255) = [0xff, 0x80]"
proof -
  have "CScriptNum (serialize (- 255)) True 4 = Inr (- 255)"
    by (rule CScriptNum_serialize) simp_all
  moreover have "serialize (- 255) = [0xff, 0x80]"
    by (simp add: serialize_def serialize_abs.simps Let_def)
  ultimately show ?thesis by simp
qed

text \<open>
  The minimal encoding is unique: whenever the constructor accepts a vector under
  \<^verbatim>\<open>fRequireMinimal\<close>, that vector is exactly what \<^verbatim>\<open>serialize\<close> writes for the number read, so no
  two different vectors are accepted for the same number; and the number fits its byte limit.
\<close>

theorem CScriptNum_minimal_unique:
  assumes "CScriptNum vch True k = Inr n" and "0 < k"
  shows "vch = serialize n \<and> \<bar>n\<bar> < 2 ^ (8 * k - 1)"
  using assms CScriptNum_bound [OF assms] serialize_set_vch [of vch]
  by (auto simp: CScriptNum_eq split: if_splits)

theorem CScriptNum_minimal_unique_witness:
  "[0x34, 0x12] = serialize 0x1234 \<and> \<bar>0x1234 :: int\<bar> < 2 ^ (8 * 4 - 1)"
proof (rule CScriptNum_minimal_unique)
  show "CScriptNum [0x34, 0x12] True 4 = Inr 0x1234"
    by (simp add: CScriptNum_def set_vch_def)
qed simp

text \<open>
  No assertion fires and no 64-bit overflow happens in the numeric opcodes: operands read
  with a limit of four (or, for the lock-time opcodes, five) bytes can be added, subtracted and
  negated, the checked operators return the exact result, and the results stay in the range of
  \<^verbatim>\<open>int64_t\<close>, so the 64-bit arithmetic of the code is the exact one of the model.
\<close>

theorem CScriptNum_arith_in_range:
  assumes "CScriptNum vch1 m1 k1 = Inr a" and "CScriptNum vch2 m2 k2 = Inr b"
    and "0 < k1" and "k1 \<le> 5" and "0 < k2" and "k2 \<le> 5"
  shows "num_add_assign a b = Some (a + b) \<and> num_sub_assign a b = Some (a - b) \<and>
    num_negate a = Some (- a) \<and> {a + b, a - b, - a} \<subseteq> {int64_min..int64_max}"
proof -
  have bound: "\<bar>n\<bar> < 2 ^ 39" if "CScriptNum v m k = Inr n" "0 < k" "k \<le> 5" for v m k n
  proof -
    have "\<bar>n\<bar> < 2 ^ (8 * k - 1)" using that by (intro CScriptNum_bound)
    also have "(2 :: int) ^ (8 * k - 1) \<le> 2 ^ 39"
      using that by (intro power_increasing) auto
    finally show ?thesis .
  qed
  have "\<bar>a\<bar> < 2 ^ 39" and "\<bar>b\<bar> < 2 ^ 39"
    by (rule bound [OF assms(1,3,4)], rule bound [OF assms(2,5,6)])
  then show ?thesis
    by (auto simp: num_add_assign_def num_sub_assign_def num_negate_def int64_min_def int64_max_def)
qed

theorem CScriptNum_arith_in_range_witness:
  "num_add_assign 0x7fffffff 0x7fffffff = Some 0xfffffffe"
proof -
  have "CScriptNum [0xff, 0xff, 0xff, 0x7f] True 4 = Inr 0x7fffffff"
    by (simp add: CScriptNum_def set_vch_def)
  from CScriptNum_arith_in_range [OF this this] show ?thesis by simp
qed

end
