(* ===== verification/Script_Ops.thy ===== *)
theory Script_Ops
  imports Script_Num
begin

text \<open>
  Opcodes and serialised scripts: the enumeration \<^verbatim>\<open>opcodetype\<close>, the reader
  \<^verbatim>\<open>CScript::GetScriptOp\<close>, the writers \<^verbatim>\<open>CScript::operator<<\<close> and the queries on a script
  that walk it opcode by opcode (\<^verbatim>\<open>GetSigOpCount\<close>, \<^verbatim>\<open>IsPushOnly\<close>, \<^verbatim>\<open>HasCanonicalPushes\<close>,
  \<^verbatim>\<open>HasValidOps\<close>, \<^verbatim>\<open>FindAndDelete\<close>, \<^verbatim>\<open>Find\<close>), from \<^verbatim>\<open>src/src/script/script.h\<close> and
  \<^verbatim>\<open>src/src/script/script.cpp\<close>.

  A script is its byte vector and an iterator is the list of the bytes from it to the end. An
  opcode is the value of its byte, since the code compares opcodes numerically and meets bytes
  the enumeration does not name. A reader that fails returns \<open>Inl\<close> with the iterator where it
  stopped (\<^verbatim>\<open>opcodeRet\<close> is \<^verbatim>\<open>OP_INVALIDOPCODE\<close> and the data empty then). A failed assertion is \<open>None\<close>.
\<close>

section \<open>Opcodes\<close>

type_synonym opcodetype = nat

abbreviation (input) OP_0 :: opcodetype where "OP_0 \<equiv> 0x00"
abbreviation (input) OP_FALSE :: opcodetype where "OP_FALSE \<equiv> OP_0"
abbreviation (input) OP_PUSHDATA1 :: opcodetype where "OP_PUSHDATA1 \<equiv> 0x4c"
abbreviation (input) OP_PUSHDATA2 :: opcodetype where "OP_PUSHDATA2 \<equiv> 0x4d"
abbreviation (input) OP_PUSHDATA4 :: opcodetype where "OP_PUSHDATA4 \<equiv> 0x4e"
abbreviation (input) OP_1NEGATE :: opcodetype where "OP_1NEGATE \<equiv> 0x4f"
abbreviation (input) OP_RESERVED :: opcodetype where "OP_RESERVED \<equiv> 0x50"
abbreviation (input) OP_1 :: opcodetype where "OP_1 \<equiv> 0x51"
abbreviation (input) OP_TRUE :: opcodetype where "OP_TRUE \<equiv> OP_1"
abbreviation (input) OP_2 :: opcodetype where "OP_2 \<equiv> 0x52"
abbreviation (input) OP_3 :: opcodetype where "OP_3 \<equiv> 0x53"
abbreviation (input) OP_4 :: opcodetype where "OP_4 \<equiv> 0x54"
abbreviation (input) OP_5 :: opcodetype where "OP_5 \<equiv> 0x55"
abbreviation (input) OP_6 :: opcodetype where "OP_6 \<equiv> 0x56"
abbreviation (input) OP_7 :: opcodetype where "OP_7 \<equiv> 0x57"
abbreviation (input) OP_8 :: opcodetype where "OP_8 \<equiv> 0x58"
abbreviation (input) OP_9 :: opcodetype where "OP_9 \<equiv> 0x59"
abbreviation (input) OP_10 :: opcodetype where "OP_10 \<equiv> 0x5a"
abbreviation (input) OP_11 :: opcodetype where "OP_11 \<equiv> 0x5b"
abbreviation (input) OP_12 :: opcodetype where "OP_12 \<equiv> 0x5c"
abbreviation (input) OP_13 :: opcodetype where "OP_13 \<equiv> 0x5d"
abbreviation (input) OP_14 :: opcodetype where "OP_14 \<equiv> 0x5e"
abbreviation (input) OP_15 :: opcodetype where "OP_15 \<equiv> 0x5f"
abbreviation (input) OP_16 :: opcodetype where "OP_16 \<equiv> 0x60"
abbreviation (input) OP_NOP :: opcodetype where "OP_NOP \<equiv> 0x61"
abbreviation (input) OP_VER :: opcodetype where "OP_VER \<equiv> 0x62"
abbreviation (input) OP_IF :: opcodetype where "OP_IF \<equiv> 0x63"
abbreviation (input) OP_NOTIF :: opcodetype where "OP_NOTIF \<equiv> 0x64"
abbreviation (input) OP_VERIF :: opcodetype where "OP_VERIF \<equiv> 0x65"
abbreviation (input) OP_VERNOTIF :: opcodetype where "OP_VERNOTIF \<equiv> 0x66"
abbreviation (input) OP_ELSE :: opcodetype where "OP_ELSE \<equiv> 0x67"
abbreviation (input) OP_ENDIF :: opcodetype where "OP_ENDIF \<equiv> 0x68"
abbreviation (input) OP_VERIFY :: opcodetype where "OP_VERIFY \<equiv> 0x69"
abbreviation (input) OP_RETURN :: opcodetype where "OP_RETURN \<equiv> 0x6a"
abbreviation (input) OP_TOALTSTACK :: opcodetype where "OP_TOALTSTACK \<equiv> 0x6b"
abbreviation (input) OP_FROMALTSTACK :: opcodetype where "OP_FROMALTSTACK \<equiv> 0x6c"
abbreviation (input) OP_2DROP :: opcodetype where "OP_2DROP \<equiv> 0x6d"
abbreviation (input) OP_2DUP :: opcodetype where "OP_2DUP \<equiv> 0x6e"
abbreviation (input) OP_3DUP :: opcodetype where "OP_3DUP \<equiv> 0x6f"
abbreviation (input) OP_2OVER :: opcodetype where "OP_2OVER \<equiv> 0x70"
abbreviation (input) OP_2ROT :: opcodetype where "OP_2ROT \<equiv> 0x71"
abbreviation (input) OP_2SWAP :: opcodetype where "OP_2SWAP \<equiv> 0x72"
abbreviation (input) OP_IFDUP :: opcodetype where "OP_IFDUP \<equiv> 0x73"
abbreviation (input) OP_DEPTH :: opcodetype where "OP_DEPTH \<equiv> 0x74"
abbreviation (input) OP_DROP :: opcodetype where "OP_DROP \<equiv> 0x75"
abbreviation (input) OP_DUP :: opcodetype where "OP_DUP \<equiv> 0x76"
abbreviation (input) OP_NIP :: opcodetype where "OP_NIP \<equiv> 0x77"
abbreviation (input) OP_OVER :: opcodetype where "OP_OVER \<equiv> 0x78"
abbreviation (input) OP_PICK :: opcodetype where "OP_PICK \<equiv> 0x79"
abbreviation (input) OP_ROLL :: opcodetype where "OP_ROLL \<equiv> 0x7a"
abbreviation (input) OP_ROT :: opcodetype where "OP_ROT \<equiv> 0x7b"
abbreviation (input) OP_SWAP :: opcodetype where "OP_SWAP \<equiv> 0x7c"
abbreviation (input) OP_TUCK :: opcodetype where "OP_TUCK \<equiv> 0x7d"
abbreviation (input) OP_CAT :: opcodetype where "OP_CAT \<equiv> 0x7e"
abbreviation (input) OP_SUBSTR :: opcodetype where "OP_SUBSTR \<equiv> 0x7f"
abbreviation (input) OP_LEFT :: opcodetype where "OP_LEFT \<equiv> 0x80"
abbreviation (input) OP_RIGHT :: opcodetype where "OP_RIGHT \<equiv> 0x81"
abbreviation (input) OP_SIZE :: opcodetype where "OP_SIZE \<equiv> 0x82"
abbreviation (input) OP_INVERT :: opcodetype where "OP_INVERT \<equiv> 0x83"
abbreviation (input) OP_AND :: opcodetype where "OP_AND \<equiv> 0x84"
abbreviation (input) OP_OR :: opcodetype where "OP_OR \<equiv> 0x85"
abbreviation (input) OP_XOR :: opcodetype where "OP_XOR \<equiv> 0x86"
abbreviation (input) OP_EQUAL :: opcodetype where "OP_EQUAL \<equiv> 0x87"
abbreviation (input) OP_EQUALVERIFY :: opcodetype where "OP_EQUALVERIFY \<equiv> 0x88"
abbreviation (input) OP_RESERVED1 :: opcodetype where "OP_RESERVED1 \<equiv> 0x89"
abbreviation (input) OP_RESERVED2 :: opcodetype where "OP_RESERVED2 \<equiv> 0x8a"
abbreviation (input) OP_1ADD :: opcodetype where "OP_1ADD \<equiv> 0x8b"
abbreviation (input) OP_1SUB :: opcodetype where "OP_1SUB \<equiv> 0x8c"
abbreviation (input) OP_2MUL :: opcodetype where "OP_2MUL \<equiv> 0x8d"
abbreviation (input) OP_2DIV :: opcodetype where "OP_2DIV \<equiv> 0x8e"
abbreviation (input) OP_NEGATE :: opcodetype where "OP_NEGATE \<equiv> 0x8f"
abbreviation (input) OP_ABS :: opcodetype where "OP_ABS \<equiv> 0x90"
abbreviation (input) OP_NOT :: opcodetype where "OP_NOT \<equiv> 0x91"
abbreviation (input) OP_0NOTEQUAL :: opcodetype where "OP_0NOTEQUAL \<equiv> 0x92"
abbreviation (input) OP_ADD :: opcodetype where "OP_ADD \<equiv> 0x93"
abbreviation (input) OP_SUB :: opcodetype where "OP_SUB \<equiv> 0x94"
abbreviation (input) OP_MUL :: opcodetype where "OP_MUL \<equiv> 0x95"
abbreviation (input) OP_DIV :: opcodetype where "OP_DIV \<equiv> 0x96"
abbreviation (input) OP_MOD :: opcodetype where "OP_MOD \<equiv> 0x97"
abbreviation (input) OP_LSHIFT :: opcodetype where "OP_LSHIFT \<equiv> 0x98"
abbreviation (input) OP_RSHIFT :: opcodetype where "OP_RSHIFT \<equiv> 0x99"
abbreviation (input) OP_BOOLAND :: opcodetype where "OP_BOOLAND \<equiv> 0x9a"
abbreviation (input) OP_BOOLOR :: opcodetype where "OP_BOOLOR \<equiv> 0x9b"
abbreviation (input) OP_NUMEQUAL :: opcodetype where "OP_NUMEQUAL \<equiv> 0x9c"
abbreviation (input) OP_NUMEQUALVERIFY :: opcodetype where "OP_NUMEQUALVERIFY \<equiv> 0x9d"
abbreviation (input) OP_NUMNOTEQUAL :: opcodetype where "OP_NUMNOTEQUAL \<equiv> 0x9e"
abbreviation (input) OP_LESSTHAN :: opcodetype where "OP_LESSTHAN \<equiv> 0x9f"
abbreviation (input) OP_GREATERTHAN :: opcodetype where "OP_GREATERTHAN \<equiv> 0xa0"
abbreviation (input) OP_LESSTHANOREQUAL :: opcodetype where "OP_LESSTHANOREQUAL \<equiv> 0xa1"
abbreviation (input) OP_GREATERTHANOREQUAL :: opcodetype where "OP_GREATERTHANOREQUAL \<equiv> 0xa2"
abbreviation (input) OP_MIN :: opcodetype where "OP_MIN \<equiv> 0xa3"
abbreviation (input) OP_MAX :: opcodetype where "OP_MAX \<equiv> 0xa4"
abbreviation (input) OP_WITHIN :: opcodetype where "OP_WITHIN \<equiv> 0xa5"
abbreviation (input) OP_RIPEMD160 :: opcodetype where "OP_RIPEMD160 \<equiv> 0xa6"
abbreviation (input) OP_SHA1 :: opcodetype where "OP_SHA1 \<equiv> 0xa7"
abbreviation (input) OP_SHA256 :: opcodetype where "OP_SHA256 \<equiv> 0xa8"
abbreviation (input) OP_HASH160 :: opcodetype where "OP_HASH160 \<equiv> 0xa9"
abbreviation (input) OP_HASH256 :: opcodetype where "OP_HASH256 \<equiv> 0xaa"
abbreviation (input) OP_CODESEPARATOR :: opcodetype where "OP_CODESEPARATOR \<equiv> 0xab"
abbreviation (input) OP_CHECKSIG :: opcodetype where "OP_CHECKSIG \<equiv> 0xac"
abbreviation (input) OP_CHECKSIGVERIFY :: opcodetype where "OP_CHECKSIGVERIFY \<equiv> 0xad"
abbreviation (input) OP_CHECKMULTISIG :: opcodetype where "OP_CHECKMULTISIG \<equiv> 0xae"
abbreviation (input) OP_CHECKMULTISIGVERIFY :: opcodetype where "OP_CHECKMULTISIGVERIFY \<equiv> 0xaf"
abbreviation (input) OP_NOP1 :: opcodetype where "OP_NOP1 \<equiv> 0xb0"
abbreviation (input) OP_CHECKLOCKTIMEVERIFY :: opcodetype where "OP_CHECKLOCKTIMEVERIFY \<equiv> 0xb1"
abbreviation (input) OP_NOP2 :: opcodetype where "OP_NOP2 \<equiv> OP_CHECKLOCKTIMEVERIFY"
abbreviation (input) OP_CHECKSEQUENCEVERIFY :: opcodetype where "OP_CHECKSEQUENCEVERIFY \<equiv> 0xb2"
abbreviation (input) OP_NOP3 :: opcodetype where "OP_NOP3 \<equiv> OP_CHECKSEQUENCEVERIFY"
abbreviation (input) OP_NOP4 :: opcodetype where "OP_NOP4 \<equiv> 0xb3"
abbreviation (input) OP_NOP5 :: opcodetype where "OP_NOP5 \<equiv> 0xb4"
abbreviation (input) OP_NOP6 :: opcodetype where "OP_NOP6 \<equiv> 0xb5"
abbreviation (input) OP_NOP7 :: opcodetype where "OP_NOP7 \<equiv> 0xb6"
abbreviation (input) OP_NOP8 :: opcodetype where "OP_NOP8 \<equiv> 0xb7"
abbreviation (input) OP_NOP9 :: opcodetype where "OP_NOP9 \<equiv> 0xb8"
abbreviation (input) OP_NOP10 :: opcodetype where "OP_NOP10 \<equiv> 0xb9"
abbreviation (input) OP_SMALLDATA :: opcodetype where "OP_SMALLDATA \<equiv> 0xf9"
abbreviation (input) OP_SMALLINTEGER :: opcodetype where "OP_SMALLINTEGER \<equiv> 0xfa"
abbreviation (input) OP_PUBKEYS :: opcodetype where "OP_PUBKEYS \<equiv> 0xfb"
abbreviation (input) OP_INTEGER :: opcodetype where "OP_INTEGER \<equiv> 0xfc"
abbreviation (input) OP_PUBKEYHASH :: opcodetype where "OP_PUBKEYHASH \<equiv> 0xfd"
abbreviation (input) OP_PUBKEY :: opcodetype where "OP_PUBKEY \<equiv> 0xfe"
abbreviation (input) OP_INVALIDOPCODE :: opcodetype where "OP_INVALIDOPCODE \<equiv> 0xff"

abbreviation (input) MAX_OPCODE :: opcodetype where "MAX_OPCODE \<equiv> OP_PUBKEY"

text \<open>Limits of \<^verbatim>\<open>Script_const\<close>.\<close>

abbreviation (input) MAX_SCRIPT_ELEMENT_SIZE :: nat where "MAX_SCRIPT_ELEMENT_SIZE \<equiv> 520"
abbreviation (input) MAX_OPS_PER_SCRIPT :: nat where "MAX_OPS_PER_SCRIPT \<equiv> 201"
abbreviation (input) MAX_PUBKEYS_PER_MULTISIG :: nat where "MAX_PUBKEYS_PER_MULTISIG \<equiv> 20"
abbreviation (input) MAX_SCRIPT_SIZE :: nat where "MAX_SCRIPT_SIZE \<equiv> 10000"
abbreviation (input) MAX_STACK_SIZE :: nat where "MAX_STACK_SIZE \<equiv> 1000"

section \<open>Reading one opcode\<close>

definition ReadLE16 :: "bytes \<Rightarrow> nat" where
  "ReadLE16 ptr = le_nat (take 2 ptr)"

definition ReadLE32 :: "bytes \<Rightarrow> nat" where
  "ReadLE32 ptr = le_nat (take 4 ptr)"

text \<open>The operand size that follows a push opcode, and the iterator after it.\<close>

definition push_size :: "opcodetype \<Rightarrow> bytes \<Rightarrow> bytes + (nat \<times> bytes)" where
  "push_size opcode pc =
     (if opcode < OP_PUSHDATA1 then Inr (opcode, pc)
      else if opcode = OP_PUSHDATA1
      then (case pc of [] \<Rightarrow> Inl pc | n # pc' \<Rightarrow> Inr (unat n, pc'))
      else if opcode = OP_PUSHDATA2
      then (if length pc < 2 then Inl pc else Inr (ReadLE16 pc, drop 2 pc))
      else (if length pc < 4 then Inl pc else Inr (ReadLE32 pc, drop 4 pc)))"

definition GetScriptOp :: "bytes \<Rightarrow> bytes + (opcodetype \<times> bytes \<times> bytes)" where
  "GetScriptOp pc =
     (case pc of
        [] \<Rightarrow> Inl []
      | b # pc1 \<Rightarrow>
          (let opcode = unat b in
           if opcode \<le> OP_PUSHDATA4
           then (case push_size opcode pc1 of
                   Inl pc2 \<Rightarrow> Inl pc2
                 | Inr (nSize, pc2) \<Rightarrow>
                     if length pc2 < nSize then Inl pc2
                     else Inr (opcode, take nSize pc2, drop nSize pc2))
           else Inr (opcode, [], pc1)))"

section \<open>Writing\<close>

text \<open>The range check of \<^verbatim>\<open>operator<<\<close> cannot fail on an opcode: every enumerator is at most \<open>0xff\<close>.\<close>

definition push_opcode :: "opcodetype \<Rightarrow> bytes" where
  "push_opcode opcode = [word_of_nat opcode]"

definition push_vector :: "bytes \<Rightarrow> bytes" where
  "push_vector b =
     (if length b < OP_PUSHDATA1 then [word_of_nat (length b)]
      else if length b \<le> 0xff then [word_of_nat OP_PUSHDATA1, word_of_nat (length b)]
      else if length b \<le> 0xffff then word_of_nat OP_PUSHDATA2 # le_bytes 2 (length b)
      else word_of_nat OP_PUSHDATA4 # le_bytes 4 (length b)) @ b"

definition push_int64 :: "int \<Rightarrow> bytes" where
  "push_int64 n =
     (if n = - 1 \<or> (1 \<le> n \<and> n \<le> 16) then [word_of_int (n mod 256 + int (OP_1 - 1))]
      else if n = 0 then [word_of_nat OP_0]
      else push_vector (serialize n))"

text \<open>
  \<^verbatim>\<open>CScriptNum::serialize\<close> takes an \<^verbatim>\<open>int64_t\<close>: the unsigned argument is converted to a signed one.
\<close>

definition push_uint64 :: "64 word \<Rightarrow> bytes" where
  "push_uint64 n =
     (if 1 \<le> unat n \<and> unat n \<le> 16 then [word_of_nat (unat n + (OP_1 - 1))]
      else if unat n = 0 then [word_of_nat OP_0]
      else push_vector (serialize (sint n)))"

text \<open>Hashes are pushed as their length and their memory, \<open>k\<close> bytes little-endian.\<close>

definition push_uint160 :: "uint160 \<Rightarrow> bytes" where
  "push_uint160 b = word_of_nat 20 # le_bytes 20 (unat b)"

definition push_uint256 :: "uint256 \<Rightarrow> bytes" where
  "push_uint256 b = word_of_nat 32 # le_bytes 32 (unat b)"

definition DecodeOP_N :: "opcodetype \<Rightarrow> nat option" where
  "DecodeOP_N opcode =
     (if opcode = OP_0 then Some 0
      else if opcode \<ge> OP_1 \<and> opcode \<le> OP_16 then Some (opcode - (OP_1 - 1))
      else None)"

definition EncodeOP_N :: "int \<Rightarrow> opcodetype option" where
  "EncodeOP_N n =
     (if \<not> (n \<ge> 0 \<and> n \<le> 16) then None
      else if n = 0 then Some OP_0
      else Some (OP_1 + nat n - 1))"

section \<open>The reader consumes a prefix\<close>

lemma push_size_append:
  "push_size opcode pc = Inr (n, pc') \<Longrightarrow> push_size opcode (pc @ rest) = Inr (n, pc' @ rest)"
  by (auto simp: push_size_def ReadLE16_def ReadLE32_def split: if_splits list.splits)

lemma push_size_split:
  assumes "push_size opcode pc = Inr (n, pc')"
  obtains pre where "pc = pre @ pc'" "push_size opcode pre = Inr (n, [])"
proof -
  have "pc = take (length pc - length pc') pc @ pc' \<and>
      push_size opcode (take (length pc - length pc') pc) = Inr (n, [])"
    using assms
    by (auto simp: push_size_def ReadLE16_def ReadLE32_def min_def split: if_splits list.splits)
  then show ?thesis using that by blast
qed

lemma GetScriptOp_Nil [simp, op_simps]: "GetScriptOp [] = Inl []"
  by (simp add: GetScriptOp_def)

lemma GetScriptOp_append:
  assumes "GetScriptOp pc = Inr (opcode, data, pc')"
  shows "GetScriptOp (pc @ rest) = Inr (opcode, data, pc' @ rest)"
proof -
  obtain b pc1 where pc: "pc = b # pc1"
    using assms by (cases pc) auto
  show ?thesis
  proof (cases "unat b \<le> OP_PUSHDATA4")
    case True
    with assms obtain n pc2 where "push_size (unat b) pc1 = Inr (n, pc2)" "n \<le> length pc2"
      by (auto simp: pc GetScriptOp_def Let_def split: sum.splits if_splits)
    with assms True show ?thesis
      by (auto simp: pc GetScriptOp_def push_size_append)
  next
    case False
    with assms show ?thesis by (auto simp: pc GetScriptOp_def)
  qed
qed

lemma GetScriptOp_split:
  assumes "GetScriptOp pc = Inr (opcode, data, pc')"
  obtains c where "pc = c @ pc'" "c \<noteq> []" "GetScriptOp c = Inr (opcode, data, [])"
proof -
  obtain b pc1 where pc: "pc = b # pc1"
    using assms by (cases pc) auto
  show ?thesis
  proof (cases "unat b \<le> OP_PUSHDATA4")
    case True
    with assms obtain n pc2 where ps: "push_size (unat b) pc1 = Inr (n, pc2)" "n \<le> length pc2"
      and r: "opcode = unat b" "data = take n pc2" "pc' = drop n pc2"
      by (auto simp: pc GetScriptOp_def Let_def split: sum.splits if_splits)
    from ps(1) obtain pre where pre: "pc1 = pre @ pc2" "push_size (unat b) pre = Inr (n, [])"
      by (rule push_size_split)
    show ?thesis
    proof (rule that [of "b # pre @ data"])
      show "pc = (b # pre @ data) @ pc'" by (simp add: pc pre(1) r)
      show "GetScriptOp (b # pre @ data) = Inr (opcode, data, [])"
        using True ps(2) push_size_append [OF pre(2), of data]
        by (simp add: GetScriptOp_def r)
    qed simp
  next
    case False
    with assms show ?thesis
      by (intro that [of "[b]"]) (auto simp: pc GetScriptOp_def)
  qed
qed

lemma GetScriptOp_shorter: "GetScriptOp pc = Inr (opcode, data, pc') \<Longrightarrow> length pc' < length pc"
  by (erule GetScriptOp_split) simp

lemma GetScriptOp_opcode: "GetScriptOp pc = Inr (opcode, data, pc') \<Longrightarrow> opcode \<le> 0xff"
  using unat_byte_less [of "hd pc"]
  by (auto simp: GetScriptOp_def Let_def split: list.splits sum.splits if_splits simp del: unat_byte_less)

lemma GetScriptOp_no_data:
  "GetScriptOp pc = Inr (opcode, data, pc') \<Longrightarrow> OP_PUSHDATA4 < opcode \<Longrightarrow> data = []"
  by (auto simp: GetScriptOp_def Let_def split: list.splits sum.splits if_splits)

section \<open>What the writers write\<close>

lemma GetScriptOp_push_opcode:
  assumes "OP_PUSHDATA4 < opcode" and "opcode \<le> 0xff"
  shows "GetScriptOp (push_opcode opcode @ rest) = Inr (opcode, [], rest)"
  using assms by (simp add: GetScriptOp_def push_opcode_def)

lemma GetScriptOp_push_vector:
  assumes "length b < 2 ^ 32"
  shows "GetScriptOp (push_vector b @ rest) =
    Inr (if length b < OP_PUSHDATA1 then length b
         else if length b \<le> 0xff then OP_PUSHDATA1
         else if length b \<le> 0xffff then OP_PUSHDATA2
         else OP_PUSHDATA4, b, rest)"
  using assms
  by (simp add: GetScriptOp_def push_vector_def push_size_def ReadLE16_def ReadLE32_def)

lemma push_vector_neq_Nil [simp]: "push_vector b \<noteq> []"
  by (simp add: push_vector_def)

lemma DecodeOP_N_EncodeOP_N: "EncodeOP_N n = Some opcode \<Longrightarrow> DecodeOP_N opcode = Some (nat n)"
  by (auto simp: EncodeOP_N_def DecodeOP_N_def split: if_splits)

section \<open>Walking a script\<close>

text \<open>
  The specification of every walk: the encodings of the opcodes of a script in order, and the
  bytes that do not form an opcode.
\<close>

function chunks :: "bytes \<Rightarrow> bytes list" where
  "chunks pc =
     (case GetScriptOp pc of
        Inl _ \<Rightarrow> []
      | Inr (opcode, data, pc') \<Rightarrow> take (length pc - length pc') pc # chunks pc')"
  by pat_completeness auto
termination
  by (relation "measure length") (auto dest: GetScriptOp_shorter)

function tail_chunk :: "bytes \<Rightarrow> bytes" where
  "tail_chunk pc =
     (case GetScriptOp pc of Inl _ \<Rightarrow> pc | Inr (opcode, data, pc') \<Rightarrow> tail_chunk pc')"
  by pat_completeness auto
termination
  by (relation "measure length") (auto dest: GetScriptOp_shorter)

definition op_of :: "bytes \<Rightarrow> opcodetype \<times> bytes" where
  "op_of c = (case GetScriptOp c of Inl _ \<Rightarrow> (OP_INVALIDOPCODE, []) | Inr (opcode, data, _) \<Rightarrow> (opcode, data))"

abbreviation ops :: "bytes \<Rightarrow> (opcodetype \<times> bytes) list" where
  "ops script \<equiv> map op_of (chunks script)"

declare chunks.simps [simp del] tail_chunk.simps [simp del]

definition is_chunk :: "bytes \<Rightarrow> bool" where
  "is_chunk c \<longleftrightarrow> (\<exists>opcode data. GetScriptOp c = Inr (opcode, data, []))"

lemma chunks_Nil [simp]: "chunks [] = []"
  by (simp add: chunks.simps)

lemma tail_chunk_Nil [simp]: "tail_chunk [] = []"
  by (simp add: tail_chunk.simps)

lemma chunks_Inl: "GetScriptOp pc = Inl pc' \<Longrightarrow> chunks pc = [] \<and> tail_chunk pc = pc"
  by (simp add: chunks.simps [of pc] tail_chunk.simps [of pc])

lemma chunks_Cons:
  assumes "GetScriptOp c = Inr (opcode, data, [])"
  shows "chunks (c @ pc) = c # chunks pc" and "tail_chunk (c @ pc) = tail_chunk pc"
  using GetScriptOp_append [OF assms, of pc]
  by (simp_all add: chunks.simps [of "c @ pc"] tail_chunk.simps [of "c @ pc"])

lemma op_of_chunk: "GetScriptOp c = Inr (opcode, data, []) \<Longrightarrow> op_of c = (opcode, data)"
  by (simp add: op_of_def)

text \<open>Induction over a script, one opcode at a time.\<close>

lemma script_induct [case_names stop opcode]:
  assumes "\<And>pc r. GetScriptOp pc = Inl r \<Longrightarrow> P pc"
    and "\<And>c opcode data pc. GetScriptOp c = Inr (opcode, data, []) \<Longrightarrow> c \<noteq> [] \<Longrightarrow>
      GetScriptOp (c @ pc) = Inr (opcode, data, pc) \<Longrightarrow> P pc \<Longrightarrow> P (c @ pc)"
  shows "P pc"
proof (induction pc rule: length_induct)
  case (1 pc)
  show ?case
  proof (cases "GetScriptOp pc")
    case (Inl r)
    then show ?thesis by (rule assms(1))
  next
    case (Inr p)
    then obtain opcode data pc' where g: "GetScriptOp pc = Inr (opcode, data, pc')"
      by (cases p) auto
    then obtain c where c: "pc = c @ pc'" "c \<noteq> []" "GetScriptOp c = Inr (opcode, data, [])"
      by (rule GetScriptOp_split)
    have "P pc'" using "1" GetScriptOp_shorter [OF g] by blast
    then show ?thesis
      unfolding c(1) using c g by (intro assms(2)) simp_all
  qed
qed

lemma concat_chunks: "concat (chunks script) @ tail_chunk script = script"
  by (induction script rule: script_induct) (simp_all add: chunks_Inl chunks_Cons)

lemma is_chunk_chunks: "c \<in> set (chunks script) \<Longrightarrow> is_chunk c"
  by (induction script rule: script_induct) (auto simp: chunks_Inl chunks_Cons is_chunk_def)

lemma length_chunks: "length (chunks script) + length (tail_chunk script) \<le> length script"
proof (induction script rule: script_induct)
  case (opcode c opcode data pc)
  moreover have "1 \<le> length c" using opcode by (simp add: Suc_leI)
  ultimately show ?case by (simp add: chunks_Cons)
qed (simp add: chunks_Inl)

end
