(* ===== verification/Script_Query.thy ===== *)
theory Script_Query
  imports Script_Ops
begin

text \<open>
  The functions of \<^verbatim>\<open>CScript\<close> that walk a script (\<^verbatim>\<open>src/src/script/script.cpp\<close> and
  \<^verbatim>\<open>script.h\<close>): its text, signature-operation counts, the shape tests, and the search and
  deletion of an encoded opcode. Each loop is the code's loop over \<^verbatim>\<open>GetOp\<close>; the lemmas show
  that it computes a function of the list of opcodes \<open>ops\<close> and of the unreadable rest
  \<open>tail_chunk\<close> of \<open>Script_Ops\<close>.
\<close>

unbundle bit_operations_syntax

section \<open>Names and text\<close>

definition opcode_names :: "(opcodetype \<times> string) list" where
  "opcode_names =
    [
     (OP_0, ''0''),
     (OP_PUSHDATA1, ''OP_PUSHDATA1''),
     (OP_PUSHDATA2, ''OP_PUSHDATA2''),
     (OP_PUSHDATA4, ''OP_PUSHDATA4''),
     (OP_1NEGATE, ''-1''),
     (OP_RESERVED, ''OP_RESERVED''),
     (OP_1, ''1''),
     (OP_2, ''2''),
     (OP_3, ''3''),
     (OP_4, ''4''),
     (OP_5, ''5''),
     (OP_6, ''6''),
     (OP_7, ''7''),
     (OP_8, ''8''),
     (OP_9, ''9''),
     (OP_10, ''10''),
     (OP_11, ''11''),
     (OP_12, ''12''),
     (OP_13, ''13''),
     (OP_14, ''14''),
     (OP_15, ''15''),
     (OP_16, ''16''),
     (OP_NOP, ''OP_NOP''),
     (OP_VER, ''OP_VER''),
     (OP_IF, ''OP_IF''),
     (OP_NOTIF, ''OP_NOTIF''),
     (OP_VERIF, ''OP_VERIF''),
     (OP_VERNOTIF, ''OP_VERNOTIF''),
     (OP_ELSE, ''OP_ELSE''),
     (OP_ENDIF, ''OP_ENDIF''),
     (OP_VERIFY, ''OP_VERIFY''),
     (OP_RETURN, ''OP_RETURN''),
     (OP_TOALTSTACK, ''OP_TOALTSTACK''),
     (OP_FROMALTSTACK, ''OP_FROMALTSTACK''),
     (OP_2DROP, ''OP_2DROP''),
     (OP_2DUP, ''OP_2DUP''),
     (OP_3DUP, ''OP_3DUP''),
     (OP_2OVER, ''OP_2OVER''),
     (OP_2ROT, ''OP_2ROT''),
     (OP_2SWAP, ''OP_2SWAP''),
     (OP_IFDUP, ''OP_IFDUP''),
     (OP_DEPTH, ''OP_DEPTH''),
     (OP_DROP, ''OP_DROP''),
     (OP_DUP, ''OP_DUP''),
     (OP_NIP, ''OP_NIP''),
     (OP_OVER, ''OP_OVER''),
     (OP_PICK, ''OP_PICK''),
     (OP_ROLL, ''OP_ROLL''),
     (OP_ROT, ''OP_ROT''),
     (OP_SWAP, ''OP_SWAP''),
     (OP_TUCK, ''OP_TUCK''),
     (OP_CAT, ''OP_CAT''),
     (OP_SUBSTR, ''OP_SUBSTR''),
     (OP_LEFT, ''OP_LEFT''),
     (OP_RIGHT, ''OP_RIGHT''),
     (OP_SIZE, ''OP_SIZE''),
     (OP_INVERT, ''OP_INVERT''),
     (OP_AND, ''OP_AND''),
     (OP_OR, ''OP_OR''),
     (OP_XOR, ''OP_XOR''),
     (OP_EQUAL, ''OP_EQUAL''),
     (OP_EQUALVERIFY, ''OP_EQUALVERIFY''),
     (OP_RESERVED1, ''OP_RESERVED1''),
     (OP_RESERVED2, ''OP_RESERVED2''),
     (OP_1ADD, ''OP_1ADD''),
     (OP_1SUB, ''OP_1SUB''),
     (OP_2MUL, ''OP_2MUL''),
     (OP_2DIV, ''OP_2DIV''),
     (OP_NEGATE, ''OP_NEGATE''),
     (OP_ABS, ''OP_ABS''),
     (OP_NOT, ''OP_NOT''),
     (OP_0NOTEQUAL, ''OP_0NOTEQUAL''),
     (OP_ADD, ''OP_ADD''),
     (OP_SUB, ''OP_SUB''),
     (OP_MUL, ''OP_MUL''),
     (OP_DIV, ''OP_DIV''),
     (OP_MOD, ''OP_MOD''),
     (OP_LSHIFT, ''OP_LSHIFT''),
     (OP_RSHIFT, ''OP_RSHIFT''),
     (OP_BOOLAND, ''OP_BOOLAND''),
     (OP_BOOLOR, ''OP_BOOLOR''),
     (OP_NUMEQUAL, ''OP_NUMEQUAL''),
     (OP_NUMEQUALVERIFY, ''OP_NUMEQUALVERIFY''),
     (OP_NUMNOTEQUAL, ''OP_NUMNOTEQUAL''),
     (OP_LESSTHAN, ''OP_LESSTHAN''),
     (OP_GREATERTHAN, ''OP_GREATERTHAN''),
     (OP_LESSTHANOREQUAL, ''OP_LESSTHANOREQUAL''),
     (OP_GREATERTHANOREQUAL, ''OP_GREATERTHANOREQUAL''),
     (OP_MIN, ''OP_MIN''),
     (OP_MAX, ''OP_MAX''),
     (OP_WITHIN, ''OP_WITHIN''),
     (OP_RIPEMD160, ''OP_RIPEMD160''),
     (OP_SHA1, ''OP_SHA1''),
     (OP_SHA256, ''OP_SHA256''),
     (OP_HASH160, ''OP_HASH160''),
     (OP_HASH256, ''OP_HASH256''),
     (OP_CODESEPARATOR, ''OP_CODESEPARATOR''),
     (OP_CHECKSIG, ''OP_CHECKSIG''),
     (OP_CHECKSIGVERIFY, ''OP_CHECKSIGVERIFY''),
     (OP_CHECKMULTISIG, ''OP_CHECKMULTISIG''),
     (OP_CHECKMULTISIGVERIFY, ''OP_CHECKMULTISIGVERIFY''),
     (OP_NOP1, ''OP_NOP1''),
     (OP_CHECKLOCKTIMEVERIFY, ''OP_CHECKLOCKTIMEVERIFY''),
     (OP_CHECKSEQUENCEVERIFY, ''OP_CHECKSEQUENCEVERIFY''),
     (OP_NOP4, ''OP_NOP4''),
     (OP_NOP5, ''OP_NOP5''),
     (OP_NOP6, ''OP_NOP6''),
     (OP_NOP7, ''OP_NOP7''),
     (OP_NOP8, ''OP_NOP8''),
     (OP_NOP9, ''OP_NOP9''),
     (OP_NOP10, ''OP_NOP10''),
     (OP_PUBKEYHASH, ''OP_PUBKEYHASH''),
     (OP_PUBKEY, ''OP_PUBKEY''),
     (OP_SMALLDATA, ''OP_SMALLDATA''),
     (OP_INVALIDOPCODE, ''OP_INVALIDOPCODE'')]"

definition GetOpName :: "opcodetype \<Rightarrow> string" where
  "GetOpName opcode =
     (case map_of opcode_names opcode of Some s \<Rightarrow> s | None \<Rightarrow> ''OP_UNKNOWN'')"

definition hexmap :: string where
  "hexmap = ''0123456789abcdef''"

definition HexStr :: "bytes \<Rightarrow> string" where
  "HexStr vch = concat (map (\<lambda>val. [hexmap ! unat (drop_bit 4 val), hexmap ! unat (val AND 15)]) vch)"

text \<open>
  The decimal text of \<^verbatim>\<open>tfm::format("%d", CBigNum(vch).getint32())\<close> comes from OpenSSL and is a
  parameter, \<open>dec\<close>.
\<close>

definition ValueString :: "(bytes \<Rightarrow> string) \<Rightarrow> bytes \<Rightarrow> string" where
  "ValueString dec vch = (if length vch \<le> 4 then dec vch else HexStr vch)"

function ToString_loop :: "(bytes \<Rightarrow> string) \<Rightarrow> bool \<Rightarrow> bytes \<Rightarrow> string \<Rightarrow> string" where
  "ToString_loop dec fShort pc str =
     (if pc = [] then str
      else let str = (if str = [] then str else str @ '' '') in
      case GetScriptOp pc of
        Inl _ \<Rightarrow> str @ ''[error]''
      | Inr (opcode, vch, pc') \<Rightarrow>
          ToString_loop dec fShort pc'
            (str @ (if opcode \<le> OP_PUSHDATA4
                    then (if fShort then take 10 (ValueString dec vch) else ValueString dec vch)
                    else GetOpName opcode)))"
  by pat_completeness auto
termination
  by (relation "measure (\<lambda>(_, _, pc, _). length pc)") (auto dest: GetScriptOp_shorter)

definition ToString :: "(bytes \<Rightarrow> string) \<Rightarrow> bool \<Rightarrow> bytes \<Rightarrow> string" where
  "ToString dec fShort script = ToString_loop dec fShort script []"

section \<open>Queries\<close>

text \<open>The counter is an \<^verbatim>\<open>unsigned int\<close>; the result is \<open>None\<close> when \<^verbatim>\<open>DecodeOP_N\<close> asserts.\<close>

function GetSigOpCount_loop :: "bool \<Rightarrow> bytes \<Rightarrow> opcodetype \<Rightarrow> 32 word \<Rightarrow> 32 word option" where
  "GetSigOpCount_loop fAccurate pc lastOpcode n =
     (case GetScriptOp pc of
        Inl _ \<Rightarrow> Some n
      | Inr (opcode, _, pc') \<Rightarrow>
          if opcode = OP_CHECKSIG \<or> opcode = OP_CHECKSIGVERIFY
          then GetSigOpCount_loop fAccurate pc' opcode (n + 1)
          else if opcode = OP_CHECKMULTISIG \<or> opcode = OP_CHECKMULTISIGVERIFY
          then (if fAccurate \<and> lastOpcode \<ge> OP_1 \<and> lastOpcode \<le> OP_16
                then (case DecodeOP_N lastOpcode of
                        None \<Rightarrow> None
                      | Some k \<Rightarrow> GetSigOpCount_loop fAccurate pc' opcode (n + of_nat k))
                else GetSigOpCount_loop fAccurate pc' opcode (n + of_nat MAX_PUBKEYS_PER_MULTISIG))
          else GetSigOpCount_loop fAccurate pc' opcode n)"
  by pat_completeness auto
termination
  by (relation "measure (\<lambda>(_, pc, _). length pc)") (auto dest: GetScriptOp_shorter)

definition GetSigOpCount :: "bytes \<Rightarrow> bool \<Rightarrow> 32 word option" where
  "GetSigOpCount script fAccurate = GetSigOpCount_loop fAccurate script OP_INVALIDOPCODE 0"

text \<open>\<^verbatim>\<open>script_vector::at\<close> is only reached when the size test holds.\<close>

definition IsPayToScriptHash :: "bytes \<Rightarrow> bool" where
  "IsPayToScriptHash script \<longleftrightarrow>
     length script = 23 \<and> unat (script ! 0) = OP_HASH160 \<and> unat (script ! 1) = 0x14 \<and>
     unat (script ! 22) = OP_EQUAL"

text \<open>The last item a push-only script pushes; \<open>None\<close> when the walk gives up.\<close>

function last_push :: "bytes \<Rightarrow> bytes \<Rightarrow> bytes option" where
  "last_push pc data =
     (if pc = [] then Some data
      else case GetScriptOp pc of
        Inl _ \<Rightarrow> None
      | Inr (opcode, data', pc') \<Rightarrow> if opcode > OP_16 then None else last_push pc' data')"
  by pat_completeness auto
termination
  by (relation "measure (\<lambda>(pc, _). length pc)") (auto dest: GetScriptOp_shorter)

definition GetSigOpCount_P2SH :: "bytes \<Rightarrow> bytes \<Rightarrow> 32 word option" where
  "GetSigOpCount_P2SH script scriptSig =
     (if \<not> IsPayToScriptHash script then GetSigOpCount script True
      else case last_push scriptSig [] of
        None \<Rightarrow> Some 0
      | Some data \<Rightarrow> GetSigOpCount data True)"

function IsPushOnly :: "bytes \<Rightarrow> bool" where
  "IsPushOnly pc =
     (if pc = [] then True
      else case GetScriptOp pc of
        Inl _ \<Rightarrow> False
      | Inr (opcode, _, pc') \<Rightarrow> if opcode > OP_16 then False else IsPushOnly pc')"
  by pat_completeness auto
termination
  by (relation "measure length") (auto dest: GetScriptOp_shorter)

definition canonical_push :: "opcodetype \<Rightarrow> bytes \<Rightarrow> bool" where
  "canonical_push opcode data =
     (if opcode < OP_PUSHDATA1 \<and> opcode > OP_0 \<and> (length data = 1 \<and> unat (data ! 0) \<le> 16) then False
      else if opcode = OP_PUSHDATA1 \<and> length data < OP_PUSHDATA1 then False
      else if opcode = OP_PUSHDATA2 \<and> length data \<le> 0xff then False
      else if opcode = OP_PUSHDATA4 \<and> length data \<le> 0xffff then False
      else True)"

function HasCanonicalPushes :: "bytes \<Rightarrow> bool" where
  "HasCanonicalPushes pc =
     (if pc = [] then True
      else case GetScriptOp pc of
        Inl _ \<Rightarrow> False
      | Inr (opcode, data, pc') \<Rightarrow>
          if opcode > OP_16 then HasCanonicalPushes pc'
          else if \<not> canonical_push opcode data then False
          else HasCanonicalPushes pc')"
  by pat_completeness auto
termination
  by (relation "measure length") (auto dest: GetScriptOp_shorter)

definition IsPayToWitnessScriptHash :: "bytes \<Rightarrow> bool" where
  "IsPayToWitnessScriptHash script \<longleftrightarrow>
     length script = 34 \<and> unat (script ! 0) = OP_0 \<and> unat (script ! 1) = 0x20"

text \<open>\<open>Some None\<close> is the result \<^verbatim>\<open>false\<close>, \<open>None\<close> the failed assertion of \<^verbatim>\<open>DecodeOP_N\<close>.\<close>

definition IsWitnessProgram :: "bytes \<Rightarrow> (nat \<times> bytes) option option" where
  "IsWitnessProgram script =
     (if length script < 4 \<or> length script > 42 then Some None
      else let op = unat (script ! 0) in
      if op \<noteq> OP_0 \<and> (op < OP_1 \<or> op > OP_16) then Some None
      else if unat (script ! 1) + 2 = length script
      then (case DecodeOP_N op of
              None \<Rightarrow> None
            | Some version \<Rightarrow> Some (Some (version, drop 2 script)))
      else Some None)"

function HasValidOps :: "bytes \<Rightarrow> bool" where
  "HasValidOps it =
     (if it = [] then True
      else case GetScriptOp it of
        Inl _ \<Rightarrow> False
      | Inr (opcode, item, it') \<Rightarrow>
          if opcode > MAX_OPCODE \<or> length item > MAX_SCRIPT_ELEMENT_SIZE then False
          else HasValidOps it')"
  by pat_completeness auto
termination
  by (relation "measure length") (auto dest: GetScriptOp_shorter)

section \<open>Searching and deleting\<close>

text \<open>The inner loop erases copies of \<open>b\<close> at the iterator; the iterator stays where it is.\<close>

function erase_copies :: "bytes \<Rightarrow> bytes \<Rightarrow> nat \<Rightarrow> bytes \<times> nat" where
  "erase_copies b pc nFound =
     (if b \<noteq> [] \<and> length pc \<ge> length b \<and> take (length b) pc = b
      then erase_copies b (drop (length b) pc) (nFound + 1)
      else (pc, nFound))"
  by pat_completeness auto
termination
  by (relation "measure (\<lambda>(b, pc, _). length pc)") (auto simp: neq_Nil_conv)

lemma erase_copies_length: "length (fst (erase_copies b pc n)) \<le> length pc"
proof (induction b pc n rule: erase_copies.induct)
  case (1 b pc n)
  then show ?case
    by (subst erase_copies.simps) (auto simp del: erase_copies.simps)
qed

text \<open>The outer loop: the bytes before the iterator stay in the script.\<close>

function FindAndDelete_loop :: "bytes \<Rightarrow> bytes \<Rightarrow> nat \<Rightarrow> bytes \<times> nat" where
  "FindAndDelete_loop b pc nFound =
     (let (pc1, nFound) = erase_copies b pc nFound in
      case GetScriptOp pc1 of
        Inl _ \<Rightarrow> (pc1, nFound)
      | Inr (_, _, pc2) \<Rightarrow>
          (let (kept, nFound) = FindAndDelete_loop b pc2 nFound in
           (take (length pc1 - length pc2) pc1 @ kept, nFound)))"
  by pat_completeness auto
termination
proof (relation "measure (\<lambda>(b, pc, _). length pc)")
  fix b pc n p pc1 m r s t u pc2
  assume "p = erase_copies b pc n" "(pc1, m) = p" "GetScriptOp pc1 = Inr r" "(s, t) = r" "(u, pc2) = t"
  then have "length pc2 < length pc1" "pc1 = fst (erase_copies b pc n)"
    using GetScriptOp_shorter [of pc1 s u pc2] by (auto simp del: erase_copies.simps) (metis fst_conv)
  then show "((b, pc2, m), b, pc, n) \<in> measure (\<lambda>(b, pc, _). length pc)"
    using erase_copies_length [of b pc n] by simp
qed simp

text \<open>The script that is left and the number of copies removed.\<close>

definition FindAndDelete :: "bytes \<Rightarrow> bytes \<Rightarrow> bytes \<times> nat" where
  "FindAndDelete b script = (if b = [] then (script, 0) else FindAndDelete_loop b script 0)"

function Find_loop :: "opcodetype \<Rightarrow> bytes \<Rightarrow> nat \<Rightarrow> nat" where
  "Find_loop op pc nFound =
     (case GetScriptOp pc of
        Inl _ \<Rightarrow> nFound
      | Inr (opcode, _, pc') \<Rightarrow> Find_loop op pc' (if opcode = op then nFound + 1 else nFound))"
  by pat_completeness auto
termination
  by (relation "measure (\<lambda>(_, pc, _). length pc)") (auto dest: GetScriptOp_shorter)

definition Find :: "opcodetype \<Rightarrow> bytes \<Rightarrow> nat" where
  "Find op script = Find_loop op script 0"

declare ToString_loop.simps [simp del] GetSigOpCount_loop.simps [simp del] last_push.simps [simp del]
  IsPushOnly.simps [simp del] HasCanonicalPushes.simps [simp del] HasValidOps.simps [simp del]
  erase_copies.simps [simp del] FindAndDelete_loop.simps [simp del] Find_loop.simps [simp del]

section \<open>Walks as functions of the opcode list\<close>

text \<open>The whole script is made of opcodes.\<close>

definition parses :: "bytes \<Rightarrow> bool" where
  "parses script \<longleftrightarrow> tail_chunk script = []"

lemma chunks_Cons_iff:
  assumes "GetScriptOp c = Inr (opcode, data, [])" and "c \<noteq> []"
  shows "parses (c @ pc) \<longleftrightarrow> parses pc" and "parses []"
  using assms by (simp_all add: parses_def chunks_Cons)

lemma parses_Inl: "GetScriptOp pc = Inl r \<Longrightarrow> parses pc \<longleftrightarrow> pc = []"
  by (simp add: parses_def chunks_Inl)

lemmas walk_simps = chunks_Inl chunks_Cons chunks_Cons_iff parses_Inl op_of_chunk

lemma IsPushOnly_ops:
  "IsPushOnly script \<longleftrightarrow> parses script \<and> (\<forall>(opcode, _) \<in> set (ops script). opcode \<le> OP_16)"
  by (induction script rule: script_induct)
    (auto simp: IsPushOnly.simps walk_simps)

lemma HasCanonicalPushes_ops:
  "HasCanonicalPushes script \<longleftrightarrow>
     parses script \<and> (\<forall>(opcode, data) \<in> set (ops script). opcode \<le> OP_16 \<longrightarrow> canonical_push opcode data)"
  by (induction script rule: script_induct)
    (auto simp: HasCanonicalPushes.simps walk_simps)

lemma HasValidOps_ops:
  "HasValidOps script \<longleftrightarrow>
     parses script \<and>
     (\<forall>(opcode, item) \<in> set (ops script). opcode \<le> MAX_OPCODE \<and> length item \<le> MAX_SCRIPT_ELEMENT_SIZE)"
  by (induction script rule: script_induct)
    (auto simp: HasValidOps.simps walk_simps)

lemma last_push_ops:
  "last_push script data =
     (if IsPushOnly script
      then Some (if script = [] then data else snd (last (ops script))) else None)"
proof (induction script arbitrary: data rule: script_induct)
  case (stop pc r)
  then show ?case by (simp add: last_push.simps [of pc] IsPushOnly.simps [of pc])
next
  case (opcode c opcode dat pc)
  then have "pc \<noteq> [] \<Longrightarrow> IsPushOnly pc \<Longrightarrow> chunks pc \<noteq> []"
    using concat_chunks [of pc] by (auto simp: IsPushOnly_ops parses_def)
  with opcode show ?case
    by (auto simp: last_push.simps [of "c @ pc"] IsPushOnly.simps [of "c @ pc"] walk_simps)
qed

lemma Find_ops: "Find op script = length (filter (\<lambda>(opcode, _). opcode = op) (ops script))"
proof -
  have "Find_loop op script n = n + length (filter (\<lambda>(opcode, _). opcode = op) (ops script))" for n
    by (induction script arbitrary: n rule: script_induct)
      (auto simp: Find_loop.simps walk_simps)
  then show ?thesis by (simp add: Find_def)
qed

section \<open>Deleting an encoded opcode\<close>

lemma is_chunk_not_Nil: "is_chunk b \<Longrightarrow> b \<noteq> []"
  by (auto simp: is_chunk_def)

text \<open>Two encoded opcodes, one a prefix of a script that starts with the other, are equal.\<close>

lemma chunk_prefix_eq:
  assumes "is_chunk b" and "is_chunk c" and "take (length b) (c @ pc) = b"
  shows "b = c"
proof -
  obtain d where d: "c @ pc = b @ d"
    using assms(3) append_take_drop_id [of "length b" "c @ pc"] by metis
  obtain o1 d1 o2 d2 where "GetScriptOp b = Inr (o1, d1, [])" "GetScriptOp c = Inr (o2, d2, [])"
    using assms by (auto simp: is_chunk_def)
  from this [THEN GetScriptOp_append] have "pc = d"
    by (metis d append_Nil snd_conv sum.inject(2))
  with d show ?thesis by simp
qed

lemma erase_copies_chunk:
  assumes "is_chunk b"
  shows "erase_copies b (b @ pc) n = erase_copies b pc (n + 1)"
  using is_chunk_not_Nil [OF assms] by (subst erase_copies.simps) simp

lemma erase_copies_other:
  assumes "is_chunk b" and "is_chunk c" and "b \<noteq> c"
  shows "erase_copies b (c @ pc) n = (c @ pc, n)"
  using chunk_prefix_eq [OF assms(1,2), of pc] assms(3) by (subst erase_copies.simps) auto

lemma erase_copies_stop:
  assumes "is_chunk b" and "GetScriptOp pc = Inl r"
  shows "erase_copies b pc n = (pc, n)"
proof -
  obtain opcode data where "GetScriptOp b = Inr (opcode, data, [])"
    using assms(1) by (auto simp: is_chunk_def)
  then have "take (length b) pc \<noteq> b"
    using GetScriptOp_append [of b opcode data "[]" "drop (length b) pc"] assms(2)
    by (metis append_take_drop_id sum.distinct(1))
  then show ?thesis by (subst erase_copies.simps) simp
qed

lemma FindAndDelete_loop_chunk:
  assumes "is_chunk b"
  shows "FindAndDelete_loop b script n =
    (concat (filter (\<lambda>c. c \<noteq> b) (chunks script)) @ tail_chunk script,
     n + length (filter (\<lambda>c. c = b) (chunks script)))"
proof (induction script arbitrary: n rule: script_induct)
  case (stop pc r)
  then show ?case
    by (subst FindAndDelete_loop.simps) (simp add: erase_copies_stop [OF assms] walk_simps)
next
  case (opcode c opcode data pc)
  show ?case
  proof (cases "c = b")
    case True
    have "FindAndDelete_loop b (b @ pc) n = FindAndDelete_loop b pc (n + 1)"
      by (subst (1 2) FindAndDelete_loop.simps) (simp add: erase_copies_chunk [OF assms])
    then show ?thesis using opcode True by (simp add: walk_simps)
  next
    case False
    have c: "is_chunk c" using opcode by (auto simp: is_chunk_def)
    show ?thesis
      using opcode False
      by (subst FindAndDelete_loop.simps)
        (simp add: erase_copies_other [OF assms c] walk_simps)
  qed
qed

lemma FindAndDelete_chunk:
  assumes "is_chunk b"
  shows "FindAndDelete b script =
    (concat (filter (\<lambda>c. c \<noteq> b) (chunks script)) @ tail_chunk script,
     length (filter (\<lambda>c. c = b) (chunks script)))"
  using is_chunk_not_Nil [OF assms]
  by (simp add: FindAndDelete_def FindAndDelete_loop_chunk [OF assms])

lemma chunks_concat:
  assumes "\<forall>c \<in> set cs. is_chunk c"
  shows "chunks (concat cs @ pc) = cs @ chunks pc" and "tail_chunk (concat cs @ pc) = tail_chunk pc"
  using assms by (induction cs) (auto simp: is_chunk_def chunks_Cons)

lemma chunks_tail_chunk: "chunks (tail_chunk script) = []" "tail_chunk (tail_chunk script) = tail_chunk script"
  by (induction script rule: script_induct) (auto simp: walk_simps)

lemma chunks_FindAndDelete:
  assumes "is_chunk b"
  shows "chunks (fst (FindAndDelete b script)) = filter (\<lambda>c. c \<noteq> b) (chunks script)"
    and "tail_chunk (fst (FindAndDelete b script)) = tail_chunk script"
proof -
  have "\<forall>c \<in> set (filter (\<lambda>c. c \<noteq> b) (chunks script)). is_chunk c"
    using is_chunk_chunks by auto
  from chunks_concat [OF this, of "tail_chunk script"]
  show "chunks (fst (FindAndDelete b script)) = filter (\<lambda>c. c \<noteq> b) (chunks script)"
    and "tail_chunk (fst (FindAndDelete b script)) = tail_chunk script"
    by (simp_all add: FindAndDelete_chunk [OF assms] chunks_tail_chunk)
qed

lemma FindAndDelete_shorter: "is_chunk b \<Longrightarrow> length (fst (FindAndDelete b script)) \<le> length script"
proof -
  assume b: "is_chunk b"
  have "length (concat (filter P cs)) \<le> length (concat cs)" for P and cs :: "bytes list"
    by (induction cs) auto
  from this [of "\<lambda>c. c \<noteq> b" "chunks script"] show ?thesis
    using arg_cong [OF concat_chunks [of script], of length]
    by (simp add: FindAndDelete_chunk [OF b])
qed

lemma is_chunk_push_opcode: "OP_PUSHDATA4 < opcode \<Longrightarrow> opcode \<le> 0xff \<Longrightarrow> is_chunk (push_opcode opcode)"
  using GetScriptOp_push_opcode [of opcode "[]"] by (auto simp: is_chunk_def)

lemma is_chunk_push_vector: "length b < 2 ^ 32 \<Longrightarrow> is_chunk (push_vector b)"
  using GetScriptOp_push_vector [of b "[]"] unfolding is_chunk_def by auto

section \<open>Counting signature operations\<close>

text \<open>The specification: a sum over the opcodes, each with the opcode before it.\<close>

fun sigops :: "bool \<Rightarrow> opcodetype \<Rightarrow> (opcodetype \<times> bytes) list \<Rightarrow> nat" where
  "sigops fAccurate lastOpcode [] = 0"
| "sigops fAccurate lastOpcode ((opcode, _) # os) =
     (if opcode = OP_CHECKSIG \<or> opcode = OP_CHECKSIGVERIFY then 1
      else if opcode = OP_CHECKMULTISIG \<or> opcode = OP_CHECKMULTISIGVERIFY
      then (if fAccurate \<and> lastOpcode \<in> {OP_1..OP_16} then lastOpcode - 80 else 20)
      else 0) + sigops fAccurate opcode os"

lemma sigops_bound: "sigops fAccurate lastOpcode os \<le> 20 * length os"
  by (induction fAccurate lastOpcode os rule: sigops.induct) auto

lemma sigops_accurate_le: "sigops True lastOpcode os \<le> sigops False lastOpcode os"
proof (induction os arbitrary: lastOpcode)
  case (Cons p os)
  from Cons [of "fst p"] show ?case by (cases p) auto
qed simp

lemma GetSigOpCount_loop_ops:
  "GetSigOpCount_loop fAccurate script lastOpcode n = Some (n + of_nat (sigops fAccurate lastOpcode (ops script)))"
proof (induction script arbitrary: lastOpcode n rule: script_induct)
  case (stop pc r)
  then show ?case by (subst GetSigOpCount_loop.simps) (simp add: walk_simps)
next
  case (opcode c opcode data pc)
  then show ?case
    by (subst GetSigOpCount_loop.simps) (auto simp: walk_simps DecodeOP_N_def)
qed

lemma GetSigOpCount_ops:
  "GetSigOpCount script fAccurate = Some (of_nat (sigops fAccurate OP_INVALIDOPCODE (ops script)))"
  by (simp add: GetSigOpCount_def GetSigOpCount_loop_ops)

lemma sigops_script_bound: "sigops fAccurate lastOpcode (ops script) \<le> 20 * length script"
  using sigops_bound [of fAccurate lastOpcode "ops script"] length_chunks [of script] by simp

section \<open>The text of a script\<close>

lemma opcode_names_not_Nil: "(opcode, name) \<in> set opcode_names \<Longrightarrow> name \<noteq> []"
  by (auto simp: opcode_names_def)

lemma GetOpName_not_Nil [simp]: "GetOpName opcode \<noteq> []"
  by (auto simp: GetOpName_def dest!: map_of_SomeD dest: opcode_names_not_Nil split: option.splits)

lemma HexStr_not_Nil [simp]: "HexStr vch = [] \<longleftrightarrow> vch = []"
  by (cases vch) (simp_all add: HexStr_def)

lemma length_HexStr [simp]: "length (HexStr vch) = 2 * length vch"
  by (induction vch) (simp_all add: HexStr_def)

definition token :: "(bytes \<Rightarrow> string) \<Rightarrow> bool \<Rightarrow> opcodetype \<times> bytes \<Rightarrow> string" where
  "token dec fShort p =
     (case p of (opcode, vch) \<Rightarrow>
        if opcode \<le> OP_PUSHDATA4
        then (if fShort then take 10 (ValueString dec vch) else ValueString dec vch)
        else GetOpName opcode)"

definition tokens :: "(bytes \<Rightarrow> string) \<Rightarrow> bool \<Rightarrow> bytes \<Rightarrow> string list" where
  "tokens dec fShort script =
     map (token dec fShort) (ops script) @ (if parses script then [] else [''[error]''])"

fun join_words :: "string \<Rightarrow> string list \<Rightarrow> string" where
  "join_words str [] = str"
| "join_words str (w # ws) = join_words ((if str = [] then [] else str @ '' '') @ w) ws"

lemma token_not_Nil: "(\<And>v. dec v \<noteq> []) \<Longrightarrow> token dec fShort p \<noteq> []"
  by (auto simp: token_def ValueString_def split: prod.splits)

text \<open>The text is the tokens of the opcodes, one blank between two of them.\<close>

lemma ToString_loop_tokens:
  "ToString_loop dec fShort script str = join_words str (tokens dec fShort script)"
proof (induction script arbitrary: str rule: script_induct)
  case (stop pc r)
  then show ?case
    by (subst ToString_loop.simps) (auto simp: tokens_def walk_simps)
next
  case (opcode c opcode data pc)
  then show ?case
    by (subst ToString_loop.simps) (auto simp: tokens_def walk_simps token_def)
qed

lemma join_words_simple:
  assumes "\<forall>w \<in> set ws. w \<noteq> []" and "str \<noteq> []"
  shows "join_words str ws = str @ concat (map (\<lambda>w. '' '' @ w) ws)"
  using assms by (induction ws arbitrary: str) auto

lemma ToString_tokens:
  assumes "\<And>v. dec v \<noteq> []"
  shows "ToString dec fShort script =
    (case tokens dec fShort script of
       [] \<Rightarrow> []
     | w # ws \<Rightarrow> w @ concat (map (\<lambda>w. '' '' @ w) ws))"
proof -
  have "\<forall>w \<in> set (tokens dec fShort script). w \<noteq> []"
    using token_not_Nil [of dec] assms by (auto simp: tokens_def)
  then show ?thesis
    by (auto simp: ToString_def ToString_loop_tokens join_words_simple split: list.split)
qed

text \<open>No two opcodes have the same name.\<close>

lemma distinct_opcode_names: "distinct (map fst opcode_names) \<and> distinct (map snd opcode_names)"
  by (simp add: opcode_names_def)

section \<open>Properties\<close>

text \<open>
  \<^verbatim>\<open>FindAndDelete\<close> of one encoded opcode removes exactly the opcodes encoded by these bytes: the
  opcodes of the result are those of the script without them, in order, the unreadable rest is
  kept, the count is the number removed, and no occurrence is left. Occurrences of the bytes
  inside the data of a push are kept.
\<close>

theorem FindAndDelete_filter:
  assumes "is_chunk b"
  shows "FindAndDelete b script =
      (concat (filter (\<lambda>c. c \<noteq> b) (chunks script)) @ tail_chunk script,
       length (filter (\<lambda>c. c = b) (chunks script))) \<and>
    chunks (fst (FindAndDelete b script)) = filter (\<lambda>c. c \<noteq> b) (chunks script) \<and>
    snd (FindAndDelete b (fst (FindAndDelete b script))) = 0"
proof -
  have "filter (\<lambda>c. c = b) (filter (\<lambda>c. c \<noteq> b) cs) = []" for cs by (induction cs) auto
  then show ?thesis
    using FindAndDelete_chunk [OF assms, of script] chunks_FindAndDelete(1) [OF assms, of script]
      FindAndDelete_chunk [OF assms, of "fst (FindAndDelete b script)"] by simp
qed

lemma concrete_FindAndDelete:
  "is_chunk [0xab]" "FindAndDelete [0xab] [0xab, 0x02, 0xab, 0xab, 0xab, 0xac] = ([0x02, 0xab, 0xab, 0xac], 2)"
  by (auto simp: is_chunk_def GetScriptOp_def FindAndDelete_def FindAndDelete_loop.simps erase_copies.simps
      push_size_def)

theorem FindAndDelete_filter_witness:
  "is_chunk [0xab] \<and> FindAndDelete [0xab] [0xab, 0x02, 0xab, 0xab, 0xab, 0xac] = ([0x02, 0xab, 0xab, 0xac], 2) \<and>
   chunks [0x02, 0xab, 0xab, 0xac] =
     filter (\<lambda>c. c \<noteq> [0xab]) (chunks [0xab, 0x02, 0xab, 0xab, 0xab, 0xac])"
  using FindAndDelete_filter [OF concrete_FindAndDelete(1), of "[0xab, 0x02, 0xab, 0xab, 0xab, 0xac]"]
    concrete_FindAndDelete
  by (metis fst_conv)

text \<open>
  \<^verbatim>\<open>GetSigOpCount\<close> never fails the assertion of \<^verbatim>\<open>DecodeOP_N\<close>, and for a script of fewer than
  \<open>2 ^ 27\<close> bytes the counter does not wrap: it is the sum over the opcodes of 1 for a CHECKSIG,
  of the key count of an accurately counted CHECKMULTISIG and of 20 for any other. Accurate
  counting never gives more, and the count is at most 20 per byte.
\<close>

theorem GetSigOpCount_sum:
  assumes "length script < 2 ^ 27"
  shows "\<exists>n n'. GetSigOpCount script fAccurate = Some n \<and> GetSigOpCount script False = Some n' \<and>
    unat n = sigops fAccurate OP_INVALIDOPCODE (ops script) \<and> unat n \<le> unat n' \<and>
    unat n' \<le> 20 * length script"
proof -
  have b: "sigops f OP_INVALIDOPCODE (ops script) < 2 ^ LENGTH(32)" for f
    using sigops_script_bound [of f OP_INVALIDOPCODE script] assms by simp
  have u: "unat (of_nat (sigops f OP_INVALIDOPCODE (ops script)) :: 32 word) =
      sigops f OP_INVALIDOPCODE (ops script)" for f
    using b [of f] by (simp add: unat_of_nat take_bit_eq_mod)
  show ?thesis
    unfolding GetSigOpCount_ops
    using sigops_accurate_le [of OP_INVALIDOPCODE "ops script"]
      sigops_script_bound [of False OP_INVALIDOPCODE script]
    by (cases fAccurate) (simp_all add: u del: unat_of_nat)
qed

theorem GetSigOpCount_sum_witness:
  "GetSigOpCount [0x52, 0xae, 0xac, 0xae] True = Some 23 \<and>
   (\<exists>n n'. GetSigOpCount [0x52, 0xae, 0xac, 0xae] True = Some n \<and>
      GetSigOpCount [0x52, 0xae, 0xac, 0xae] False = Some n' \<and> unat n \<le> unat n' \<and> unat n' \<le> 80)"
proof -
  have "GetSigOpCount [0x52, 0xae, 0xac, 0xae] True = Some 23"
    by (simp add: GetSigOpCount_def GetSigOpCount_loop.simps GetScriptOp_def DecodeOP_N_def)
  then show ?thesis
    using GetSigOpCount_sum [of "[0x52, 0xae, 0xac, 0xae]" True] by auto
qed

text \<open>
  The shape tests look at all opcodes of a script: \<^verbatim>\<open>IsPushOnly\<close>, \<^verbatim>\<open>HasCanonicalPushes\<close> and
  \<^verbatim>\<open>HasValidOps\<close> hold exactly when the whole script is readable and every opcode passes the
  test, and \<^verbatim>\<open>Find\<close> counts the opcodes with the given value.
\<close>

theorem script_queries_ops:
  "(IsPushOnly script \<longleftrightarrow> parses script \<and> list_all (\<lambda>(opcode, _). opcode \<le> OP_16) (ops script)) \<and>
   (HasCanonicalPushes script \<longleftrightarrow>
      parses script \<and> list_all (\<lambda>(opcode, data). OP_16 < opcode \<or> canonical_push opcode data) (ops script)) \<and>
   (HasValidOps script \<longleftrightarrow>
      parses script \<and>
      list_all (\<lambda>(opcode, item). opcode \<le> MAX_OPCODE \<and> length item \<le> MAX_SCRIPT_ELEMENT_SIZE) (ops script)) \<and>
   Find op script = length (filter (\<lambda>(opcode, _). opcode = op) (ops script))"
  by (auto simp: IsPushOnly_ops HasCanonicalPushes_ops HasValidOps_ops Find_ops list_all_iff)

end
