(* ===== verification/Script_Sig.thy ===== *)
theory Script_Sig
  imports Script_Query "HOL-Library.Monad_Syntax"
begin

text \<open>
  Encodings of the values a script handles (\<^verbatim>\<open>Script_util\<close> of \<^verbatim>\<open>src/src/script/script.cpp\<close> and
  \<^verbatim>\<open>src/src/key.cpp\<close>): truth values, public keys, DER signatures and minimal pushes.

  A read of a vector at an index is \<open>read_at\<close>, \<open>None\<close> out of range, so that the theorems show
  that the checks of \<^verbatim>\<open>IsDERSignature\<close> are in an order that never reads outside the signature.
\<close>

unbundle bit_operations_syntax

section \<open>Flags\<close>

abbreviation (input) SCRIPT_VERIFY_NONE :: "32 word" where "SCRIPT_VERIFY_NONE \<equiv> 0"
abbreviation (input) SCRIPT_VERIFY_P2SH :: "32 word" where "SCRIPT_VERIFY_P2SH \<equiv> 0x1"
abbreviation (input) SCRIPT_VERIFY_STRICTENC :: "32 word" where "SCRIPT_VERIFY_STRICTENC \<equiv> 0x2"
abbreviation (input) SCRIPT_VERIFY_LOW_S :: "32 word" where "SCRIPT_VERIFY_LOW_S \<equiv> 0x4"
abbreviation (input) SCRIPT_VERIFY_NOCACHE :: "32 word" where "SCRIPT_VERIFY_NOCACHE \<equiv> 0x8"
abbreviation (input) SCRIPT_VERIFY_NULLDUMMY :: "32 word" where "SCRIPT_VERIFY_NULLDUMMY \<equiv> 0x10"
abbreviation (input) SCRIPT_VERIFY_MINIMALDATA :: "32 word" where "SCRIPT_VERIFY_MINIMALDATA \<equiv> 0x40"
abbreviation (input) SCRIPT_VERIFY_DISCOURAGE_UPGRADABLE_NOPS :: "32 word"
  where "SCRIPT_VERIFY_DISCOURAGE_UPGRADABLE_NOPS \<equiv> 0x80"
abbreviation (input) SCRIPT_VERIFY_CHECKLOCKTIMEVERIFY :: "32 word"
  where "SCRIPT_VERIFY_CHECKLOCKTIMEVERIFY \<equiv> 0x200"
abbreviation (input) SCRIPT_VERIFY_CHECKSEQUENCEVERIFY :: "32 word"
  where "SCRIPT_VERIFY_CHECKSEQUENCEVERIFY \<equiv> 0x400"
abbreviation (input) STRICT_FORMAT_FLAGS :: "32 word" where "STRICT_FORMAT_FLAGS \<equiv> 0x16"
abbreviation (input) MANDATORY_SCRIPT_VERIFY_FLAGS :: "32 word"
  where "MANDATORY_SCRIPT_VERIFY_FLAGS \<equiv> SCRIPT_VERIFY_P2SH"
abbreviation (input) STRICT_FLAGS :: "32 word" where "STRICT_FLAGS \<equiv> 0x17"

abbreviation (input) SIGHASH_ALL :: "'a :: numeral" where "SIGHASH_ALL \<equiv> 1"
abbreviation (input) SIGHASH_NONE :: "'a :: numeral" where "SIGHASH_NONE \<equiv> 2"
abbreviation (input) SIGHASH_SINGLE :: "'a :: numeral" where "SIGHASH_SINGLE \<equiv> 3"
abbreviation (input) SIGHASH_ANYONECANPAY :: "'a :: numeral" where "SIGHASH_ANYONECANPAY \<equiv> 0x80"

definition has_flag :: "32 word \<Rightarrow> 32 word \<Rightarrow> bool" where
  "has_flag flags f \<longleftrightarrow> flags AND f \<noteq> 0"

section \<open>Truth values\<close>

fun CastToBool :: "bytes \<Rightarrow> bool" where
  "CastToBool [] = False"
| "CastToBool (b # vch) = (if b \<noteq> 0 then \<not> (vch = [] \<and> b = 0x80) else CastToBool vch)"

section \<open>Public keys\<close>

text \<open>The index \<open>0\<close> is read after the size test only.\<close>

definition IsCanonicalPubKey :: "bytes \<Rightarrow> 32 word \<Rightarrow> bool" where
  "IsCanonicalPubKey vchPubKey flags =
     (if \<not> has_flag flags SCRIPT_VERIFY_STRICTENC then True
      else if length vchPubKey < 33 then False
      else if vchPubKey ! 0 = 0x04 then length vchPubKey = 65
      else if vchPubKey ! 0 = 0x02 \<or> vchPubKey ! 0 = 0x03 then length vchPubKey = 33
      else False)"

section \<open>Big-endian comparison\<close>

fun skip_leading :: "bytes \<Rightarrow> nat \<Rightarrow> bytes option" where
  "skip_leading [] n = Some []"
| "skip_leading (b # c) n =
     (if length (b # c) > n then (if b \<noteq> 0 then None else skip_leading c n) else Some (b # c))"

fun compare_equal :: "bytes \<Rightarrow> bytes \<Rightarrow> int" where
  "compare_equal (b1 # c1) (b2 # c2) =
     (if b1 > b2 then 1 else if b2 > b1 then - 1 else compare_equal c1 c2)"
| "compare_equal _ _ = 0"

definition CompareBigEndian :: "bytes \<Rightarrow> bytes \<Rightarrow> int" where
  "CompareBigEndian c1 c2 =
     (case skip_leading c1 (length c2) of
        None \<Rightarrow> 1
      | Some c1' \<Rightarrow>
          (case skip_leading c2 (length c1') of
             None \<Rightarrow> - 1
           | Some c2' \<Rightarrow> compare_equal c1' c2'))"

definition vchMaxModOrder :: bytes where
  "vchMaxModOrder =
    [0xFF,0xFF,0xFF,0xFF,0xFF,0xFF,0xFF,0xFF,
     0xFF,0xFF,0xFF,0xFF,0xFF,0xFF,0xFF,0xFE,
     0xBA,0xAE,0xDC,0xE6,0xAF,0x48,0xA0,0x3B,
     0xBF,0xD2,0x5E,0x8C,0xD0,0x36,0x41,0x40]"

definition vchMaxModHalfOrder :: bytes where
  "vchMaxModHalfOrder =
    [0x7F,0xFF,0xFF,0xFF,0xFF,0xFF,0xFF,0xFF,
     0xFF,0xFF,0xFF,0xFF,0xFF,0xFF,0xFF,0xFF,
     0x5D,0x57,0x6E,0x73,0x57,0xA4,0x50,0x1D,
     0xDF,0xE9,0x2F,0x46,0x68,0x1B,0x20,0xA0]"

definition CheckSignatureElement :: "bytes \<Rightarrow> bool \<Rightarrow> bool" where
  "CheckSignatureElement vch half \<longleftrightarrow>
     CompareBigEndian vch [] > 0 \<and>
     CompareBigEndian vch (if half then vchMaxModHalfOrder else vchMaxModOrder) \<le> 0"

section \<open>DER signatures\<close>

definition read_at :: "bytes \<Rightarrow> nat \<Rightarrow> byte option" where
  "read_at v i = (if i < length v then Some (v ! i) else None)"

definition read_range :: "bytes \<Rightarrow> nat \<Rightarrow> nat \<Rightarrow> bytes option" where
  "read_range v i n = (if i + n \<le> length v then Some (take n (drop i v)) else None)"

text \<open>The four checks on \<open>R\<close>, and then on \<open>S\<close>: the integer of \<open>n\<close> bytes at the index \<open>i\<close>.\<close>

definition check_der_int :: "bytes \<Rightarrow> nat \<Rightarrow> nat \<Rightarrow> bool option" where
  "check_der_int vchSig i n =
     do {
       t \<leftarrow> read_at vchSig (i - 2);
       if t \<noteq> 0x02 then Some False
       else if n = 0 then Some False
       else do {
         b0 \<leftarrow> read_at vchSig i;
         if b0 AND 0x80 \<noteq> 0 then Some False
         else if n > 1 \<and> b0 = 0x00
         then do { b1 \<leftarrow> read_at vchSig (i + 1); Some (b1 AND 0x80 \<noteq> 0) }
         else Some True
       }
     }"

definition check_hash_type :: "bytes \<Rightarrow> bool option" where
  "check_hash_type vchSig =
     do {
       b \<leftarrow> read_at vchSig (length vchSig - 1);
       let nHashType = unat (b AND NOT 0x80);
       Some (\<not> (int nHashType < SIGHASH_ALL \<or> int nHashType > SIGHASH_SINGLE))
     }"

definition IsDERSignature :: "bytes \<Rightarrow> bool \<Rightarrow> bool \<Rightarrow> bool option" where
  "IsDERSignature vchSig fWithHashType fCheckLow =
     (if length vchSig < 9 then Some False
      else if length vchSig > 73 then Some False
      else do {
        b0 \<leftarrow> read_at vchSig 0;
        if b0 \<noteq> 0x30 then Some False else do {
        b1 \<leftarrow> read_at vchSig 1;
        if unat b1 \<noteq> length vchSig - (if fWithHashType then 3 else 2) then Some False else do {
        okType \<leftarrow> (if fWithHashType then check_hash_type vchSig else Some True);
        if \<not> okType then Some False else do {
        nLenR \<leftarrow> map_option unat (read_at vchSig 3);
        if 5 + nLenR \<ge> length vchSig then Some False else do {
        nLenS \<leftarrow> map_option unat (read_at vchSig (5 + nLenR));
        if nLenR + nLenS + (if fWithHashType then 7 else 6) \<noteq> length vchSig then Some False else do {
        okR \<leftarrow> check_der_int vchSig 4 nLenR;
        if \<not> okR then Some False else do {
        okS \<leftarrow> check_der_int vchSig (6 + nLenR) nLenS;
        if \<not> okS then Some False
        else if fCheckLow then do {
          S \<leftarrow> read_range vchSig (6 + nLenR) nLenS;
          Some (CheckSignatureElement S True)
        } else Some True }}}}}}})"

definition IsCanonicalSignature :: "bytes \<Rightarrow> 32 word \<Rightarrow> bool option" where
  "IsCanonicalSignature vchSig flags =
     (if \<not> has_flag flags SCRIPT_VERIFY_STRICTENC then Some True
      else IsDERSignature vchSig True (has_flag flags SCRIPT_VERIFY_LOW_S))"

section \<open>Minimal pushes\<close>

text \<open>\<open>None\<close> is the failed assertion.\<close>

definition CheckMinimalPush :: "bytes \<Rightarrow> opcodetype \<Rightarrow> bool option" where
  "CheckMinimalPush data opcode =
     (if \<not> opcode \<le> OP_PUSHDATA4 then None
      else Some
       (if length data = 0 then opcode = OP_0
        else if length data = 1 \<and> data ! 0 \<ge> 1 \<and> data ! 0 \<le> 16 then False
        else if length data = 1 \<and> data ! 0 = 0x81 then False
        else if length data \<le> 75 then opcode = length data
        else if length data \<le> 255 then opcode = OP_PUSHDATA1
        else if length data \<le> 65535 then opcode = OP_PUSHDATA2
        else True))"

section \<open>Big-endian numbers\<close>

fun be_nat :: "bytes \<Rightarrow> nat" where
  "be_nat [] = 0"
| "be_nat (b # c) = unat b * 256 ^ length c + be_nat c"

lemma be_nat_less: "be_nat c < 256 ^ length c"
proof (induction c)
  case (Cons b c)
  have "unat b * 256 ^ length c \<le> 255 * 256 ^ length c"
  proof (rule mult_right_mono)
    show "unat b \<le> 255" using unat_byte_less [of b] by linarith
  qed simp
  with Cons.IH have "be_nat (b # c) < 256 * 256 ^ length c"
    unfolding be_nat.simps by linarith
  then show ?case by simp
qed simp

lemma skip_leading_None: "skip_leading c n = None \<Longrightarrow> 256 ^ n \<le> be_nat c"
proof (induction c)
  case (Cons b c)
  show ?case
  proof (cases "b = 0")
    case True
    with Cons show ?thesis by (auto split: if_splits)
  next
    case False
    with Cons.prems have "n \<le> length c" by (auto split: if_splits)
    then have "(256::nat) ^ n \<le> 256 ^ length c" by (simp add: power_increasing)
    also have "... \<le> unat b * 256 ^ length c" using False by (simp add: Suc_le_eq unat_gt_0)
    finally show ?thesis by simp
  qed
qed simp

lemma skip_leading_Some:
  "skip_leading c n = Some c' \<Longrightarrow> be_nat c' = be_nat c \<and> length c' = min (length c) n"
  by (induction c) (auto split: if_splits)

lemma sgn_int_diff:
  "a < b \<Longrightarrow> sgn (int a - int b) = - 1" "b < a \<Longrightarrow> sgn (int a - int b) = 1"
  "sgn (int a - int b) \<le> 0 \<longleftrightarrow> a \<le> b" "0 < sgn (int a - int b) \<longleftrightarrow> b < a"
  by (auto simp: sgn_if)

lemma compare_equal_sgn:
  "length c1 = length c2 \<Longrightarrow> compare_equal c1 c2 = sgn (int (be_nat c1) - int (be_nat c2))"
proof (induction c1 c2 rule: compare_equal.induct)
  case (1 b1 c1 b2 c2)
  have step: "be_nat (x # u) < be_nat (y # v)" if "x < y" "length u = length v" for x y :: byte and u v
  proof -
    have "be_nat (x # u) < (unat x + 1) * 256 ^ length u" using be_nat_less [of u] by simp
    also have "... \<le> unat y * 256 ^ length u"
      using that by (intro mult_right_mono) (auto simp: word_less_nat_alt)
    finally show ?thesis using that by simp
  qed
  show ?case
  proof (cases b1 b2 rule: linorder_cases)
    case less
    with step [of b1 b2 c1 c2] 1(2) show ?thesis
      by (simp add: sgn_int_diff del: be_nat.simps)
  next
    case equal
    with 1 show ?thesis by simp
  next
    case greater
    with step [of b2 b1 c2 c1] 1(2) show ?thesis
      by (simp add: sgn_int_diff del: be_nat.simps)
  qed
qed auto

lemma CompareBigEndian_sgn: "CompareBigEndian c1 c2 = sgn (int (be_nat c1) - int (be_nat c2))"
proof (cases "skip_leading c1 (length c2)")
  case None
  with skip_leading_None [OF None] be_nat_less [of c2] show ?thesis
    by (simp add: CompareBigEndian_def)
next
  case (Some c1')
  note c1 = skip_leading_Some [OF Some]
  show ?thesis
  proof (cases "skip_leading c2 (length c1')")
    case None
    with skip_leading_None [OF None] be_nat_less [of c1'] Some c1 show ?thesis
      by (simp add: CompareBigEndian_def)
  next
    case (Some c2')
    with \<open>skip_leading c1 (length c2) = Some c1'\<close> c1 skip_leading_Some [OF Some]
      compare_equal_sgn [of c1' c2'] show ?thesis
      by (simp add: CompareBigEndian_def)
  qed
qed

text \<open>The order of the group of secp256k1.\<close>

definition secp256k1_order :: nat where
  "secp256k1_order = 0xFFFFFFFFFFFFFFFFFFFFFFFFFFFFFFFEBAAEDCE6AF48A03BBFD25E8CD0364141"

lemma be_nat_orders:
  "be_nat vchMaxModOrder = secp256k1_order - 1" "be_nat vchMaxModHalfOrder = (secp256k1_order - 1) div 2"
  by (simp_all add: vchMaxModOrder_def vchMaxModHalfOrder_def secp256k1_order_def)

lemma CheckSignatureElement_range:
  "CheckSignatureElement vch half \<longleftrightarrow>
     0 < be_nat vch \<and> be_nat vch \<le> (if half then (secp256k1_order - 1) div 2 else secp256k1_order - 1)"
  by (simp add: CheckSignatureElement_def CompareBigEndian_sgn sgn_int_diff be_nat_orders)


section \<open>The grammar of signatures\<close>

definition der_int :: "bytes \<Rightarrow> bool" where
  "der_int r \<longleftrightarrow> r \<noteq> [] \<and> r ! 0 < 0x80 \<and> \<not> (length r > 1 \<and> r ! 0 = 0 \<and> r ! 1 < 0x80)"

definition der_sig :: "bytes \<Rightarrow> bytes \<Rightarrow> bytes" where
  "der_sig R S =
     [0x30, word_of_nat (length R + length S + 4), 0x02, word_of_nat (length R)] @ R @
     [0x02, word_of_nat (length S)] @ S"

lemma byte_and_80_zero_iff: "(b :: byte) AND 0x80 = 0 \<longleftrightarrow> b < 0x80"
  using byte_and_80_iff [of b] by (auto simp: not_le word_less_nat_alt)

lemma check_der_int_spec:
  assumes "2 \<le> i" and "i + n \<le> length v"
  shows "check_der_int v i n = Some (v ! (i - 2) = 0x02 \<and> der_int (take n (drop i v)))"
  using assms
  by (auto simp: check_der_int_def read_at_def der_int_def byte_and_80_zero_iff not_less min_def
      word_less_nat_alt word_le_nat_alt)

lemma IsDERSignature_cond:
  "IsDERSignature v w low = Some
     (9 \<le> length v \<and> length v \<le> 73 \<and> v ! 0 = 0x30 \<and> unat (v ! 1) = length v - (if w then 3 else 2) \<and>
      (w \<longrightarrow> unat (v ! (length v - 1) AND NOT 0x80) \<in> {1..3}) \<and>
      (let nR = unat (v ! 3); nS = unat (v ! (5 + nR)); S = take nS (drop (6 + nR) v) in
       5 + nR < length v \<and> nR + nS + (if w then 7 else 6) = length v \<and>
       v ! 2 = 0x02 \<and> der_int (take nR (drop 4 v)) \<and>
       v ! (4 + nR) = 0x02 \<and> der_int S \<and> (low \<longrightarrow> CheckSignatureElement S True)))"
proof (cases "9 \<le> length v \<and> length v \<le> 73")
  case len: True
  define nR nS where "nR = unat (v ! 3)" and "nS = unat (v ! (5 + nR))"
  have c: "check_hash_type v = Some (unat (v ! (length v - 1) AND NOT 0x80) \<in> {1..3})"
    using len by (auto simp: check_hash_type_def read_at_def Let_def)
  have r: "read_at v 0 = Some (v ! 0)" "read_at v (Suc 0) = Some (v ! Suc 0)" "read_at v 3 = Some (v ! 3)"
    using len by (auto simp: read_at_def)
  have r5: "5 + nR < length v \<Longrightarrow> read_at v (5 + nR) = Some (v ! (5 + nR))"
    by (simp add: read_at_def)
  note eval = IsDERSignature_def r c Let_def nR_def [symmetric]
  show ?thesis
  proof (cases "5 + nR < length v \<and> nR + nS + (if w then 7 else 6) = length v")
    case True
    then have d: "check_der_int v 4 nR = Some (v ! 2 = 0x02 \<and> der_int (take nR (drop 4 v)))"
      "check_der_int v (6 + nR) nS = Some (v ! (4 + nR) = 0x02 \<and> der_int (take nS (drop (6 + nR) v)))"
      "read_range v (6 + nR) nS = Some (take nS (drop (6 + nR) v))"
      by (auto simp: check_der_int_spec read_range_def split: if_splits)
    from True r5 len show ?thesis
      by (cases w; cases low) (auto simp: eval d nS_def [symmetric] cong: if_cong)
  next
    case False
    with r5 len show ?thesis
      by (cases "5 + nR < length v"; cases w) (auto simp: eval nS_def [symmetric] cong: if_cong)
  qed
qed (auto simp: IsDERSignature_def)


lemma unat_byte_of_nat: "n < 256 \<Longrightarrow> unat (word_of_nat n :: byte) = n"
  by (simp add: unat_of_nat take_bit_eq_mod)

lemma take_two: "i + 2 \<le> length v \<Longrightarrow> take 2 (drop i v) = [v ! i, v ! (i + 1)]"
  by (rule nth_equalityI) (auto simp: less_Suc_eq numeral_2_eq_2)

lemma take_four: "4 \<le> length v \<Longrightarrow> take 4 v = [v ! 0, v ! 1, v ! 2, v ! 3]"
  by (rule nth_equalityI) (auto simp: less_Suc_eq numeral_eq_Suc)

lemma word_of_unat_eq: "unat (b :: byte) = n \<Longrightarrow> b = word_of_nat n"
  by auto

lemma drop_split: "drop i v = take n (drop i v) @ drop (i + n) v"
  by (metis add.commute append_take_drop_id drop_drop)

text \<open>A signature with the lengths and tags in place is the encoding of the two slices.\<close>

lemma der_sig_slices:
  assumes "length v = 6 + nR + nS + k" and "v ! 0 = 0x30" and "unat (v ! 1) = nR + nS + 4"
    and "v ! 2 = 0x02" and "unat (v ! 3) = nR" and "v ! (4 + nR) = 0x02" and "unat (v ! (5 + nR)) = nS"
  shows "v = der_sig (take nR (drop 4 v)) (take nS (drop (6 + nR) v)) @ drop (6 + nR + nS) v"
proof -
  have h: "take 4 v = [0x30, word_of_nat (nR + nS + 4), 0x02, word_of_nat nR]"
    using take_four [of v] assms(1,2,4) word_of_unat_eq [OF assms(3)] word_of_unat_eq [OF assms(5)] by simp
  have m: "take 2 (drop (4 + nR) v) = [0x02, word_of_nat nS]"
    using assms by (simp add: take_two word_of_unat_eq add.commute add.left_commute)
  have "v = take 4 v @ take nR (drop 4 v) @ take 2 (drop (4 + nR) v) @ take nS (drop (6 + nR) v) @
      drop (6 + nR + nS) v"
    using append_take_drop_id [of 4 v] drop_split [of 4 v nR] drop_split [of "4 + nR" v 2]
      drop_split [of "6 + nR" v nS] by (simp add: add.commute add.left_commute)
  then show ?thesis
    using assms(1) by (simp add: der_sig_def h m)
qed


definition valid_hash_type :: "byte \<Rightarrow> bool" where
  "valid_hash_type t \<longleftrightarrow> unat (t AND NOT 0x80) \<in> {1..3}"

definition is_der_signature :: "bytes \<Rightarrow> bool \<Rightarrow> bool \<Rightarrow> bool" where
  "is_der_signature v fWithHashType fCheckLow \<longleftrightarrow>
     (\<exists>R S t. v = der_sig R S @ (if fWithHashType then [t] else []) \<and>
        9 \<le> length v \<and> length v \<le> 73 \<and> der_int R \<and> der_int S \<and>
        (fWithHashType \<longrightarrow> valid_hash_type t) \<and>
        (fCheckLow \<longrightarrow> 0 < be_nat S \<and> be_nat S \<le> (secp256k1_order - 1) div 2))"

lemma IsDERSignature_complete:
  assumes "v = der_sig R S @ (if w then [t] else [])" and "9 \<le> length v" "length v \<le> 73"
    and "der_int R" "der_int S" "w \<longrightarrow> valid_hash_type t"
    and "low \<longrightarrow> 0 < be_nat S \<and> be_nat S \<le> (secp256k1_order - 1) div 2"
  shows "IsDERSignature v w low = Some True"
proof -
  have l: "length v = 6 + length R + length S + (if w then 1 else 0)"
    by (simp add: assms(1) der_sig_def)
  have u: "unat (word_of_nat (length R + length S + 4) :: byte) = length R + length S + 4"
    "unat (word_of_nat (length R) :: byte) = length R" "unat (word_of_nat (length S) :: byte) = length S"
    using l assms(3) by (simp_all add: unat_byte_of_nat del: of_nat_add)
  have n: "v ! 3 = word_of_nat (length R)" "v ! (5 + length R) = word_of_nat (length S)"
    "v ! 0 = 0x30" "v ! 1 = word_of_nat (length R + length S + 4)" "v ! 2 = 0x02" "v ! (4 + length R) = 0x02"
    "w \<Longrightarrow> v ! (length v - 1) = t"
    unfolding assms(1) by (simp_all add: der_sig_def nth_append)
  have s: "take (length R) (drop 4 v) = R" "take (length S) (drop (6 + length R) v) = S"
    unfolding assms(1) by (simp_all add: der_sig_def numeral_eq_Suc)
  show ?thesis
    unfolding IsDERSignature_cond Let_def n u s
    using assms l n(7) by (auto simp: CheckSignatureElement_range valid_hash_type_def)
qed

lemma IsDERSignature_sound:
  assumes "IsDERSignature v w low = Some True"
  shows "is_der_signature v w low"
proof -
  define nR nS where "nR = unat (v ! 3)" and "nS = unat (v ! (5 + nR))"
  let ?R = "take nR (drop 4 v)" and ?S = "take nS (drop (6 + nR) v)"
  have c: "9 \<le> length v" "length v \<le> 73" "v ! 0 = 0x30" "unat (v ! 1) = length v - (if w then 3 else 2)"
    "w \<longrightarrow> unat (v ! (length v - 1) AND NOT 0x80) \<in> {1..3}"
    "nR + nS + (if w then 7 else 6) = length v" "v ! 2 = 0x02" "der_int ?R"
    "v ! (4 + nR) = 0x02" "der_int ?S" "low \<longrightarrow> CheckSignatureElement ?S True"
    using assms unfolding IsDERSignature_cond Let_def option.inject simp_thms nR_def [symmetric] nS_def [symmetric]
    by auto
  have v: "v = der_sig ?R ?S @ drop (6 + nR + nS) v"
    using c by (intro der_sig_slices [of v nR nS "if w then 1 else 0"]) (auto simp: nR_def nS_def split: if_splits)
  have t: "drop (6 + nR + nS) v = (if w then [v ! (length v - 1)] else [])"
  proof (cases w)
    case True
    with c(6) have "6 + nR + nS < length v" "length v - 1 = 6 + nR + nS" by auto
    with True show ?thesis by (simp add: Cons_nth_drop_Suc [symmetric])
  next
    case False
    with c(6) show ?thesis by simp
  qed
  show ?thesis
    unfolding is_der_signature_def
    using c v t by (intro exI [of _ ?R] exI [of _ ?S] exI [of _ "v ! (length v - 1)"])
      (auto simp: valid_hash_type_def CheckSignatureElement_range)
qed


section \<open>Truth values and minimal pushes\<close>

lemma CastToBool_snoc: "CastToBool (init @ [b]) \<longleftrightarrow> (\<exists>c \<in> set init. c \<noteq> 0) \<or> (b \<noteq> 0 \<and> b \<noteq> 0x80)"
  by (induction init) auto

lemma byte_mod_128_zero: "unat (b :: byte) mod 128 = 0 \<longleftrightarrow> b = 0 \<or> b = 0x80"
proof
  assume "unat b mod 128 = 0"
  then have "unat b = 0 \<or> unat b = 128" using unat_byte_less [of b] by presburger
  then show "b = 0 \<or> b = 0x80" by (auto simp: unat_eq_zero dest: word_of_unat_eq)
qed auto

lemma CastToBool_set_vch: "CastToBool vch \<longleftrightarrow> set_vch vch \<noteq> 0"
proof (cases vch rule: rev_cases)
  case (snoc init b)
  have "vch_mag init b \<noteq> 0 \<longleftrightarrow> (\<exists>c \<in> set init. c \<noteq> 0) \<or> unat b mod 128 \<noteq> 0"
    by (auto simp: vch_mag_def le_nat_pos_iff [symmetric])
  then show ?thesis
    by (simp add: snoc set_vch_snoc CastToBool_snoc byte_mod_128_zero)
qed simp

text \<open>The encodings of a push of \<open>data\<close>, by opcode.\<close>

lemma push_encoding:
  assumes "GetScriptOp c = Inr (opcode, data, [])" and "opcode \<le> OP_PUSHDATA4"
  shows "c = word_of_nat opcode #
      (if opcode < OP_PUSHDATA1 then []
       else le_bytes (if opcode = OP_PUSHDATA1 then 1 else if opcode = OP_PUSHDATA2 then 2 else 4) (length data)) @
      data \<and> (opcode < OP_PUSHDATA1 \<longrightarrow> opcode = length data)"
proof -
  obtain b pc1 where c: "c = b # pc1" using assms(1) by (cases c) auto
  from assms obtain n pc2 where p: "push_size opcode pc1 = Inr (n, pc2)" "n \<le> length pc2"
    and b: "opcode = unat b" and d: "data = take n pc2" "drop n pc2 = []"
    by (auto simp: c GetScriptOp_def Let_def split: sum.splits if_splits)
  then have n: "n = length data" "pc2 = data" by auto
  have le: "k \<le> length pc1 \<Longrightarrow> pc1 = le_bytes k (le_nat (take k pc1)) @ drop k pc1" for k
    using le_bytes_le_nat [of "take k pc1"] by simp
  have b': "b = word_of_nat opcode" by (simp add: b)
  consider "opcode < OP_PUSHDATA1" | "opcode = OP_PUSHDATA1" | "opcode = OP_PUSHDATA2" | "opcode = OP_PUSHDATA4"
    using assms(2) by linarith
  then show ?thesis
  proof cases
    case 2
    then obtain x where x: "pc1 = x # data" "unat x = length data"
      using p(1) n by (auto simp: push_size_def split: list.splits)
    have "le_bytes 1 (length data) = [x]" by (simp flip: x(2))
    with 2 x show ?thesis by (simp add: c b')
  next
    case 3
    then show ?thesis
      using p(1) n le [of 2] by (auto simp: c b' push_size_def ReadLE16_def split: if_splits)
  next
    case 4
    then show ?thesis
      using p(1) n le [of 4] by (auto simp: c b' push_size_def ReadLE32_def split: if_splits)
  qed (use p(1) n in \<open>auto simp: c b' push_size_def\<close>)
qed

lemma serialize_single:
  assumes "n \<noteq> 0" and "\<bar>n\<bar> < 128"
  obtains b where "serialize n = [b]" "n = (if 128 \<le> unat b then - int (unat b mod 128) else int (unat b mod 128))"
proof -
  have "length (serialize n) \<le> 1" using length_serialize [of n 1] assms by simp
  moreover have "serialize n \<noteq> []" using set_vch_serialize [of n] assms by auto
  ultimately obtain b where b: "serialize n = [b]"
    by (cases "serialize n") auto
  then have "n = set_vch ([] @ [b])" using set_vch_serialize [of n] by simp
  then show ?thesis
    using b that unfolding set_vch_snoc by (simp add: vch_mag_def)
qed

section \<open>Properties\<close>

text \<open>
  C33. \<^verbatim>\<open>IsDERSignature\<close> never reads outside the signature, and it accepts exactly the strict DER
  signatures: the encoding of two non-negative integers without excess padding, of 9 to 73
  bytes in all, followed by a known hash type where one is expected; with \<^verbatim>\<open>fCheckLow\<close> the
  number \<open>S\<close> is between 1 and half the order of the group.
\<close>

theorem IsDERSignature_iff_der:
  "IsDERSignature vchSig fWithHashType fCheckLow = Some (is_der_signature vchSig fWithHashType fCheckLow)"
proof -
  have "IsDERSignature vchSig fWithHashType fCheckLow = Some True \<longleftrightarrow> is_der_signature vchSig fWithHashType fCheckLow"
    using IsDERSignature_sound IsDERSignature_complete [of vchSig _ _ fWithHashType _ fCheckLow]
    unfolding is_der_signature_def by metis
  moreover obtain b where "IsDERSignature vchSig fWithHashType fCheckLow = Some b"
    using IsDERSignature_cond by blast
  ultimately show ?thesis by auto
qed

text \<open>
  Under the minimal-push rule a push of at most 65535 bytes has one encoding: if the reader
  returns \<open>data\<close> with an opcode that \<^verbatim>\<open>CheckMinimalPush\<close> accepts, the bytes read are those
  \<^verbatim>\<open>operator<<\<close> writes for \<open>data\<close>, and \<open>data\<close> is no value that an opcode pushes alone.
\<close>

theorem minimal_push_unique:
  assumes "GetScriptOp c = Inr (opcode, data, [])" and "opcode \<le> OP_PUSHDATA4"
    and "length data \<le> 65535" and "CheckMinimalPush data opcode = Some True"
  shows "c = push_vector data \<and> (\<forall>n. data = serialize n \<longrightarrow> n = 0 \<or> n \<notin> {- 1..16})"
proof (intro conjI allI impI)
  show "c = push_vector data"
    using push_encoding [OF assms(1,2)] assms(2-4)
    by (simp add: CheckMinimalPush_def push_vector_def split: if_splits)
  fix n assume d: "data = serialize n"
  show "n = 0 \<or> n \<notin> {- 1..16}"
  proof (rule ccontr)
    assume "\<not> (n = 0 \<or> n \<notin> {- 1..16})"
    then have n: "n \<noteq> 0" "\<bar>n\<bar> < 128" "n \<in> {- 1..16}" by auto
    then obtain b where b: "serialize n = [b]"
      "n = (if 128 \<le> unat b then - int (unat b mod 128) else int (unat b mod 128))"
      by (elim serialize_single)
    have "\<not> (1 \<le> unat b \<and> unat b \<le> 16)" "unat b \<noteq> 129"
      using assms(4) unfolding d b(1)
      by (auto simp: CheckMinimalPush_def word_le_nat_alt split: if_splits dest: word_of_unat_eq)
    moreover have False if "m < 256" "n = (if 128 \<le> m then - int (m mod 128) else int (m mod 128))"
      "\<not> (1 \<le> m \<and> m \<le> 16)" "m \<noteq> 129" for m
    proof (cases "128 \<le> m")
      case True
      with that(1) have "m mod 128 = m - 128" by (simp add: mod_if)
      with n that True show ?thesis by auto
    next
      case False
      with n that show ?thesis by auto
    qed
    ultimately show False
      using b(2) unat_byte_less [of b] by blast
  qed
qed
theorem minimal_push_unique_witness:
  "GetScriptOp [0x02, 0x10, 0x27] = Inr (2, [0x10, 0x27], []) \<and> CheckMinimalPush [0x10, 0x27] 2 = Some True \<and>
   [0x02, 0x10, 0x27] = push_vector [0x10, 0x27]"
proof -
  have "GetScriptOp [0x02, 0x10, 0x27] = Inr (2, [0x10, 0x27], [])" "CheckMinimalPush [0x10, 0x27] 2 = Some True"
    by (simp_all add: GetScriptOp_def push_size_def CheckMinimalPush_def)
  with minimal_push_unique [OF this(1) _ _ this(2)] show ?thesis by simp
qed

text \<open>
  The truth value of a vector is that of the number it encodes: for every vector that
  \<^verbatim>\<open>CScriptNum\<close> accepts, \<^verbatim>\<open>CastToBool\<close> is false exactly for the number zero, so also for the
  negative zeros.
\<close>

theorem CastToBool_CScriptNum:
  assumes "CScriptNum vch fRequireMinimal k = Inr n"
  shows "CastToBool vch \<longleftrightarrow> n \<noteq> 0"
  using assms by (auto simp: CastToBool_set_vch CScriptNum_eq split: if_splits)

theorem CastToBool_CScriptNum_witness:
  "CScriptNum [0x00, 0x80] False 4 = Inr 0 \<and> \<not> CastToBool [0x00, 0x80]"
proof -
  have "CScriptNum [0x00, 0x80] False 4 = Inr 0" by (simp add: CScriptNum_def set_vch_def)
  with CastToBool_CScriptNum [OF this] show ?thesis by simp
qed

end
