(* ===== verification/Serialize.thy ===== *)
theory Serialize
  imports Script_Ops "HOL-Library.Monad_Syntax"
begin

text \<open>
  Streams and the serialised form of integers, vectors and pairs
  (\<^verbatim>\<open>src/src/serialize.h\<close>). A stream that is written to is the list of its bytes, a
  stream that is read from the list of the bytes not yet read; the integers are written in
  memory order, little-endian. A read that throws \<^verbatim>\<open>std::ios_base::failure\<close> is \<open>Inl\<close>.

  The locale \<open>codec\<close> is the contract of a type with \<^verbatim>\<open>Serialize\<close> and \<^verbatim>\<open>Unserialize\<close>: a well-formed
  value is read back, and a successful read consumed exactly the bytes the writer emits for its
  result. Both follow for pairs and vectors from their parts, so every serialised type of the
  development is an interpretation.
\<close>

datatype ser_error = EndOfData | NonCanonical | SizeTooLarge

type_synonym 'a reader = "bytes \<Rightarrow> ser_error + ('a \<times> bytes)"

definition MAX_SIZE :: nat where
  "MAX_SIZE = 0x02000000"

text \<open>\<^verbatim>\<open>CDataStream::read\<close> of a number of bytes.\<close>

definition stream_read :: "nat \<Rightarrow> bytes reader" where
  "stream_read nSize s = (if length s < nSize then Inl EndOfData else Inr (take nSize s, drop nSize s))"

definition bind_reader :: "'a reader \<Rightarrow> ('a \<Rightarrow> 'b reader) \<Rightarrow> 'b reader" where
  "bind_reader r f s = (case r s of Inl e \<Rightarrow> Inl e | Inr (x, s') \<Rightarrow> f x s')"

definition return_reader :: "'a \<Rightarrow> 'a reader" where
  "return_reader x s = Inr (x, s)"

definition fail_reader :: "ser_error \<Rightarrow> 'a reader" where
  "fail_reader e s = Inl e"

text \<open>\<^verbatim>\<open>WRITEDATA\<close> and \<^verbatim>\<open>READDATA\<close> of an unsigned or signed integer of \<open>LENGTH('a) div 8\<close> bytes.\<close>

definition Serialize_word :: "'a :: len word \<Rightarrow> bytes" where
  "Serialize_word a = le_bytes (LENGTH('a) div 8) (unat a)"

definition Unserialize_word :: "'a :: len word reader" where
  "Unserialize_word =
     bind_reader (stream_read (LENGTH('a) div 8)) (\<lambda>bs. return_reader (word_of_nat (le_nat bs)))"

section \<open>Compact sizes\<close>

definition GetSizeOfCompactSize :: "nat \<Rightarrow> nat" where
  "GetSizeOfCompactSize nSize =
     (if nSize < 253 then 1 else if nSize \<le> 0xffff then 1 + 2 else if nSize \<le> 0xffffffff then 1 + 4 else 1 + 8)"

definition WriteCompactSize :: "nat \<Rightarrow> bytes" where
  "WriteCompactSize nSize =
     (if nSize < 253 then [word_of_nat nSize]
      else if nSize \<le> 0xffff then 253 # le_bytes 2 nSize
      else if nSize \<le> 0xffffffff then 254 # le_bytes 4 nSize
      else 255 # le_bytes 8 nSize)"

text \<open>The cases with a multi-byte size: it must need that many bytes.\<close>

definition read_sized :: "nat \<Rightarrow> nat \<Rightarrow> nat reader" where
  "read_sized k lowest =
     bind_reader (stream_read k)
       (\<lambda>x. if le_nat x < lowest then fail_reader NonCanonical else return_reader (le_nat x))"

definition ReadCompactSize :: "nat reader" where
  "ReadCompactSize =
     bind_reader (stream_read 1) (\<lambda>b.
     let chSize = le_nat b in
     bind_reader
       (if chSize < 253 then return_reader chSize
        else if chSize = 253 then read_sized 2 253
        else if chSize = 254 then read_sized 4 0x10000
        else read_sized 8 0x100000000)
       (\<lambda>nSizeRet. if nSizeRet > MAX_SIZE then fail_reader SizeTooLarge else return_reader nSizeRet))"

section \<open>Vectors and pairs\<close>

text \<open>A vector of bytes: the code reads it in blocks of at most 5000000 bytes.\<close>

definition Serialize_bytes :: "bytes \<Rightarrow> bytes" where
  "Serialize_bytes v = WriteCompactSize (length v) @ v"

function read_blocks :: "nat \<Rightarrow> nat \<Rightarrow> bytes \<Rightarrow> bytes reader" where
  "read_blocks i nSize v =
     (if i < nSize
      then bind_reader (stream_read (min (nSize - i) 5000000))
             (\<lambda>bs. read_blocks (i + min (nSize - i) 5000000) nSize (v @ bs))
      else return_reader v)"
  by pat_completeness auto
termination
  by (relation "measure (\<lambda>(i, nSize, _). nSize - i)") auto

definition Unserialize_bytes :: "bytes reader" where
  "Unserialize_bytes = bind_reader ReadCompactSize (\<lambda>nSize. read_blocks 0 nSize [])"

text \<open>
  A vector of objects: the code grows the vector in steps of 5000000 bytes and reads the
  elements in order.
\<close>

definition Serialize_vector :: "('a \<Rightarrow> bytes) \<Rightarrow> 'a list \<Rightarrow> bytes" where
  "Serialize_vector ser v = WriteCompactSize (length v) @ concat (map ser v)"

fun read_elems :: "'a reader \<Rightarrow> nat \<Rightarrow> 'a list reader" where
  "read_elems unser 0 = return_reader []"
| "read_elems unser (Suc n) =
     bind_reader unser (\<lambda>x. bind_reader (read_elems unser n) (\<lambda>xs. return_reader (x # xs)))"

definition Unserialize_vector :: "'a reader \<Rightarrow> 'a list reader" where
  "Unserialize_vector unser = bind_reader ReadCompactSize (\<lambda>nSize. read_elems unser nSize)"

definition Serialize_pair :: "('a \<Rightarrow> bytes) \<Rightarrow> ('b \<Rightarrow> bytes) \<Rightarrow> 'a \<times> 'b \<Rightarrow> bytes" where
  "Serialize_pair ser1 ser2 item = ser1 (fst item) @ ser2 (snd item)"

definition Unserialize_pair :: "'a reader \<Rightarrow> 'b reader \<Rightarrow> ('a \<times> 'b) reader" where
  "Unserialize_pair unser1 unser2 =
     bind_reader unser1 (\<lambda>x. bind_reader unser2 (\<lambda>y. return_reader (x, y)))"

declare read_blocks.simps [simp del]

section \<open>The contract of a serialised type\<close>

locale codec =
  fixes ser :: "'a \<Rightarrow> bytes" and unser :: "'a reader" and ok :: "'a \<Rightarrow> bool"
  assumes read_back: "ok x \<Longrightarrow> unser (ser x @ rest) = Inr (x, rest)"
    and read_exact: "unser s = Inr (x, rest) \<Longrightarrow> ok x \<and> s = ser x @ rest"
begin

lemma unser_iff: "unser s = Inr (x, rest) \<longleftrightarrow> ok x \<and> s = ser x @ rest"
  using read_back read_exact by blast

lemma prefix_free: "ok x \<Longrightarrow> ok y \<Longrightarrow> ser x @ r = ser y @ t \<Longrightarrow> x = y \<and> r = t"
  by (metis read_back prod.inject sum.inject(2))

lemma ser_inj: "ok x \<Longrightarrow> ok y \<Longrightarrow> ser x = ser y \<Longrightarrow> x = y"
  using prefix_free [of x y "[]" "[]"] by simp

lemma read_elems_iff:
  "read_elems unser n s = Inr (xs, rest) \<longleftrightarrow>
     length xs = n \<and> list_all ok xs \<and> s = concat (map ser xs) @ rest"
proof (induction n arbitrary: s xs)
  case 0
  then show ?case by (auto simp: return_reader_def)
next
  case (Suc n)
  show ?case
  proof
    assume "read_elems unser (Suc n) s = Inr (xs, rest)"
    then obtain x s' ys where "unser s = Inr (x, s')" "read_elems unser n s' = Inr (ys, rest)" "xs = x # ys"
      by (auto simp: bind_reader_def return_reader_def split: sum.splits)
    then show "length xs = Suc n \<and> list_all ok xs \<and> s = concat (map ser xs) @ rest"
      using Suc unser_iff by auto
  next
    assume r: "length xs = Suc n \<and> list_all ok xs \<and> s = concat (map ser xs) @ rest"
    then obtain x ys where xs: "xs = x # ys" by (cases xs) auto
    have "read_elems unser n (concat (map ser ys) @ rest) = Inr (ys, rest)"
      using Suc r xs by auto
    with r xs show "read_elems unser (Suc n) s = Inr (xs, rest)"
      by (simp add: bind_reader_def return_reader_def read_back)
  qed
qed

end

section \<open>Integers\<close>

lemma bind_reader_Inr:
  "bind_reader r f s = Inr y \<longleftrightarrow> (\<exists>x s'. r s = Inr (x, s') \<and> f x s' = Inr y)"
  by (auto simp: bind_reader_def split: sum.splits)

lemma stream_read_Inr:
  "stream_read k s = Inr (x, s') \<longleftrightarrow> length x = k \<and> s = x @ s'"
  by (auto simp: stream_read_def)

lemma stream_read_append: "length x = k \<Longrightarrow> stream_read k (x @ s') = Inr (x, s')"
  by (simp add: stream_read_Inr)

lemma codec_word: "LENGTH('a) = 8 * k \<Longrightarrow> codec Serialize_word (Unserialize_word :: 'a :: len word reader) (\<lambda>_. True)"
proof
  fix x :: "'a word" and rest
  assume k: "LENGTH('a) = 8 * k"
  have p: "256 ^ k = (2 :: nat) ^ LENGTH('a)" by (simp add: k power_mult)
  have "unat x < 2 ^ LENGTH('a)" by (rule unsigned_less)
  then have "unat x < 256 ^ k" by (simp add: p)
  then show "Unserialize_word (Serialize_word x @ rest) = Inr (x, rest)"
    using k by (simp add: Serialize_word_def Unserialize_word_def bind_reader_def stream_read_append
        return_reader_def le_nat_le_bytes)
next
  fix s rest :: bytes and x :: "'a word"
  assume k: "LENGTH('a) = 8 * k" and r: "Unserialize_word s = Inr (x, rest)"
  then obtain bs where bs: "length bs = k" "s = bs @ rest" "x = word_of_nat (le_nat bs)"
    by (auto simp: Unserialize_word_def bind_reader_Inr stream_read_Inr return_reader_def)
  have p: "256 ^ k = (2 :: nat) ^ LENGTH('a)" by (simp add: k power_mult)
  then have "unat (word_of_nat (le_nat bs) :: 'a word) = le_nat bs"
    using le_nat_less [of bs] bs(1) by (simp add: unat_of_nat take_bit_eq_mod)
  then show "True \<and> s = Serialize_word x @ rest"
    using bs k le_bytes_le_nat [of bs] by (simp add: Serialize_word_def)
qed

interpretation codec_uint8: codec Serialize_word "Unserialize_word :: 8 word reader" "\<lambda>_. True"
  by (rule codec_word [of 1]) simp

interpretation codec_uint32: codec Serialize_word "Unserialize_word :: 32 word reader" "\<lambda>_. True"
  by (rule codec_word [of 4]) simp

interpretation codec_uint64: codec Serialize_word "Unserialize_word :: 64 word reader" "\<lambda>_. True"
  by (rule codec_word [of 8]) simp

interpretation codec_uint256: codec Serialize_word "Unserialize_word :: 256 word reader" "\<lambda>_. True"
  by (rule codec_word [of 32]) simp


section \<open>Compact sizes and vectors\<close>

lemma GetSizeOfCompactSize_length: "length (WriteCompactSize nSize) = GetSizeOfCompactSize nSize"
  by (simp add: WriteCompactSize_def GetSizeOfCompactSize_def)

lemma read_sized_Inr:
  "read_sized k lowest s = Inr (n, rest) \<longleftrightarrow> lowest \<le> n \<and> n < 256 ^ k \<and> s = le_bytes k n @ rest"
proof
  assume "read_sized k lowest s = Inr (n, rest)"
  then obtain x where "length x = k" "s = x @ rest" "n = le_nat x" "lowest \<le> n"
    by (auto simp: read_sized_def bind_reader_Inr stream_read_Inr return_reader_def fail_reader_def split: if_splits)
  then show "lowest \<le> n \<and> n < 256 ^ k \<and> s = le_bytes k n @ rest"
    using le_nat_less [of x] le_bytes_le_nat [of x] by auto
next
  assume "lowest \<le> n \<and> n < 256 ^ k \<and> s = le_bytes k n @ rest"
  then show "read_sized k lowest s = Inr (n, rest)"
    by (auto simp: read_sized_def bind_reader_def stream_read_append return_reader_def)
qed

lemma ReadCompactSize_Cons:
  "ReadCompactSize (b # s) = Inr (n, rest) \<longleftrightarrow>
     n \<le> MAX_SIZE \<and>
     (if unat b < 253 then n = unat b \<and> rest = s
      else read_sized (if unat b = 253 then 2 else if unat b = 254 then 4 else 8)
             (if unat b = 253 then 253 else if unat b = 254 then 0x10000 else 0x100000000) s = Inr (n, rest))"
  by (auto simp: ReadCompactSize_def bind_reader_def stream_read_def return_reader_def fail_reader_def
      split: sum.splits if_splits)

lemma ReadCompactSize_iff: "ReadCompactSize s = Inr (n, rest) \<longleftrightarrow> n \<le> MAX_SIZE \<and> s = WriteCompactSize n @ rest"
proof (cases s)
  case Nil
  then show ?thesis
    by (simp add: ReadCompactSize_def WriteCompactSize_def bind_reader_def stream_read_def)
next
  case (Cons b s')
  have b: "b = 253 \<longleftrightarrow> unat b = 253" "b = 254 \<longleftrightarrow> unat b = 254" "b = 255 \<longleftrightarrow> unat b = 255"
    by (auto dest: arg_cong [of _ _ "word_of_nat :: nat \<Rightarrow> byte"])
  have u: "unat b \<le> 255" using unat_byte_less [of b] by linarith
  have w: "b = word_of_nat n \<longleftrightarrow> unat b = n" if "n < 253"
    using that by (auto simp: unat_of_nat take_bit_eq_mod)
  show ?thesis
  proof (cases "unat b < 253")
    case True
    then show ?thesis
      using w b by (auto simp: Cons ReadCompactSize_Cons WriteCompactSize_def)
  next
    case False
    then consider "unat b = 253" | "unat b = 254" | "unat b = 255" using u by linarith
    then show ?thesis
      using b w by cases (auto simp: Cons ReadCompactSize_Cons WriteCompactSize_def read_sized_Inr MAX_SIZE_def)
  qed
qed

interpretation codec_compact_size: codec WriteCompactSize ReadCompactSize "\<lambda>n. n \<le> MAX_SIZE"
  by unfold_locales (simp_all add: ReadCompactSize_iff)

lemma read_blocks_iff:
  assumes "i \<le> nSize"
  shows "read_blocks i nSize v s = Inr (w, rest) \<longleftrightarrow> (\<exists>x. length x = nSize - i \<and> w = v @ x \<and> s = x @ rest)"
  using assms
proof (induction i nSize v arbitrary: s rule: read_blocks.induct)
  case (1 i nSize v)
  show ?case
  proof (cases "i < nSize")
    case False
    with "1.prems" show ?thesis by (auto simp: read_blocks.simps [of i] read_blocks.simps [of nSize] return_reader_def)
  next
    case True
    let ?k = "min (nSize - i) 5000000"
    have "read_blocks i nSize v s = Inr (w, rest) \<longleftrightarrow>
        (\<exists>bs s'. length bs = ?k \<and> s = bs @ s' \<and> read_blocks (i + ?k) nSize (v @ bs) s' = Inr (w, rest))"
      using True by (simp add: read_blocks.simps [of i] bind_reader_Inr stream_read_Inr)
    also have "\<dots> \<longleftrightarrow> (\<exists>bs s' x. length bs = ?k \<and> s = bs @ s' \<and>
        length x = nSize - (i + ?k) \<and> w = (v @ bs) @ x \<and> s' = x @ rest)"
      using "1.IH" [OF True, of _ _] True by simp
    also have "\<dots> \<longleftrightarrow> (\<exists>x. length x = nSize - i \<and> w = v @ x \<and> s = x @ rest)"
      (is "?l \<longleftrightarrow> ?r")
    proof
      assume ?l
      then obtain bs s' x where "length bs = ?k" "s = bs @ s'" "length x = nSize - (i + ?k)"
        "w = (v @ bs) @ x" "s' = x @ rest" by blast
      with True show ?r by (intro exI [of _ "bs @ x"]) auto
    next
      assume ?r
      then obtain x where "length x = nSize - i" "w = v @ x" "s = x @ rest" by blast
      then show ?l
        by (intro exI [of _ "take ?k x"] exI [of _ "drop ?k x @ rest"] exI [of _ "drop ?k x"]) auto
    qed
    finally show ?thesis .
  qed
qed

interpretation codec_bytes: codec Serialize_bytes Unserialize_bytes "\<lambda>v. length v \<le> MAX_SIZE"
proof
  have iff: "Unserialize_bytes s = Inr (v, rest) \<longleftrightarrow> length v \<le> MAX_SIZE \<and> s = Serialize_bytes v @ rest" for s v rest
    by (auto simp: Unserialize_bytes_def Serialize_bytes_def bind_reader_Inr ReadCompactSize_iff read_blocks_iff)
  show "Unserialize_bytes (Serialize_bytes v @ rest) = Inr (v, rest)" if "length v \<le> MAX_SIZE" for v rest
    using that by (simp add: iff)
  show "length v \<le> MAX_SIZE \<and> s = Serialize_bytes v @ rest" if "Unserialize_bytes s = Inr (v, rest)" for s v rest
    using that by (simp add: iff)
qed

text \<open>Vectors and pairs of serialised types are serialised types.\<close>

lemma codec_vector:
  assumes "codec ser unser ok"
  shows "codec (Serialize_vector ser) (Unserialize_vector unser) (\<lambda>v. length v \<le> MAX_SIZE \<and> list_all ok v)"
proof -
  have iff: "Unserialize_vector unser s = Inr (v, rest) \<longleftrightarrow>
      (length v \<le> MAX_SIZE \<and> list_all ok v) \<and> s = Serialize_vector ser v @ rest" for s v rest
    by (auto simp: Unserialize_vector_def Serialize_vector_def bind_reader_Inr ReadCompactSize_iff
        codec.read_elems_iff [OF assms])
  show ?thesis by unfold_locales (simp_all add: iff)
qed

lemma codec_pair:
  assumes "codec ser1 unser1 wf1" and "codec ser2 unser2 wf2"
  shows "codec (Serialize_pair ser1 ser2) (Unserialize_pair unser1 unser2) (\<lambda>(x, y). wf1 x \<and> wf2 y)"
proof -
  have iff: "Unserialize_pair unser1 unser2 s = Inr (p, rest) \<longleftrightarrow>
      (case p of (x, y) \<Rightarrow> wf1 x \<and> wf2 y) \<and> s = Serialize_pair ser1 ser2 p @ rest" for s p rest
    by (cases p) (auto simp: Unserialize_pair_def Serialize_pair_def bind_reader_Inr return_reader_def
        codec.unser_iff [OF assms(1)] codec.unser_iff [OF assms(2)])
  show ?thesis by unfold_locales (simp_all add: iff)
qed

end
