(* ===== verification/Tx.thy ===== *)
theory Tx
  imports Serialize
begin

text \<open>
  Transactions (\<^verbatim>\<open>src/src/block/transaction.h\<close>): the data types with the predicates on them, and
  their serialised form. A field is named after its accessor. Amounts, versions and hash types
  are words of the width of the C++ type, read with \<open>sint\<close> where the type is signed.

  \<^verbatim>\<open>CTransaction::SerializationOp\<close> asserts that the version of the object is 1 or 2; \<open>None\<close> and
  \<open>TxAssert\<close> are that failure. \<^verbatim>\<open>const/assumptions.h\<close> refuses to compile without assertions.
\<close>

section \<open>Data\<close>

record COutPoint =
  get_hash :: uint256
  get_n :: "32 word"

record CTxIn =
  get_prevout :: COutPoint
  get_scriptSig :: bytes
  get_nSequence :: "32 word"
  get_scriptWitness :: "bytes list"

record CTxOut =
  get_nValue :: "64 word"
  get_scriptPubKey :: bytes

record CTransaction =
  get_nVersion :: "32 word"
  get_nTime :: "32 word"
  get_vin :: "CTxIn list"
  get_vout :: "CTxOut list"
  get_nLockTime :: "32 word"

abbreviation (input) SEQUENCE_FINAL :: "32 word" where "SEQUENCE_FINAL \<equiv> 0xffffffff"
abbreviation (input) SEQUENCE_LOCKTIME_DISABLE_FLAG :: "32 word" where "SEQUENCE_LOCKTIME_DISABLE_FLAG \<equiv> 0x80000000"
abbreviation (input) SEQUENCE_LOCKTIME_TYPE_FLAG :: "32 word" where "SEQUENCE_LOCKTIME_TYPE_FLAG \<equiv> 0x00400000"
abbreviation (input) SEQUENCE_LOCKTIME_MASK :: "32 word" where "SEQUENCE_LOCKTIME_MASK \<equiv> 0x0000ffff"
abbreviation (input) LOCKTIME_THRESHOLD :: int where "LOCKTIME_THRESHOLD \<equiv> 500000000"

definition COutPoint_null :: COutPoint where
  "COutPoint_null = \<lparr> get_hash = 0, get_n = 0xffffffff \<rparr>"

definition COutPoint_IsNull :: "COutPoint \<Rightarrow> bool" where
  "COutPoint_IsNull p \<longleftrightarrow> get_hash p = 0 \<and> get_n p = 0xffffffff"

definition COutPoint_less :: "COutPoint \<Rightarrow> COutPoint \<Rightarrow> bool" where
  "COutPoint_less a b \<longleftrightarrow> get_hash a < get_hash b \<or> (get_hash a = get_hash b \<and> get_n a < get_n b)"

definition CTxIn_IsFinal :: "CTxIn \<Rightarrow> bool" where
  "CTxIn_IsFinal txin \<longleftrightarrow> get_nSequence txin = SEQUENCE_FINAL"

definition CTxOut_SetNull :: CTxOut where
  "CTxOut_SetNull = \<lparr> get_nValue = - 1, get_scriptPubKey = [] \<rparr>"

definition CTxOut_IsNull :: "CTxOut \<Rightarrow> bool" where
  "CTxOut_IsNull txout \<longleftrightarrow> get_nValue txout = - 1"

definition CTxOut_IsEmpty :: "CTxOut \<Rightarrow> bool" where
  "CTxOut_IsEmpty txout \<longleftrightarrow> get_nValue txout = 0 \<and> get_scriptPubKey txout = []"

definition IsNull :: "CTransaction \<Rightarrow> bool" where
  "IsNull tx \<longleftrightarrow> get_vin tx = [] \<and> get_vout tx = []"

text \<open>The best height and the adjusted time stand in for arguments that are zero.\<close>

definition IsFinal :: "int \<Rightarrow> int \<Rightarrow> CTransaction \<Rightarrow> int \<Rightarrow> int \<Rightarrow> bool" where
  "IsFinal nBestHeight adjustedTime tx nBlockHeight nBlockTime =
     (if get_nLockTime tx = 0 then True
      else let
        nBlockHeight = (if nBlockHeight = 0 then nBestHeight else nBlockHeight);
        nBlockTime = (if nBlockTime = 0 then adjustedTime else nBlockTime);
        nLockTime = uint (get_nLockTime tx)
      in if nLockTime < (if nLockTime < LOCKTIME_THRESHOLD then nBlockHeight else nBlockTime) then True
         else list_all CTxIn_IsFinal (get_vin tx))"

fun newer_loop :: "CTxIn list \<Rightarrow> CTxIn list \<Rightarrow> bool \<Rightarrow> 32 word \<Rightarrow> bool" where
  "newer_loop (a # as) (b # bs) fNewer nLowest =
     (if get_nSequence a \<noteq> get_nSequence b then
        let (fNewer, nLowest) =
              (if get_nSequence a \<le> nLowest then (False, get_nSequence a) else (fNewer, nLowest));
            (fNewer, nLowest) =
              (if get_nSequence b < nLowest then (True, get_nSequence b) else (fNewer, nLowest))
        in newer_loop as bs fNewer nLowest
      else newer_loop as bs fNewer nLowest)"
| "newer_loop _ _ fNewer nLowest = fNewer"

definition IsNewerThan :: "CTransaction \<Rightarrow> CTransaction \<Rightarrow> bool" where
  "IsNewerThan tx old =
     (if length (get_vin tx) \<noteq> length (get_vin old) then False
      else if \<not> list_all2 (\<lambda>a b. get_prevout a = get_prevout b) (get_vin tx) (get_vin old) then False
      else newer_loop (get_vin tx) (get_vin old) False 0xffffffff)"

definition IsCoinBase :: "CTransaction \<Rightarrow> bool" where
  "IsCoinBase tx \<longleftrightarrow>
     length (get_vin tx) = 1 \<and> COutPoint_IsNull (get_prevout (hd (get_vin tx))) \<and> length (get_vout tx) \<ge> 1"

definition IsCoinStake :: "CTransaction \<Rightarrow> bool" where
  "IsCoinStake tx \<longleftrightarrow>
     length (get_vin tx) > 0 \<and> \<not> COutPoint_IsNull (get_prevout (hd (get_vin tx))) \<and>
     length (get_vout tx) \<ge> 2 \<and> CTxOut_IsEmpty (hd (get_vout tx))"

definition HasWitness :: "CTransaction \<Rightarrow> bool" where
  "HasWitness tx \<longleftrightarrow> list_ex (\<lambda>txin. get_scriptWitness txin \<noteq> []) (get_vin tx)"

section \<open>Serialised form\<close>

definition Serialize_COutPoint :: "COutPoint \<Rightarrow> bytes" where
  "Serialize_COutPoint p = Serialize_word (get_hash p) @ Serialize_word (get_n p)"

definition Unserialize_COutPoint :: "COutPoint reader" where
  "Unserialize_COutPoint =
     bind_reader Unserialize_word (\<lambda>h. bind_reader Unserialize_word (\<lambda>n.
     return_reader \<lparr> get_hash = h, get_n = n \<rparr>))"

definition Serialize_CTxIn :: "CTxIn \<Rightarrow> bytes" where
  "Serialize_CTxIn txin =
     Serialize_COutPoint (get_prevout txin) @ Serialize_bytes (get_scriptSig txin) @ Serialize_word (get_nSequence txin)"

definition Unserialize_CTxIn :: "CTxIn reader" where
  "Unserialize_CTxIn =
     bind_reader Unserialize_COutPoint (\<lambda>p. bind_reader Unserialize_bytes (\<lambda>sig. bind_reader Unserialize_word (\<lambda>seq.
     return_reader \<lparr> get_prevout = p, get_scriptSig = sig, get_nSequence = seq, get_scriptWitness = [] \<rparr>)))"

definition Serialize_CTxOut :: "CTxOut \<Rightarrow> bytes" where
  "Serialize_CTxOut txout = Serialize_word (get_nValue txout) @ Serialize_bytes (get_scriptPubKey txout)"

definition Unserialize_CTxOut :: "CTxOut reader" where
  "Unserialize_CTxOut =
     bind_reader Unserialize_word (\<lambda>v. bind_reader Unserialize_bytes (\<lambda>pk.
     return_reader \<lparr> get_nValue = v, get_scriptPubKey = pk \<rparr>))"

text \<open>
  The body of \<^verbatim>\<open>SerializationOp\<close> for a version of 1 or 2, and \<^verbatim>\<open>Serialize\<close>, which tests the version of
  the object. \<^verbatim>\<open>Unserialize\<close> tests the version the object has before it is read: an object that
  was just constructed, as in every caller, has version 1, so the test passes there.
\<close>

definition tx_body :: "CTransaction \<Rightarrow> bytes" where
  "tx_body tx =
     Serialize_word (get_nVersion tx) @ Serialize_word (get_nTime tx) @
     Serialize_vector Serialize_CTxIn (get_vin tx) @ Serialize_vector Serialize_CTxOut (get_vout tx) @
     Serialize_word (get_nLockTime tx)"

definition CTransaction_Serialize :: "CTransaction \<Rightarrow> bytes option" where
  "CTransaction_Serialize tx = (if get_nVersion tx = 1 \<or> get_nVersion tx = 2 then Some (tx_body tx) else None)"

definition CTransaction_Unserialize :: "CTransaction reader" where
  "CTransaction_Unserialize =
     bind_reader Unserialize_word (\<lambda>ver. bind_reader Unserialize_word (\<lambda>time.
     bind_reader (Unserialize_vector Unserialize_CTxIn) (\<lambda>ins. bind_reader (Unserialize_vector Unserialize_CTxOut) (\<lambda>outs.
     bind_reader Unserialize_word (\<lambda>lock.
     return_reader \<lparr> get_nVersion = ver, get_nTime = time, get_vin = ins, get_vout = outs, get_nLockTime = lock \<rparr>)))))"

text \<open>\<^verbatim>\<open>GetSerializeSize\<close> asserts that the version is 1.\<close>

definition CTransaction_GetSerializeSize :: "CTransaction \<Rightarrow> nat option" where
  "CTransaction_GetSerializeSize tx =
     (if get_nVersion tx = 1
      then Some (4 + 4 +
        (GetSizeOfCompactSize (length (get_vin tx)) +
           sum_list (map (\<lambda>i. 36 + (GetSizeOfCompactSize (length (get_scriptSig i)) + length (get_scriptSig i)) + 4) (get_vin tx))) +
        (GetSizeOfCompactSize (length (get_vout tx)) +
           sum_list (map (\<lambda>out. 8 + (GetSizeOfCompactSize (length (get_scriptPubKey out)) + length (get_scriptPubKey out))) (get_vout tx))) +
        4)
      else None)"

text \<open>\<^verbatim>\<open>GetHash\<close> with the hash function \<open>Hash\<close> of \<^verbatim>\<open>hash.h\<close> as an argument.\<close>

definition CTransaction_GetHash :: "(bytes \<Rightarrow> uint256) \<Rightarrow> CTransaction \<Rightarrow> uint256 option" where
  "CTransaction_GetHash Hash tx = map_option Hash (CTransaction_Serialize tx)"

section \<open>The readers meet the contract\<close>

definition wf_txin :: "CTxIn \<Rightarrow> bool" where
  "wf_txin txin \<longleftrightarrow> length (get_scriptSig txin) \<le> MAX_SIZE \<and> get_scriptWitness txin = []"

definition wf_txout :: "CTxOut \<Rightarrow> bool" where
  "wf_txout txout \<longleftrightarrow> length (get_scriptPubKey txout) \<le> MAX_SIZE"

definition wf_tx :: "CTransaction \<Rightarrow> bool" where
  "wf_tx tx \<longleftrightarrow>
     length (get_vin tx) \<le> MAX_SIZE \<and> list_all wf_txin (get_vin tx) \<and>
     length (get_vout tx) \<le> MAX_SIZE \<and> list_all wf_txout (get_vout tx)"

lemmas word_reads = codec_uint32.unser_iff codec_uint64.unser_iff codec_uint256.unser_iff codec_bytes.unser_iff

interpretation codec_outpoint: codec Serialize_COutPoint Unserialize_COutPoint "\<lambda>_. True"
proof -
  have iff: "Unserialize_COutPoint s = Inr (p, rest) \<longleftrightarrow> True \<and> s = Serialize_COutPoint p @ rest" for s p rest
    by (cases p) (auto simp: Unserialize_COutPoint_def Serialize_COutPoint_def bind_reader_Inr return_reader_def word_reads)
  show "codec Serialize_COutPoint Unserialize_COutPoint (\<lambda>_. True)"
    by unfold_locales (simp_all add: iff)
qed

interpretation codec_txin: codec Serialize_CTxIn Unserialize_CTxIn wf_txin
proof -
  have iff: "Unserialize_CTxIn s = Inr (i, rest) \<longleftrightarrow> wf_txin i \<and> s = Serialize_CTxIn i @ rest" for s i rest
    by (cases i) (auto simp: Unserialize_CTxIn_def Serialize_CTxIn_def wf_txin_def bind_reader_Inr return_reader_def
        word_reads codec_outpoint.unser_iff)
  show "codec Serialize_CTxIn Unserialize_CTxIn wf_txin"
    by unfold_locales (simp_all add: iff)
qed

interpretation codec_txout: codec Serialize_CTxOut Unserialize_CTxOut wf_txout
proof -
  have iff: "Unserialize_CTxOut s = Inr (i, rest) \<longleftrightarrow> wf_txout i \<and> s = Serialize_CTxOut i @ rest" for s i rest
    by (cases i) (auto simp: Unserialize_CTxOut_def Serialize_CTxOut_def wf_txout_def bind_reader_Inr return_reader_def
        word_reads)
  show "codec Serialize_CTxOut Unserialize_CTxOut wf_txout"
    by unfold_locales (simp_all add: iff)
qed

interpretation codec_vin: codec "Serialize_vector Serialize_CTxIn" "Unserialize_vector Unserialize_CTxIn"
    "\<lambda>v. length v \<le> MAX_SIZE \<and> list_all wf_txin v"
  by (rule codec_vector) (rule codec_txin.codec_axioms)

interpretation codec_vout: codec "Serialize_vector Serialize_CTxOut" "Unserialize_vector Unserialize_CTxOut"
    "\<lambda>v. length v \<le> MAX_SIZE \<and> list_all wf_txout v"
  by (rule codec_vector) (rule codec_txout.codec_axioms)

interpretation codec_tx: codec tx_body CTransaction_Unserialize wf_tx
proof -
  have iff: "CTransaction_Unserialize s = Inr (tx, rest) \<longleftrightarrow> wf_tx tx \<and> s = tx_body tx @ rest" for s tx rest
    by (cases tx) (auto simp: CTransaction_Unserialize_def tx_body_def wf_tx_def bind_reader_Inr return_reader_def
        word_reads codec_vin.unser_iff codec_vout.unser_iff)
  show "codec tx_body CTransaction_Unserialize wf_tx"
    by unfold_locales (simp_all add: iff)
qed

lemma length_Serialize_word [simp]: "length (Serialize_word (a :: 'a :: len word)) = LENGTH('a) div 8"
  by (simp add: Serialize_word_def)

lemma length_Serialize_bytes [simp]: "length (Serialize_bytes v) = GetSizeOfCompactSize (length v) + length v"
  by (simp add: Serialize_bytes_def GetSizeOfCompactSize_length)

lemma length_Serialize_vector:
  "length (Serialize_vector ser v) = GetSizeOfCompactSize (length v) + sum_list (map (length \<circ> ser) v)"
  by (simp add: Serialize_vector_def GetSizeOfCompactSize_length length_concat)

lemma length_tx_parts [simp]:
  "length (Serialize_CTxIn i) = 36 + (GetSizeOfCompactSize (length (get_scriptSig i)) + length (get_scriptSig i)) + 4"
  "length (Serialize_CTxOut out) = 8 + (GetSizeOfCompactSize (length (get_scriptPubKey out)) + length (get_scriptPubKey out))"
  by (simp_all add: Serialize_CTxIn_def Serialize_COutPoint_def Serialize_CTxOut_def)

lemma length_tx_body:
  "length (tx_body tx) = 4 + 4 +
     (GetSizeOfCompactSize (length (get_vin tx)) + sum_list (map (\<lambda>i. length (Serialize_CTxIn i)) (get_vin tx))) +
     (GetSizeOfCompactSize (length (get_vout tx)) + sum_list (map (\<lambda>out. length (Serialize_CTxOut out)) (get_vout tx))) + 4"
  by (simp add: tx_body_def length_Serialize_vector comp_def del: length_tx_parts)

section \<open>Finality and replacement\<close>

text \<open>Two transactions are not each newer than the other.\<close>

lemma newer_loop_asym:
  assumes "length as = length bs" and "\<not> (fa \<and> fb)"
  shows "\<not> (newer_loop as bs fa nLowest \<and> newer_loop bs as fb nLowest)"
  using assms by (induction as bs arbitrary: fa fb nLowest rule: list_induct2) auto

lemma IsNewerThan_asym: "IsNewerThan tx old \<Longrightarrow> \<not> IsNewerThan old tx"
  using newer_loop_asym [of "get_vin tx" "get_vin old" False False "0xffffffff"]
  by (auto simp: IsNewerThan_def split: if_splits)

text \<open>A transaction that is final stays final as the chain grows.\<close>

lemma IsFinal_mono:
  assumes "IsFinal best now tx h t" and "0 < h" "h \<le> h'" "0 < t" "t \<le> t'"
  shows "IsFinal best now tx h' t'"
  using assms by (auto simp: IsFinal_def Let_def split: if_splits)

section \<open>Properties\<close>

text \<open>
  C31. Reading a transaction back gives the transaction and leaves what follows it; and a read
  that succeeds consumed exactly the bytes of its result, so that every transaction has one
  serialised form, no transaction is a prefix of another, and the serialised size of a
  version-1 transaction is \<^verbatim>\<open>GetSerializeSize\<close>.
\<close>

theorem CTransaction_roundtrip:
  "(CTransaction_Unserialize s = Inr (tx, rest) \<longleftrightarrow> wf_tx tx \<and> s = tx_body tx @ rest) \<and>
   CTransaction_Serialize tx = (if get_nVersion tx \<in> {1, 2} then Some (tx_body tx) else None) \<and>
   CTransaction_GetSerializeSize tx = (if get_nVersion tx = 1 then Some (length (tx_body tx)) else None)"
  by (intro conjI codec_tx.unser_iff)
    (simp_all add: CTransaction_Serialize_def CTransaction_GetSerializeSize_def length_tx_body)

text \<open>
  C32. A transaction read from a peer with a version other than 1 or 2 is accepted by the reader,
  and its hash, which the handler of the \<^verbatim>\<open>tx\<close> message computes next, fails an assertion.
\<close>

theorem Unserialize_then_GetHash_asserts:
  assumes "get_nVersion tx \<notin> {1, 2}" and "wf_tx tx"
  shows "CTransaction_Unserialize (tx_body tx) = Inr (tx, []) \<and> CTransaction_GetHash Hash tx = None"
  using assms codec_tx.read_back [of tx "[]"] by (simp add: CTransaction_GetHash_def CTransaction_Serialize_def)

definition version3_tx :: CTransaction where
  "version3_tx = \<lparr> get_nVersion = 3, get_nTime = 0, get_vin = [], get_vout = [], get_nLockTime = 0 \<rparr>"

theorem Unserialize_then_GetHash_asserts_witness:
  "CTransaction_Unserialize [3, 0, 0, 0, 0, 0, 0, 0, 0, 0, 0, 0, 0, 0] = Inr (version3_tx, []) \<and>
   CTransaction_GetHash (\<lambda>_. 0) version3_tx = None"
proof -
  have "tx_body version3_tx = [3, 0, 0, 0, 0, 0, 0, 0, 0, 0, 0, 0, 0, 0]"
    by (simp add: version3_tx_def tx_body_def Serialize_word_def Serialize_vector_def WriteCompactSize_def
        le_bytes_numeral)
  moreover have "get_nVersion version3_tx \<notin> {1, 2}" "wf_tx version3_tx"
    by (simp_all add: version3_tx_def wf_tx_def)
  ultimately show ?thesis
    using Unserialize_then_GetHash_asserts [of version3_tx "\<lambda>_. 0"] by simp
qed

end
