(* ===== verification/Sig_Check.thy ===== *)
theory Sig_Check
  imports Script_Sig Tx "HOL-Library.Product_Lexorder" "HOL-Library.List_Lexorder"
begin

text \<open>
  Checking one signature (\<^verbatim>\<open>src/src/script/script.cpp\<close>): the signature hash of a transaction, the cache
  of valid signatures and \<^verbatim>\<open>CheckSig\<close>, with the public keys of \<^verbatim>\<open>src/src/key/pubkey.h\<close>.

  The hash functions, the ECDSA verification, the random hashes of the eviction and the
  configured size of the cache are the fields of \<open>crypto_env\<close>. The set of the cache is its
  ordered list of elements. \<open>None\<close> is the failed assertion in the serialisation of a transaction
  with an unknown version.
\<close>

unbundle bit_operations_syntax

section \<open>The environment\<close>

record crypto_env =
  env_Hash :: "bytes \<Rightarrow> uint256"
  env_Hash160 :: "bytes \<Rightarrow> uint160"
  env_RIPEMD160 :: "bytes \<Rightarrow> bytes"
  env_SHA1 :: "bytes \<Rightarrow> bytes"
  env_SHA256 :: "bytes \<Rightarrow> bytes"
  env_Verify :: "bytes \<Rightarrow> uint256 \<Rightarrow> bytes \<Rightarrow> bool"
  env_GetRandHash :: "nat \<Rightarrow> uint256"
  env_maxsigcachesize :: int

section \<open>Public keys\<close>

text \<open>
  A public key is the bytes \<^verbatim>\<open>[begin(), end())\<close>: the data of a key whose header announces its
  length, and none for an invalid key, whose header is \<open>0xFF\<close>.
\<close>

datatype CPubKey = CPubKey (pubkey_data: bytes)

definition GetLen :: "byte \<Rightarrow> nat" where
  "GetLen chHeader =
     (if chHeader = 2 \<or> chHeader = 3 then 33
      else if chHeader = 4 \<or> chHeader = 6 \<or> chHeader = 7 then 65
      else 0)"

definition CPubKey_Set :: "bytes \<Rightarrow> CPubKey" where
  "CPubKey_Set vch =
     (let len = (if vch = [] then 0 else GetLen (hd vch)) in
      if len \<noteq> 0 \<and> len = length vch then CPubKey vch else CPubKey [])"

definition IsValid :: "CPubKey \<Rightarrow> bool" where
  "IsValid pubkey \<longleftrightarrow> length (pubkey_data pubkey) > 0"

definition IsCompressed :: "CPubKey \<Rightarrow> bool" where
  "IsCompressed pubkey \<longleftrightarrow> length (pubkey_data pubkey) = 33"

definition GetID :: "crypto_env \<Rightarrow> CPubKey \<Rightarrow> uint160" where
  "GetID env pubkey = env_Hash160 env (pubkey_data pubkey)"

text \<open>The order of keys: by header, then by content; an invalid key has the greatest header.\<close>

instantiation CPubKey :: linorder
begin

definition less_CPubKey :: "CPubKey \<Rightarrow> CPubKey \<Rightarrow> bool" where
  "less_CPubKey a b \<longleftrightarrow>
     pubkey_data a \<noteq> [] \<and> (pubkey_data b = [] \<or> pubkey_data a < pubkey_data b)"

definition less_eq_CPubKey :: "CPubKey \<Rightarrow> CPubKey \<Rightarrow> bool" where
  "less_eq_CPubKey a b \<longleftrightarrow> a < b \<or> a = b"

instance
proof
  fix x y z :: CPubKey
  show "(x < y) = (x \<le> y \<and> \<not> y \<le> x)" by (auto simp: less_eq_CPubKey_def less_CPubKey_def)
  show "x \<le> x" by (simp add: less_eq_CPubKey_def)
  show "x \<le> z" if "x \<le> y" "y \<le> z" using that by (auto simp: less_eq_CPubKey_def less_CPubKey_def)
  show "x = y" if "x \<le> y" "y \<le> x" using that by (auto simp: less_eq_CPubKey_def less_CPubKey_def)
  show "x \<le> y \<or> y \<le> x"
    using CPubKey.expand [of x y] by (auto simp: less_eq_CPubKey_def less_CPubKey_def not_less)
qed

end

section \<open>The signature hash\<close>

definition blank_sequences :: "nat \<Rightarrow> CTxIn list \<Rightarrow> CTxIn list" where
  "blank_sequences nIn ins =
     map (\<lambda>i. if i \<noteq> nIn then (ins ! i)\<lparr> get_nSequence := 0 \<rparr> else ins ! i) [0..<length ins]"

text \<open>The transaction that is hashed; \<open>None\<close> stands for the early returns of the value 1.\<close>

definition SignatureHash_tx :: "bytes \<Rightarrow> CTransaction \<Rightarrow> nat \<Rightarrow> 32 word \<Rightarrow> CTransaction option" where
  "SignatureHash_tx scriptCode txTo nIn nHashType =
     (if nIn \<ge> length (get_vin txTo) then None
      else let
        scriptCode = fst (FindAndDelete (push_opcode OP_CODESEPARATOR) scriptCode);
        ins = map (\<lambda>txin. txin\<lparr> get_scriptSig := [] \<rparr>) (get_vin txTo);
        ins = ins[nIn := (ins ! nIn)\<lparr> get_scriptSig := scriptCode \<rparr>];
        txTmp = txTo\<lparr> get_vin := ins \<rparr>
      in
      case (if nHashType AND 0x1f = SIGHASH_NONE
            then Some (txTmp\<lparr> get_vout := [], get_vin := blank_sequences nIn ins \<rparr>)
            else if nHashType AND 0x1f = SIGHASH_SINGLE
            then (if nIn \<ge> length (get_vout txTmp) then None
                  else Some (txTmp\<lparr>
                    get_vout := map (\<lambda>i. if i < nIn then CTxOut_SetNull else get_vout txTmp ! i) [0..<nIn + 1],
                    get_vin := blank_sequences nIn ins \<rparr>))
            else Some txTmp)
      of None \<Rightarrow> None
       | Some txTmp \<Rightarrow>
           Some (if nHashType AND SIGHASH_ANYONECANPAY \<noteq> 0
                 then txTmp\<lparr> get_vin := [get_vin txTmp ! nIn] \<rparr>
                 else txTmp))"

definition SignatureHash :: "crypto_env \<Rightarrow> bytes \<Rightarrow> CTransaction \<Rightarrow> nat \<Rightarrow> 32 word \<Rightarrow> uint256 option" where
  "SignatureHash env scriptCode txTo nIn nHashType =
     (case SignatureHash_tx scriptCode txTo nIn nHashType of
        None \<Rightarrow> Some 1
      | Some txTmp \<Rightarrow>
          (case CTransaction_Serialize txTmp of
             None \<Rightarrow> None
           | Some ss \<Rightarrow> Some (env_Hash env (ss @ Serialize_word nHashType))))"

section \<open>The cache of valid signatures\<close>

type_synonym sigdata_type = "uint256 \<times> bytes \<times> CPubKey"

record CSignatureCache =
  setValid :: "sigdata_type list"
  randCount :: nat

definition Cache_Get :: "CSignatureCache \<Rightarrow> sigdata_type \<Rightarrow> bool" where
  "Cache_Get cache k \<longleftrightarrow> k \<in> set (setValid cache)"

definition lower_bound :: "sigdata_type \<Rightarrow> sigdata_type list \<Rightarrow> sigdata_type list" where
  "lower_bound k s = dropWhile (\<lambda>x. x < k) s"

definition evict_one :: "uint256 \<Rightarrow> sigdata_type list \<Rightarrow> sigdata_type list" where
  "evict_one randomHash s =
     (let it = lower_bound (randomHash, [], CPubKey []) s;
          it = (if it = [] then s else it)
      in remove1 (hd it) s)"

lemma evict_one_length:
  assumes "s \<noteq> []"
  shows "length (evict_one r s) < length s"
proof -
  let ?it = "lower_bound (r, [], CPubKey []) s"
  have "set ?it \<subseteq> set s" by (auto simp: lower_bound_def dest: set_dropWhileD)
  then have "hd (if ?it = [] then s else ?it) \<in> set s"
    using assms hd_in_set [of ?it] by (cases "?it = []") auto
  then show ?thesis
    using length_pos_if_in_set by (fastforce simp: evict_one_def Let_def length_remove1)
qed

text \<open>The loop; the guard makes the set non-empty, and each step removes one element.\<close>

function evict_loop :: "(nat \<Rightarrow> uint256) \<Rightarrow> int \<Rightarrow> CSignatureCache \<Rightarrow> CSignatureCache" where
  "evict_loop rand nMaxCacheSize cache =
     (if int (length (setValid cache)) > nMaxCacheSize \<and> setValid cache \<noteq> []
      then evict_loop rand nMaxCacheSize
        (cache\<lparr> setValid := evict_one (rand (randCount cache)) (setValid cache), randCount := randCount cache + 1 \<rparr>)
      else cache)"
  by pat_completeness auto

termination
  by (relation "measure (\<lambda>(_, _, cache). length (setValid cache))") (auto dest: evict_one_length)

definition Cache_Set :: "crypto_env \<Rightarrow> CSignatureCache \<Rightarrow> sigdata_type \<Rightarrow> CSignatureCache" where
  "Cache_Set env cache k =
     (if env_maxsigcachesize env \<le> 0 then cache
      else let cache = evict_loop (env_GetRandHash env) (env_maxsigcachesize env) cache
           in cache\<lparr> setValid := insort_insert k (setValid cache) \<rparr>)"

section \<open>Checking a signature\<close>

definition CheckSig :: "crypto_env \<Rightarrow> CSignatureCache \<Rightarrow> bytes \<Rightarrow> bytes \<Rightarrow> bytes \<Rightarrow> CTransaction \<Rightarrow> nat \<Rightarrow>
    32 word \<Rightarrow> 32 word \<Rightarrow> (bool \<times> CSignatureCache) option" where
  "CheckSig env cache vchSig vchPubKey scriptCode txTo nIn nHashType flags =
     (let pubkey = CPubKey_Set vchPubKey in
      if \<not> IsValid pubkey then Some (False, cache)
      else if vchSig = [] then Some (False, cache)
      else if nHashType \<noteq> 0 \<and> nHashType \<noteq> ucast (last vchSig) then Some (False, cache)
      else let
        nHashType = (if nHashType = 0 then ucast (last vchSig) else nHashType);
        vchSig = butlast vchSig
      in case SignatureHash env scriptCode txTo nIn nHashType of
        None \<Rightarrow> None
      | Some sighash \<Rightarrow>
          if Cache_Get cache (sighash, vchSig, pubkey) then Some (True, cache)
          else if \<not> env_Verify env (pubkey_data pubkey) sighash vchSig then Some (False, cache)
          else if \<not> has_flag flags SCRIPT_VERIFY_NOCACHE
          then Some (True, Cache_Set env cache (sighash, vchSig, pubkey))
          else Some (True, cache))"


declare evict_loop.simps [simp del]

section \<open>Caches do not change verdicts\<close>

text \<open>
  What a client needs of a cache: it answers yes only for entries that were put into it. A check
  that asks the cache first then gives the verdict of the check itself, provided that the cache
  is sound, and leaves a sound cache.
\<close>

locale verdict_cache =
  fixes get :: "'c \<Rightarrow> 'k \<Rightarrow> bool" and put :: "'c \<Rightarrow> 'k \<Rightarrow> 'c"
  assumes get_put: "get (put c k) k' \<Longrightarrow> k' = k \<or> get c k'"
begin

definition sound :: "('k \<Rightarrow> bool) \<Rightarrow> 'c \<Rightarrow> bool" where
  "sound verify c \<longleftrightarrow> (\<forall>k. get c k \<longrightarrow> verify k)"

definition check :: "('k \<Rightarrow> bool) \<Rightarrow> bool \<Rightarrow> 'c \<Rightarrow> 'k \<Rightarrow> bool \<times> 'c" where
  "check verify store c k =
     (if get c k then (True, c) else if \<not> verify k then (False, c)
      else (True, if store then put c k else c))"

lemma check_verdict: "sound verify c \<Longrightarrow> fst (check verify store c k) = verify k"
  by (auto simp: check_def sound_def)

lemma check_sound: "sound verify c \<Longrightarrow> sound verify (snd (check verify store c k))"
  using get_put by (fastforce simp: check_def sound_def)

end

lemma set_evict_one: "set (evict_one r s) \<subseteq> set s"
  by (simp add: evict_one_def Let_def set_remove1_subset)

lemma set_evict_loop: "set (setValid (evict_loop rand m cache)) \<subseteq> set (setValid cache)"
proof (induction rand m cache rule: evict_loop.induct)
  case (1 rand m cache)
  then show ?case
    using set_evict_one [of "rand (randCount cache)" "setValid cache"] by (subst evict_loop.simps) auto
qed

lemma length_evict_loop: "0 \<le> m \<Longrightarrow> int (length (setValid (evict_loop rand m cache))) \<le> m"
proof (induction rand m cache rule: evict_loop.induct)
  case (1 rand m cache)
  then show ?case by (subst evict_loop.simps) auto
qed

lemma sorted_evict_one: "sorted s \<and> distinct s \<Longrightarrow> sorted (evict_one r s) \<and> distinct (evict_one r s)"
  by (simp add: evict_one_def Let_def sorted_remove1)

lemma sorted_evict_loop:
  "sorted (setValid cache) \<and> distinct (setValid cache) \<Longrightarrow>
   sorted (setValid (evict_loop rand m cache)) \<and> distinct (setValid (evict_loop rand m cache))"
proof (induction rand m cache rule: evict_loop.induct)
  case (1 rand m cache)
  then show ?case using sorted_evict_one by (subst (1 2) evict_loop.simps) auto
qed

interpretation cache: verdict_cache Cache_Get "Cache_Set env" for env
proof
  fix c k k'
  assume "Cache_Get (Cache_Set env c k) k'"
  then show "k' = k \<or> Cache_Get c k'"
    using set_evict_loop [of "env_GetRandHash env" "env_maxsigcachesize env" c]
    by (auto simp: Cache_Get_def Cache_Set_def Let_def set_insort_insert split: if_splits)
qed

text \<open>The well-formed caches: ordered sets of verified signatures, of bounded size.\<close>

definition verifies :: "crypto_env \<Rightarrow> sigdata_type \<Rightarrow> bool" where
  "verifies env k = (case k of (sighash, vchSig, pubkey) \<Rightarrow> env_Verify env (pubkey_data pubkey) sighash vchSig)"

definition cache_ok :: "crypto_env \<Rightarrow> CSignatureCache \<Rightarrow> bool" where
  "cache_ok env cache \<longleftrightarrow>
     list_all (verifies env) (setValid cache) \<and> sorted (setValid cache) \<and> distinct (setValid cache) \<and>
     int (length (setValid cache)) \<le> max 0 (env_maxsigcachesize env) + 1"

lemma cache_ok_sound: "cache_ok env c \<Longrightarrow> cache.sound (verifies env) c"
  by (auto simp: cache_ok_def cache.sound_def Cache_Get_def list_all_iff)

lemma Cache_Set_ok:
  assumes "cache_ok env c" and "verifies env k"
  shows "cache_ok env (Cache_Set env c k)"
proof (cases "env_maxsigcachesize env \<le> 0")
  case True
  with assms show ?thesis by (simp add: Cache_Set_def)
next
  case False
  let ?c = "evict_loop (env_GetRandHash env) (env_maxsigcachesize env) c"
  have "length (insort_insert k (setValid ?c)) \<le> length (setValid ?c) + 1"
    by (simp add: insort_insert_key_def)
  moreover have "int (length (setValid ?c)) \<le> env_maxsigcachesize env"
    using length_evict_loop False by simp
  ultimately show ?thesis
    using assms False set_evict_loop [of "env_GetRandHash env" "env_maxsigcachesize env" c]
      sorted_evict_loop [of c "env_GetRandHash env" "env_maxsigcachesize env"]
    by (auto simp: cache_ok_def Cache_Set_def Let_def list_all_iff set_insort_insert sorted_insort_insert
        distinct_insort_insert)
qed

section \<open>What CheckSig decides\<close>

text \<open>The verdict without a cache.\<close>

definition sig_verdict :: "crypto_env \<Rightarrow> bytes \<Rightarrow> bytes \<Rightarrow> bytes \<Rightarrow> CTransaction \<Rightarrow> nat \<Rightarrow> 32 word \<Rightarrow> bool option" where
  "sig_verdict env vchSig vchPubKey scriptCode txTo nIn nHashType =
     (if \<not> IsValid (CPubKey_Set vchPubKey) \<or> vchSig = [] \<or>
         nHashType \<noteq> 0 \<and> nHashType \<noteq> ucast (last vchSig) then Some False
      else map_option (\<lambda>sighash. env_Verify env vchPubKey sighash (butlast vchSig))
             (SignatureHash env scriptCode txTo nIn (ucast (last vchSig))))"

lemma valid_pubkey_data: "IsValid (CPubKey_Set vch) \<Longrightarrow> pubkey_data (CPubKey_Set vch) = vch"
  by (auto simp: CPubKey_Set_def IsValid_def Let_def split: if_splits)

lemma CheckSig_check:
  "CheckSig env cache vchSig vchPubKey scriptCode txTo nIn nHashType flags =
     (if \<not> IsValid (CPubKey_Set vchPubKey) \<or> vchSig = [] \<or>
         nHashType \<noteq> 0 \<and> nHashType \<noteq> ucast (last vchSig) then Some (False, cache)
      else map_option (\<lambda>sighash. cache.check env (verifies env) (\<not> has_flag flags SCRIPT_VERIFY_NOCACHE) cache
                         (sighash, butlast vchSig, CPubKey_Set vchPubKey))
             (SignatureHash env scriptCode txTo nIn (ucast (last vchSig))))"
  by (auto simp: CheckSig_def Let_def cache.check_def verifies_def split: option.splits)

lemma CheckSig_verdict:
  assumes "cache_ok env cache"
  shows "map_option fst (CheckSig env cache vchSig vchPubKey scriptCode txTo nIn nHashType flags) =
    sig_verdict env vchSig vchPubKey scriptCode txTo nIn nHashType"
  using cache.check_verdict [OF cache_ok_sound [OF assms]]
  by (auto simp: CheckSig_check sig_verdict_def verifies_def valid_pubkey_data option.map_comp comp_def)

lemma CheckSig_cache_ok:
  assumes "cache_ok env cache"
    and "CheckSig env cache vchSig vchPubKey scriptCode txTo nIn nHashType flags = Some (b, cache')"
  shows "cache_ok env cache'"
  using assms Cache_Set_ok [OF assms(1)]
  by (auto simp: CheckSig_check cache.check_def split: if_splits)


section \<open>What a signature hash covers\<close>

lemma is_chunk_codeseparator: "is_chunk (push_opcode OP_CODESEPARATOR)"
  by (simp add: is_chunk_push_opcode)

lemma SignatureHash_tx_all:
  assumes "nHashType AND 0x1f \<noteq> SIGHASH_NONE" "nHashType AND 0x1f \<noteq> SIGHASH_SINGLE"
    "nHashType AND SIGHASH_ANYONECANPAY = 0" "nIn < length (get_vin txTo)"
  shows "SignatureHash_tx scriptCode txTo nIn nHashType = Some (txTo\<lparr> get_vin :=
    (map (\<lambda>txin. txin\<lparr> get_scriptSig := [] \<rparr>) (get_vin txTo))
      [nIn := (get_vin txTo ! nIn)\<lparr> get_scriptSig := fst (FindAndDelete (push_opcode OP_CODESEPARATOR) scriptCode) \<rparr>] \<rparr>)"
  using assms by (simp add: SignatureHash_tx_def Let_def)

lemma wf_tx_blank:
  assumes "wf_tx txTo" and "length code \<le> MAX_SIZE" and "nIn < length (get_vin txTo)"
  shows "wf_tx (txTo\<lparr> get_vin := (map (\<lambda>txin. txin\<lparr> get_scriptSig := [] \<rparr>) (get_vin txTo))
      [nIn := (get_vin txTo ! nIn)\<lparr> get_scriptSig := code \<rparr>] \<rparr>)"
proof -
  have "list_all wf_txin (map (\<lambda>txin. txin\<lparr> get_scriptSig := [] \<rparr>) (get_vin txTo))"
    using assms(1) by (auto simp: wf_tx_def wf_txin_def list_all_iff MAX_SIZE_def)
  moreover have "wf_txin ((get_vin txTo ! nIn)\<lparr> get_scriptSig := code \<rparr>)"
    using assms by (auto simp: wf_tx_def wf_txin_def list_all_length)
  ultimately show ?thesis
    using assms(1) by (auto simp: wf_tx_def list_all_iff dest!: set_update_subset_insert [THEN subsetD])
qed

section \<open>Properties\<close>

text \<open>
  The signature cache never changes a verdict: with a cache that holds only verified
  signatures, \<^verbatim>\<open>CheckSig\<close> answers what the key, the hash type and the ECDSA verification decide, and
  the cache it leaves holds only verified signatures again, is an ordered set, and has at most
  one entry more than the configured size.
\<close>

theorem CheckSig_cache_transparent:
  assumes "cache_ok env cache"
  shows "(case CheckSig env cache vchSig vchPubKey scriptCode txTo nIn nHashType flags of
      None \<Rightarrow> sig_verdict env vchSig vchPubKey scriptCode txTo nIn nHashType = None
    | Some (b, cache') \<Rightarrow>
        sig_verdict env vchSig vchPubKey scriptCode txTo nIn nHashType = Some b \<and> cache_ok env cache')"
  using CheckSig_verdict [OF assms, of vchSig vchPubKey scriptCode txTo nIn nHashType flags, symmetric]
    CheckSig_cache_ok [OF assms, of vchSig vchPubKey scriptCode txTo nIn nHashType flags]
  by (auto split: option.split)

definition sample_env :: crypto_env where
  "sample_env = \<lparr> env_Hash = (\<lambda>_. 5), env_Hash160 = (\<lambda>_. 5), env_RIPEMD160 = (\<lambda>_. replicate 20 1),
     env_SHA1 = (\<lambda>_. replicate 20 2), env_SHA256 = (\<lambda>_. replicate 32 3), env_Verify = (\<lambda>_ h sig. h = 5 \<and> sig = [7]),
     env_GetRandHash = (\<lambda>_. 0), env_maxsigcachesize = 1 \<rparr>"

definition sample_tx :: CTransaction where
  "sample_tx = \<lparr> get_nVersion = 1, get_nTime = 0,
     get_vin = [\<lparr> get_prevout = \<lparr> get_hash = 1, get_n = 0 \<rparr>, get_scriptSig = [0x51], get_nSequence = 0, get_scriptWitness = [] \<rparr>],
     get_vout = [\<lparr> get_nValue = 1, get_scriptPubKey = [0x51] \<rparr>], get_nLockTime = 0 \<rparr>"

theorem CheckSig_cache_transparent_witness:
  "cache_ok sample_env \<lparr> setValid = [(5, [7], CPubKey [2])], randCount = 0 \<rparr> \<and>
   (case CheckSig sample_env \<lparr> setValid = [(5, [7], CPubKey [2])], randCount = 0 \<rparr> [7, 1] [3] [0xac] sample_tx 0 0 0 of
      None \<Rightarrow> sig_verdict sample_env [7, 1] [3] [0xac] sample_tx 0 0 = None
    | Some (b, cache') \<Rightarrow>
        sig_verdict sample_env [7, 1] [3] [0xac] sample_tx 0 0 = Some b \<and> cache_ok sample_env cache')"
proof -
  have "cache_ok sample_env \<lparr> setValid = [(5, [7], CPubKey [2])], randCount = 0 \<rparr>"
    by (simp add: cache_ok_def sample_env_def verifies_def)
  from this CheckSig_cache_transparent [OF this] show ?thesis by (rule conjI)
qed

text \<open>
  A signature with hash type \<^verbatim>\<open>SIGHASH_ALL\<close> covers the whole transaction but the input scripts: if
  two transactions have the same hashed bytes, they have the same version, time, outputs and lock
  time and spend the same outputs with the same sequence numbers, and the scripts that are
  signed are the same, up to \<^verbatim>\<open>OP_CODESEPARATOR\<close>, when the signed inputs are the same.
\<close>

theorem SignatureHash_commits:
  assumes h: "nHashType AND 0x1f \<noteq> SIGHASH_NONE" "nHashType AND 0x1f \<noteq> SIGHASH_SINGLE"
      "nHashType AND SIGHASH_ANYONECANPAY = 0"
    and wf: "wf_tx tx1" "wf_tx tx2" "length code1 \<le> MAX_SIZE" "length code2 \<le> MAX_SIZE"
    and n: "n1 < length (get_vin tx1)" "n2 < length (get_vin tx2)"
    and t: "SignatureHash_tx code1 tx1 n1 nHashType = Some t1" "SignatureHash_tx code2 tx2 n2 nHashType = Some t2"
    and eq: "CTransaction_Serialize t1 = Some bytes" "CTransaction_Serialize t2 = Some bytes"
  shows "get_nVersion tx1 = get_nVersion tx2 \<and> get_nTime tx1 = get_nTime tx2 \<and>
    get_vout tx1 = get_vout tx2 \<and> get_nLockTime tx1 = get_nLockTime tx2 \<and>
    map (\<lambda>i. (get_prevout i, get_nSequence i)) (get_vin tx1) = map (\<lambda>i. (get_prevout i, get_nSequence i)) (get_vin tx2) \<and>
    (n1 = n2 \<longrightarrow> fst (FindAndDelete [0xab] code1) = fst (FindAndDelete [0xab] code2))"
proof -
  let ?c1 = "fst (FindAndDelete (push_opcode OP_CODESEPARATOR) code1)"
  let ?c2 = "fst (FindAndDelete (push_opcode OP_CODESEPARATOR) code2)"
  let ?b = "map (\<lambda>txin. txin\<lparr> get_scriptSig := [] \<rparr>)" and ?k = "\<lambda>i. (get_prevout i, get_nSequence i)"
  have t1: "t1 = tx1\<lparr> get_vin := (?b (get_vin tx1))[n1 := (get_vin tx1 ! n1)\<lparr> get_scriptSig := ?c1 \<rparr>] \<rparr>"
    and t2: "t2 = tx2\<lparr> get_vin := (?b (get_vin tx2))[n2 := (get_vin tx2 ! n2)\<lparr> get_scriptSig := ?c2 \<rparr>] \<rparr>"
    using t h n by (simp_all add: SignatureHash_tx_all)
  have "length ?c1 \<le> MAX_SIZE" "length ?c2 \<le> MAX_SIZE"
    using wf(3,4) FindAndDelete_shorter [OF is_chunk_codeseparator] le_trans by blast+
  then have "wf_tx t1" "wf_tx t2"
    unfolding t1 t2 using wf n by (auto intro: wf_tx_blank)
  moreover have "tx_body t1 = tx_body t2"
    using eq by (auto simp: CTransaction_Serialize_def split: if_splits)
  ultimately have tt: "t1 = t2" by (rule codec_tx.ser_inj)
  have "get_vin t1 = get_vin t2" by (simp add: tt)
  moreover have k: "map ?k (get_vin t1) = map ?k (get_vin tx1)" "map ?k (get_vin t2) = map ?k (get_vin tx2)"
    using n by (auto simp: t1 t2 map_update comp_def list_update_same_conv)
  ultimately have "map ?k (get_vin tx1) = map ?k (get_vin tx2)" by metis
  moreover have "n1 = n2 \<longrightarrow> ?c1 = ?c2"
  proof
    assume "n1 = n2"
    then have "get_scriptSig (get_vin t1 ! n1) = get_scriptSig (get_vin t2 ! n2)" by (simp add: tt)
    with n show "?c1 = ?c2" by (simp add: t1 t2)
  qed
  moreover have "get_nVersion t1 = get_nVersion tx1" "get_nTime t1 = get_nTime tx1" "get_vout t1 = get_vout tx1"
    "get_nLockTime t1 = get_nLockTime tx1" "get_nVersion t2 = get_nVersion tx2" "get_nTime t2 = get_nTime tx2"
    "get_vout t2 = get_vout tx2" "get_nLockTime t2 = get_nLockTime tx2"
    by (simp_all add: t1 t2)
  ultimately show ?thesis
    unfolding tt by (simp add: push_opcode_def)
qed

lemma concrete_SignatureHash_tx:
  "SignatureHash_tx [0xac] sample_tx 0 1 = Some (sample_tx\<lparr> get_vin := [(hd (get_vin sample_tx))\<lparr> get_scriptSig := [0xac] \<rparr>] \<rparr>)"
  by (simp add: SignatureHash_tx_def sample_tx_def Let_def push_opcode_def FindAndDelete_def FindAndDelete_loop.simps
      erase_copies.simps GetScriptOp_def)

theorem SignatureHash_commits_witness:
  "\<exists>t bytes. SignatureHash_tx [0xac] sample_tx 0 1 = Some t \<and> CTransaction_Serialize t = Some bytes \<and>
     map (\<lambda>i. (get_prevout i, get_nSequence i)) (get_vin sample_tx) =
     map (\<lambda>i. (get_prevout i, get_nSequence i)) (get_vin (sample_tx\<lparr> get_vin := map (\<lambda>i. i\<lparr> get_scriptSig := [] \<rparr>) (get_vin sample_tx) \<rparr>))"
proof -
  let ?tx2 = "sample_tx\<lparr> get_vin := map (\<lambda>i. i\<lparr> get_scriptSig := [] \<rparr>) (get_vin sample_tx) \<rparr>"
  let ?t = "sample_tx\<lparr> get_vin := [(hd (get_vin sample_tx))\<lparr> get_scriptSig := [0xac] \<rparr>] \<rparr>"
  have t2: "SignatureHash_tx [0xac] ?tx2 0 1 = Some ?t"
    by (simp add: SignatureHash_tx_def sample_tx_def Let_def push_opcode_def FindAndDelete_def FindAndDelete_loop.simps
      erase_copies.simps GetScriptOp_def)
  have s: "CTransaction_Serialize ?t = Some (tx_body ?t)"
    by (simp add: CTransaction_Serialize_def sample_tx_def)
  have w: "wf_tx sample_tx" "wf_tx ?tx2" "length [0xac :: byte] \<le> MAX_SIZE" "0 < length (get_vin sample_tx)"
    "0 < length (get_vin ?tx2)"
    by (simp_all add: wf_tx_def wf_txin_def wf_txout_def sample_tx_def MAX_SIZE_def)
  from SignatureHash_commits [OF _ _ _ w(1,2,3,3,4,5) concrete_SignatureHash_tx t2 s s]
  show ?thesis
    using concrete_SignatureHash_tx s by auto
qed

lemma free_scriptSigs:
  assumes "map (\<lambda>i. i\<lparr> get_scriptSig := [] \<rparr>) ins = map (\<lambda>i. i\<lparr> get_scriptSig := [] \<rparr>) (get_vin tx)"
  shows "SignatureHash_tx code (tx\<lparr> get_vin := ins \<rparr>) nIn h = SignatureHash_tx code tx nIn h"
  using assms map_eq_imp_length_eq [OF assms] by (simp add: SignatureHash_tx_def Let_def cong: option.case_cong)

lemma free_outputs_none:
  "h AND 0x1f = SIGHASH_NONE \<Longrightarrow> SignatureHash_tx code (tx\<lparr> get_vout := outs \<rparr>) nIn h = SignatureHash_tx code tx nIn h"
  by (simp add: SignatureHash_tx_def Let_def)

lemma free_outputs_single:
  assumes "h AND 0x1f = SIGHASH_SINGLE" "nIn < length outs" "nIn < length (get_vout tx)" "outs ! nIn = get_vout tx ! nIn"
  shows "SignatureHash_tx code (tx\<lparr> get_vout := outs \<rparr>) nIn h = SignatureHash_tx code tx nIn h"
proof -
  have "map (\<lambda>i. if i < nIn then CTxOut_SetNull else outs ! i) [0..<nIn + 1] =
      map (\<lambda>i. if i < nIn then CTxOut_SetNull else get_vout tx ! i) [0..<nIn + 1]"
    using assms(4) by (auto simp: less_Suc_eq)
  with assms show ?thesis by (simp add: SignatureHash_tx_def Let_def)
qed

lemma blank_sequences_nth: "nIn < length ins \<Longrightarrow> blank_sequences nIn ins ! nIn = ins ! nIn"
  by (simp add: blank_sequences_def)

lemma free_inputs_anyonecanpay:
  assumes "h AND SIGHASH_ANYONECANPAY \<noteq> 0" "h AND 0x1f \<noteq> SIGHASH_SINGLE"
    "nIn < length (get_vin tx)" "nIn' < length ins" "ins ! nIn' = get_vin tx ! nIn"
  shows "SignatureHash_tx code (tx\<lparr> get_vin := ins \<rparr>) nIn' h = SignatureHash_tx code tx nIn h"
  using assms by (simp add: SignatureHash_tx_def Let_def blank_sequences_nth)

lemma SignatureHash_cong:
  "SignatureHash_tx code tx nIn h = SignatureHash_tx code' tx' nIn' h \<Longrightarrow>
   SignatureHash env code tx nIn h = SignatureHash env code' tx' nIn' h"
  by (simp add: SignatureHash_def)

text \<open>
  What the other hash types leave open: no signature covers the input scripts; one with
  \<^verbatim>\<open>SIGHASH_NONE\<close> covers no output, one with \<^verbatim>\<open>SIGHASH_SINGLE\<close> only the output with the index of the
  input, and one with \<^verbatim>\<open>SIGHASH_ANYONECANPAY\<close> (and all outputs or none) only the input that is signed.
\<close>

theorem SignatureHash_free_parts:
  shows "(map (\<lambda>i. i\<lparr> get_scriptSig := [] \<rparr>) ins = map (\<lambda>i. i\<lparr> get_scriptSig := [] \<rparr>) (get_vin tx) \<longrightarrow>
      SignatureHash env code (tx\<lparr> get_vin := ins \<rparr>) nIn nHashType = SignatureHash env code tx nIn nHashType) \<and>
    (nHashType AND 0x1f = SIGHASH_NONE \<longrightarrow>
      SignatureHash env code (tx\<lparr> get_vout := outs \<rparr>) nIn nHashType = SignatureHash env code tx nIn nHashType) \<and>
    (nHashType AND 0x1f = SIGHASH_SINGLE \<and> nIn < length outs \<and> nIn < length (get_vout tx) \<and> outs ! nIn = get_vout tx ! nIn \<longrightarrow>
      SignatureHash env code (tx\<lparr> get_vout := outs \<rparr>) nIn nHashType = SignatureHash env code tx nIn nHashType) \<and>
    (nHashType AND SIGHASH_ANYONECANPAY \<noteq> 0 \<and> nHashType AND 0x1f \<noteq> SIGHASH_SINGLE \<and>
     nIn < length (get_vin tx) \<and> nIn' < length ins' \<and> ins' ! nIn' = get_vin tx ! nIn \<longrightarrow>
      SignatureHash env code (tx\<lparr> get_vin := ins' \<rparr>) nIn' nHashType = SignatureHash env code tx nIn nHashType)"
proof (intro conjI impI SignatureHash_cong)
  assume h: "nHashType AND SIGHASH_ANYONECANPAY \<noteq> 0 \<and> nHashType AND 0x1f \<noteq> SIGHASH_SINGLE \<and>
     nIn < length (get_vin tx) \<and> nIn' < length ins' \<and> ins' ! nIn' = get_vin tx ! nIn"
  show "SignatureHash_tx code (tx\<lparr> get_vin := ins' \<rparr>) nIn' nHashType = SignatureHash_tx code tx nIn nHashType"
    by (rule free_inputs_anyonecanpay) (use h in simp_all)
qed (use free_scriptSigs free_outputs_none free_outputs_single in blast)+

theorem SignatureHash_free_parts_witness:
  "SignatureHash sample_env [0xac] (sample_tx\<lparr> get_vout := [] \<rparr>) 0 2 = SignatureHash sample_env [0xac] sample_tx 0 2"
proof -
  have "(2 :: 32 word) AND 0x1f = SIGHASH_NONE" by simp
  with SignatureHash_free_parts [where tx = sample_tx and nHashType = 2 and outs = "[]" and env = sample_env
      and code = "[0xac]" and nIn = 0]
  show ?thesis by blast
qed

end
