(* ===== verification/Script_Eval.thy ===== *)
theory Script_Eval
  imports Sig_Check
begin

text \<open>
  The script interpreter \<^verbatim>\<open>Script_util::EvalScript\<close> (\<^verbatim>\<open>src/src/script/script.cpp\<close>), one definition per
  group of opcodes of its switch.

  The state holds what the loop keeps: the stack, the alternative stack and the stack of branch
  conditions with their top at the head of the list, the opcode counter, the code from the last
  \<^verbatim>\<open>OP_CODESEPARATOR\<close>, and the signature cache. A handler ends with the next state or with an exit: the
  return of false, which leaves the stack as it is (callers read it), a failed assertion, or the
  read of an input that the transaction does not have. An exception of \<^verbatim>\<open>CScriptNum\<close> is caught by
  \<^verbatim>\<open>EvalScript\<close>, which returns false.
\<close>

unbundle bit_operations_syntax

section \<open>State\<close>

type_synonym valtype = bytes

record eval_state =
  stack :: "valtype list"
  altstack :: "valtype list"
  vfExec :: "bool list"
  nOpCount :: int
  pbegincodehash :: bytes
  sigcache :: CSignatureCache

datatype abort = AssertFailed | OutOfRange

datatype eval_exit = RetFalse eval_state | Abort abort

type_synonym eval_result = "eval_exit + eval_state"

text \<open>The arguments that do not change: the environment, \<^verbatim>\<open>txTo\<close>, \<^verbatim>\<open>nIn\<close>, \<^verbatim>\<open>flags\<close> and \<^verbatim>\<open>nHashType\<close>.\<close>

record eval_args =
  a_env :: crypto_env
  a_txTo :: CTransaction
  a_nIn :: nat
  a_flags :: "32 word"
  a_nHashType :: "32 word"

definition vchFalse :: valtype where "vchFalse = []"
definition vchTrue :: valtype where "vchTrue = [1]"

abbreviation bool_vch :: "bool \<Rightarrow> valtype" where
  "bool_vch b \<equiv> if b then vchTrue else vchFalse"

definition fRequireMinimal :: "eval_args \<Rightarrow> bool" where
  "fRequireMinimal a = has_flag (a_flags a) SCRIPT_VERIFY_MINIMALDATA"

definition bind_eval :: "eval_exit + 'a \<Rightarrow> ('a \<Rightarrow> eval_exit + 'b) \<Rightarrow> eval_exit + 'b" where
  "bind_eval r f = (case r of Inl e \<Rightarrow> Inl e | Inr x \<Rightarrow> f x)"

text \<open>A number of the default size, or the exception, and the assertions of the operators.\<close>

definition num :: "eval_args \<Rightarrow> eval_state \<Rightarrow> valtype \<Rightarrow> eval_exit + int" where
  "num a s vch =
     (case CScriptNum vch (fRequireMinimal a) nDefaultMaxNumSize of Inl _ \<Rightarrow> Inl (RetFalse s) | Inr n \<Rightarrow> Inr n)"

definition num5 :: "eval_args \<Rightarrow> eval_state \<Rightarrow> valtype \<Rightarrow> eval_exit + int" where
  "num5 a s vch =
     (case CScriptNum vch (fRequireMinimal a) 5 of Inl _ \<Rightarrow> Inl (RetFalse s) | Inr n \<Rightarrow> Inr n)"

definition checked :: "int option \<Rightarrow> eval_exit + int" where
  "checked r = (case r of None \<Rightarrow> Inl (Abort AssertFailed) | Some n \<Rightarrow> Inr n)"

section \<open>Lock times\<close>

text \<open>The lambdas \<^verbatim>\<open>CheckLockTime\<close> and \<^verbatim>\<open>CheckSequence\<close>; \<open>None\<close> is the read of a missing input.\<close>

definition CheckLockTime :: "int \<Rightarrow> CTransaction \<Rightarrow> nat \<Rightarrow> bool option" where
  "CheckLockTime nLockTime txTo nIn =
     (let txLock = uint (get_nLockTime txTo) in
      if \<not> ((txLock < LOCKTIME_THRESHOLD \<and> nLockTime < LOCKTIME_THRESHOLD) \<or>
            (txLock \<ge> LOCKTIME_THRESHOLD \<and> nLockTime \<ge> LOCKTIME_THRESHOLD)) then Some False
      else if nLockTime > txLock then Some False
      else if nIn \<ge> length (get_vin txTo) then None
      else Some (get_nSequence (get_vin txTo ! nIn) \<noteq> SEQUENCE_FINAL))"

definition CheckSequence :: "int \<Rightarrow> CTransaction \<Rightarrow> nat \<Rightarrow> bool option" where
  "CheckSequence nSequence txTo nIn =
     (if nIn \<ge> length (get_vin txTo) then None
      else let
        txToSequence = uint (get_nSequence (get_vin txTo ! nIn));
        nLockTimeMask = uint (SEQUENCE_LOCKTIME_TYPE_FLAG OR SEQUENCE_LOCKTIME_MASK);
        txToSequenceMasked = txToSequence AND nLockTimeMask;
        nSequenceMasked = nSequence AND nLockTimeMask;
        typeFlag = uint SEQUENCE_LOCKTIME_TYPE_FLAG
      in Some (
        if txToSequence AND uint SEQUENCE_LOCKTIME_DISABLE_FLAG \<noteq> 0 then False
        else if \<not> ((txToSequenceMasked < typeFlag \<and> nSequenceMasked < typeFlag) \<or>
                   (txToSequenceMasked \<ge> typeFlag \<and> nSequenceMasked \<ge> typeFlag)) then False
        else if nSequenceMasked > txToSequenceMasked then False
        else True))"

section \<open>Handlers\<close>

definition push :: "valtype \<Rightarrow> eval_state \<Rightarrow> eval_state" where
  "push v s = s\<lparr> stack := v # stack s \<rparr>"

definition op_push_number :: "opcodetype \<Rightarrow> eval_state \<Rightarrow> eval_result" where
  "op_push_number opcode s = Inr (push (serialize (int opcode - int (OP_1 - 1))) s)"

definition op_CHECKLOCKTIMEVERIFY :: "eval_args \<Rightarrow> eval_state \<Rightarrow> eval_result" where
  "op_CHECKLOCKTIMEVERIFY a s =
     (if \<not> has_flag (a_flags a) SCRIPT_VERIFY_CHECKLOCKTIMEVERIFY then Inr s
      else case stack s of
        [] \<Rightarrow> Inl (RetFalse s)
      | x # _ \<Rightarrow>
          bind_eval (num5 a s x) (\<lambda>nLockTime.
            if nLockTime < 0 then Inl (RetFalse s)
            else case CheckLockTime nLockTime (a_txTo a) (a_nIn a) of
              None \<Rightarrow> Inl (Abort OutOfRange)
            | Some False \<Rightarrow> Inl (RetFalse s)
            | Some True \<Rightarrow> Inr s))"

definition op_CHECKSEQUENCEVERIFY :: "eval_args \<Rightarrow> eval_state \<Rightarrow> eval_result" where
  "op_CHECKSEQUENCEVERIFY a s =
     (if \<not> has_flag (a_flags a) SCRIPT_VERIFY_CHECKSEQUENCEVERIFY then Inr s
      else case stack s of
        [] \<Rightarrow> Inl (RetFalse s)
      | x # _ \<Rightarrow>
          bind_eval (num5 a s x) (\<lambda>nSequence.
            if nSequence < 0 then Inl (RetFalse s)
            else if nSequence AND uint SEQUENCE_LOCKTIME_DISABLE_FLAG \<noteq> 0 then Inr s
            else case CheckSequence nSequence (a_txTo a) (a_nIn a) of
              None \<Rightarrow> Inl (Abort OutOfRange)
            | Some False \<Rightarrow> Inl (RetFalse s)
            | Some True \<Rightarrow> Inr s))"

definition op_NOPn :: "eval_args \<Rightarrow> eval_state \<Rightarrow> eval_result" where
  "op_NOPn a s = (if has_flag (a_flags a) SCRIPT_VERIFY_DISCOURAGE_UPGRADABLE_NOPS then Inl (RetFalse s) else Inr s)"

definition op_IF :: "opcodetype \<Rightarrow> bool \<Rightarrow> eval_state \<Rightarrow> eval_result" where
  "op_IF opcode fExec s =
     (if fExec
      then (case stack s of
              [] \<Rightarrow> Inl (RetFalse s)
            | vch # st \<Rightarrow>
                Inr (s\<lparr> stack := st,
                        vfExec := (if opcode = OP_NOTIF then \<not> CastToBool vch else CastToBool vch) # vfExec s \<rparr>))
      else Inr (s\<lparr> vfExec := False # vfExec s \<rparr>))"

definition op_ELSE :: "eval_state \<Rightarrow> eval_result" where
  "op_ELSE s =
     (case vfExec s of [] \<Rightarrow> Inl (RetFalse s) | b # bs \<Rightarrow> Inr (s\<lparr> vfExec := (\<not> b) # bs \<rparr>))"

definition op_ENDIF :: "eval_state \<Rightarrow> eval_result" where
  "op_ENDIF s = (case vfExec s of [] \<Rightarrow> Inl (RetFalse s) | b # bs \<Rightarrow> Inr (s\<lparr> vfExec := bs \<rparr>))"

definition op_VERIFY :: "eval_state \<Rightarrow> eval_result" where
  "op_VERIFY s =
     (case stack s of
        [] \<Rightarrow> Inl (RetFalse s)
      | v # st \<Rightarrow> if CastToBool v then Inr (s\<lparr> stack := st \<rparr>) else Inl (RetFalse s))"

definition op_TOALTSTACK :: "eval_state \<Rightarrow> eval_result" where
  "op_TOALTSTACK s =
     (case stack s of
        [] \<Rightarrow> Inl (RetFalse s)
      | v # st \<Rightarrow> Inr (s\<lparr> altstack := v # altstack s, stack := st \<rparr>))"

definition op_FROMALTSTACK :: "eval_state \<Rightarrow> eval_result" where
  "op_FROMALTSTACK s =
     (case altstack s of
        [] \<Rightarrow> Inl (RetFalse s)
      | v # st \<Rightarrow> Inr (s\<lparr> stack := v # stack s, altstack := st \<rparr>))"

text \<open>The opcodes that only rearrange the stack; the comments of the source give it bottom first.\<close>

definition rearrange :: "opcodetype \<Rightarrow> valtype list \<Rightarrow> valtype list option" where
  "rearrange opcode st =
     (if opcode = OP_2DROP then (case st of x2 # x1 # r \<Rightarrow> Some r | _ \<Rightarrow> None)
      else if opcode = OP_2DUP then (case st of x2 # x1 # r \<Rightarrow> Some (x2 # x1 # x2 # x1 # r) | _ \<Rightarrow> None)
      else if opcode = OP_3DUP
      then (case st of x3 # x2 # x1 # r \<Rightarrow> Some (x3 # x2 # x1 # x3 # x2 # x1 # r) | _ \<Rightarrow> None)
      else if opcode = OP_2OVER
      then (case st of x4 # x3 # x2 # x1 # r \<Rightarrow> Some (x2 # x1 # x4 # x3 # x2 # x1 # r) | _ \<Rightarrow> None)
      else if opcode = OP_2ROT
      then (case st of x6 # x5 # x4 # x3 # x2 # x1 # r \<Rightarrow> Some (x2 # x1 # x6 # x5 # x4 # x3 # r) | _ \<Rightarrow> None)
      else if opcode = OP_2SWAP
      then (case st of x4 # x3 # x2 # x1 # r \<Rightarrow> Some (x2 # x1 # x4 # x3 # r) | _ \<Rightarrow> None)
      else if opcode = OP_IFDUP
      then (case st of x # r \<Rightarrow> Some (if CastToBool x then x # x # r else x # r) | _ \<Rightarrow> None)
      else if opcode = OP_DROP then (case st of x # r \<Rightarrow> Some r | _ \<Rightarrow> None)
      else if opcode = OP_DUP then (case st of x # r \<Rightarrow> Some (x # x # r) | _ \<Rightarrow> None)
      else if opcode = OP_NIP then (case st of x2 # x1 # r \<Rightarrow> Some (x2 # r) | _ \<Rightarrow> None)
      else if opcode = OP_OVER then (case st of x2 # x1 # r \<Rightarrow> Some (x1 # x2 # x1 # r) | _ \<Rightarrow> None)
      else if opcode = OP_ROT then (case st of x3 # x2 # x1 # r \<Rightarrow> Some (x1 # x3 # x2 # r) | _ \<Rightarrow> None)
      else if opcode = OP_SWAP then (case st of x2 # x1 # r \<Rightarrow> Some (x1 # x2 # r) | _ \<Rightarrow> None)
      else if opcode = OP_TUCK then (case st of x2 # x1 # r \<Rightarrow> Some (x2 # x1 # x2 # r) | _ \<Rightarrow> None)
      else None)"

definition op_rearrange :: "opcodetype \<Rightarrow> eval_state \<Rightarrow> eval_result" where
  "op_rearrange opcode s =
     (case rearrange opcode (stack s) of None \<Rightarrow> Inl (RetFalse s) | Some st \<Rightarrow> Inr (s\<lparr> stack := st \<rparr>))"

definition op_DEPTH :: "eval_state \<Rightarrow> eval_result" where
  "op_DEPTH s = Inr (push (serialize (int (length (stack s) mod 2 ^ 16))) s)"

definition op_PICK :: "eval_args \<Rightarrow> opcodetype \<Rightarrow> eval_state \<Rightarrow> eval_result" where
  "op_PICK a opcode s =
     (case stack s of
        x # y # st \<Rightarrow>
          bind_eval (num a s x) (\<lambda>v.
            let n = getint v; st = y # st; s = s\<lparr> stack := st \<rparr> in
            if n < 0 \<or> n \<ge> int (length st) then Inl (RetFalse s)
            else let vch = st ! nat n in
              if opcode = OP_ROLL then Inr (s\<lparr> stack := vch # take (nat n) st @ drop (nat n + 1) st \<rparr>)
              else Inr (s\<lparr> stack := vch # st \<rparr>))
      | _ \<Rightarrow> Inl (RetFalse s))"

definition op_SIZE :: "eval_state \<Rightarrow> eval_result" where
  "op_SIZE s =
     (case stack s of
        [] \<Rightarrow> Inl (RetFalse s)
      | x # _ \<Rightarrow> Inr (push (serialize (int (length x mod 2 ^ 16))) s))"

definition op_EQUAL :: "opcodetype \<Rightarrow> eval_state \<Rightarrow> eval_result" where
  "op_EQUAL opcode s =
     (case stack s of
        vch2 # vch1 # st \<Rightarrow>
          let fEqual = (vch1 = vch2); s' = s\<lparr> stack := bool_vch fEqual # st \<rparr> in
          if opcode = OP_EQUALVERIFY
          then (if fEqual then Inr (s\<lparr> stack := st \<rparr>) else Inl (RetFalse s'))
          else Inr s'
      | _ \<Rightarrow> Inl (RetFalse s))"

definition op_unary :: "eval_args \<Rightarrow> opcodetype \<Rightarrow> eval_state \<Rightarrow> eval_result" where
  "op_unary a opcode s =
     (case stack s of
        [] \<Rightarrow> Inl (RetFalse s)
      | x # st \<Rightarrow>
          bind_eval (num a s x) (\<lambda>bn.
          bind_eval
            (if opcode = OP_1ADD then checked (num_add_assign bn 1)
             else if opcode = OP_1SUB then checked (num_sub_assign bn 1)
             else if opcode = OP_NEGATE then checked (num_negate bn)
             else if opcode = OP_ABS then (if bn < 0 then checked (num_negate bn) else Inr bn)
             else if opcode = OP_NOT then Inr (of_bool (bn = 0))
             else if opcode = OP_0NOTEQUAL then Inr (of_bool (bn \<noteq> 0))
             else Inl (Abort AssertFailed))
            (\<lambda>bn. Inr (s\<lparr> stack := serialize bn # st \<rparr>))))"

text \<open>The operators \<^verbatim>\<open>+\<close> and \<^verbatim>\<open>-\<close> of two numbers do not assert; sums and differences of 4-byte numbers fit.\<close>

definition binary_value :: "opcodetype \<Rightarrow> int \<Rightarrow> int \<Rightarrow> eval_exit + int" where
  "binary_value opcode bn1 bn2 =
     (if opcode = OP_ADD then Inr (bn1 + bn2)
      else if opcode = OP_SUB then Inr (bn1 - bn2)
      else if opcode = OP_BOOLAND then Inr (of_bool (bn1 \<noteq> 0 \<and> bn2 \<noteq> 0))
      else if opcode = OP_BOOLOR then Inr (of_bool (bn1 \<noteq> 0 \<or> bn2 \<noteq> 0))
      else if opcode = OP_NUMEQUAL then Inr (of_bool (bn1 = bn2))
      else if opcode = OP_NUMEQUALVERIFY then Inr (of_bool (bn1 = bn2))
      else if opcode = OP_NUMNOTEQUAL then Inr (of_bool (bn1 \<noteq> bn2))
      else if opcode = OP_LESSTHAN then Inr (of_bool (bn1 < bn2))
      else if opcode = OP_GREATERTHAN then Inr (of_bool (bn1 > bn2))
      else if opcode = OP_LESSTHANOREQUAL then Inr (of_bool (bn1 \<le> bn2))
      else if opcode = OP_GREATERTHANOREQUAL then Inr (of_bool (bn1 \<ge> bn2))
      else if opcode = OP_MIN then Inr (if bn1 < bn2 then bn1 else bn2)
      else if opcode = OP_MAX then Inr (if bn1 > bn2 then bn1 else bn2)
      else Inl (Abort AssertFailed))"

definition op_binary :: "eval_args \<Rightarrow> opcodetype \<Rightarrow> eval_state \<Rightarrow> eval_result" where
  "op_binary a opcode s =
     (case stack s of
        x2 # x1 # st \<Rightarrow>
          bind_eval (num a s x1) (\<lambda>bn1. bind_eval (num a s x2) (\<lambda>bn2.
          bind_eval (binary_value opcode bn1 bn2) (\<lambda>bn.
            let s' = s\<lparr> stack := serialize bn # st \<rparr> in
            if opcode = OP_NUMEQUALVERIFY
            then (if CastToBool (serialize bn) then Inr (s\<lparr> stack := st \<rparr>) else Inl (RetFalse s'))
            else Inr s')))
      | _ \<Rightarrow> Inl (RetFalse s))"

definition op_WITHIN :: "eval_args \<Rightarrow> eval_state \<Rightarrow> eval_result" where
  "op_WITHIN a s =
     (case stack s of
        x3 # x2 # x1 # st \<Rightarrow>
          bind_eval (num a s x1) (\<lambda>bn1. bind_eval (num a s x2) (\<lambda>bn2. bind_eval (num a s x3) (\<lambda>bn3.
            Inr (s\<lparr> stack := bool_vch (bn2 \<le> bn1 \<and> bn1 < bn3) # st \<rparr>))))
      | _ \<Rightarrow> Inl (RetFalse s))"

definition op_hash :: "eval_args \<Rightarrow> opcodetype \<Rightarrow> eval_state \<Rightarrow> eval_result" where
  "op_hash a opcode s =
     (case stack s of
        [] \<Rightarrow> Inl (RetFalse s)
      | vch # st \<Rightarrow>
          let env = a_env a;
              vchHash =
                (if opcode = OP_RIPEMD160 then env_RIPEMD160 env vch
                 else if opcode = OP_SHA1 then env_SHA1 env vch
                 else if opcode = OP_SHA256 then env_SHA256 env vch
                 else if opcode = OP_HASH160 then le_bytes 20 (unat (env_Hash160 env vch))
                 else le_bytes 32 (unat (env_Hash env vch)))
          in Inr (s\<lparr> stack := vchHash # st \<rparr>))"

definition op_CODESEPARATOR :: "bytes \<Rightarrow> eval_state \<Rightarrow> eval_result" where
  "op_CODESEPARATOR pc s = Inr (s\<lparr> pbegincodehash := pc \<rparr>)"

text \<open>The condition both signature opcodes evaluate, with the short-circuit of \<^verbatim>\<open>&&\<close>.\<close>

definition check_one :: "eval_args \<Rightarrow> CSignatureCache \<Rightarrow> valtype \<Rightarrow> valtype \<Rightarrow> bytes \<Rightarrow> eval_exit + (bool \<times> CSignatureCache)" where
  "check_one a cache vchSig vchPubKey scriptCode =
     (case IsCanonicalSignature vchSig (a_flags a) of
        None \<Rightarrow> Inl (Abort OutOfRange)
      | Some False \<Rightarrow> Inr (False, cache)
      | Some True \<Rightarrow>
          if \<not> IsCanonicalPubKey vchPubKey (a_flags a) then Inr (False, cache)
          else case CheckSig (a_env a) cache vchSig vchPubKey scriptCode (a_txTo a) (a_nIn a) (a_nHashType a) (a_flags a) of
            None \<Rightarrow> Inl (Abort AssertFailed)
          | Some r \<Rightarrow> Inr r)"

definition op_CHECKSIG :: "eval_args \<Rightarrow> opcodetype \<Rightarrow> eval_state \<Rightarrow> eval_result" where
  "op_CHECKSIG a opcode s =
     (case stack s of
        vchPubKey # vchSig # st \<Rightarrow>
          let scriptCode = fst (FindAndDelete (push_vector vchSig) (pbegincodehash s)) in
          bind_eval (check_one a (sigcache s) vchSig vchPubKey scriptCode) (\<lambda>(fSuccess, cache).
            let s = s\<lparr> sigcache := cache \<rparr>; s' = s\<lparr> stack := bool_vch fSuccess # st \<rparr> in
            if opcode = OP_CHECKSIGVERIFY
            then (if fSuccess then Inr (s\<lparr> stack := st \<rparr>) else Inl (RetFalse s'))
            else Inr s')
      | _ \<Rightarrow> Inl (RetFalse s))"

text \<open>
  The loop of CHECKMULTISIG over the signatures and the keys that are left, in the order of the
  indices \<^verbatim>\<open>isig\<close> and \<^verbatim>\<open>ikey\<close>. The pattern without a key is not reached: the loop stops when more
  signatures than keys are left.
\<close>

fun multisig_loop :: "eval_args \<Rightarrow> bytes \<Rightarrow> CSignatureCache \<Rightarrow> valtype list \<Rightarrow> valtype list \<Rightarrow>
    eval_exit + (bool \<times> CSignatureCache)" where
  "multisig_loop a scriptCode cache [] keys = Inr (True, cache)"
| "multisig_loop a scriptCode cache (vchSig # sigs) [] = Inl (Abort OutOfRange)"
| "multisig_loop a scriptCode cache (vchSig # sigs) (vchPubKey # keys) =
     bind_eval (check_one a cache vchSig vchPubKey scriptCode) (\<lambda>(fOk, cache).
       let sigs' = (if fOk then sigs else vchSig # sigs) in
       if length sigs' > length keys then Inr (False, cache)
       else multisig_loop a scriptCode cache sigs' keys)"

text \<open>
  CHECKMULTISIG after the keys: the number of signatures is at the head of \<open>st\<close>. The test of the
  stack size asks for one element below the signatures, the extra argument.
\<close>

definition multisig_finish :: "eval_args \<Rightarrow> opcodetype \<Rightarrow> bool \<Rightarrow> eval_state \<Rightarrow> eval_result" where
  "multisig_finish a opcode fSuccess s =
     (case stack s of
        [] \<Rightarrow> Inl (RetFalse s)
      | dummy # st \<Rightarrow>
          if has_flag (a_flags a) SCRIPT_VERIFY_NULLDUMMY \<and> dummy \<noteq> [] then Inl (RetFalse s)
          else let s' = s\<lparr> stack := bool_vch fSuccess # st \<rparr> in
          if opcode = OP_CHECKMULTISIGVERIFY
          then (if fSuccess then Inr (s\<lparr> stack := st \<rparr>) else Inl (RetFalse s'))
          else Inr s')"

definition multisig_sigs :: "eval_args \<Rightarrow> opcodetype \<Rightarrow> int \<Rightarrow> valtype list \<Rightarrow> valtype list \<Rightarrow> eval_state \<Rightarrow> eval_result" where
  "multisig_sigs a opcode nKeysCount keys st s =
     (case st of
        [] \<Rightarrow> Inl (RetFalse s)
      | ns # st \<Rightarrow>
          bind_eval (num a s ns) (\<lambda>v.
          let nSigsCount = getint v in
          if nSigsCount < 0 \<or> nSigsCount > nKeysCount then Inl (RetFalse s)
          else if length st < nat nSigsCount + 1 then Inl (RetFalse s)
          else let
            sigs = take (nat nSigsCount) st;
            scriptCode = fold (\<lambda>vchSig code. fst (FindAndDelete (push_vector vchSig) code)) sigs (pbegincodehash s)
          in bind_eval (multisig_loop a scriptCode (sigcache s) sigs keys) (\<lambda>(fSuccess, cache).
            multisig_finish a opcode fSuccess (s\<lparr> sigcache := cache, stack := drop (nat nSigsCount) st \<rparr>))))"

definition op_CHECKMULTISIG :: "eval_args \<Rightarrow> opcodetype \<Rightarrow> eval_state \<Rightarrow> eval_result" where
  "op_CHECKMULTISIG a opcode s =
     (case stack s of
        [] \<Rightarrow> Inl (RetFalse s)
      | nk # st \<Rightarrow>
          bind_eval (num a s nk) (\<lambda>v.
          let nKeysCount = getint v in
          if nKeysCount < 0 \<or> nKeysCount > 20 then Inl (RetFalse s)
          else let s = s\<lparr> nOpCount := nOpCount s + nKeysCount \<rparr> in
          if nOpCount s > int MAX_OPS_PER_SCRIPT then Inl (RetFalse s)
          else if length st < nat nKeysCount + 1 then Inl (RetFalse s)
          else multisig_sigs a opcode nKeysCount (take (nat nKeysCount) st) (drop (nat nKeysCount) st) s))"

section \<open>The switch\<close>

definition disabled_opcode :: "opcodetype \<Rightarrow> bool" where
  "disabled_opcode opcode \<longleftrightarrow>
     opcode = OP_CAT \<or> opcode = OP_SUBSTR \<or> opcode = OP_LEFT \<or> opcode = OP_RIGHT \<or> opcode = OP_INVERT \<or>
     opcode = OP_AND \<or> opcode = OP_OR \<or> opcode = OP_XOR \<or> opcode = OP_2MUL \<or> opcode = OP_2DIV \<or>
     opcode = OP_MUL \<or> opcode = OP_DIV \<or> opcode = OP_MOD \<or> opcode = OP_LSHIFT \<or> opcode = OP_RSHIFT"

definition op_switch :: "eval_args \<Rightarrow> opcodetype \<Rightarrow> bool \<Rightarrow> bytes \<Rightarrow> eval_state \<Rightarrow> eval_result" where
  "op_switch a opcode fExec pc s =
     (if opcode = OP_1NEGATE \<or> opcode \<in> {OP_1..OP_16} then op_push_number opcode s
      else if opcode = OP_NOP then Inr s
      else if opcode = OP_CHECKLOCKTIMEVERIFY then op_CHECKLOCKTIMEVERIFY a s
      else if opcode = OP_CHECKSEQUENCEVERIFY then op_CHECKSEQUENCEVERIFY a s
      else if opcode \<in> {OP_NOP1, OP_NOP4, OP_NOP5, OP_NOP6, OP_NOP7, OP_NOP8, OP_NOP9, OP_NOP10} then op_NOPn a s
      else if opcode = OP_IF \<or> opcode = OP_NOTIF then op_IF opcode fExec s
      else if opcode = OP_ELSE then op_ELSE s
      else if opcode = OP_ENDIF then op_ENDIF s
      else if opcode = OP_VERIFY then op_VERIFY s
      else if opcode = OP_RETURN then Inl (RetFalse s)
      else if opcode = OP_TOALTSTACK then op_TOALTSTACK s
      else if opcode = OP_FROMALTSTACK then op_FROMALTSTACK s
      else if opcode \<in> {OP_2DROP, OP_2DUP, OP_3DUP, OP_2OVER, OP_2ROT, OP_2SWAP, OP_IFDUP, OP_DROP, OP_DUP, OP_NIP,
                         OP_OVER, OP_ROT, OP_SWAP, OP_TUCK} then op_rearrange opcode s
      else if opcode = OP_DEPTH then op_DEPTH s
      else if opcode = OP_PICK \<or> opcode = OP_ROLL then op_PICK a opcode s
      else if opcode = OP_SIZE then op_SIZE s
      else if opcode = OP_EQUAL \<or> opcode = OP_EQUALVERIFY then op_EQUAL opcode s
      else if opcode \<in> {OP_1ADD, OP_1SUB, OP_NEGATE, OP_ABS, OP_NOT, OP_0NOTEQUAL} then op_unary a opcode s
      else if opcode \<in> {OP_ADD, OP_SUB, OP_BOOLAND, OP_BOOLOR, OP_NUMEQUAL, OP_NUMEQUALVERIFY, OP_NUMNOTEQUAL,
                         OP_LESSTHAN, OP_GREATERTHAN, OP_LESSTHANOREQUAL, OP_GREATERTHANOREQUAL, OP_MIN, OP_MAX}
      then op_binary a opcode s
      else if opcode = OP_WITHIN then op_WITHIN a s
      else if opcode \<in> {OP_RIPEMD160, OP_SHA1, OP_SHA256, OP_HASH160, OP_HASH256} then op_hash a opcode s
      else if opcode = OP_CODESEPARATOR then op_CODESEPARATOR pc s
      else if opcode = OP_CHECKSIG \<or> opcode = OP_CHECKSIGVERIFY then op_CHECKSIG a opcode s
      else if opcode = OP_CHECKMULTISIG \<or> opcode = OP_CHECKMULTISIGVERIFY then op_CHECKMULTISIG a opcode s
      else Inl (RetFalse s))"

section \<open>The loop\<close>

text \<open>The execution of one opcode: a push of data, the switch, or nothing in a branch not taken.\<close>

definition eval_op :: "eval_args \<Rightarrow> opcodetype \<Rightarrow> valtype \<Rightarrow> bool \<Rightarrow> bytes \<Rightarrow> eval_state \<Rightarrow> eval_result" where
  "eval_op a opcode vchPushValue fExec pc s =
     (if fExec \<and> opcode \<le> OP_PUSHDATA4
      then (if fRequireMinimal a
            then (case CheckMinimalPush vchPushValue opcode of
                    None \<Rightarrow> Inl (Abort AssertFailed)
                  | Some False \<Rightarrow> Inl (RetFalse s)
                  | Some True \<Rightarrow> Inr (push vchPushValue s))
            else Inr (push vchPushValue s))
      else if fExec \<or> (OP_IF \<le> opcode \<and> opcode \<le> OP_ENDIF) then op_switch a opcode fExec pc s
      else Inr s)"

text \<open>One iteration: the opcode at \<open>pc\<close>, with the iterator after it in the result.\<close>

definition eval_step :: "eval_args \<Rightarrow> bytes \<Rightarrow> eval_state \<Rightarrow> eval_exit + (bytes \<times> eval_state)" where
  "eval_step a pc s =
     (let fExec = list_all (\<lambda>b. b) (vfExec s) in
      case GetScriptOp pc of
        Inl _ \<Rightarrow> Inl (RetFalse s)
      | Inr (opcode, vchPushValue, pc) \<Rightarrow>
          if length vchPushValue > MAX_SCRIPT_ELEMENT_SIZE then Inl (RetFalse s)
          else let s = (if opcode > OP_16 then s\<lparr> nOpCount := nOpCount s + 1 \<rparr> else s) in
          if opcode > OP_16 \<and> nOpCount s > int MAX_OPS_PER_SCRIPT then Inl (RetFalse s)
          else if disabled_opcode opcode then Inl (RetFalse s)
          else bind_eval (eval_op a opcode vchPushValue fExec pc s)
            (\<lambda>s. if length (stack s) + length (altstack s) > MAX_STACK_SIZE then Inl (RetFalse s) else Inr (pc, s)))"

lemma eval_step_shorter: "eval_step a pc s = Inr (pc', s') \<Longrightarrow> length pc' < length pc"
  by (auto simp: eval_step_def Let_def bind_eval_def dest: GetScriptOp_shorter split: sum.splits if_splits option.splits)

function eval_loop :: "eval_args \<Rightarrow> bytes \<Rightarrow> eval_state \<Rightarrow> eval_result" where
  "eval_loop a pc s =
     (if pc = [] then Inr s
      else case eval_step a pc s of Inl e \<Rightarrow> Inl e | Inr (pc', s') \<Rightarrow> eval_loop a pc' s')"
  by pat_completeness auto
termination
  by (relation "measure (\<lambda>(_, pc, _). length pc)") (auto dest: eval_step_shorter)

declare eval_loop.simps [simp del]

definition init_state :: "valtype list \<Rightarrow> CSignatureCache \<Rightarrow> bytes \<Rightarrow> eval_state" where
  "init_state st cache script =
     \<lparr> stack = st, altstack = [], vfExec = [], nOpCount = 0, pbegincodehash = script, sigcache = cache \<rparr>"

text \<open>The result: whether the script succeeded, the stack and the signature cache it leaves.\<close>

definition EvalScript :: "eval_args \<Rightarrow> valtype list \<Rightarrow> CSignatureCache \<Rightarrow> bytes \<Rightarrow>
    abort + (bool \<times> valtype list \<times> CSignatureCache)" where
  "EvalScript a st cache script =
     (if length script > MAX_SCRIPT_SIZE then Inr (False, st, cache)
      else case eval_loop a script (init_state st cache script) of
        Inl (Abort e) \<Rightarrow> Inl e
      | Inl (RetFalse s) \<Rightarrow> Inr (False, stack s, sigcache s)
      | Inr s \<Rightarrow> Inr (vfExec s = [], stack s, sigcache s))"

end
