(* ===== verification/Script_Eval_Inv.thy ===== *)
theory Script_Eval_Inv
  imports Script_Eval_Safe
begin

text \<open>
  Invariants of the interpreter: what one opcode preserves, and by rule induction over the
  iterations of the loop, what holds in every state the interpreter reaches.
\<close>

section \<open>What one opcode preserves\<close>

text \<open>The digests of OpenSSL have their documented lengths.\<close>

definition digest_lengths :: "crypto_env \<Rightarrow> bool" where
  "digest_lengths env \<longleftrightarrow>
     (\<forall>v. length (env_RIPEMD160 env v) = 20 \<and> length (env_SHA1 env v) = 20 \<and> length (env_SHA256 env v) = 32)"

definition elem_ok :: "valtype \<Rightarrow> bool" where
  "elem_ok v \<longleftrightarrow> length v \<le> MAX_SCRIPT_ELEMENT_SIZE"

definition state_ok :: "eval_args \<Rightarrow> eval_state \<Rightarrow> bool" where
  "state_ok a s \<longleftrightarrow> list_all elem_ok (stack s) \<and> list_all elem_ok (altstack s) \<and> cache_ok (a_env a) (sigcache s)"

definition depth :: "eval_state \<Rightarrow> nat" where
  "depth s = length (stack s) + length (altstack s)"

definition post :: "eval_args \<Rightarrow> eval_state \<Rightarrow> eval_state \<Rightarrow> bool" where
  "post a s s' \<longleftrightarrow> state_ok a s' \<and> depth s' \<le> depth s + 3 \<and> nOpCount s \<le> nOpCount s' \<and> nOpCount s' \<le> nOpCount s + 20"

definition keeps :: "eval_args \<Rightarrow> eval_state \<Rightarrow> eval_result \<Rightarrow> bool" where
  "keeps a s r \<longleftrightarrow>
     (case r of
        Inr s' \<Rightarrow> post a s s' \<and> nOpCount s' \<le> max (nOpCount s) (int MAX_OPS_PER_SCRIPT)
      | Inl (RetFalse s') \<Rightarrow> post a s s'
      | Inl (Abort _) \<Rightarrow> True)"

lemma post_refl: "state_ok a s \<Longrightarrow> post a s s"
  by (simp add: post_def)

lemma keeps_refl: "state_ok a s \<Longrightarrow> keeps a s (Inr s)" "state_ok a s \<Longrightarrow> keeps a s (Inl (RetFalse s))"
  by (simp_all add: keeps_def post_refl)

lemma keeps_abort: "keeps a s (Inl (Abort e))"
  by (simp add: keeps_def)

lemma keeps_num: "state_ok a s \<Longrightarrow> (\<And>n. \<bar>n\<bar> < 2 ^ 31 \<Longrightarrow> keeps a s (f n)) \<Longrightarrow> keeps a s (bind_eval (num a s x) f)"
  by (rule num_cases [of a s x]) (simp_all add: keeps_refl)

lemma keeps_num5: "state_ok a s \<Longrightarrow> (\<And>n. keeps a s (f n)) \<Longrightarrow> keeps a s (bind_eval (num5 a s x) f)"
  by (rule num5_cases [of a s x]) (simp_all add: keeps_refl)

lemma elem_ok_serialize: "\<bar>n\<bar> < 2 ^ 39 \<Longrightarrow> elem_ok (serialize n)"
  using length_serialize [of n 5] by (simp add: elem_ok_def)

lemma elem_ok_bool [simp]: "elem_ok vchTrue" "elem_ok vchFalse"
  by (simp_all add: elem_ok_def vchTrue_def vchFalse_def)

lemma bounded_serialize: "n \<le> 65536 \<Longrightarrow> elem_ok (serialize (int n))"
  by (rule elem_ok_serialize) simp

lemma list_all_nth_ok: "list_all P xs \<Longrightarrow> n < length xs \<Longrightarrow> P (xs ! n)"
  by (simp add: list_all_length)

lemmas keep_defs = keeps_def post_def state_ok_def depth_def

lemma keeps_push_number: "state_ok a s \<Longrightarrow> opcode \<le> 0xff \<Longrightarrow> keeps a s (op_push_number opcode s)"
  by (simp add: op_push_number_def push_def keep_defs elem_ok_serialize)

lemma keeps_locktime:
  assumes "state_ok a s"
  shows "keeps a s (op_CHECKLOCKTIMEVERIFY a s)" "keeps a s (op_CHECKSEQUENCEVERIFY a s)"
  using assms
  by (auto simp: op_CHECKLOCKTIMEVERIFY_def op_CHECKSEQUENCEVERIFY_def keeps_refl keeps_abort
      split: list.splits option.splits bool.splits intro!: keeps_num5)

lemma keeps_control:
  assumes "state_ok a s"
  shows "keeps a s (op_NOPn a s)" "keeps a s (op_IF opcode fExec s)" "keeps a s (op_ELSE s)" "keeps a s (op_ENDIF s)"
    "keeps a s (op_VERIFY s)" "keeps a s (op_TOALTSTACK s)" "keeps a s (op_FROMALTSTACK s)"
    "keeps a s (op_CODESEPARATOR pc s)"
  using assms
  by (auto simp: op_NOPn_def op_IF_def op_ELSE_def op_ENDIF_def op_VERIFY_def op_TOALTSTACK_def op_FROMALTSTACK_def
      op_CODESEPARATOR_def keep_defs split: list.splits)

lemma rearrange_ok:
  assumes "rearrange opcode st = Some st'" and "list_all elem_ok st"
  shows "list_all elem_ok st' \<and> length st' \<le> length st + 3"
  using assms by (auto simp: rearrange_def split: if_splits list.splits)

lemma keeps_rearrange: "state_ok a s \<Longrightarrow> keeps a s (op_rearrange opcode s)"
  using rearrange_ok [of opcode "stack s"]
  by (auto simp: op_rearrange_def keep_defs split: option.splits)

lemma keeps_sizes:
  assumes "state_ok a s"
  shows "keeps a s (op_DEPTH s)" "keeps a s (op_SIZE s)"
  using assms
  by (auto simp: op_DEPTH_def op_SIZE_def push_def keep_defs bounded_serialize split: list.splits)

lemma keeps_PICK: "state_ok a s \<Longrightarrow> keeps a s (op_PICK a opcode s)"
  by (auto simp: op_PICK_def Let_def keeps_refl split: list.splits intro!: keeps_num)
    (auto simp: keep_defs list_all_nth_ok nth_Cons' list_all_iff dest!: in_set_takeD in_set_dropD)

lemma keeps_EQUAL: "state_ok a s \<Longrightarrow> keeps a s (op_EQUAL opcode s)"
  by (auto simp: op_EQUAL_def Let_def keep_defs split: list.splits)

lemma keeps_WITHIN: "state_ok a s \<Longrightarrow> keeps a s (op_WITHIN a s)"
  by (auto simp: op_WITHIN_def keeps_refl split: list.splits intro!: keeps_num) (auto simp: keep_defs)

lemma keeps_hash: "state_ok a s \<Longrightarrow> digest_lengths (a_env a) \<Longrightarrow> keeps a s (op_hash a opcode s)"
  by (auto simp: op_hash_def Let_def keep_defs elem_ok_def digest_lengths_def split: list.splits)


lemma keeps_unary: "state_ok a s \<Longrightarrow> keeps a s (op_unary a opcode s)"
proof -
  have push: "keeps a s (Inr (s\<lparr> stack := serialize n # st \<rparr>))"
    if "state_ok a s" "stack s = x # st" "\<bar>n\<bar> < 2 ^ 32" for n x st
    using that by (auto simp: keep_defs elem_ok_serialize)
  assume ok: "state_ok a s"
  show ?thesis
  proof (cases "stack s")
    case (Cons x st)
    show ?thesis
      unfolding op_unary_def Cons list.case
      by (rule keeps_num [OF ok])
        (auto simp: checked_def num_add_assign_def num_sub_assign_def num_negate_def keeps_abort int64_min_def int64_max_def
          intro!: push [OF ok Cons] push [OF ok Cons, of 0, simplified])
  qed (simp add: op_unary_def keeps_refl ok)
qed

lemma binary_value_bound:
  "binary_value opcode x y = Inr n \<Longrightarrow> \<bar>x\<bar> < 2 ^ 31 \<Longrightarrow> \<bar>y\<bar> < 2 ^ 31 \<Longrightarrow> \<bar>n\<bar> < 2 ^ 32"
  by (auto simp: binary_value_def split: if_splits)

lemma binary_value_Inl: "binary_value opcode x y = Inl e \<Longrightarrow> e = Abort AssertFailed"
  by (auto simp: binary_value_def split: if_splits)

lemma keeps_binary: "state_ok a s \<Longrightarrow> keeps a s (op_binary a opcode s)"
proof -
  assume ok: "state_ok a s"
  have k: "keeps a s (bind_eval (binary_value opcode n1 n2) (\<lambda>bn.
      let s' = s\<lparr> stack := serialize bn # st \<rparr> in
      if opcode = OP_NUMEQUALVERIFY
      then (if CastToBool (serialize bn) then Inr (s\<lparr> stack := st \<rparr>) else Inl (RetFalse s'))
      else Inr s'))" (is "keeps a s ?r")
    if "stack s = x2 # x1 # st" "\<bar>n1\<bar> < 2 ^ 31" "\<bar>n2\<bar> < 2 ^ 31" for n1 n2 x1 x2 st
  proof (cases "binary_value opcode n1 n2")
    case (Inl e)
    then show ?thesis using binary_value_Inl [OF Inl] by (simp add: keeps_abort)
  next
    case (Inr n)
    then have "\<bar>n\<bar> < 2 ^ 32" using binary_value_bound that(2,3) by blast
    with Inr ok that(1) show ?thesis by (auto simp: Let_def keep_defs elem_ok_serialize)
  qed
  show ?thesis
    unfolding op_binary_def
    by (auto simp: keeps_refl ok split: list.split intro!: keeps_num k)
qed

lemma check_one_cache_ok:
  "check_one a cache sig key code = Inr (b, cache') \<Longrightarrow> cache_ok (a_env a) cache \<Longrightarrow> cache_ok (a_env a) cache'"
  by (auto simp: check_one_def split: option.splits bool.splits if_splits dest: CheckSig_cache_ok)

lemma check_one_Inl: "check_one a cache sig key code = Inl e \<Longrightarrow> \<exists>x. e = Abort x"
  by (auto simp: check_one_def split: option.splits bool.splits if_splits)

text \<open>Induction over the keys, with the signatures that are left.\<close>

lemma multisig_loop_cache_ok:
  "multisig_loop a code cache sigs keys = Inr (b, cache') \<Longrightarrow> cache_ok (a_env a) cache \<Longrightarrow> cache_ok (a_env a) cache'"
proof (induction keys arbitrary: cache sigs)
  case Nil
  then show ?case by (cases sigs) auto
next
  case (Cons key keys)
  show ?case
  proof (cases sigs)
    case Nil
    with Cons.prems show ?thesis by simp
  next
    case sigs: (Cons sig sigs')
    with Cons.prems obtain ok c where c: "check_one a cache sig key code = Inr (ok, c)"
      by (cases "check_one a cache sig key code") auto
    from check_one_cache_ok [OF c Cons.prems(2)] Cons.prems(1) c sigs Cons.IH show ?thesis
      by (auto simp: Let_def split: if_splits)
  qed
qed

lemma multisig_loop_Inl: "multisig_loop a code cache sigs keys = Inl e \<Longrightarrow> \<exists>x. e = Abort x"
proof (induction keys arbitrary: cache sigs)
  case Nil
  then show ?case by (cases sigs) auto
next
  case (Cons key keys)
  then show ?case
    by (cases sigs; cases "check_one a cache (hd sigs) key code")
      (auto simp: Let_def dest: check_one_Inl split: if_splits)
qed

lemma keeps_check:
  assumes "\<And>e. r = Inl e \<Longrightarrow> \<exists>x. e = Abort x" and "\<And>b cache'. r = Inr (b, cache') \<Longrightarrow> keeps a s (f (b, cache'))"
  shows "keeps a s (bind_eval r f)"
  using assms by (cases r) (auto simp: keeps_abort)

lemma keeps_CHECKSIG: "state_ok a s \<Longrightarrow> keeps a s (op_CHECKSIG a opcode s)"
  by (auto simp: op_CHECKSIG_def Let_def keeps_refl split: list.split intro!: keeps_check dest: check_one_Inl)
    (auto simp: keep_defs dest: check_one_cache_ok)

lemma keeps_num_after:
  assumes "post a s s1" and "\<And>n. keeps a s (f n)"
  shows "keeps a s (bind_eval (num a s1 x) f)"
  using assms by (cases rule: num_cases [of a s1 x]) (simp_all add: keeps_def)

lemma keeps_sigs:
  assumes "post a s s1" "state_ok a s" "nOpCount s1 \<le> int MAX_OPS_PER_SCRIPT" "altstack s1 = altstack s"
    "sigcache s1 = sigcache s" "list_all elem_ok st" "length st \<le> length (stack s)"
  shows "keeps a s (multisig_sigs a opcode nKeysCount keys st s1)"
proof -
  have fin: "keeps a s (multisig_finish a opcode b (s1\<lparr> sigcache := c, stack := st' \<rparr>))"
    if "cache_ok (a_env a) c" "list_all elem_ok st'" "length st' \<le> length (stack s)" for b c st'
    using that assms by (auto simp: multisig_finish_def Let_def keep_defs split: list.split)
  have r: "keeps a s (Inl (RetFalse s1))" using assms(1) by (simp add: keeps_def)
  have d: "list_all elem_ok (drop n xs)" if "list_all elem_ok xs" for n xs
    using that by (auto simp: list_all_iff dest: in_set_dropD)
  show ?thesis
  proof (cases st)
    case Nil
    with r show ?thesis by (simp add: multisig_sigs_def)
  next
    case (Cons ns st')
    then show ?thesis
      using assms(2,5,6,7)
      by (auto simp: multisig_sigs_def Let_def r state_ok_def
          intro!: keeps_num_after [OF assms(1)] keeps_check fin d dest: multisig_loop_Inl multisig_loop_cache_ok)
  qed
qed

lemma keeps_CHECKMULTISIG:
  assumes "state_ok a s"
  shows "keeps a s (op_CHECKMULTISIG a opcode s)"
proof (cases "stack s")
  case (Cons nk st)
  have d: "list_all elem_ok (drop n st)" for n
    using assms Cons by (auto simp: state_ok_def list_all_iff dest: in_set_dropD)
  have p: "post a s (s\<lparr> nOpCount := nOpCount s + k \<rparr>)" if "0 \<le> k" "k \<le> 20" for k
    using assms that by (simp add: keep_defs)
  then have r: "keeps a s (Inl (RetFalse (s\<lparr> nOpCount := nOpCount s + k \<rparr>)))" if "0 \<le> k" "k \<le> 20" for k
    using that by (simp add: keeps_def)
  show ?thesis
    using assms
    by (auto simp: op_CHECKMULTISIG_def Cons Let_def keeps_refl d intro!: keeps_num keeps_sigs p r)
qed (simp add: op_CHECKMULTISIG_def keeps_refl assms)

lemma keeps_if:
  "(c \<Longrightarrow> keeps a s x) \<Longrightarrow> (\<not> c \<Longrightarrow> keeps a s y) \<Longrightarrow> keeps a s (if c then x else y)"
  by simp

lemma keeps_switch:
  assumes "state_ok a s" "digest_lengths (a_env a)" "opcode \<le> 0xff"
  shows "keeps a s (op_switch a opcode fExec pc s)"
  unfolding op_switch_def using assms
  by (intro keeps_if keeps_push_number keeps_refl keeps_locktime keeps_control keeps_rearrange keeps_sizes keeps_PICK
      keeps_EQUAL keeps_unary keeps_binary keeps_WITHIN keeps_hash keeps_CHECKSIG keeps_CHECKMULTISIG)

lemma keeps_op:
  assumes "state_ok a s" "digest_lengths (a_env a)" "opcode \<le> 0xff" "elem_ok v"
  shows "keeps a s (eval_op a opcode v fExec pc s)"
proof -
  have "keeps a s (Inr (push v s))"
    using assms by (auto simp: push_def keep_defs)
  then show ?thesis
    using assms keeps_switch
    by (auto simp: eval_op_def keeps_refl keeps_abort split: option.splits bool.splits)
qed

section \<open>Reachable states\<close>

text \<open>The loop as a step relation on iterators and states.\<close>

inductive reaches :: "eval_args \<Rightarrow> bytes \<times> eval_state \<Rightarrow> bytes \<times> eval_state \<Rightarrow> bool" for a c where
  start: "reaches a c c"
| iteration: "reaches a c (pc, s) \<Longrightarrow> pc \<noteq> [] \<Longrightarrow> eval_step a pc s = Inr c' \<Longrightarrow> reaches a c c'"

inductive_cases reachesE: "reaches a c c'"

definition limits_ok :: "eval_args \<Rightarrow> eval_state \<Rightarrow> bool" where
  "limits_ok a s \<longleftrightarrow> state_ok a s \<and> depth s \<le> MAX_STACK_SIZE \<and> 0 \<le> nOpCount s \<and> nOpCount s \<le> int MAX_OPS_PER_SCRIPT"

lemma eval_step_Inr:
  assumes "limits_ok a s" "digest_lengths (a_env a)" "eval_step a pc s = Inr (pc', s')"
  shows "limits_ok a s'"
proof -
  obtain opcode v where g: "GetScriptOp pc = Inr (opcode, v, pc')" "elem_ok v"
    and st: "eval_op a opcode v (list_all (\<lambda>b. b) (vfExec s)) pc'
      (if opcode > OP_16 then s\<lparr> nOpCount := nOpCount s + 1 \<rparr> else s) = Inr s'"
    "opcode > OP_16 \<Longrightarrow> nOpCount s + 1 \<le> int MAX_OPS_PER_SCRIPT" "depth s' \<le> MAX_STACK_SIZE"
    using assms(3)
    by (auto simp: eval_step_def Let_def elem_ok_def depth_def bind_eval_def split: sum.splits if_splits)
  let ?s = "if opcode > OP_16 then s\<lparr> nOpCount := nOpCount s + 1 \<rparr> else s"
  have ok: "state_ok a ?s" "nOpCount ?s \<le> int MAX_OPS_PER_SCRIPT" "0 \<le> nOpCount ?s"
    using assms(1) st(2) by (auto simp: limits_ok_def state_ok_def)
  have "keeps a ?s (Inr s')"
    using keeps_op [OF ok(1) assms(2) GetScriptOp_opcode [OF g(1)] g(2)] st(1) by metis
  then show ?thesis
    using ok st(3) by (auto simp: keeps_def post_def limits_ok_def)
qed

lemma reaches_limits:
  assumes "limits_ok a (snd c)" "digest_lengths (a_env a)"
  shows "reaches a c c' \<Longrightarrow> limits_ok a (snd c')"
proof (induction rule: reaches.induct)
  case (iteration pc s c')
  then show ?case using eval_step_Inr [of a s pc "fst c'" "snd c'"] assms(2) by simp
qed (rule assms)

lemma reaches_trans: "reaches a c d \<Longrightarrow> reaches a d e \<Longrightarrow> reaches a c e"
proof (rotate_tac 1, induction rule: reaches.induct)
  case (iteration pc s c')
  then show ?case by (blast intro: reaches.iteration)
qed

text \<open>How the loop ends: with the end of the script, or with an iteration that exits.\<close>

lemma eval_loop_reaches:
  "case eval_loop a pc s of
     Inr s' \<Rightarrow> reaches a (pc, s) ([], s')
   | Inl e \<Rightarrow> (\<exists>pc' s'. reaches a (pc, s) (pc', s') \<and> pc' \<noteq> [] \<and> eval_step a pc' s' = Inl e)"
proof (induction a pc s rule: eval_loop.induct)
  case (1 a pc s)
  show ?case
  proof (cases "pc = []")
    case True
    then show ?thesis by (simp add: eval_loop.simps reaches.start)
  next
    case pc: False
    show ?thesis
    proof (cases "eval_step a pc s")
      case (Inl e)
      with pc show ?thesis by (auto simp: eval_loop.simps [of a pc] intro: reaches.start)
    next
      case (Inr c)
      then obtain pc' s' where c: "eval_step a pc s = Inr (pc', s')" by (cases c) auto
      have "reaches a (pc, s) (pc', s')"
        using reaches.start pc c by (rule reaches.iteration)
      moreover from 1 pc c have "case eval_loop a pc' s' of
          Inr t \<Rightarrow> reaches a (pc', s') ([], t)
        | Inl e \<Rightarrow> (\<exists>q t. reaches a (pc', s') (q, t) \<and> q \<noteq> [] \<and> eval_step a q t = Inl e)"
        by blast
      ultimately show ?thesis
        using pc c reaches_trans by (auto simp: eval_loop.simps [of a pc] split: sum.splits) blast+
    qed
  qed
qed

lemma eval_step_exit:
  assumes "limits_ok a s" "digest_lengths (a_env a)" "eval_step a pc s = Inl (RetFalse s')"
  shows "state_ok a s' \<and> depth s' \<le> MAX_STACK_SIZE + 3"
proof (cases "GetScriptOp pc")
  case (Inl r)
  with assms show ?thesis by (auto simp: eval_step_def limits_ok_def)
next
  case (Inr p)
  then obtain opcode v pc' where g: "GetScriptOp pc = Inr (opcode, v, pc')" by (cases p) auto
  let ?s = "if opcode > OP_16 then s\<lparr> nOpCount := nOpCount s + 1 \<rparr> else s"
  let ?r = "eval_op a opcode v (list_all (\<lambda>b. b) (vfExec s)) pc' ?s"
  have ok: "state_ok a ?s" "depth ?s \<le> MAX_STACK_SIZE" using assms(1) by (auto simp: limits_ok_def state_ok_def depth_def)
  show ?thesis
  proof (cases "elem_ok v")
    case True
    from keeps_op [OF ok(1) assms(2) GetScriptOp_opcode [OF g] True, of "list_all (\<lambda>b. b) (vfExec s)" pc']
    have "keeps a ?s ?r" .
    moreover have "s' = ?s \<or> ?r = Inl (RetFalse s') \<or> ?r = Inr s'"
      using assms(3) True
      by (auto simp: eval_step_def g Let_def elem_ok_def bind_eval_def split: sum.splits if_splits)
    ultimately show ?thesis using ok by (auto simp: keeps_def post_def)
  next
    case False
    with assms g show ?thesis by (auto simp: eval_step_def Let_def elem_ok_def limits_ok_def)
  qed
qed

lemma limits_ok_init:
  assumes "list_all elem_ok st" "length st \<le> MAX_STACK_SIZE" "cache_ok (a_env a) cache"
  shows "limits_ok a (init_state st cache script)"
  using assms by (simp add: limits_ok_def init_state_def state_ok_def depth_def)

text \<open>Whatever the script does, the stack it leaves is within the limits and the cache is sound.\<close>

lemma eval_loop_keeps:
  assumes "limits_ok a s" "digest_lengths (a_env a)"
  shows "(\<forall>s'. eval_loop a pc s = Inr s' \<longrightarrow> limits_ok a s') \<and>
    (\<forall>s'. eval_loop a pc s = Inl (RetFalse s') \<longrightarrow> state_ok a s' \<and> depth s' \<le> MAX_STACK_SIZE + 3)"
proof (intro conjI allI impI)
  fix s' assume "eval_loop a pc s = Inr s'"
  with eval_loop_reaches [of a pc s] have "reaches a (pc, s) ([], s')" by simp
  from reaches_limits [OF _ assms(2) this] assms(1) show "limits_ok a s'" by simp
next
  fix s' assume "eval_loop a pc s = Inl (RetFalse s')"
  with eval_loop_reaches [of a pc s] obtain pc1 s1 where r: "reaches a (pc, s) (pc1, s1)"
    "eval_step a pc1 s1 = Inl (RetFalse s')" by auto
  from reaches_limits [OF _ assms(2) r(1)] assms(1) have "limits_ok a s1" by simp
  from eval_step_exit [OF this assms(2) r(2)] show "state_ok a s'" "depth s' \<le> MAX_STACK_SIZE + 3" by auto
qed

lemma EvalScript_keeps:
  assumes "list_all elem_ok st" "length st \<le> MAX_STACK_SIZE" "cache_ok (a_env a) cache" "digest_lengths (a_env a)"
    "EvalScript a st cache script = Inr (b, st', cache')"
  shows "list_all elem_ok st' \<and> length st' \<le> (if b then 1000 else 1003) \<and> cache_ok (a_env a) cache'"
  using eval_loop_keeps [OF limits_ok_init [OF assms(1-3), of script] assms(4), of script] assms
  by (auto simp: EvalScript_def limits_ok_def state_ok_def depth_def split: if_splits sum.splits eval_exit.splits)

lemma EvalScript_Inr: "args_ok a \<Longrightarrow> \<exists>b st' cache'. EvalScript a st cache script = Inr (b, st', cache')"
  using no_abort_loop [of a script "init_state st cache script"]
  by (auto simp: EvalScript_def no_abort_def split: sum.splits eval_exit.splits)

section \<open>Properties\<close>

text \<open>
  C30. \<^verbatim>\<open>EvalScript\<close> returns for every script and every stack: with a transaction of version 1 or 2
  that has the input \<^verbatim>\<open>nIn\<close>, no assertion of the interpreter or of the code it calls fails, and
  no byte of a signature and no input of the transaction is read out of range.
\<close>

theorem EvalScript_returns:
  assumes "args_ok a"
  shows "\<exists>b st' cache'. EvalScript a st cache script = Inr (b, st', cache')"
  using assms by (rule EvalScript_Inr)

definition sample_args :: eval_args where
  "sample_args = \<lparr> a_env = sample_env, a_txTo = sample_tx, a_nIn = 0, a_flags = STRICT_FLAGS, a_nHashType = 0 \<rparr>"

lemma args_ok_sample: "args_ok sample_args"
  by (simp add: args_ok_def sample_args_def sample_tx_def)

definition empty_cache :: CSignatureCache where
  "empty_cache = \<lparr> setValid = [], randCount = 0 \<rparr>"

lemma cache_ok_empty [simp]: "cache_ok env empty_cache"
  by (simp add: cache_ok_def empty_cache_def)

theorem EvalScript_returns_witness:
  "args_ok sample_args \<and> (\<exists>b st' cache'. EvalScript sample_args [[1]] empty_cache [0x76, 0xae] = Inr (b, st', cache'))"
  using args_ok_sample EvalScript_returns [OF args_ok_sample] by blast

text \<open>
  C29. The limits of the interpreter: from a stack of at most 1000 elements of at most 520 bytes,
  every state at the end of an iteration keeps both limits and has counted at most 201
  operations; when the script returns, also early, the elements of the stack it leaves are within
  the limit, there are at most 1003 of them, and at most 1000 when it succeeds, and the
  signature cache is sound and of bounded size.
\<close>

theorem EvalScript_limits:
  assumes "list_all (\<lambda>v. length v \<le> 520) st" "length st \<le> 1000" "cache_ok (a_env a) cache" "digest_lengths (a_env a)"
  shows "(\<forall>pc s. reaches a (script, init_state st cache script) (pc, s) \<longrightarrow>
      length (stack s) + length (altstack s) \<le> 1000 \<and> list_all (\<lambda>v. length v \<le> 520) (stack s @ altstack s) \<and>
      nOpCount s \<le> 201) \<and>
    (\<forall>b st' cache'. EvalScript a st cache script = Inr (b, st', cache') \<longrightarrow>
      list_all (\<lambda>v. length v \<le> 520) st' \<and> length st' \<le> (if b then 1000 else 1003) \<and> cache_ok (a_env a) cache')"
proof -
  have e: "elem_ok = (\<lambda>v. length v \<le> 520)" by (auto simp: elem_ok_def)
  have i: "limits_ok a (init_state st cache script)"
    using assms by (intro limits_ok_init) (simp_all add: e)
  have r: "limits_ok a s" if "reaches a (script, init_state st cache script) (pc, s)" for pc s
    using reaches_limits [OF _ assms(4) that] i by simp
  have "list_all (\<lambda>v. length v \<le> 520) st' \<and> length st' \<le> (if b then 1000 else 1003) \<and> cache_ok (a_env a) cache'"
    if "EvalScript a st cache script = Inr (b, st', cache')" for b st' cache'
    using EvalScript_keeps [OF _ _ assms(3,4) that] assms(1,2) by (simp add: e)
  with r show ?thesis by (auto simp: limits_ok_def state_ok_def depth_def e)
qed

lemma digest_lengths_sample: "digest_lengths sample_env"
  by (simp add: digest_lengths_def sample_env_def)

theorem EvalScript_limits_witness:
  "digest_lengths (a_env sample_args) \<and>
   (\<exists>b st' cache'. EvalScript sample_args [[1], [2]] empty_cache [0x6e, 0x6e] = Inr (b, st', cache') \<and>
      list_all (\<lambda>v. length v \<le> 520) st' \<and> length st' \<le> (if b then 1000 else 1003) \<and> cache_ok (a_env sample_args) cache')"
proof -
  have e: "a_env sample_args = sample_env" by (simp add: sample_args_def)
  obtain b st' cache' where r: "EvalScript sample_args [[1], [2]] empty_cache [0x6e, 0x6e] = Inr (b, st', cache')"
    using EvalScript_Inr [OF args_ok_sample] by blast
  have "list_all (\<lambda>v. length v \<le> 520) st' \<and> length st' \<le> (if b then 1000 else 1003) \<and> cache_ok (a_env sample_args) cache'"
    using EvalScript_limits [of "[[1], [2]]" sample_args empty_cache "[0x6e, 0x6e]"] digest_lengths_sample r
    by (simp add: e)
  then show ?thesis using r digest_lengths_sample by (simp add: e)
qed

end
