(* ===== verification/Script_Eval_Sem.thy ===== *)
theory Script_Eval_Sem
  imports Script_Eval_Inv "HOL-Library.Sublist"
begin

text \<open>
  What scripts decide: CHECKMULTISIG against the specification that the signatures match keys in
  order, the independence of every evaluation from the content of the signature cache, and the
  evaluation of the standard payment scripts.
\<close>

unbundle bit_operations_syntax

section \<open>One signature\<close>

definition sig_ok :: "eval_args \<Rightarrow> bytes \<Rightarrow> valtype \<Rightarrow> valtype \<Rightarrow> bool" where
  "sig_ok a scriptCode vchSig vchPubKey \<longleftrightarrow>
     IsCanonicalSignature vchSig (a_flags a) = Some True \<and> IsCanonicalPubKey vchPubKey (a_flags a) \<and>
     sig_verdict (a_env a) vchSig vchPubKey scriptCode (a_txTo a) (a_nIn a) (a_nHashType a) = Some True"

lemma check_one_verdict:
  assumes "args_ok a" "cache_ok (a_env a) cache"
  obtains cache' where "check_one a cache vchSig vchPubKey code = Inr (sig_ok a code vchSig vchPubKey, cache')"
    "cache_ok (a_env a) cache'"
proof -
  obtain b cache' where r: "check_one a cache vchSig vchPubKey code = Inr (b, cache')"
    by (rule check_one_Inr [OF assms(1)])
  have "b = sig_ok a code vchSig vchPubKey"
    using r CheckSig_verdict [OF assms(2), of vchSig vchPubKey code "a_txTo a" "a_nIn a" "a_nHashType a" "a_flags a"]
    by (auto simp: check_one_def sig_ok_def split: option.splits bool.splits if_splits)
  with r check_one_cache_ok [OF r assms(2)] that show ?thesis by blast
qed

section \<open>Several signatures\<close>

text \<open>The signatures are those of keys that occur in the list of keys, in the same order.\<close>

definition multisig_ok :: "('s \<Rightarrow> 'k \<Rightarrow> bool) \<Rightarrow> 's list \<Rightarrow> 'k list \<Rightarrow> bool" where
  "multisig_ok ok sigs keys \<longleftrightarrow> (\<exists>ks. subseq ks keys \<and> list_all2 ok sigs ks)"

lemma multisig_ok_Nil [simp]: "multisig_ok ok [] keys"
  by (auto simp: multisig_ok_def)

lemma multisig_ok_length: "multisig_ok ok sigs keys \<Longrightarrow> length sigs \<le> length keys"
  unfolding multisig_ok_def by (metis list_all2_lengthD list_emb_length)

lemma multisig_ok_match:
  assumes "ok sig key"
  shows "multisig_ok ok (sig # sigs) (key # keys) \<longleftrightarrow> multisig_ok ok sigs keys"
proof
  assume "multisig_ok ok (sig # sigs) (key # keys)"
  then obtain k ks where "subseq (k # ks) (key # keys)" "list_all2 ok sigs ks"
    by (auto simp: multisig_ok_def list_all2_Cons1)
  then have "subseq ks keys" by (auto dest: subseq_Cons' split: if_splits)
  with \<open>list_all2 ok sigs ks\<close> show "multisig_ok ok sigs keys" by (auto simp: multisig_ok_def)
next
  assume "multisig_ok ok sigs keys"
  then obtain ks where "subseq ks keys" "list_all2 ok sigs ks" by (auto simp: multisig_ok_def)
  with assms show "multisig_ok ok (sig # sigs) (key # keys)"
    unfolding multisig_ok_def by (intro exI [of _ "key # ks"]) auto
qed

lemma multisig_ok_skip:
  assumes "\<not> ok sig key"
  shows "multisig_ok ok (sig # sigs) (key # keys) \<longleftrightarrow> multisig_ok ok (sig # sigs) keys"
  using assms by (auto simp: multisig_ok_def list_all2_Cons1 split: if_splits)

lemma multisig_loop_spec:
  assumes "args_ok a"
  shows "cache_ok (a_env a) cache \<Longrightarrow> length sigs \<le> length keys \<Longrightarrow>
    \<exists>cache'. multisig_loop a code cache sigs keys = Inr (multisig_ok (sig_ok a code) sigs keys, cache') \<and>
      cache_ok (a_env a) cache'"
proof (induction keys arbitrary: cache sigs)
  case (Cons key keys)
  show ?case
  proof (cases sigs)
    case sigs: (Cons sig sigs')
    obtain c where c: "check_one a cache sig key code = Inr (sig_ok a code sig key, c)" "cache_ok (a_env a) c"
      by (rule check_one_verdict [OF assms Cons.prems(1)])
    show ?thesis
    proof (cases "sig_ok a code sig key")
      case True
      with c Cons.IH [OF c(2), of sigs'] Cons.prems sigs show ?thesis
        by (auto simp: Let_def multisig_ok_match)
    next
      case False
      with c Cons.IH [OF c(2), of sigs] Cons.prems sigs show ?thesis
        using multisig_ok_length [of "sig_ok a code" sigs keys]
        by (auto simp: Let_def multisig_ok_skip not_less)
    qed
  qed (use Cons.prems in simp)
qed simp


section \<open>Evaluation does not depend on the cache\<close>

definition same_but_cache :: "eval_args \<Rightarrow> eval_state \<Rightarrow> eval_state \<Rightarrow> bool" where
  "same_but_cache a s s' \<longleftrightarrow>
     stack s' = stack s \<and> altstack s' = altstack s \<and> vfExec s' = vfExec s \<and> nOpCount s' = nOpCount s \<and>
     pbegincodehash s' = pbegincodehash s \<and> cache_ok (a_env a) (sigcache s) \<and> cache_ok (a_env a) (sigcache s')"

definition rel_exit :: "eval_args \<Rightarrow> eval_exit \<Rightarrow> eval_exit \<Rightarrow> bool" where
  "rel_exit a e e' \<longleftrightarrow>
     (case (e, e') of
        (RetFalse s, RetFalse s') \<Rightarrow> same_but_cache a s s'
      | (Abort x, Abort y) \<Rightarrow> x = y
      | _ \<Rightarrow> False)"

definition rel_res :: "eval_args \<Rightarrow> ('a \<Rightarrow> 'a \<Rightarrow> bool) \<Rightarrow> eval_exit + 'a \<Rightarrow> eval_exit + 'a \<Rightarrow> bool" where
  "rel_res a R r r' \<longleftrightarrow>
     (case (r, r') of
        (Inr x, Inr x') \<Rightarrow> R x x'
      | (Inl e, Inl e') \<Rightarrow> rel_exit a e e'
      | _ \<Rightarrow> False)"

lemma rel_res_shape [simp]:
  "rel_res a R (Inl e) (Inl e') \<longleftrightarrow> rel_exit a e e'" "\<not> rel_res a R (Inl e) (Inr x')" "\<not> rel_res a R (Inr x) (Inl e')"
  "rel_exit a (RetFalse s) (RetFalse s') \<longleftrightarrow> same_but_cache a s s'" "rel_exit a (Abort x1) (Abort x2) \<longleftrightarrow> x1 = x2"
  by (simp_all add: rel_res_def rel_exit_def)

lemma rel_res_simps [simp]:
  "rel_res a R (Inr x) (Inr x') \<longleftrightarrow> R x x'"
  "rel_res a R (Inl (RetFalse s)) (Inl (RetFalse s')) \<longleftrightarrow> same_but_cache a s s'"
  "rel_res a R (Inl (Abort e)) (Inl (Abort e'))  \<longleftrightarrow> e = e'"
  by (simp_all add: rel_res_def rel_exit_def)

lemma rel_res_bind:
  assumes "rel_res a R r r'" and "\<And>x x'. R x x' \<Longrightarrow> rel_res a Q (f x) (f' x')"
  shows "rel_res a Q (bind_eval r f) (bind_eval r' f')"
  using assms(1) by (cases r; cases r') (simp_all add: assms(2))

lemma rel_num:
  assumes "same_but_cache a s s'"
  shows "rel_res a (=) (num a s x) (num a s' x)" "rel_res a (=) (num5 a s x) (num5 a s' x)"
  using assms by (auto simp: num_def num5_def split: sum.split)

lemma rel_if:
  "(c \<Longrightarrow> rel_res a R x x') \<Longrightarrow> (\<not> c \<Longrightarrow> rel_res a R y y') \<Longrightarrow> rel_res a R (if c then x else y) (if c then x' else y')"
  by simp

abbreviation "rel_state a \<equiv> rel_res a (same_but_cache a)"

lemma rel_control:
  assumes "same_but_cache a s s'"
  shows "rel_state a (op_push_number opcode s) (op_push_number opcode s')"
    "rel_state a (op_NOPn a s) (op_NOPn a s')" "rel_state a (op_IF opcode fExec s) (op_IF opcode fExec s')"
    "rel_state a (op_ELSE s) (op_ELSE s')" "rel_state a (op_ENDIF s) (op_ENDIF s')"
    "rel_state a (op_VERIFY s) (op_VERIFY s')" "rel_state a (op_TOALTSTACK s) (op_TOALTSTACK s')"
    "rel_state a (op_FROMALTSTACK s) (op_FROMALTSTACK s')" "rel_state a (op_rearrange opcode s) (op_rearrange opcode s')"
    "rel_state a (op_DEPTH s) (op_DEPTH s')" "rel_state a (op_SIZE s) (op_SIZE s')"
    "rel_state a (op_EQUAL opcode s) (op_EQUAL opcode s')" "rel_state a (op_hash a opcode s) (op_hash a opcode s')"
    "rel_state a (op_CODESEPARATOR pc s) (op_CODESEPARATOR pc s')"
  using assms
  by (auto simp: op_push_number_def op_NOPn_def op_IF_def op_ELSE_def op_ENDIF_def op_VERIFY_def op_TOALTSTACK_def
      op_FROMALTSTACK_def op_rearrange_def op_DEPTH_def op_SIZE_def op_EQUAL_def op_hash_def op_CODESEPARATOR_def
      Let_def push_def same_but_cache_def split: list.split option.split)

lemma rel_locktime:
  assumes "same_but_cache a s s'"
  shows "rel_state a (op_CHECKLOCKTIMEVERIFY a s) (op_CHECKLOCKTIMEVERIFY a s')"
    "rel_state a (op_CHECKSEQUENCEVERIFY a s) (op_CHECKSEQUENCEVERIFY a s')"
proof -
  have st: "stack s' = stack s" using assms by (simp add: same_but_cache_def)
  show "rel_state a (op_CHECKLOCKTIMEVERIFY a s) (op_CHECKLOCKTIMEVERIFY a s')"
    "rel_state a (op_CHECKSEQUENCEVERIFY a s) (op_CHECKSEQUENCEVERIFY a s')"
    unfolding op_CHECKLOCKTIMEVERIFY_def op_CHECKSEQUENCEVERIFY_def st using assms
    by (auto split: list.split option.split bool.split intro!: rel_res_bind [OF rel_num(2)])
qed

lemma rel_numeric:
  assumes "same_but_cache a s s'"
  shows "rel_state a (op_PICK a opcode s) (op_PICK a opcode s')" "rel_state a (op_WITHIN a s) (op_WITHIN a s')"
proof -
  have st: "stack s' = stack s" using assms by (simp add: same_but_cache_def)
  have up: "same_but_cache a (s\<lparr> stack := st \<rparr>) (s'\<lparr> stack := st \<rparr>)" for st
    using assms by (simp add: same_but_cache_def)
  show "rel_state a (op_PICK a opcode s) (op_PICK a opcode s')" "rel_state a (op_WITHIN a s) (op_WITHIN a s')"
    unfolding op_PICK_def op_WITHIN_def st using assms
    by (auto simp: Let_def up split: list.split intro!: rel_res_bind [OF rel_num(1)])
qed

lemma rel_unary:
  assumes "same_but_cache a s s'"
  shows "rel_state a (op_unary a opcode s) (op_unary a opcode s')"
proof -
  have st: "stack s' = stack s" using assms by (simp add: same_but_cache_def)
  have up: "same_but_cache a (s\<lparr> stack := st \<rparr>) (s'\<lparr> stack := st \<rparr>)" for st
    using assms by (simp add: same_but_cache_def)
  have c: "rel_res a (=) (checked r) (checked r)" for r by (simp add: checked_def split: option.split)
  show ?thesis
    unfolding op_unary_def st
    by (cases "stack s")
      (auto simp: assms up c intro!: rel_res_bind [OF rel_num(1) [OF assms]] rel_res_bind [where R = "(=)"])
qed

lemma rel_binary:
  assumes "same_but_cache a s s'"
  shows "rel_state a (op_binary a opcode s) (op_binary a opcode s')"
proof -
  have st: "stack s' = stack s" using assms by (simp add: same_but_cache_def)
  have up: "same_but_cache a (s\<lparr> stack := st \<rparr>) (s'\<lparr> stack := st \<rparr>)" for st
    using assms by (simp add: same_but_cache_def)
  have b: "rel_res a (=) (binary_value opcode x y) (binary_value opcode x y)" for x y
    by (simp add: binary_value_def)
  show ?thesis
    unfolding op_binary_def st
    by (auto simp: assms up Let_def split: list.split
        intro!: rel_res_bind [OF rel_num(1) [OF assms]] rel_res_bind [OF b])
qed

text \<open>The two opcodes that read and write the cache.\<close>

definition same_verdict :: "eval_args \<Rightarrow> bool \<times> CSignatureCache \<Rightarrow> bool \<times> CSignatureCache \<Rightarrow> bool" where
  "same_verdict a r r' \<longleftrightarrow> fst r = fst r' \<and> cache_ok (a_env a) (snd r) \<and> cache_ok (a_env a) (snd r')"

lemma rel_check_one:
  assumes "args_ok a" "cache_ok (a_env a) c" "cache_ok (a_env a) c'"
  shows "rel_res a (same_verdict a) (check_one a c vchSig key code) (check_one a c' vchSig key code)"
  by (rule check_one_verdict [OF assms(1,2), of vchSig key code];
      rule check_one_verdict [OF assms(1,3), of vchSig key code]) (auto simp: same_verdict_def)

lemma rel_multisig_loop:
  assumes "args_ok a" "cache_ok (a_env a) c" "cache_ok (a_env a) c'" "length sigs \<le> length keys"
  shows "rel_res a (same_verdict a) (multisig_loop a code c sigs keys) (multisig_loop a code c' sigs keys)"
  using multisig_loop_spec [OF assms(1,2,4), of code] multisig_loop_spec [OF assms(1,3,4), of code]
  by (auto simp: same_verdict_def)

lemma rel_CHECKSIG:
  assumes "args_ok a" "same_but_cache a s s'"
  shows "rel_state a (op_CHECKSIG a opcode s) (op_CHECKSIG a opcode s')"
proof -
  have st: "stack s' = stack s" "pbegincodehash s' = pbegincodehash s" "cache_ok (a_env a) (sigcache s)"
    "cache_ok (a_env a) (sigcache s')" using assms by (simp_all add: same_but_cache_def)
  show ?thesis
    unfolding op_CHECKSIG_def st(1,2) using assms(2)
    by (auto simp: Let_def split: list.split intro!: rel_res_bind [OF rel_check_one [OF assms(1) st(3,4)]])
      (auto simp: same_verdict_def same_but_cache_def)
qed

lemma rel_finish:
  assumes "same_but_cache a s s'"
  shows "rel_state a (multisig_finish a opcode b s) (multisig_finish a opcode b s')"
  using assms by (auto simp: multisig_finish_def Let_def same_but_cache_def split: list.split)

lemma rel_sigs:
  assumes "args_ok a" "same_but_cache a s s'" "nat n = length keys"
  shows "rel_state a (multisig_sigs a opcode n keys st s) (multisig_sigs a opcode n keys st s')"
proof -
  have st: "pbegincodehash s' = pbegincodehash s" "cache_ok (a_env a) (sigcache s)"
    "cache_ok (a_env a) (sigcache s')" using assms by (simp_all add: same_but_cache_def)
  show ?thesis
  proof (cases st)
    case (Cons ns st')
    have f: "rel_state a (multisig_finish a opcode b (s\<lparr> sigcache := c, stack := st \<rparr>))
        (multisig_finish a opcode b' (s'\<lparr> sigcache := c', stack := st \<rparr>))"
      if "same_verdict a (b, c) (b', c')" for b c b' c' st
      using that assms(2) by (auto simp: same_verdict_def same_but_cache_def intro!: rel_finish)
    have le: "nat k \<le> length keys" if "\<not> n < k" for k
      using that nat_mono [of k n] assms(3) by simp
    show ?thesis
      unfolding multisig_sigs_def Cons list.case st(1)
      using assms(2,3)
      by (auto simp: Let_def intro!: rel_res_bind [OF rel_num(1) [OF assms(2)]]
          rel_res_bind [OF rel_multisig_loop [OF assms(1) st(2,3)]] f le)
  qed (use assms(2) in \<open>simp add: multisig_sigs_def\<close>)
qed

lemma rel_CHECKMULTISIG:
  assumes "args_ok a" "same_but_cache a s s'"
  shows "rel_state a (op_CHECKMULTISIG a opcode s) (op_CHECKMULTISIG a opcode s')"
proof -
  have st: "stack s' = stack s" "nOpCount s' = nOpCount s" using assms by (simp_all add: same_but_cache_def)
  have up: "same_but_cache a (s\<lparr> nOpCount := k \<rparr>) (s'\<lparr> nOpCount := k \<rparr>)" for k
    using assms(2) by (simp add: same_but_cache_def)
  show ?thesis
    unfolding op_CHECKMULTISIG_def st using assms(2)
    by (auto simp: Let_def st up split: list.split
        intro!: rel_res_bind [OF rel_num(1) [OF assms(2)]] rel_sigs [OF assms(1)])
qed

lemma rel_switch:
  assumes "args_ok a" "same_but_cache a s s'"
  shows "rel_state a (op_switch a opcode fExec pc s) (op_switch a opcode fExec pc s')"
  unfolding op_switch_def using assms
  by (intro rel_if rel_control rel_locktime rel_numeric rel_unary rel_binary rel_CHECKSIG rel_CHECKMULTISIG) simp_all

lemma rel_step:
  assumes "args_ok a" "same_but_cache a s s'"
  shows "rel_res a (\<lambda>(pc, s) (pc', s'). pc = pc' \<and> same_but_cache a s s') (eval_step a pc s) (eval_step a pc s')"
proof -
  have eq: "vfExec s' = vfExec s" "nOpCount s' = nOpCount s" using assms by (simp_all add: same_but_cache_def)
  have up: "same_but_cache a (s\<lparr> nOpCount := k \<rparr>) (s'\<lparr> nOpCount := k \<rparr>)" for k
    using assms(2) by (simp add: same_but_cache_def)
  have op: "rel_state a (eval_op a opcode v fExec pc t) (eval_op a opcode v fExec pc t')"
    if "same_but_cache a t t'" for opcode v fExec pc t t'
    using that rel_switch [OF assms(1) that]
    by (auto simp: eval_op_def push_def same_but_cache_def split: option.split bool.split)
  have fin: "rel_res a (\<lambda>(pc, s) (pc', s'). pc = pc' \<and> same_but_cache a s s')
      (if length (stack t) + length (altstack t) > 1000 then Inl (RetFalse t) else Inr (q, t))
      (if length (stack t') + length (altstack t') > 1000 then Inl (RetFalse t') else Inr (q, t'))"
    if "same_but_cache a t t'" for t t' q
    using that by (auto simp: same_but_cache_def)
  show ?thesis
    unfolding eval_step_def eq using assms(2)
    by (auto simp: Let_def up split: sum.split intro!: rel_res_bind [OF op] fin)
qed

lemma rel_loop:
  assumes "args_ok a"
  shows "same_but_cache a s s' \<Longrightarrow> rel_state a (eval_loop a pc s) (eval_loop a pc s')"
proof (induction "length pc" arbitrary: pc s s' rule: less_induct)
  case less
  show ?case
  proof (cases "pc = []")
    case True
    with less show ?thesis by (simp add: eval_loop.simps)
  next
    case False
    from rel_step [OF assms less.prems, of pc] False less.hyps show ?thesis
      by (cases "eval_step a pc s"; cases "eval_step a pc s'")
        (auto simp: eval_loop.simps [of a pc] dest: eval_step_shorter)
  qed
qed


lemma EvalScript_two_caches:
  assumes "args_ok a" "cache_ok (a_env a) c" "cache_ok (a_env a) c'"
  shows "\<exists>b st' d d'. EvalScript a st c script = Inr (b, st', d) \<and> EvalScript a st c' script = Inr (b, st', d')"
proof -
  have "same_but_cache a (init_state st c script) (init_state st c' script)"
    using assms by (simp add: same_but_cache_def init_state_def)
  from rel_loop [OF assms(1) this, of script] no_abort_loop [OF assms(1), of script "init_state st c script"]
  show ?thesis
    by (auto simp: EvalScript_def rel_res_def rel_exit_def same_but_cache_def no_abort_def
        split: sum.splits eval_exit.splits)
qed

section \<open>Properties\<close>

text \<open>
  The result of a script does not depend on what the signature cache holds: from two sound
  caches the evaluation gives the same answer and the same stack.
\<close>

theorem EvalScript_cache_independent:
  assumes "args_ok a" "cache_ok (a_env a) c" "cache_ok (a_env a) c'"
  shows "\<exists>b st' d d'. EvalScript a st c script = Inr (b, st', d) \<and> EvalScript a st c' script = Inr (b, st', d')"
  using assms by (rule EvalScript_two_caches)

theorem EvalScript_cache_independent_witness:
  "cache_ok sample_env \<lparr> setValid = [(5, [7], CPubKey [2])], randCount = 0 \<rparr> \<and>
   (\<exists>b st' d d'. EvalScript sample_args [[2], [7, 1]] empty_cache [0xac] = Inr (b, st', d) \<and>
     EvalScript sample_args [[2], [7, 1]] \<lparr> setValid = [(5, [7], CPubKey [2])], randCount = 0 \<rparr> [0xac] = Inr (b, st', d'))"
proof -
  have e: "a_env sample_args = sample_env" by (simp add: sample_args_def)
  have c: "cache_ok sample_env \<lparr> setValid = [(5, [7], CPubKey [2])], randCount = 0 \<rparr>"
    by (simp add: cache_ok_def sample_env_def verifies_def)
  with EvalScript_cache_independent [OF args_ok_sample, of empty_cache] show ?thesis by (simp add: e)
qed

text \<open>
  C28. CHECKMULTISIG succeeds exactly when its signatures, in order, are valid signatures of keys that
  occur in this order among its keys; the loop, which never goes back to a key, misses no such
  assignment. The arguments are replaced by the answer, the keys are added to the operation
  count, and the code that is signed is the code from the last \<^verbatim>\<open>OP_CODESEPARATOR\<close> without the signatures.
\<close>

theorem CHECKMULTISIG_matches:
  assumes "args_ok a" "cache_ok (a_env a) (sigcache s)"
    and "stack s = serialize (int (length keys)) # keys @ serialize (int (length sigs)) # sigs @ [] # st"
    and "length keys \<le> 20" "length sigs \<le> length keys" "nOpCount s + int (length keys) \<le> 201"
    and "code = fold (\<lambda>vchSig code. fst (FindAndDelete (push_vector vchSig) code)) sigs (pbegincodehash s)"
  shows "\<exists>cache'. op_CHECKMULTISIG a OP_CHECKMULTISIG s =
      Inr (s\<lparr> nOpCount := nOpCount s + int (length keys), sigcache := cache',
             stack := (if \<exists>ks. subseq ks keys \<and> list_all2 (sig_ok a code) sigs ks then [1] else []) # st \<rparr>) \<and>
    cache_ok (a_env a) cache'"
proof -
  have num: "num a t (serialize (int k)) = Inr (int k)" "getint (int k) = int k" if "k \<le> 20" for k t
  proof -
    have "length (serialize (int k)) \<le> 4" using that length_serialize [of "int k" 4] by simp
    then show "num a t (serialize (int k)) = Inr (int k)"
      by (simp add: num_def nDefaultMaxNumSize_def CScriptNum_eq minimal_serialize set_vch_serialize)
    show "getint (int k) = int k" using that by (simp add: getint_def)
  qed
  let ?s = "s\<lparr> nOpCount := nOpCount s + int (length keys) \<rparr>"
  have sigs: "op_CHECKMULTISIG a OP_CHECKMULTISIG s =
      multisig_sigs a OP_CHECKMULTISIG (int (length keys)) keys (serialize (int (length sigs)) # sigs @ [] # st) ?s"
    using assms(4,6) by (simp add: op_CHECKMULTISIG_def assms(3) num Let_def)
  obtain c where c: "multisig_loop a code (sigcache s) sigs keys = Inr (multisig_ok (sig_ok a code) sigs keys, c)"
    "cache_ok (a_env a) c"
    using multisig_loop_spec [OF assms(1,2,5)] by blast
  have "multisig_sigs a OP_CHECKMULTISIG (int (length keys)) keys (serialize (int (length sigs)) # sigs @ [] # st) ?s =
      Inr (?s\<lparr> sigcache := c, stack := bool_vch (multisig_ok (sig_ok a code) sigs keys) # st \<rparr>)"
    using assms(4,5) c(1) by (simp add: multisig_sigs_def num Let_def assms(7) multisig_finish_def)
  with sigs c(2) show ?thesis
    by (intro exI [of _ c]) (auto simp: multisig_ok_def vchTrue_def vchFalse_def)
qed

theorem CHECKMULTISIG_matches_witness:
  "\<exists>cache'. op_CHECKMULTISIG sample_args OP_CHECKMULTISIG (init_state [[1], [2], [1], [7, 1], []] empty_cache [0xae]) =
     Inr ((init_state [[1], [2], [1], [7, 1], []] empty_cache [0xae])\<lparr> nOpCount := 1, sigcache := cache',
       stack := (if \<exists>ks. subseq ks [[2]] \<and>
         list_all2 (sig_ok sample_args (fst (FindAndDelete (push_vector [7, 1]) [0xae]))) [[7, 1]] ks then [1] else []) # [] \<rparr>)"
proof -
  let ?s = "init_state [[1], [2], [1], [7, 1], []] empty_cache [0xae]"
  have "serialize 1 = [1]" by (simp add: serialize_def serialize_abs_pos)
  then have "stack ?s = serialize (int (length [[2 :: byte]])) # [[2]] @ serialize (int (length [[7 :: byte, 1]])) # [[7, 1]] @ [] # []"
    by (simp add: init_state_def)
  from CHECKMULTISIG_matches [OF args_ok_sample _ this _ _ _ refl]
  show ?thesis by (auto simp: init_state_def)
qed

end
