(* ===== verification/Script_Verify.thy ===== *)
theory Script_Verify
  imports Script_Eval_Sem
begin

text \<open>
  Spending an output (\<^verbatim>\<open>src/src/script/script.cpp\<close>): \<^verbatim>\<open>VerifyScript\<close>, the scripts of the destinations
  (\<^verbatim>\<open>CScriptVisitor\<close>, \<^verbatim>\<open>SetDestination\<close>, \<^verbatim>\<open>SetMultisig\<close>), and the theorems that say who can spend an
  output that pays to a key hash or to a script hash.
\<close>

unbundle bit_operations_syntax

section \<open>VerifyScript\<close>

definition bind_abort :: "abort + 'a \<Rightarrow> ('a \<Rightarrow> abort + 'b) \<Rightarrow> abort + 'b" where
  "bind_abort r f = (case r of Inl e \<Rightarrow> Inl e | Inr x \<Rightarrow> f x)"

lemma bind_abort_simps [simp]: "bind_abort (Inr x) f = f x" "bind_abort (Inl e) f = Inl e"
  by (simp_all add: bind_abort_def)

definition VerifyScript :: "eval_args \<Rightarrow> CSignatureCache \<Rightarrow> bytes \<Rightarrow> bytes \<Rightarrow> abort + (bool \<times> CSignatureCache)" where
  "VerifyScript a cache scriptSig scriptPubKey =
     bind_abort (EvalScript a [] cache scriptSig) (\<lambda>(ok, st, cache).
     if \<not> ok then Inr (False, cache)
     else let stackCopy = (if has_flag (a_flags a) SCRIPT_VERIFY_P2SH then st else []) in
     bind_abort (EvalScript a st cache scriptPubKey) (\<lambda>(ok, st, cache).
     if \<not> ok then Inr (False, cache)
     else if st = [] then Inr (False, cache)
     else if \<not> CastToBool (hd st) then Inr (False, cache)
     else if has_flag (a_flags a) SCRIPT_VERIFY_P2SH \<and> IsPayToScriptHash scriptPubKey
     then (if \<not> IsPushOnly scriptSig then Inr (False, cache)
           else case stackCopy of
             [] \<Rightarrow> Inl AssertFailed
           | pubKeySerialized # stackCopy \<Rightarrow>
               bind_abort (EvalScript a stackCopy cache pubKeySerialized) (\<lambda>(ok, st, cache).
                 if \<not> ok then Inr (False, cache)
                 else if st = [] then Inr (False, cache)
                 else Inr (CastToBool (hd st), cache)))
     else Inr (True, cache)))"

section \<open>Scripts of destinations\<close>

datatype CTxDestination =
    CNoDestination
  | CKeyID uint160
  | CScriptID uint160
  | WitnessV0KeyHash uint160
  | WitnessV0ScriptHash uint256
  | WitnessUnknown int bytes

text \<open>The script the visitor writes; \<open>None\<close> is the failed assertion of \<^verbatim>\<open>EncodeOP_N\<close>.\<close>

fun SetDestination :: "CTxDestination \<Rightarrow> bytes option" where
  "SetDestination CNoDestination = Some []"
| "SetDestination (CKeyID keyID) =
     Some (push_opcode OP_DUP @ push_opcode OP_HASH160 @ push_uint160 keyID @
           push_opcode OP_EQUALVERIFY @ push_opcode OP_CHECKSIG)"
| "SetDestination (CScriptID scriptID) =
     Some (push_opcode OP_HASH160 @ push_uint160 scriptID @ push_opcode OP_EQUAL)"
| "SetDestination (WitnessV0KeyHash h) = Some (push_opcode OP_0 @ push_vector (le_bytes 20 (unat h)))"
| "SetDestination (WitnessV0ScriptHash h) = Some (push_opcode OP_0 @ push_vector (le_bytes 32 (unat h)))"
| "SetDestination (WitnessUnknown version program) =
     map_option (\<lambda>opcode. push_opcode opcode @ push_vector program) (EncodeOP_N version)"

definition SetMultisig :: "int \<Rightarrow> CPubKey list \<Rightarrow> bytes option" where
  "SetMultisig nRequired keys =
     (case EncodeOP_N nRequired of
        None \<Rightarrow> None
      | Some m \<Rightarrow>
          (case EncodeOP_N (int (length keys)) of
             None \<Rightarrow> None
           | Some n \<Rightarrow>
               Some (push_opcode m @ concat (map (\<lambda>key. push_vector (pubkey_data key)) keys) @
                     push_opcode n @ push_opcode OP_CHECKMULTISIG)))"

section \<open>Evaluating step by step\<close>

lemma eval_loop_step:
  assumes "eval_step a pc s = Inr (pc', s')" "pc \<noteq> []"
  shows "eval_loop a pc s = eval_loop a pc' s'"
  using assms by (simp add: eval_loop.simps [of a pc])

lemma eval_loop_exit:
  assumes "eval_step a pc s = Inl e" "pc \<noteq> []"
  shows "eval_loop a pc s = Inl e"
  using assms by (simp add: eval_loop.simps [of a pc])

lemma eval_loop_Nil [simp]: "eval_loop a [] s = Inr s"
  by (simp add: eval_loop.simps)

text \<open>One opcode above \<^verbatim>\<open>OP_16\<close> in a branch that is executed.\<close>

lemma eval_step_opcode:
  assumes "list_all (\<lambda>b. b) (vfExec s)" "OP_16 < unat b" "\<not> disabled_opcode (unat b)" "nOpCount s < 201"
  shows "eval_step a (b # pc) s =
    bind_eval (op_switch a (unat b) True pc (s\<lparr> nOpCount := nOpCount s + 1 \<rparr>))
      (\<lambda>s. if length (stack s) + length (altstack s) > 1000 then Inl (RetFalse s) else Inr (pc, s))"
  using assms by (simp add: eval_step_def GetScriptOp_def eval_op_def Let_def)

text \<open>A push of data in a branch that is executed.\<close>

definition minimal_data :: "valtype \<Rightarrow> bool" where
  "minimal_data v \<longleftrightarrow> 2 \<le> length v \<and> length v \<le> 520"

lemma push_minimal:
  assumes "minimal_data v"
  defines "op \<equiv> if length v < OP_PUSHDATA1 then length v else if length v \<le> 0xff then OP_PUSHDATA1
      else if length v \<le> 0xffff then OP_PUSHDATA2 else OP_PUSHDATA4"
  shows "CheckMinimalPush v op = Some True" "op \<le> OP_PUSHDATA4" "\<not> disabled_opcode op"
  using assms(1) by (auto simp: op_def CheckMinimalPush_def disabled_opcode_def minimal_data_def)

lemma eval_step_push:
  assumes "list_all (\<lambda>b. b) (vfExec s)" "minimal_data v" "length (stack s) + length (altstack s) < 1000"
  shows "eval_step a (push_vector v @ pc) s = Inr (pc, push v s)"
proof -
  have l: "length v < 2 ^ 32" "length v \<le> 520" using assms(2) by (auto simp: minimal_data_def)
  show ?thesis
    using assms(1,3) l(2) push_minimal [OF assms(2)]
    unfolding eval_step_def GetScriptOp_push_vector [OF l(1)]
    by (simp add: Let_def eval_op_def push_def)
qed

lemma push_uint160_vector: "push_uint160 h = push_vector (le_bytes 20 (unat h))"
  by (simp add: push_uint160_def push_vector_def)

lemma minimal_data_hash: "minimal_data (le_bytes 20 n)"
  by (simp add: minimal_data_def)


lemma le_bytes_20_inj: "le_bytes 20 (unat (h :: uint160)) = le_bytes 20 (unat h') \<longleftrightarrow> h = h'"
proof
  have u: "unat (x :: uint160) < 256 ^ 20" for x using unsigned_less [of x] by simp
  assume "le_bytes 20 (unat h) = le_bytes 20 (unat h')"
  then have "le_nat (le_bytes 20 (unat h)) = le_nat (le_bytes 20 (unat h'))" by simp
  then have "unat h = unat h'" using u by simp
  then show "h = h'" by (rule unsigned_word_eqI)
qed simp

definition pay_to_keyhash :: "uint160 \<Rightarrow> bytes" where
  "pay_to_keyhash h = [0x76, 0xa9] @ push_vector (le_bytes 20 (unat h)) @ [0x88, 0xac]"

definition pay_to_scripthash :: "uint160 \<Rightarrow> bytes" where
  "pay_to_scripthash h = [0xa9] @ push_vector (le_bytes 20 (unat h)) @ [0x87]"

lemma SetDestination_scripts:
  "SetDestination (CKeyID h) = Some (pay_to_keyhash h)" "SetDestination (CScriptID h) = Some (pay_to_scripthash h)"
  by (simp_all add: pay_to_keyhash_def pay_to_scripthash_def push_opcode_def push_uint160_vector)

lemma push_hash: "push_vector (le_bytes 20 n) = 0x14 # le_bytes 20 n"
  by (simp add: push_vector_def)

lemma length_push_hash: "length (push_vector (le_bytes 20 n)) = 21"
  by (simp add: push_vector_def)

lemma length_pay_to: "length (pay_to_keyhash h) = 25" "length (pay_to_scripthash h) = 23"
  by (simp_all add: pay_to_keyhash_def pay_to_scripthash_def length_push_hash)

lemma eval_HASH160:
  assumes "vfExec s = []" "nOpCount s < 201" "stack s = x # st" "length (stack s) + length (altstack s) \<le> 1000"
  shows "eval_step a (0xa9 # pc) s =
    Inr (pc, s\<lparr> nOpCount := nOpCount s + 1, stack := le_bytes 20 (unat (env_Hash160 (a_env a) x)) # st \<rparr>)"
  using assms
  by (subst eval_step_opcode) (simp_all add: disabled_opcode_def op_switch_def op_hash_def Let_def)

lemma eval_DUP:
  assumes "vfExec s = []" "nOpCount s < 201" "stack s = x # st" "length (stack s) + length (altstack s) < 1000"
  shows "eval_step a (0x76 # pc) s = Inr (pc, s\<lparr> nOpCount := nOpCount s + 1, stack := x # x # st \<rparr>)"
  using assms
  by (subst eval_step_opcode) (simp_all add: disabled_opcode_def op_switch_def op_rearrange_def rearrange_def)

lemma eval_EQUALVERIFY:
  assumes "vfExec s = []" "nOpCount s < 201" "stack s = x # y # st" "length (stack s) + length (altstack s) \<le> 1000"
  shows "eval_step a (0x88 # pc) s =
    (if x = y then Inr (pc, s\<lparr> nOpCount := nOpCount s + 1, stack := st \<rparr>)
     else Inl (RetFalse (s\<lparr> nOpCount := nOpCount s + 1, stack := vchFalse # st \<rparr>)))"
  using assms
  by (subst eval_step_opcode) (auto simp: disabled_opcode_def op_switch_def op_EQUAL_def Let_def)

lemma eval_EQUAL:
  assumes "vfExec s = []" "nOpCount s < 201" "stack s = x # y # st" "length (stack s) + length (altstack s) \<le> 1000"
  shows "eval_step a (0x87 # pc) s = Inr (pc, s\<lparr> nOpCount := nOpCount s + 1, stack := bool_vch (x = y) # st \<rparr>)"
  using assms
  by (subst eval_step_opcode) (auto simp: disabled_opcode_def op_switch_def op_EQUAL_def Let_def)

lemma eval_CHECKSIG:
  assumes "args_ok a" "cache_ok (a_env a) (sigcache s)"
    and "vfExec s = []" "nOpCount s < 201" "stack s = key # vchSig # st" "length (stack s) + length (altstack s) \<le> 1000"
  obtains cache' where "eval_step a (0xac # pc) s =
    Inr (pc, s\<lparr> nOpCount := nOpCount s + 1, sigcache := cache',
      stack := bool_vch (sig_ok a (fst (FindAndDelete (push_vector vchSig) (pbegincodehash s))) vchSig key) # st \<rparr>)"
    "cache_ok (a_env a) cache'"
proof -
  obtain cache' where c: "check_one a (sigcache s) vchSig key (fst (FindAndDelete (push_vector vchSig) (pbegincodehash s))) =
      Inr (sig_ok a (fst (FindAndDelete (push_vector vchSig) (pbegincodehash s))) vchSig key, cache')"
    "cache_ok (a_env a) cache'"
    by (rule check_one_verdict [OF assms(1,2)])
  show ?thesis
    using assms c(1) by (intro that [OF _ c(2)])
      (subst eval_step_opcode, simp_all add: disabled_opcode_def op_switch_def op_CHECKSIG_def Let_def)
qed

text \<open>Evaluating the script that pays to a key hash on a stack with a key and a signature.\<close>

lemma EvalScript_keyhash:
  assumes "args_ok a" "cache_ok (a_env a) cache" "length st < 900"
  shows "\<exists>cache'. cache_ok (a_env a) cache' \<and> EvalScript a (key # vchSig # st) cache (pay_to_keyhash h) =
    Inr (if env_Hash160 (a_env a) key = h
         then (True, bool_vch (sig_ok a (fst (FindAndDelete (push_vector vchSig) (pay_to_keyhash h))) vchSig key) # st, cache')
         else (False, vchFalse # key # vchSig # st, cache'))"
proof -
  let ?s = "init_state (key # vchSig # st) cache (pay_to_keyhash h)" and ?hb = "le_bytes 20 (unat h)"
  let ?kb = "le_bytes 20 (unat (env_Hash160 (a_env a) key))"
  let ?s4 = "?s\<lparr> nOpCount := 2, stack := ?hb # ?kb # key # vchSig # st \<rparr>"
  have l: "length (pay_to_keyhash h) \<le> 10000" by (simp add: length_pay_to)
  have "eval_loop a (pay_to_keyhash h) ?s = eval_loop a [0x88, 0xac] ?s4"
    using assms(3) unfolding pay_to_keyhash_def
    by (simp add: init_state_def eval_loop_step [OF eval_DUP] eval_loop_step [OF eval_HASH160]
        eval_loop_step [OF eval_step_push] minimal_data_hash push_def)
  moreover have "eval_loop a [0x88, 0xac] ?s4 =
      (if ?hb = ?kb then eval_loop a [0xac] (?s\<lparr> nOpCount := 3, stack := key # vchSig # st \<rparr>)
       else Inl (RetFalse (?s\<lparr> nOpCount := 3, stack := vchFalse # key # vchSig # st \<rparr>)))"
    using assms(3) eval_EQUALVERIFY [of ?s4 ?hb ?kb "key # vchSig # st" a "[0xac]"]
    by (auto simp: init_state_def eval_loop_step eval_loop_exit)
  moreover obtain cache' where "eval_step a [0xac] (?s\<lparr> nOpCount := 3, stack := key # vchSig # st \<rparr>) =
      Inr ([], ?s\<lparr> nOpCount := 4, sigcache := cache',
        stack := bool_vch (sig_ok a (fst (FindAndDelete (push_vector vchSig) (pay_to_keyhash h))) vchSig key) # st \<rparr>)"
    "cache_ok (a_env a) cache'"
    using assms(2,3)
    by (auto intro: eval_CHECKSIG [OF assms(1), of "?s\<lparr> nOpCount := 3, stack := key # vchSig # st \<rparr>" key vchSig st "[]"] simp: init_state_def)
  ultimately show ?thesis
    using l assms(2) le_bytes_20_inj [of h "env_Hash160 (a_env a) key"]
    by (cases "env_Hash160 (a_env a) key = h")
      (auto simp: EvalScript_def eval_loop_step init_state_def)
qed


text \<open>Evaluating the script that pays to a script hash.\<close>

lemma eval_step_push_full:
  assumes "list_all (\<lambda>b. b) (vfExec s)" "minimal_data v" "length (stack s) + length (altstack s) = 1000"
  shows "eval_step a (push_vector v @ pc) s = Inl (RetFalse (push v s))"
proof -
  have l: "length v < 2 ^ 32" "length v \<le> 520" using assms(2) by (auto simp: minimal_data_def)
  show ?thesis
    using assms(1,3) l(2) push_minimal [OF assms(2)]
    unfolding eval_step_def GetScriptOp_push_vector [OF l(1)]
    by (simp add: Let_def eval_op_def push_def)
qed

lemma EvalScript_scripthash:
  assumes "length st \<le> 1000"
  shows "EvalScript a st cache (pay_to_scripthash h) =
    Inr (case st of
           [] \<Rightarrow> (False, [], cache)
         | x # st' \<Rightarrow>
             if length st = 1000 then (False, le_bytes 20 (unat h) # le_bytes 20 (unat (env_Hash160 (a_env a) x)) # st', cache)
             else (True, bool_vch (env_Hash160 (a_env a) x = h) # st', cache))"
proof -
  let ?s = "init_state st cache (pay_to_scripthash h)" and ?hb = "le_bytes 20 (unat h)"
  have l: "length (pay_to_scripthash h) \<le> 10000" by (simp add: length_pay_to)
  show ?thesis
  proof (cases st)
    case Nil
    have "eval_step a (0xa9 # pc) ?s = Inl (RetFalse (?s\<lparr> nOpCount := 1 \<rparr>))" for pc
      by (subst eval_step_opcode) (simp_all add: init_state_def disabled_opcode_def op_switch_def op_hash_def Nil)
    then have "eval_loop a (pay_to_scripthash h) ?s = Inl (RetFalse (?s\<lparr> nOpCount := 1 \<rparr>))"
      unfolding pay_to_scripthash_def by (simp add: eval_loop_exit)
    then show ?thesis
      using l by (simp add: EvalScript_def Nil init_state_def)
  next
    case (Cons x st')
    let ?xb = "le_bytes 20 (unat (env_Hash160 (a_env a) x))"
    let ?s1 = "?s\<lparr> nOpCount := 1, stack := ?xb # st' \<rparr>"
    have 1: "eval_loop a (pay_to_scripthash h) ?s = eval_loop a (push_vector ?hb @ [0x87]) ?s1"
      using assms unfolding pay_to_scripthash_def Cons
      by (simp add: init_state_def eval_loop_step [OF eval_HASH160])
    show ?thesis
    proof (cases "length st = 1000")
      case True
      then have "eval_loop a (push_vector ?hb @ [0x87]) ?s1 = Inl (RetFalse (push ?hb ?s1))"
        by (intro eval_loop_exit eval_step_push_full) (simp_all add: init_state_def minimal_data_hash Cons)
      with 1 l True show ?thesis by (simp add: EvalScript_def Cons push_def init_state_def)
    next
      case False
      with assms have "eval_loop a (push_vector ?hb @ [0x87]) ?s1 =
          Inr (?s\<lparr> nOpCount := 2, stack := bool_vch (?hb = ?xb) # st' \<rparr>)"
        by (simp add: init_state_def eval_loop_step [OF eval_step_push] eval_loop_step [OF eval_EQUAL] minimal_data_hash
            push_def Cons)
      with 1 l False show ?thesis
        using le_bytes_20_inj [of h "env_Hash160 (a_env a) x"] by (auto simp: EvalScript_def Cons init_state_def)
    qed
  qed
qed

lemma IsPayToScriptHash_iff: "IsPayToScriptHash script \<longleftrightarrow> (\<exists>h. script = pay_to_scripthash h)"
proof
  assume p: "IsPayToScriptHash script"
  then have l: "length script = 23" by (simp add: IsPayToScriptHash_def)
  let ?b = "take 20 (drop 2 script)"
  have "script = take 2 (drop 0 script) @ take 20 (drop 2 script) @ drop 22 script"
    using drop_split [of 0 script 2] drop_split [of 2 script 20] by simp
  moreover have "take 2 (drop 0 script) = [0xa9, 0x14]"
    using p take_two [of 0 script] by (auto simp: IsPayToScriptHash_def dest!: word_of_unat_eq)
  moreover have "drop 22 script = [0x87]"
    using p l Cons_nth_drop_Suc [of 22 script] by (auto simp: IsPayToScriptHash_def dest!: word_of_unat_eq)
  moreover have "?b = le_bytes 20 (unat (word_of_nat (le_nat ?b) :: uint160))"
  proof -
    have "le_nat ?b < 2 ^ 160" using le_nat_less [of ?b] l by simp
    then have "unat (word_of_nat (le_nat ?b) :: uint160) = le_nat ?b" by (simp add: unat_of_nat take_bit_eq_mod)
    then show ?thesis using le_bytes_le_nat [of ?b] l by simp
  qed
  ultimately have "script = [0xa9, 0x14] @ le_bytes 20 (unat (word_of_nat (le_nat ?b) :: uint160)) @ [0x87]"
    by metis
  then have "script = pay_to_scripthash (word_of_nat (le_nat ?b))"
    unfolding pay_to_scripthash_def push_hash by simp
  then show "\<exists>h. script = pay_to_scripthash h" ..
next
  assume "\<exists>h. script = pay_to_scripthash h"
  then show "IsPayToScriptHash script"
    by (auto simp: IsPayToScriptHash_def length_pay_to) (simp_all add: pay_to_scripthash_def push_vector_def nth_append)
qed


section \<open>What VerifyScript decides\<close>

text \<open>The copy of the stack is not empty where \<^verbatim>\<open>VerifyScript\<close> asserts so.\<close>

lemma EvalScript_scripthash_empty: "EvalScript a [] cache (pay_to_scripthash h) = Inr (False, [], cache)"
  using EvalScript_scripthash [of "[]"] by simp

lemma EvalScript_same:
  assumes "args_ok a" "digest_lengths (a_env a)" "cache_ok (a_env a) c" "cache_ok (a_env a) c'"
    "list_all elem_ok st" "length st \<le> 1000"
  obtains b st' d d' where "EvalScript a st c script = Inr (b, st', d)" "EvalScript a st c' script = Inr (b, st', d')"
    "cache_ok (a_env a) d" "cache_ok (a_env a) d'" "list_all elem_ok st'" "b \<Longrightarrow> length st' \<le> 1000"
proof -
  obtain b st' d d' where e: "EvalScript a st c script = Inr (b, st', d)" "EvalScript a st c' script = Inr (b, st', d')"
    using EvalScript_two_caches [OF assms(1,3,4)] by blast
  with EvalScript_keeps [OF assms(5) _ assms(3,2) e(1)] EvalScript_keeps [OF assms(5) _ assms(4,2) e(2)] assms(6)
  show ?thesis by (intro that [OF e]) auto
qed

lemma VerifyScript_two_caches:
  assumes "args_ok a" "digest_lengths (a_env a)" "cache_ok (a_env a) c" "cache_ok (a_env a) c'"
  shows "\<exists>b d d'. VerifyScript a c scriptSig scriptPubKey = Inr (b, d) \<and> VerifyScript a c' scriptSig scriptPubKey = Inr (b, d') \<and>
    cache_ok (a_env a) d \<and> cache_ok (a_env a) d'"
proof -
  obtain b1 st1 c1 c1' where 1: "EvalScript a [] c scriptSig = Inr (b1, st1, c1)" "EvalScript a [] c' scriptSig = Inr (b1, st1, c1')"
    "cache_ok (a_env a) c1" "cache_ok (a_env a) c1'" "list_all elem_ok st1" "b1 \<Longrightarrow> length st1 \<le> 1000"
    by (rule EvalScript_same [OF assms, of "[]"]) auto
  show ?thesis
  proof (cases b1)
    case False
    with 1 show ?thesis
      by (intro exI [of _ False] exI [of _ c1] exI [of _ c1']) (simp add: VerifyScript_def)
  next
    case b1: True
    obtain b2 st2 c2 c2' where 2: "EvalScript a st1 c1 scriptPubKey = Inr (b2, st2, c2)"
      "EvalScript a st1 c1' scriptPubKey = Inr (b2, st2, c2')" "cache_ok (a_env a) c2" "cache_ok (a_env a) c2'"
      by (rule EvalScript_same [OF assms(1,2) 1(3-5)]) (use 1(6) b1 in auto)
    show ?thesis
    proof (cases "b2 \<and> IsPayToScriptHash scriptPubKey")
      case False
      with 1 2 b1 show ?thesis by (auto simp: VerifyScript_def Let_def)
    next
      case True
      then obtain x st where st1: "st1 = x # st"
        using 2 IsPayToScriptHash_iff [of scriptPubKey] EvalScript_scripthash_empty by (cases st1) auto
      obtain b3 st3 c3 c3' where "EvalScript a st c2 x = Inr (b3, st3, c3)" "EvalScript a st c2' x = Inr (b3, st3, c3')"
        "cache_ok (a_env a) c3" "cache_ok (a_env a) c3'"
        by (rule EvalScript_same [OF assms(1,2) 2(3,4), of st]) (use 1(5,6) b1 st1 in auto)
      with 1 2 b1 st1 show ?thesis by (auto simp: VerifyScript_def Let_def)
    qed
  qed
qed


text \<open>A script that pushes a signature and a key.\<close>

lemma EvalScript_two_pushes:
  assumes "minimal_data v1" "minimal_data v2"
  shows "EvalScript a [] cache (push_vector v1 @ push_vector v2) = Inr (True, [v2, v1], cache)"
proof -
  have "length (push_vector v1 @ push_vector v2) \<le> 10000"
    using assms by (simp add: push_vector_def minimal_data_def)
  moreover have "eval_loop a (push_vector v1 @ push_vector v2) (init_state [] cache (push_vector v1 @ push_vector v2)) =
      Inr ((init_state [] cache (push_vector v1 @ push_vector v2))\<lparr> stack := [v2, v1] \<rparr>)"
    using assms eval_step_push [of _ v2 a "[]"]
    by (simp add: eval_loop_step [OF eval_step_push] eval_loop_step init_state_def push_def)
  ultimately show ?thesis by (simp add: EvalScript_def init_state_def)
qed

lemma CastToBool_bool_vch [simp]: "CastToBool (bool_vch b) \<longleftrightarrow> b"
  by (simp add: vchTrue_def vchFalse_def)

section \<open>Properties\<close>

text \<open>
  C1. \<^verbatim>\<open>VerifyScript\<close> decides: for every pair of scripts it returns, none of its assertions fails, also
  not the one that the copy of the stack is not empty in a payment to a script hash, and the answer
  does not depend on the content of the signature cache, which stays sound.
\<close>

theorem VerifyScript_decides:
  assumes "args_ok a" "digest_lengths (a_env a)" "cache_ok (a_env a) c" "cache_ok (a_env a) c'"
  shows "\<exists>b d d'. VerifyScript a c scriptSig scriptPubKey = Inr (b, d) \<and>
    VerifyScript a c' scriptSig scriptPubKey = Inr (b, d') \<and> cache_ok (a_env a) d \<and> cache_ok (a_env a) d'"
  using assms by (rule VerifyScript_two_caches)

theorem VerifyScript_decides_witness:
  "\<exists>b d d'. VerifyScript sample_args empty_cache [0x51] (pay_to_scripthash 5) = Inr (b, d) \<and>
     VerifyScript sample_args empty_cache [0x51] (pay_to_scripthash 5) = Inr (b, d') \<and>
     cache_ok (a_env sample_args) d \<and> cache_ok (a_env sample_args) d'"
proof -
  have "a_env sample_args = sample_env" by (simp add: sample_args_def)
  then show ?thesis
    using VerifyScript_decides [OF args_ok_sample _ cache_ok_empty cache_ok_empty] digest_lengths_sample by simp
qed

lemma VerifyScript_pay_to_keyhash:
  assumes "args_ok a" "cache_ok (a_env a) cache" "minimal_data vchSig" "minimal_data key"
  shows "\<exists>cache'. VerifyScript a cache (push_vector vchSig @ push_vector key) (pay_to_keyhash h) =
    Inr (env_Hash160 (a_env a) key = h \<and>
      sig_ok a (fst (FindAndDelete (push_vector vchSig) (pay_to_keyhash h))) vchSig key, cache')"
proof -
  have n: "\<not> IsPayToScriptHash (pay_to_keyhash h)"
    using IsPayToScriptHash_def length_pay_to by simp
  obtain cache' where e: "EvalScript a [key, vchSig] cache (pay_to_keyhash h) =
    Inr (if env_Hash160 (a_env a) key = h
         then (True, [bool_vch (sig_ok a (fst (FindAndDelete (push_vector vchSig) (pay_to_keyhash h))) vchSig key)], cache')
         else (False, [vchFalse, key, vchSig], cache'))"
    using EvalScript_keyhash [OF assms(1,2), of "[]" key vchSig h] by auto
  show ?thesis
    unfolding VerifyScript_def EvalScript_two_pushes [OF assms(3,4)]
    by (cases "env_Hash160 (a_env a) key = h") (simp_all add: e n Let_def)
qed

text \<open>
  Paying to a key hash: the output with the script of a key identifier is spent by the input
  script that pushes a signature and a key exactly when the key has that hash and the signature
  is a valid one of that key for the transaction, with the output script (without the signature)
  as the code that is signed.
\<close>

theorem VerifyScript_keyhash:
  assumes "args_ok a" "cache_ok (a_env a) cache" "minimal_data vchSig" "minimal_data key"
    and "SetDestination (CKeyID h) = Some script"
  shows "\<exists>cache'. VerifyScript a cache (push_vector vchSig @ push_vector key) script =
    Inr (env_Hash160 (a_env a) key = h \<and> sig_ok a (fst (FindAndDelete (push_vector vchSig) script)) vchSig key, cache')"
  using VerifyScript_pay_to_keyhash [OF assms(1-4), of h] assms(5) SetDestination_scripts(1) [of h] by simp

theorem VerifyScript_keyhash_witness:
  "\<exists>script cache'. SetDestination (CKeyID 5) = Some script \<and>
     VerifyScript sample_args empty_cache (push_vector [7, 1] @ push_vector [2, 2]) script =
     Inr (sig_ok sample_args (fst (FindAndDelete (push_vector [7, 1]) script)) [7, 1] [2, 2], cache')"
proof -
  have m: "minimal_data [7, 1]" "minimal_data [2, 2]" by (simp_all add: minimal_data_def)
  have h: "env_Hash160 (a_env sample_args) [2, 2] = 5" by (simp add: sample_args_def sample_env_def)
  show ?thesis
    using VerifyScript_keyhash [OF args_ok_sample cache_ok_empty m SetDestination_scripts(1), of 5]
      SetDestination_scripts(1) [of 5] by (auto simp: h)
qed

text \<open>
  C27. Paying to a script hash: with the flag set, an output with the script of a script identifier
  is spent exactly by input scripts that only push, leave a script with this hash on top of a
  stack that is not full, and make that script succeed with a true value on the rest.
\<close>

theorem VerifyScript_scripthash:
  assumes "args_ok a" "digest_lengths (a_env a)" "cache_ok (a_env a) cache" "has_flag (a_flags a) SCRIPT_VERIFY_P2SH"
    and "SetDestination (CScriptID h) = Some script"
  shows "\<exists>b cache'. VerifyScript a cache scriptSig script = Inr (b, cache') \<and>
    (b \<longleftrightarrow> (\<exists>redeem st c1 x st2 c2. EvalScript a [] cache scriptSig = Inr (True, redeem # st, c1) \<and>
       IsPushOnly scriptSig \<and> env_Hash160 (a_env a) redeem = h \<and> length st < 999 \<and>
       EvalScript a st c1 redeem = Inr (True, x # st2, c2) \<and> CastToBool x))"
proof -
  have s: "script = pay_to_scripthash h" "IsPayToScriptHash script"
    using assms(5) SetDestination_scripts(2) [of h] by (auto simp: IsPayToScriptHash_iff)
  obtain b1 st1 c1 where 1: "EvalScript a [] cache scriptSig = Inr (b1, st1, c1)"
    "cache_ok (a_env a) c1" "b1 \<Longrightarrow> length st1 \<le> 1000" "list_all elem_ok st1"
    by (rule EvalScript_same [OF assms(1,2,3,3), of "[]"]) auto
  show ?thesis
  proof (cases "b1 \<and> st1 \<noteq> []")
    case False
    with 1 EvalScript_scripthash_empty show ?thesis
      by (cases b1) (auto simp: VerifyScript_def s(1) Let_def intro!: exI [of _ False])
  next
    case True
    then obtain redeem st where st1: "st1 = redeem # st" by (cases st1) auto
    obtain b3 st3 c3 where 3: "EvalScript a st c1 redeem = Inr (b3, st3, c3)"
      using EvalScript_Inr [OF assms(1)] by blast
    show ?thesis
      using 1 3 True assms(4) s st1 EvalScript_scripthash [of st1 a c1 h]
      by (cases st3) (auto simp: VerifyScript_def Let_def split: if_splits)
  qed
qed

theorem VerifyScript_scripthash_witness:
  "\<exists>b cache'. VerifyScript sample_args empty_cache [0x51] (pay_to_scripthash 5) = Inr (b, cache') \<and>
    (b \<longleftrightarrow> (\<exists>redeem st c1 x st2 c2. EvalScript sample_args [] empty_cache [0x51] = Inr (True, redeem # st, c1) \<and>
       IsPushOnly [0x51] \<and> env_Hash160 (a_env sample_args) redeem = 5 \<and> length st < 999 \<and>
       EvalScript sample_args st c1 redeem = Inr (True, x # st2, c2) \<and> CastToBool x))"
proof -
  have "digest_lengths (a_env sample_args)" "has_flag (a_flags sample_args) SCRIPT_VERIFY_P2SH"
    using digest_lengths_sample by (simp_all add: sample_args_def has_flag_def)
  from VerifyScript_scripthash [OF args_ok_sample this(1) cache_ok_empty this(2) SetDestination_scripts(2)]
  show ?thesis .
qed

end
