(* ===== verification/Script_Solver.thy ===== *)
theory Script_Solver
  imports Script_Verify
begin

text \<open>
  The recognition of standard output scripts (\<^verbatim>\<open>src/src/script/script.cpp\<close>): the template matcher
  \<^verbatim>\<open>Solver\<close>, the tests and the destinations computed from it. The specification of the matcher is
  the list of opcodes of a script.
\<close>

section \<open>The template matcher\<close>

datatype txnouttype =
    TX_NONSTANDARD
  | TX_PUBKEY
  | TX_PUBKEY_DROP
  | TX_PUBKEYHASH
  | TX_SCRIPTHASH
  | TX_MULTISIG
  | TX_NULL_DATA
  | TX_WITNESS_V0_SCRIPTHASH
  | TX_WITNESS_V0_KEYHASH
  | TX_WITNESS_UNKNOWN

definition GetTxnOutputType :: "txnouttype \<Rightarrow> string" where
  "GetTxnOutputType t =
     (case t of
        TX_NONSTANDARD \<Rightarrow> ''nonstandard''
      | TX_PUBKEY \<Rightarrow> ''pubkey''
      | TX_PUBKEY_DROP \<Rightarrow> ''pubkeydrop''
      | TX_PUBKEYHASH \<Rightarrow> ''pubkeyhash''
      | TX_SCRIPTHASH \<Rightarrow> ''scripthash''
      | TX_MULTISIG \<Rightarrow> ''multisig''
      | TX_NULL_DATA \<Rightarrow> ''nulldata''
      | TX_WITNESS_V0_KEYHASH \<Rightarrow> ''witness_v0_keyhash''
      | TX_WITNESS_V0_SCRIPTHASH \<Rightarrow> ''witness_v0_scripthash''
      | TX_WITNESS_UNKNOWN \<Rightarrow> ''witness_unknown'')"

text \<open>The templates in the order of the map, which is that of the enumeration.\<close>

definition mTemplates :: "(txnouttype \<times> bytes) list" where
  "mTemplates =
     [(TX_PUBKEY, push_opcode OP_PUBKEY @ push_opcode OP_CHECKSIG),
      (TX_PUBKEY_DROP,
       push_opcode OP_PUBKEY @ push_opcode OP_PUBKEY @ push_opcode OP_DROP @ push_opcode OP_CHECKSIG),
      (TX_PUBKEYHASH,
       push_opcode OP_DUP @ push_opcode OP_HASH160 @ push_opcode OP_PUBKEYHASH @
       push_opcode OP_EQUALVERIFY @ push_opcode OP_CHECKSIG),
      (TX_MULTISIG,
       push_opcode OP_SMALLINTEGER @ push_opcode OP_PUBKEYS @ push_opcode OP_SMALLINTEGER @
       push_opcode OP_CHECKMULTISIG),
      (TX_NULL_DATA, push_opcode OP_RETURN @ push_opcode OP_SMALLDATA)]"

text \<open>\<^verbatim>\<open>CastToBigNum\<close>; \<open>None\<close> is the exception for more than four bytes.\<close>

definition CastToBigNum :: "bytes \<Rightarrow> int option" where
  "CastToBigNum vch = (if length vch > 4 then None else Some (set_vch vch))"

text \<open>The loop on \<^verbatim>\<open>OP_PUBKEYS\<close>; a failed read leaves the invalid opcode with no data.\<close>

function pubkeys_loop ::
  "opcodetype \<Rightarrow> bytes \<Rightarrow> bytes \<Rightarrow> valtype list \<Rightarrow> opcodetype \<times> bytes \<times> bytes \<times> valtype list" where
  "pubkeys_loop opcode1 vch1 pc1 vSolutionsRet =
     (if 33 \<le> length vch1 \<and> length vch1 \<le> 120
      then (case GetScriptOp pc1 of
              Inl pc' \<Rightarrow> (OP_INVALIDOPCODE, [], pc', vSolutionsRet @ [vch1])
            | Inr (opcode1', vch1', pc1') \<Rightarrow> pubkeys_loop opcode1' vch1' pc1' (vSolutionsRet @ [vch1]))
      else (opcode1, vch1, pc1, vSolutionsRet))"
  by pat_completeness auto
termination
  by (relation "measure (\<lambda>(_, _, pc1, _). length pc1)") (auto dest: GetScriptOp_shorter)

text \<open>One opcode of the script against one of the template: what is added to the solutions, or \<open>None\<close>.\<close>

definition match_op :: "opcodetype \<Rightarrow> bytes \<Rightarrow> opcodetype \<Rightarrow> bytes \<Rightarrow> valtype list option" where
  "match_op opcode1 vch1 opcode2 vch2 =
     (if opcode2 = OP_PUBKEY then (if length vch1 < 33 \<or> length vch1 > 120 then None else Some [vch1])
      else if opcode2 = OP_PUBKEYHASH then (if length vch1 \<noteq> 20 then None else Some [vch1])
      else if opcode2 = OP_SMALLINTEGER
      then (if opcode1 = OP_0 \<or> (opcode1 \<ge> OP_1 \<and> opcode1 \<le> OP_16)
            then map_option (\<lambda>n. [[word_of_nat n]]) (DecodeOP_N opcode1) else None)
      else if opcode2 = OP_INTEGER
      then (case CastToBigNum vch1 of None \<Rightarrow> None | Some bnVal \<Rightarrow> if bnVal \<le> 16 then None else Some [vch1])
      else if opcode2 = OP_SMALLDATA then (if length vch1 > 1024 then None else Some [])
      else if opcode1 \<noteq> opcode2 \<or> vch1 \<noteq> vch2 then None
      else Some [])"

text \<open>The comparison with one template; \<open>None\<close> when it gives up.\<close>

function match_loop :: "bytes \<Rightarrow> bytes \<Rightarrow> valtype list \<Rightarrow> valtype list option" where
  "match_loop pc1 pc2 vSolutionsRet =
     (if pc1 = [] \<and> pc2 = [] then Some vSolutionsRet
      else case GetScriptOp pc1 of
        Inl _ \<Rightarrow> None
      | Inr (opcode1, vch1, pc1') \<Rightarrow>
          (case GetScriptOp pc2 of
             Inl _ \<Rightarrow> None
           | Inr (opcode2, vch2, pc2') \<Rightarrow>
               if opcode2 = OP_PUBKEYS
               then (case pubkeys_loop opcode1 vch1 pc1' vSolutionsRet of
                       (opcode1, vch1, pc1'', sols) \<Rightarrow>
                         (case GetScriptOp pc2' of
                            Inl _ \<Rightarrow> None
                          | Inr (opcode2, vch2, pc2'') \<Rightarrow>
                              (case match_op opcode1 vch1 opcode2 vch2 of
                                 None \<Rightarrow> None
                               | Some new \<Rightarrow> match_loop pc1'' pc2'' (sols @ new))))
               else (case match_op opcode1 vch1 opcode2 vch2 of
                       None \<Rightarrow> None
                     | Some new \<Rightarrow> match_loop pc1' pc2' (vSolutionsRet @ new))))"
  by pat_completeness auto
termination
  by (relation "measure (\<lambda>(_, pc2, _). length pc2)") (auto dest!: GetScriptOp_shorter)

declare pubkeys_loop.simps [simp del] match_loop.simps [simp del]

fun scan_templates :: "bytes \<Rightarrow> (txnouttype \<times> bytes) list \<Rightarrow> bool \<times> txnouttype \<times> valtype list" where
  "scan_templates script1 [] = (False, TX_NONSTANDARD, [])"
| "scan_templates script1 ((t, script2) # ts) =
     (case match_loop script1 script2 [] of
        None \<Rightarrow> scan_templates script1 ts
      | Some sols \<Rightarrow>
          if t = TX_MULTISIG
          then (let m = unat (hd (hd sols)); n = unat (hd (last sols)) in
                (\<not> (m < 1 \<or> n < 1 \<or> m > n \<or> length sols - 2 \<noteq> n), t, sols))
          else (True, t, sols))"

definition Solver :: "bytes \<Rightarrow> bool \<times> txnouttype \<times> valtype list" where
  "Solver scriptPubKey =
     (if IsPayToScriptHash scriptPubKey then (True, TX_SCRIPTHASH, [take 20 (drop 2 scriptPubKey)])
      else if length scriptPubKey \<ge> 1 \<and> unat (scriptPubKey ! 0) = OP_RETURN \<and> IsPushOnly (drop 1 scriptPubKey)
      then (True, TX_NULL_DATA, [])
      else scan_templates scriptPubKey mTemplates)"

section \<open>What is computed from the type\<close>

text \<open>\<open>None\<close> is the failed assertion on a witness type.\<close>

definition ScriptSigArgsExpected :: "txnouttype \<Rightarrow> valtype list \<Rightarrow> int option" where
  "ScriptSigArgsExpected t vSolutions =
     (case t of
        TX_NONSTANDARD \<Rightarrow> Some (- 1)
      | TX_NULL_DATA \<Rightarrow> Some 1
      | TX_PUBKEY \<Rightarrow> Some 1
      | TX_PUBKEY_DROP \<Rightarrow> Some 1
      | TX_PUBKEYHASH \<Rightarrow> Some 2
      | TX_MULTISIG \<Rightarrow>
          if length vSolutions < 1 \<or> length (vSolutions ! 0) < 1 then Some (- 1)
          else Some (int (unat (vSolutions ! 0 ! 0)) + 1)
      | TX_SCRIPTHASH \<Rightarrow> Some 1
      | _ \<Rightarrow> None)"

definition Script_IsStandard :: "bytes \<Rightarrow> bool \<times> txnouttype" where
  "Script_IsStandard scriptPubKey =
     (case Solver scriptPubKey of
        (False, whichType, _) \<Rightarrow> (False, whichType)
      | (True, whichType, vSolutions) \<Rightarrow>
          (if whichType = TX_MULTISIG
           then (let m = unat (hd (hd vSolutions)); n = unat (hd (last vSolutions)) in
                 (\<not> (n < 1 \<or> n > 3) \<and> \<not> (m < 1 \<or> m > n), whichType))
           else (whichType \<noteq> TX_NONSTANDARD, whichType)))"

text \<open>\<^verbatim>\<open>uint160\<close> of a byte vector of its size copies the bytes into its memory.\<close>

definition uint160_of :: "bytes \<Rightarrow> uint160" where
  "uint160_of vch = word_of_nat (le_nat (take 20 vch))"

definition ExtractDestination :: "crypto_env \<Rightarrow> bytes \<Rightarrow> CTxDestination option" where
  "ExtractDestination env scriptPubKey =
     (case Solver scriptPubKey of
        (False, _, _) \<Rightarrow> None
      | (True, whichType, vSolutions) \<Rightarrow>
          if whichType = TX_PUBKEY then Some (CKeyID (GetID env (CPubKey_Set (vSolutions ! 0))))
          else if whichType = TX_PUBKEYHASH then Some (CKeyID (uint160_of (vSolutions ! 0)))
          else if whichType = TX_SCRIPTHASH then Some (CScriptID (uint160_of (vSolutions ! 0)))
          else None)"

text \<open>The result, the type, the destinations and the number of signatures (\<open>None\<close>: not assigned).\<close>

definition ExtractDestinations ::
  "crypto_env \<Rightarrow> bytes \<Rightarrow> bool \<times> txnouttype \<times> CTxDestination list \<times> int option" where
  "ExtractDestinations env scriptPubKey =
     (case Solver scriptPubKey of
        (False, typeRet, _) \<Rightarrow> (False, typeRet, [], None)
      | (True, typeRet, vSolutions) \<Rightarrow>
          if typeRet = TX_NULL_DATA then (True, typeRet, [], Some 0)
          else if typeRet = TX_MULTISIG
          then (True, typeRet,
                map (\<lambda>k. CKeyID (GetID env (CPubKey_Set k))) (take (length vSolutions - 2) (drop 1 vSolutions)),
                Some (int (unat (hd (hd vSolutions)))))
          else if typeRet = TX_PUBKEY_DROP then (True, typeRet, [], Some 1)
          else case ExtractDestination env scriptPubKey of
            None \<Rightarrow> (False, typeRet, [], Some 1)
          | Some address \<Rightarrow> (True, typeRet, [address], Some 1))"

section \<open>Matching at the level of opcodes\<close>

definition reads :: "bytes \<Rightarrow> (opcodetype \<times> bytes) list \<Rightarrow> bool" where
  "reads script l \<longleftrightarrow> parses script \<and> ops script = l"

lemma reads_Cons:
  "reads pc ((opcode, data) # l) \<longleftrightarrow> (\<exists>pc'. GetScriptOp pc = Inr (opcode, data, pc') \<and> reads pc' l)"
  unfolding reads_def by (induction pc rule: script_induct) (auto simp: walk_simps)

lemma reads_Nil: "reads pc [] \<longleftrightarrow> pc = []"
  unfolding reads_def by (induction pc rule: script_induct) (auto simp: walk_simps)

lemmas reads_simps = reads_Nil reads_Cons

lemma reads_Inr: "GetScriptOp pc = Inr (opcode, data, pc') \<Longrightarrow>
    reads pc l \<longleftrightarrow> (\<exists>l'. l = (opcode, data) # l' \<and> reads pc' l')"
  by (cases l) (auto simp: reads_simps)

text \<open>A template opcode other than \<^verbatim>\<open>OP_PUBKEYS\<close> consumes one opcode of the script.\<close>

lemma match_loop_Nil: "match_loop pc1 [] sols = (if pc1 = [] then Some sols else None)"
  by (auto simp: match_loop.simps [of pc1 "[]"] split: sum.split)

lemma match_loop_Cons:
  assumes "OP_PUSHDATA4 < unat b" "unat b \<noteq> OP_PUBKEYS"
  shows "match_loop pc1 (b # t) sols =
    (case GetScriptOp pc1 of
       Inl _ \<Rightarrow> None
     | Inr (opcode1, vch1, pc1') \<Rightarrow>
         (case match_op opcode1 vch1 (unat b) [] of
            None \<Rightarrow> None
          | Some new \<Rightarrow> match_loop pc1' t (sols @ new)))"
proof -
  have "GetScriptOp (b # t) = Inr (unat b, [], t)" using assms(1) by (simp add: GetScriptOp_def)
  then show ?thesis
    using assms(2) by (subst match_loop.simps) (auto split: sum.splits option.splits)
qed

lemma match_loop_PUBKEYS:
  assumes "OP_PUSHDATA4 < unat b"
  shows "match_loop pc1 (0xfb # b # t) sols =
    (case GetScriptOp pc1 of
       Inl _ \<Rightarrow> None
     | Inr (opcode1, vch1, pc1') \<Rightarrow>
         (case pubkeys_loop opcode1 vch1 pc1' sols of
            (opcode1, vch1, pc1'', sols) \<Rightarrow>
              (case match_op opcode1 vch1 (unat b) [] of
                 None \<Rightarrow> None
               | Some new \<Rightarrow> match_loop pc1'' t (sols @ new))))"
proof -
  have "GetScriptOp (0xfb # b # t) = Inr (0xfb, [], b # t)" "GetScriptOp (b # t) = Inr (unat b, [], t)"
    using assms by (simp_all add: GetScriptOp_def)
  then show ?thesis by (subst match_loop.simps) (auto split: sum.splits option.splits)
qed

lemmas template_simps = match_loop_Nil match_loop_Cons match_loop_PUBKEYS

definition is_pubkey :: "bytes \<Rightarrow> bool" where
  "is_pubkey k \<longleftrightarrow> 33 \<le> length k \<and> length k \<le> 120"

lemma match_op_simps:
  "match_op o1 v1 OP_PUBKEY v2 = (if is_pubkey v1 then Some [v1] else None)"
  "match_op o1 v1 OP_PUBKEYHASH v2 = (if length v1 = 20 then Some [v1] else None)"
  "match_op o1 v1 OP_SMALLINTEGER v2 = map_option (\<lambda>n. [[word_of_nat n]]) (DecodeOP_N o1)"
  "match_op o1 v1 OP_SMALLDATA v2 = (if length v1 \<le> 1024 then Some [] else None)"
  "o2 < 0xf9 \<Longrightarrow> match_op o1 v1 o2 v2 = (if o1 = o2 \<and> v1 = v2 then Some [] else None)"
  by (auto simp: match_op_def is_pubkey_def DecodeOP_N_def)


text \<open>The templates, one by one.\<close>

lemma match_PUBKEY:
  "match_loop s [0xfe, 0xac] [] = Some sols \<longleftrightarrow>
     (\<exists>opcode k. reads s [(opcode, k), (OP_CHECKSIG, [])] \<and> is_pubkey k \<and> sols = [k])"
  by (auto simp: template_simps match_op_simps reads_simps split: sum.splits option.splits if_splits)

lemma match_PUBKEY_DROP:
  "match_loop s [0xfe, 0xfe, 0x75, 0xac] [] = Some sols \<longleftrightarrow>
     (\<exists>opcode k opcode' r. reads s [(opcode, k), (opcode', r), (OP_DROP, []), (OP_CHECKSIG, [])] \<and>
        is_pubkey k \<and> is_pubkey r \<and> sols = [k, r])"
  by (auto simp: template_simps match_op_simps reads_simps split: sum.splits option.splits if_splits)

lemma match_PUBKEYHASH:
  "match_loop s [0x76, 0xa9, 0xfd, 0x88, 0xac] [] = Some sols \<longleftrightarrow>
     (\<exists>opcode h. reads s [(OP_DUP, []), (OP_HASH160, []), (opcode, h), (OP_EQUALVERIFY, []), (OP_CHECKSIG, [])] \<and>
        length h = 20 \<and> sols = [h])"
  by (auto simp: template_simps match_op_simps reads_simps split: sum.splits option.splits if_splits)

lemma match_NULL_DATA:
  "match_loop s [0x6a, 0xf9] [] = Some sols \<longleftrightarrow>
     (\<exists>opcode d. reads s [(OP_RETURN, []), (opcode, d)] \<and> length d \<le> 1024 \<and> sols = [])"
  by (auto simp: template_simps match_op_simps reads_simps split: sum.splits option.splits if_splits)

text \<open>The keys between two small integers.\<close>

definition keys_then ::
  "(opcodetype \<times> bytes) list \<Rightarrow> valtype list \<Rightarrow> nat \<Rightarrow> (opcodetype \<times> bytes) list \<Rightarrow> bool" where
  "keys_then l ks n rest \<longleftrightarrow>
     (\<exists>kops opcode v. l = kops @ (opcode, v) # rest \<and> DecodeOP_N opcode = Some n \<and> \<not> is_pubkey v \<and>
        list_all is_pubkey ks \<and> ks = map snd kops)"

lemma keys_then_key: "is_pubkey v \<Longrightarrow> keys_then ((opcode, v) # l) ks n rest \<longleftrightarrow> (\<exists>ks'. ks = v # ks' \<and> keys_then l ks' n rest)"
  unfolding keys_then_def by (auto simp: Cons_eq_append_conv)

lemma keys_then_other:
  "\<not> is_pubkey v \<Longrightarrow> keys_then ((opcode, v) # l) ks n rest \<longleftrightarrow> ks = [] \<and> DecodeOP_N opcode = Some n \<and> l = rest"
  unfolding keys_then_def by (auto simp: Cons_eq_append_conv)

lemma keys_then_Nil: "\<not> keys_then [] ks n rest"
  by (simp add: keys_then_def)

lemma pubkeys_loop_reads:
  "(\<exists>o' v' pc'. pubkeys_loop opcode1 vch1 pc sols = (o', v', pc', sols') \<and> DecodeOP_N o' = Some n \<and> reads pc' rest) \<longleftrightarrow>
   (\<exists>l ks. reads pc l \<and> keys_then ((opcode1, vch1) # l) ks n rest \<and> sols' = sols @ ks)"
proof (induction opcode1 vch1 pc sols rule: pubkeys_loop.induct)
  case (1 opcode1 vch1 pc1 sols)
  show ?case
  proof (cases "is_pubkey vch1")
    case False
    then show ?thesis
      by (subst pubkeys_loop.simps) (auto simp: is_pubkey_def [symmetric] keys_then_other)
  next
    case True
    then have len: "33 \<le> length vch1 \<and> length vch1 \<le> 120" by (simp add: is_pubkey_def)
    show ?thesis
    proof (cases "GetScriptOp pc1")
      case (Inl r)
      have nil: "l = []" if "reads pc1 l" for l using that Inl by (cases l) (auto simp: reads_simps)
      then show ?thesis
        using len Inl
        by (subst pubkeys_loop.simps) (auto simp: keys_then_key [OF True] keys_then_Nil DecodeOP_N_def dest!: nil)
    next
      case (Inr x)
      obtain o1 v1 pc' where x: "x = (o1, v1, pc')" by (cases x)
      have "pubkeys_loop opcode1 vch1 pc1 sols = pubkeys_loop o1 v1 pc' (sols @ [vch1])"
        using len Inr x by (subst pubkeys_loop.simps) simp
      then show ?thesis
        using "1.IH" [OF len Inr x [symmetric] refl] reads_Inr [OF Inr [unfolded x]] by (auto simp: keys_then_key [OF True])
    qed
  qed
qed


lemma match_MULTISIG:
  "match_loop s [0xfa, 0xfb, 0xfa, 0xae] [] = Some sols \<longleftrightarrow>
     (\<exists>opcode v l ks m n. reads s ((opcode, v) # l) \<and> DecodeOP_N opcode = Some m \<and>
        keys_then l ks n [(OP_CHECKMULTISIG, [])] \<and> sols = [word_of_nat m] # ks @ [[word_of_nat n]])"
    (is "?L \<longleftrightarrow> ?R")
proof -
  have tail: "match_loop pc [0xae] sols' = Some sols \<longleftrightarrow> reads pc [(OP_CHECKMULTISIG, [])] \<and> sols = sols'" for pc sols'
    by (auto simp: template_simps match_op_simps reads_simps split: sum.splits option.splits if_splits)
  have "?L \<longleftrightarrow> (\<exists>opcode v pc o1 v1 pc1 m n sols'. GetScriptOp s = Inr (opcode, v, pc) \<and> DecodeOP_N opcode = Some m \<and>
      GetScriptOp pc = Inr (o1, v1, pc1) \<and>
      (\<exists>o' v' pc'. pubkeys_loop o1 v1 pc1 [[word_of_nat m]] = (o', v', pc', sols') \<and> DecodeOP_N o' = Some n \<and>
         reads pc' [(OP_CHECKMULTISIG, [])]) \<and> sols = sols' @ [[word_of_nat n]])"
    by (auto simp: match_loop_Cons [where t = "[0xfb, 0xfa, 0xae]"] match_loop_PUBKEYS [where t = "[0xae]"] match_op_simps tail
        split: sum.splits option.splits prod.splits)
  also have "\<dots> \<longleftrightarrow> ?R"
    unfolding pubkeys_loop_reads
  proof (safe, goal_cases)
    case (1 opcode v pc o1 v1 pc1 m n _ l ks)
    then show ?case by (intro exI [of _ opcode] exI [of _ v] exI [of _ "(o1, v1) # l"]) (auto simp: reads_Cons)
  next
    case (2 opcode v l ks m n)
    then obtain o1 v1 l' where l: "l = (o1, v1) # l'" by (cases l) (auto simp: keys_then_Nil)
    with 2 show ?case by (fastforce simp: reads_Cons)
  qed
  finally show ?thesis .
qed


section \<open>The types are exclusive\<close>

lemma reads_fun: "reads s l \<Longrightarrow> reads s l' \<Longrightarrow> l = l'"
  by (simp add: reads_def)

lemma reads_head: "reads (b # pc) l \<Longrightarrow> OP_PUSHDATA4 < unat b \<Longrightarrow> \<exists>l'. l = (unat b, []) # l'"
  using reads_Inr [of "b # pc" "unat b" "[]" pc l] by (auto simp: GetScriptOp_def)

lemma scripthash_shape:
  "IsPayToScriptHash s \<longleftrightarrow> (\<exists>h. length h = 20 \<and> s = [0xa9, 0x14] @ h @ [0x87])"
proof
  assume "IsPayToScriptHash s"
  then show "\<exists>h. length h = 20 \<and> s = [0xa9, 0x14] @ h @ [0x87]"
    by (auto simp: IsPayToScriptHash_iff pay_to_scripthash_def push_hash)
qed (auto simp: IsPayToScriptHash_def nth_append)

lemma reads_scripthash:
  "length h = 20 \<Longrightarrow> reads ([0xa9, 0x14] @ h @ [0x87]) [(OP_HASH160, []), (20, h), (OP_EQUAL, [])]"
  by (simp add: reads_simps GetScriptOp_def push_size_def)

lemma keys_then_last: "keys_then l ks n rest \<Longrightarrow> rest \<noteq> [] \<Longrightarrow> last l = last rest \<and> 2 \<le> length l"
  by (cases rest) (auto simp: keys_then_def)

text \<open>What tells the matches apart: the number of opcodes, the last one, and the first.\<close>

definition outline :: "bytes \<Rightarrow> txnouttype" where
  "outline s =
     (let l = ops s; k = length l; first = fst (hd l); bare = (snd (hd l) = []) in
      if 3 \<le> k \<and> fst (last l) = OP_CHECKMULTISIG \<and> first \<noteq> OP_RETURN then TX_MULTISIG
      else if first = OP_RETURN \<and> bare then TX_NULL_DATA
      else if first = OP_HASH160 \<and> bare then TX_SCRIPTHASH
      else if first = OP_DUP \<and> bare then TX_PUBKEYHASH
      else if k = 2 then TX_PUBKEY else TX_PUBKEY_DROP)"

lemma reads_ops: "reads s l \<Longrightarrow> ops s = l"
  by (simp add: reads_def)

lemma is_pubkey_Nil [simp]: "\<not> is_pubkey []"
  by (simp add: is_pubkey_def)

lemma outline_match:
  "match_loop s [0xfe, 0xac] [] = Some sols \<Longrightarrow> outline s = TX_PUBKEY"
  "match_loop s [0xfe, 0xfe, 0x75, 0xac] [] = Some sols \<Longrightarrow> outline s = TX_PUBKEY_DROP"
  "match_loop s [0x76, 0xa9, 0xfd, 0x88, 0xac] [] = Some sols \<Longrightarrow> outline s = TX_PUBKEYHASH"
  "match_loop s [0x6a, 0xf9] [] = Some sols \<Longrightarrow> outline s = TX_NULL_DATA"
  unfolding match_PUBKEY match_PUBKEY_DROP match_PUBKEYHASH match_NULL_DATA
  by (auto simp: outline_def Let_def is_pubkey_def dest!: reads_ops)

lemma outline_MULTISIG:
  assumes "match_loop s [0xfa, 0xfb, 0xfa, 0xae] [] = Some sols"
  shows "outline s = TX_MULTISIG"
proof -
  obtain opcode v l ks m n where r: "reads s ((opcode, v) # l)" "DecodeOP_N opcode = Some m"
      "keys_then l ks n [(OP_CHECKMULTISIG, [])]"
    using assms by (auto simp: match_MULTISIG)
  show ?thesis
    using keys_then_last [OF r(3)] r(2) unfolding outline_def reads_ops [OF r(1)]
    by (auto simp: DecodeOP_N_def split: if_splits)
qed

lemma outline_scripthash: "IsPayToScriptHash s \<Longrightarrow> outline s = TX_SCRIPTHASH"
  unfolding scripthash_shape using reads_ops [OF reads_scripthash] by (auto simp: outline_def simp del: append_Cons)

lemma outline_RETURN: "outline (0x6a # pc) = TX_NULL_DATA"
  using chunks_Cons [of "[0x6a]" OP_RETURN "[]" pc] op_of_chunk [of "[0x6a]" OP_RETURN "[]"]
  by (simp add: outline_def GetScriptOp_def)

lemma match_NULL_DATA_Nil: "match_loop s [0x6a, 0xf9] [] = Some sols \<Longrightarrow> sols = []"
  by (auto simp: match_NULL_DATA)

lemmas outline_dests = outline_match outline_MULTISIG outline_scripthash match_NULL_DATA_Nil

lemma scan_mTemplates:
  "scan_templates s mTemplates =
     (case match_loop s [0xfe, 0xac] [] of Some sols \<Rightarrow> (True, TX_PUBKEY, sols)
      | None \<Rightarrow> case match_loop s [0xfe, 0xfe, 0x75, 0xac] [] of Some sols \<Rightarrow> (True, TX_PUBKEY_DROP, sols)
      | None \<Rightarrow> case match_loop s [0x76, 0xa9, 0xfd, 0x88, 0xac] [] of Some sols \<Rightarrow> (True, TX_PUBKEYHASH, sols)
      | None \<Rightarrow> case match_loop s [0xfa, 0xfb, 0xfa, 0xae] [] of
          Some sols \<Rightarrow>
            (let m = unat (hd (hd sols)); n = unat (hd (last sols)) in
             (\<not> (m < 1 \<or> n < 1 \<or> m > n \<or> length sols - 2 \<noteq> n), TX_MULTISIG, sols))
      | None \<Rightarrow> case match_loop s [0x6a, 0xf9] [] of Some sols \<Rightarrow> (True, TX_NULL_DATA, sols)
      | None \<Rightarrow> (False, TX_NONSTANDARD, []))"
  by (simp add: mTemplates_def push_opcode_def Let_def split: option.split)

lemma first_byte_RETURN: "length s \<ge> 1 \<and> unat (s ! 0) = OP_RETURN \<longleftrightarrow> (\<exists>pc. (s :: bytes) = 0x6a # pc)"
  by (cases s) (auto dest!: word_of_unat_eq)

abbreviation multisig_valid :: "valtype list \<Rightarrow> bool" where
  "multisig_valid sols \<equiv>
     (let m = unat (hd (hd sols)); n = unat (hd (last sols)) in \<not> (m < 1 \<or> n < 1 \<or> m > n \<or> length sols - 2 \<noteq> n))"

text \<open>At most one of the ways of a script to be standard applies, whatever order they are tried in.\<close>

lemma Solver_cases:
  obtains (scripthash) "IsPayToScriptHash s" "Solver s = (True, TX_SCRIPTHASH, [take 20 (drop 2 s)])"
  | (return) pc where "s = 0x6a # pc" "IsPushOnly pc" "Solver s = (True, TX_NULL_DATA, [])"
  | (PUBKEY) sols where "match_loop s [0xfe, 0xac] [] = Some sols" "Solver s = (True, TX_PUBKEY, sols)"
  | (PUBKEY_DROP) sols where "match_loop s [0xfe, 0xfe, 0x75, 0xac] [] = Some sols" "Solver s = (True, TX_PUBKEY_DROP, sols)"
  | (PUBKEYHASH) sols where "match_loop s [0x76, 0xa9, 0xfd, 0x88, 0xac] [] = Some sols" "Solver s = (True, TX_PUBKEYHASH, sols)"
  | (MULTISIG) sols where "match_loop s [0xfa, 0xfb, 0xfa, 0xae] [] = Some sols"
      "Solver s = (multisig_valid sols, TX_MULTISIG, sols)"
  | (NULL_DATA) sols where "match_loop s [0x6a, 0xf9] [] = Some sols" "Solver s = (True, TX_NULL_DATA, sols)"
  | (NONSTANDARD) "Solver s = (False, TX_NONSTANDARD, [])" "match_loop s [0xfe, 0xac] [] = None"
      "match_loop s [0xfe, 0xfe, 0x75, 0xac] [] = None" "match_loop s [0x76, 0xa9, 0xfd, 0x88, 0xac] [] = None"
      "match_loop s [0xfa, 0xfb, 0xfa, 0xae] [] = None" "match_loop s [0x6a, 0xf9] [] = None"
      "\<not> IsPayToScriptHash s" "\<not> (\<exists>pc. s = 0x6a # pc \<and> IsPushOnly pc)"
proof -
  consider "IsPayToScriptHash s" | pc where "\<not> IsPayToScriptHash s" "s = 0x6a # pc" "IsPushOnly pc"
    | "\<not> IsPayToScriptHash s" "\<not> (\<exists>pc. s = 0x6a # pc \<and> IsPushOnly pc)" by blast
  then show ?thesis
  proof cases
    case 1
    then show ?thesis by (intro scripthash) (simp_all add: Solver_def)
  next
    case 2
    then show ?thesis by (intro return) (simp_all add: Solver_def)
  next
    case 3
    then have "Solver s = scan_templates s mTemplates"
      using first_byte_RETURN [of s] by (auto simp: Solver_def)
    then show ?thesis
      using PUBKEY PUBKEY_DROP PUBKEYHASH MULTISIG NULL_DATA NONSTANDARD 3
      by (simp add: scan_mTemplates Let_def split: option.splits)
  qed
qed

lemma Solver_iff:
  "Solver s = (True, TX_SCRIPTHASH, sols) \<longleftrightarrow> IsPayToScriptHash s \<and> sols = [take 20 (drop 2 s)]"
  "Solver s = (True, TX_PUBKEY, sols) \<longleftrightarrow> match_loop s [0xfe, 0xac] [] = Some sols"
  "Solver s = (True, TX_PUBKEY_DROP, sols) \<longleftrightarrow> match_loop s [0xfe, 0xfe, 0x75, 0xac] [] = Some sols"
  "Solver s = (True, TX_PUBKEYHASH, sols) \<longleftrightarrow> match_loop s [0x76, 0xa9, 0xfd, 0x88, 0xac] [] = Some sols"
  "Solver s = (True, TX_MULTISIG, sols) \<longleftrightarrow> match_loop s [0xfa, 0xfb, 0xfa, 0xae] [] = Some sols \<and> multisig_valid sols"
  "Solver s = (True, TX_NULL_DATA, sols) \<longleftrightarrow>
     sols = [] \<and> (\<exists>pc. s = 0x6a # pc \<and> IsPushOnly pc) \<or> match_loop s [0x6a, 0xf9] [] = Some sols"
  by - (cases s rule: Solver_cases; fastforce simp: outline_RETURN dest: outline_dests)+


section \<open>Scripts the node writes\<close>

lemma DecodeOP_N_le: "DecodeOP_N opcode = Some m \<Longrightarrow> m \<le> 16"
  by (auto simp: DecodeOP_N_def split: if_splits)

lemma unat_small: "m \<le> 16 \<Longrightarrow> unat (word_of_nat m :: byte) = m"
  by (rule unat_of_byte) simp

lemma Solver_MULTISIG:
  "Solver s = (True, TX_MULTISIG, sols) \<longleftrightarrow>
     (\<exists>opcode v l ks m n. reads s ((opcode, v) # l) \<and> DecodeOP_N opcode = Some m \<and>
        keys_then l ks n [(OP_CHECKMULTISIG, [])] \<and> 1 \<le> m \<and> m \<le> n \<and> length ks = n \<and>
        sols = [word_of_nat m] # ks @ [[word_of_nat n]])"
proof -
  have n: "n \<le> 16" if "keys_then l ks n rest" for l ks n rest
    using that DecodeOP_N_le by (auto simp: keys_then_def)
  have v: "multisig_valid ([word_of_nat m] # ks @ [[word_of_nat n]]) \<longleftrightarrow> 1 \<le> m \<and> m \<le> n \<and> length ks = n"
    if "DecodeOP_N opcode = Some m" "keys_then l ks n rest" for opcode m l n ks rest
    using DecodeOP_N_le [OF that(1)] n [OF that(2)] by (auto simp: unat_small)
  show ?thesis
    unfolding Solver_iff match_MULTISIG using v by (auto simp del: Let_def) blast+
qed

lemma reads_push_opcode:
  "OP_PUSHDATA4 < opcode \<Longrightarrow> opcode \<le> 0xff \<Longrightarrow> reads (push_opcode opcode @ pc) l \<longleftrightarrow> (\<exists>l'. l = (opcode, []) # l' \<and> reads pc l')"
  by (rule reads_Inr) (simp add: GetScriptOp_push_opcode)

lemma reads_push_vector:
  assumes "length v < 2 ^ 32" "reads pc l"
  shows "\<exists>opcode. reads (push_vector v @ pc) ((opcode, v) # l)"
  using assms GetScriptOp_push_vector [OF assms(1), of pc] by (auto simp: reads_Cons)

lemma uint160_of_le_bytes: "uint160_of (le_bytes 20 (unat h)) = h"
proof -
  have "unat h < 256 ^ 20" using unsigned_less [of h] by simp
  then show ?thesis by (simp add: uint160_of_def)
qed

lemma Solver_keyhash: "Solver (pay_to_keyhash h) = (True, TX_PUBKEYHASH, [le_bytes 20 (unat h)])"
proof -
  have "reads (pay_to_keyhash h)
      [(OP_DUP, []), (OP_HASH160, []), (20, le_bytes 20 (unat h)), (OP_EQUALVERIFY, []), (OP_CHECKSIG, [])]"
    by (simp add: reads_simps pay_to_keyhash_def push_hash GetScriptOp_def push_size_def)
  then show ?thesis unfolding Solver_iff match_PUBKEYHASH by force
qed

lemma Solver_scripthash: "Solver (pay_to_scripthash h) = (True, TX_SCRIPTHASH, [le_bytes 20 (unat h)])"
  unfolding Solver_iff using IsPayToScriptHash_iff by (auto simp: pay_to_scripthash_def push_hash)


lemma CPubKey_Set_valid:
  assumes "CPubKey_Set (pubkey_data key) = key" "IsValid key"
  shows "is_pubkey (pubkey_data key)"
  using assms by (cases key) (auto simp: CPubKey_Set_def IsValid_def GetLen_def is_pubkey_def Let_def split: if_splits)

lemma reads_keys:
  assumes "list_all is_pubkey ks" "reads pc l"
  shows "\<exists>kops. reads (concat (map push_vector ks) @ pc) (kops @ l) \<and> map snd kops = ks"
  using assms(1)
proof (induction ks)
  case (Cons k ks)
  then obtain kops where k: "reads (concat (map push_vector ks) @ pc) (kops @ l)" "map snd kops = ks" by auto
  have "length k < 2 ^ 32" using Cons.prems by (simp add: is_pubkey_def)
  from reads_push_vector [OF this k(1)] obtain opcode
    where "reads (push_vector k @ concat (map push_vector ks) @ pc) ((opcode, k) # kops @ l)" by blast
  with k(2) show ?case by (intro exI [of _ "(opcode, k) # kops"]) simp
qed (simp add: assms(2))

lemma EncodeOP_N_small:
  assumes "EncodeOP_N m = Some opcode" "0 < m"
  shows "OP_PUSHDATA4 < opcode" "opcode \<le> 0xff" "DecodeOP_N opcode = Some (nat m)"
  using assms DecodeOP_N_EncodeOP_N [OF assms(1)] by (auto simp: EncodeOP_N_def split: if_splits)

lemma Solver_SetMultisig:
  assumes "SetMultisig m keys = Some script" "1 \<le> m" "m \<le> int (length keys)"
    and "list_all (\<lambda>key. CPubKey_Set (pubkey_data key) = key \<and> IsValid key) keys"
  shows "Solver script =
    (True, TX_MULTISIG, [word_of_int m] # map pubkey_data keys @ [[word_of_nat (length keys)]])"
proof -
  obtain o1 o2 where e: "EncodeOP_N m = Some o1" "EncodeOP_N (int (length keys)) = Some o2"
      "script = push_opcode o1 @ concat (map push_vector (map pubkey_data keys)) @ push_opcode o2 @ push_opcode OP_CHECKMULTISIG"
    using assms(1) by (auto simp: SetMultisig_def o_def split: option.splits)
  have pos: "0 < m" "0 < int (length keys)" using assms(2,3) by auto
  note e1 = EncodeOP_N_small [OF e(1) pos(1)] and e2 = EncodeOP_N_small [OF e(2) pos(2)]
  have ks: "list_all is_pubkey (map pubkey_data keys)"
    using assms(4) CPubKey_Set_valid by (auto simp: list_all_iff)
  have "reads (push_opcode o2 @ push_opcode OP_CHECKMULTISIG) [(o2, []), (OP_CHECKMULTISIG, [])]"
    using e2 assms(2,3) reads_push_opcode [of OP_CHECKMULTISIG "[]"] by (auto simp: reads_push_opcode reads_Nil)
  from reads_keys [OF ks this] obtain kops where
    k: "reads (concat (map push_vector (map pubkey_data keys)) @ push_opcode o2 @ push_opcode OP_CHECKMULTISIG)
        (kops @ [(o2, []), (OP_CHECKMULTISIG, [])])" "map snd kops = map pubkey_data keys" by blast
  have "keys_then (kops @ [(o2, []), (OP_CHECKMULTISIG, [])]) (map pubkey_data keys) (length keys) [(OP_CHECKMULTISIG, [])]"
    unfolding keys_then_def using e2(3) assms(2,3) ks k(2)
    by (intro exI [of _ kops] exI [of _ o2] exI [of _ "[]"]) auto
  moreover have "reads script ((o1, []) # kops @ [(o2, []), (OP_CHECKMULTISIG, [])])"
    using e1 k(1) assms(2) unfolding e(3) by (simp add: reads_push_opcode)
  ultimately have "Solver script =
      (True, TX_MULTISIG, [word_of_nat (nat m)] # map pubkey_data keys @ [[word_of_nat (length keys)]])"
    unfolding Solver_MULTISIG using e1(3) assms(2,3)
    by (intro exI [of _ o1] exI [of _ "[] :: bytes"] exI [of _ "kops @ [(o2, []), (OP_CHECKMULTISIG, [])]"]
        exI [of _ "map pubkey_data keys"] exI [of _ "nat m"] exI [of _ "length keys"]) auto
  then show ?thesis using assms(2) by simp
qed

section \<open>Properties\<close>

text \<open>
  The template matcher recognises a script as one of the standard types exactly when its list
  of opcodes has the shape of that type, with the solutions that stand in it, whatever order the
  templates are tried in; no script is given a witness type.
\<close>

theorem Solver_shapes:
  "(Solver s = (True, TX_PUBKEY, sols) \<longleftrightarrow>
     (\<exists>opcode k. reads s [(opcode, k), (OP_CHECKSIG, [])] \<and> is_pubkey k \<and> sols = [k])) \<and>
   (Solver s = (True, TX_PUBKEY_DROP, sols) \<longleftrightarrow>
     (\<exists>opcode k opcode' r. reads s [(opcode, k), (opcode', r), (OP_DROP, []), (OP_CHECKSIG, [])] \<and>
        is_pubkey k \<and> is_pubkey r \<and> sols = [k, r])) \<and>
   (Solver s = (True, TX_PUBKEYHASH, sols) \<longleftrightarrow>
     (\<exists>opcode h. reads s [(OP_DUP, []), (OP_HASH160, []), (opcode, h), (OP_EQUALVERIFY, []), (OP_CHECKSIG, [])] \<and>
        length h = 20 \<and> sols = [h])) \<and>
   (Solver s = (True, TX_SCRIPTHASH, sols) \<longleftrightarrow> (\<exists>h. length h = 20 \<and> s = [0xa9, 0x14] @ h @ [0x87] \<and> sols = [h])) \<and>
   (Solver s = (True, TX_MULTISIG, sols) \<longleftrightarrow>
     (\<exists>opcode v l ks m n. reads s ((opcode, v) # l) \<and> DecodeOP_N opcode = Some m \<and>
        keys_then l ks n [(OP_CHECKMULTISIG, [])] \<and> 1 \<le> m \<and> m \<le> n \<and> length ks = n \<and>
        sols = [word_of_nat m] # ks @ [[word_of_nat n]])) \<and>
   (Solver s = (True, TX_NULL_DATA, sols) \<longleftrightarrow>
     sols = [] \<and> ((\<exists>pc. s = 0x6a # pc \<and> IsPushOnly pc) \<or>
       (\<exists>opcode d. reads s [(OP_RETURN, []), (opcode, d)] \<and> length d \<le> 1024))) \<and>
   fst (snd (Solver s)) \<notin> {TX_WITNESS_V0_SCRIPTHASH, TX_WITNESS_V0_KEYHASH, TX_WITNESS_UNKNOWN}"
proof -
  have "IsPayToScriptHash s \<and> sols = [take 20 (drop 2 s)] \<longleftrightarrow>
      (\<exists>h. length h = 20 \<and> s = [0xa9, 0x14] @ h @ [0x87] \<and> sols = [h])"
    unfolding scripthash_shape by auto
  moreover have "fst (snd (Solver s)) \<notin> {TX_WITNESS_V0_SCRIPTHASH, TX_WITNESS_V0_KEYHASH, TX_WITNESS_UNKNOWN}"
    by (cases s rule: Solver_cases) auto
  moreover have "sols = [] \<and> P \<or> match_loop s [0x6a, 0xf9] [] = Some sols \<longleftrightarrow>
      sols = [] \<and> (P \<or> (\<exists>opcode d. reads s [(OP_RETURN, []), (opcode, d)] \<and> length d \<le> 1024))" for P
    unfolding match_NULL_DATA by blast
  ultimately show ?thesis
    unfolding Solver_MULTISIG unfolding Solver_iff match_PUBKEY match_PUBKEY_DROP match_PUBKEYHASH by simp
qed

text \<open>
  C34. The destinations of an output are those its script was written for: the script of a key
  identifier or of a script identifier gives this identifier back, and the script for \<open>m\<close> of
  a list of valid keys gives the identifiers of the keys in order and the number \<open>m\<close>.
\<close>

theorem ExtractDestination_SetDestination:
  assumes "SetMultisig m keys = Some script" "1 \<le> m" "m \<le> int (length keys)"
    and "list_all (\<lambda>key. CPubKey_Set (pubkey_data key) = key \<and> IsValid key) keys"
  shows "Option.bind (SetDestination (CKeyID h)) (ExtractDestination env) = Some (CKeyID h) \<and>
    Option.bind (SetDestination (CScriptID h)) (ExtractDestination env) = Some (CScriptID h) \<and>
    ExtractDestinations env script = (True, TX_MULTISIG, map (\<lambda>key. CKeyID (GetID env key)) keys, Some m)"
proof -
  have m: "m \<le> 16" using assms(1) by (auto simp: SetMultisig_def EncodeOP_N_def split: option.splits if_splits)
  have "int (unat (word_of_int m :: byte)) = m"
    using assms(2) m unat_of_byte [of "nat m"] by simp
  moreover have "map (\<lambda>k. CKeyID (GetID env (CPubKey_Set k))) (map pubkey_data keys) = map (\<lambda>key. CKeyID (GetID env key)) keys"
    using assms(4) by (simp add: list_all_iff)
  ultimately show ?thesis
    using Solver_SetMultisig [OF assms] assms(2) unfolding SetDestination_scripts
    by (simp add: ExtractDestination_def ExtractDestinations_def Solver_keyhash Solver_scripthash
        uint160_of_le_bytes o_def)
qed

definition sample_key :: CPubKey where
  "sample_key = CPubKey (2 # replicate 32 7)"

theorem ExtractDestination_SetDestination_witness:
  "\<exists>script. SetMultisig 1 [sample_key] = Some script \<and>
    ExtractDestinations sample_env script = (True, TX_MULTISIG, [CKeyID (GetID sample_env sample_key)], Some 1)"
proof -
  have k: "CPubKey_Set (pubkey_data sample_key) = sample_key" "IsValid sample_key"
    by (simp_all add: sample_key_def CPubKey_Set_def GetLen_def IsValid_def)
  obtain script where "SetMultisig 1 [sample_key] = Some script"
    by (auto simp: SetMultisig_def EncodeOP_N_def)
  with ExtractDestination_SetDestination [of 1 "[sample_key]" script 0 sample_env] k show ?thesis by auto
qed

end
