(* ===== verification/Std_Map.thy ===== *)
theory Std_Map
  imports Prelude
begin

text \<open>
  \<^verbatim>\<open>std::map\<close> as the source uses it: the entries in the order of the keys, which is the order of
  iteration; \<^verbatim>\<open>find\<close> and \<^verbatim>\<open>count\<close>, assignment through \<^verbatim>\<open>operator[]\<close>, and \<^verbatim>\<open>erase\<close>.
\<close>

type_synonym ('k, 'v) std_map = "('k \<times> 'v) list"

definition map_find :: "'k \<Rightarrow> ('k, 'v) std_map \<Rightarrow> 'v option" where
  "map_find k m = map_of m k"

fun map_set :: "'k::linorder \<Rightarrow> 'v \<Rightarrow> ('k, 'v) std_map \<Rightarrow> ('k, 'v) std_map" where
  "map_set k v [] = [(k, v)]"
| "map_set k v ((k', v') # m) =
     (if k < k' then (k, v) # (k', v') # m
      else if k = k' then (k, v) # m
      else (k', v') # map_set k v m)"

definition map_erase :: "'k \<Rightarrow> ('k, 'v) std_map \<Rightarrow> ('k, 'v) std_map" where
  "map_erase k m = filter (\<lambda>(k', _). k' \<noteq> k) m"

text \<open>The invariant: the keys are strictly increasing.\<close>

definition map_ok :: "('k::linorder, 'v) std_map \<Rightarrow> bool" where
  "map_ok m \<longleftrightarrow> sorted_wrt (<) (map fst m)"

lemma map_ok_Nil [simp]: "map_ok []"
  by (simp add: map_ok_def)

lemma map_ok_Cons: "map_ok ((k, v) # m) \<longleftrightarrow> map_ok m \<and> (\<forall>k' \<in> fst ` set m. k < k')"
  by (auto simp: map_ok_def)

lemma map_ok_distinct: "map_ok m \<Longrightarrow> distinct (map fst m)"
  unfolding map_ok_def by (simp add: strict_sorted_iff)

lemma map_find_Nil [simp]: "map_find k [] = None"
  by (simp add: map_find_def)

lemma map_find_Cons: "map_find k ((k', v) # m) = (if k = k' then Some v else map_find k m)"
  by (simp add: map_find_def)

lemma set_map_set: "fst ` set (map_set k v m) = insert k (fst ` set m)"
proof (induction m)
  case (Cons x m)
  then show ?case by (cases x) (simp add: insert_commute)
qed simp

lemma map_find_set [simp]: "map_ok m \<Longrightarrow> map_find k (map_set k' v m) = (if k = k' then Some v else map_find k m)"
  unfolding map_find_def by (induction m) (auto simp: map_ok_Cons map_of_eq_None_iff)

lemma map_ok_set [simp]: "map_ok m \<Longrightarrow> map_ok (map_set k v m)"
proof (induction m)
  case (Cons x m)
  obtain k' v' where x: "x = (k', v')" by (cases x)
  have "\<forall>k'' \<in> fst ` set (map_set k v m). k' < k''" if "\<not> k < k'" "k \<noteq> k'"
    unfolding set_map_set using Cons.prems that by (auto simp: x map_ok_Cons)
  with Cons show ?case by (auto simp: x map_ok_Cons)
qed (simp add: map_ok_Cons)

lemma map_find_erase [simp]: "map_find k (map_erase k' m) = (if k = k' then None else map_find k m)"
  unfolding map_find_def map_erase_def by (induction m) auto

lemma map_ok_erase [simp]: "map_ok m \<Longrightarrow> map_ok (map_erase k m)"
  unfolding map_ok_def map_erase_def by (induction m) auto

lemma map_find_eq_Some: "map_ok m \<Longrightarrow> map_find k m = Some v \<longleftrightarrow> (k, v) \<in> set m"
  by (simp add: map_find_def map_ok_distinct)

lemma map_find_in_dom: "(k, v) \<in> set m \<Longrightarrow> map_find k m \<noteq> None"
  by (auto simp: map_find_def map_of_eq_None_iff intro: rev_image_eqI)

text \<open>\<^verbatim>\<open>insert\<close>, which leaves an entry that is there.\<close>

definition map_insert :: "'k::linorder \<Rightarrow> 'v \<Rightarrow> ('k, 'v) std_map \<Rightarrow> ('k, 'v) std_map" where
  "map_insert k v m = (if map_find k m = None then map_set k v m else m)"

lemma map_find_insert [simp]: "map_ok m \<Longrightarrow> map_find k (map_insert k' v m) = (case map_find k m of None \<Rightarrow> if k = k' then Some v else None | Some w \<Rightarrow> Some w)"
  by (auto simp: map_insert_def split: option.split)

lemma map_ok_insert [simp]: "map_ok m \<Longrightarrow> map_ok (map_insert k v m)"
  by (simp add: map_insert_def)

lemma map_set_not_Nil [simp]: "map_set k v m \<noteq> []"
  by (cases m) (auto split: if_splits)

text \<open>Two maps with the same content are equal, so content determines the order of iteration.\<close>

lemma map_ok_ext:
  assumes "map_ok m" "map_ok m'" "\<And>k. map_find k m = map_find k m'"
  shows "m = m'"
proof -
  have rebuild: "map (\<lambda>k. (k, the (map_find k m))) (map fst m) = m" if "map_ok m" for m :: "('a, 'b) std_map"
  proof -
    have "map (\<lambda>k. (k, the (map_find k m))) (map fst m) = map (\<lambda>x. x) m"
      unfolding map_map o_def using that by (intro map_cong refl) (auto simp: map_find_eq_Some [symmetric])
    then show ?thesis by simp
  qed
  have "set m = set m'"
    using assms by (auto simp: map_find_eq_Some [symmetric])
  then have "map fst m = map fst m'"
    using assms(1,2) unfolding map_ok_def by (intro strict_sorted_equal) simp_all
  then have "map (\<lambda>k. (k, the (map_find k m))) (map fst m) = map (\<lambda>k. (k, the (map_find k m'))) (map fst m')"
    using assms(3) by simp
  then show ?thesis using rebuild [OF assms(1)] rebuild [OF assms(2)] by simp
qed

end
