(* ===== verification/Keystore.thy ===== *)
theory Keystore
  imports Script_Solver Std_Map
begin

text \<open>
  The key stores (\<^verbatim>\<open>src/src/keystore.h\<close>, \<^verbatim>\<open>src/src/keystore.cpp\<close>): the basic store with its secrets in
  the clear, and the store that keeps them encrypted, which extends it. The operations on curve
  points and the encryption of a secret, which rest on OpenSSL, are the parameters \<open>key_env\<close>.
\<close>

section \<open>Keys\<close>

type_synonym CSecret = bytes

datatype CKey = CKey (key_secret: CSecret) (key_compressed: bool)

record CMalleableKeyView =
  vchSecretL :: CSecret
  vchPubKeyH :: CPubKey

text \<open>
  \<^item> \<open>ke_regenerate\<close>: \<^verbatim>\<open>EC_KEY_regenerate_key\<close> accepts the secret;
  \<^item> \<open>ke_PubKey\<close>: the public key of a secret, in the compressed or the long form;
  \<^item> \<open>ke_Sign\<close>: \<^verbatim>\<open>CKey::Sign\<close>, \<open>None\<close> when it fails;
  \<^item> \<open>ke_Encrypt\<close>, \<open>ke_Decrypt\<close>: \<^verbatim>\<open>crypter::EncryptSecret\<close> and \<^verbatim>\<open>crypter::DecryptSecret\<close>;
  \<^item> \<open>ke_ViewCheck\<close>, \<open>ke_KeyVariant\<close>: \<^verbatim>\<open>CheckKeyVariant\<close> of a view, and of a key with the private
    key of the variant.
\<close>

record key_env =
  ke_env :: crypto_env
  ke_regenerate :: "CSecret \<Rightarrow> bool"
  ke_PubKey :: "CSecret \<Rightarrow> bool \<Rightarrow> CPubKey"
  ke_Sign :: "CSecret \<Rightarrow> uint256 \<Rightarrow> bytes option"
  ke_Encrypt :: "bytes \<Rightarrow> CSecret \<Rightarrow> uint256 \<Rightarrow> bytes option"
  ke_Decrypt :: "bytes \<Rightarrow> bytes \<Rightarrow> uint256 \<Rightarrow> CSecret option"
  ke_ViewCheck :: "CMalleableKeyView \<Rightarrow> CPubKey \<Rightarrow> CPubKey \<Rightarrow> bool"
  ke_KeyVariant :: "CSecret \<Rightarrow> CSecret \<Rightarrow> CPubKey \<Rightarrow> CPubKey \<Rightarrow> CKey option"

text \<open>\<open>None\<close> is the exception \<^verbatim>\<open>key_error\<close>.\<close>

definition SetSecret :: "key_env \<Rightarrow> CSecret \<Rightarrow> bool \<Rightarrow> CKey option" where
  "SetSecret env vchSecret fCompressed =
     (if length vchSecret \<noteq> 32 \<or> \<not> ke_regenerate env vchSecret then None
      else Some (CKey vchSecret fCompressed))"

definition GetPubKey :: "key_env \<Rightarrow> CKey \<Rightarrow> CPubKey" where
  "GetPubKey env key = ke_PubKey env (key_secret key) (key_compressed key)"

definition key_id :: "key_env \<Rightarrow> CKey \<Rightarrow> uint160" where
  "key_id env key = GetID (ke_env env) (GetPubKey env key)"

definition pubkey_GetHash :: "key_env \<Rightarrow> CPubKey \<Rightarrow> uint256" where
  "pubkey_GetHash env pubkey = env_Hash (ke_env env) (pubkey_data pubkey)"

definition view_id :: "key_env \<Rightarrow> CMalleableKeyView \<Rightarrow> uint160" where
  "view_id env view = GetID (ke_env env) (vchPubKeyH view)"

text \<open>A look-up that may throw.\<close>

datatype 'a fetch = KeyError | NotFound | Found 'a

section \<open>The basic store\<close>

text \<open>
  Views are compared by the identifier of their second key, so a map with views as keys is one with
  these identifiers as keys; an assignment to a view that is already there keeps the view it has.
\<close>

record CBasicKeyStore =
  mapKeys :: "(uint160, CSecret \<times> bool) std_map"
  mapMalleableKeys :: "(uint160, CMalleableKeyView \<times> CSecret) std_map"
  mapScripts :: "(uint160, bytes) std_map"
  setWatchOnly :: "bytes set"

definition view_set ::
  "key_env \<Rightarrow> CMalleableKeyView \<Rightarrow> 'v \<Rightarrow> (uint160, CMalleableKeyView \<times> 'v) std_map \<Rightarrow> (uint160, CMalleableKeyView \<times> 'v) std_map" where
  "view_set env view v m =
     (let k = view_id env view in
      map_set k ((case map_find k m of None \<Rightarrow> view | Some (view', _) \<Rightarrow> view'), v) m)"

definition Basic_AddKey :: "key_env \<Rightarrow> CKey \<Rightarrow> 'a CBasicKeyStore_scheme \<Rightarrow> bool \<times> 'a CBasicKeyStore_scheme" where
  "Basic_AddKey env key ks =
     (True, ks\<lparr> mapKeys := map_set (key_id env key) (key_secret key, key_compressed key) (mapKeys ks) \<rparr>)"

definition Basic_AddMalleableKey ::
  "key_env \<Rightarrow> CMalleableKeyView \<Rightarrow> CSecret \<Rightarrow> 'a CBasicKeyStore_scheme \<Rightarrow> bool \<times> 'a CBasicKeyStore_scheme" where
  "Basic_AddMalleableKey env keyView vchSecretH ks =
     (True, ks\<lparr> mapMalleableKeys := view_set env keyView vchSecretH (mapMalleableKeys ks) \<rparr>)"

definition AddCScript :: "key_env \<Rightarrow> bytes \<Rightarrow> 'a CBasicKeyStore_scheme \<Rightarrow> bool \<times> 'a CBasicKeyStore_scheme" where
  "AddCScript env redeemScript ks =
     (if length redeemScript > MAX_SCRIPT_ELEMENT_SIZE then (False, ks)
      else (True, ks\<lparr> mapScripts := map_set (env_Hash160 (ke_env env) redeemScript) redeemScript (mapScripts ks) \<rparr>))"

definition HaveCScript :: "uint160 \<Rightarrow> 'a CBasicKeyStore_scheme \<Rightarrow> bool" where
  "HaveCScript h ks \<longleftrightarrow> map_find h (mapScripts ks) \<noteq> None"

definition GetCScript :: "uint160 \<Rightarrow> 'a CBasicKeyStore_scheme \<Rightarrow> bytes option" where
  "GetCScript h ks = map_find h (mapScripts ks)"

definition HaveWatchOnly :: "bytes \<Rightarrow> 'a CBasicKeyStore_scheme \<Rightarrow> bool" where
  "HaveWatchOnly dest ks \<longleftrightarrow> dest \<in> setWatchOnly ks"

definition HaveAnyWatchOnly :: "'a CBasicKeyStore_scheme \<Rightarrow> bool" where
  "HaveAnyWatchOnly ks \<longleftrightarrow> setWatchOnly ks \<noteq> {}"

definition RemoveWatchOnly :: "bytes \<Rightarrow> 'a CBasicKeyStore_scheme \<Rightarrow> bool \<times> 'a CBasicKeyStore_scheme" where
  "RemoveWatchOnly dest ks = (True, ks\<lparr> setWatchOnly := setWatchOnly ks - {dest} \<rparr>)"

definition Basic_HaveKey :: "uint160 \<Rightarrow> 'a CBasicKeyStore_scheme \<Rightarrow> bool" where
  "Basic_HaveKey address ks \<longleftrightarrow> map_find address (mapKeys ks) \<noteq> None"

definition Basic_GetKey :: "key_env \<Rightarrow> uint160 \<Rightarrow> 'a CBasicKeyStore_scheme \<Rightarrow> CKey fetch" where
  "Basic_GetKey env address ks =
     (case map_find address (mapKeys ks) of
        None \<Rightarrow> NotFound
      | Some (vchSecret, fCompressed) \<Rightarrow>
          (case SetSecret env vchSecret fCompressed of None \<Rightarrow> KeyError | Some key \<Rightarrow> Found key))"

definition Basic_GetKeys :: "'a CBasicKeyStore_scheme \<Rightarrow> uint160 set" where
  "Basic_GetKeys ks = set (map fst (mapKeys ks))"

text \<open>
  \<^verbatim>\<open>AddWatchOnly\<close> calls the virtual \<^verbatim>\<open>HaveKey\<close>, an argument here. \<^verbatim>\<open>CBitcoinAddress::GetKeyID\<close> leaves
  the identifier zero, its initial value, for the address of a script.
\<close>

definition AddWatchOnly ::
  "key_env \<Rightarrow> (uint160 \<Rightarrow> 'a CBasicKeyStore_scheme \<Rightarrow> bool) \<Rightarrow> bytes \<Rightarrow> 'a CBasicKeyStore_scheme \<Rightarrow> bool \<times> 'a CBasicKeyStore_scheme" where
  "AddWatchOnly env HaveKey dest ks =
     (case ExtractDestination (ke_env env) dest of
        None \<Rightarrow> (True, ks\<lparr> setWatchOnly := insert dest (setWatchOnly ks) \<rparr>)
      | Some address \<Rightarrow>
          if HaveKey (case address of CKeyID keyID \<Rightarrow> keyID | _ \<Rightarrow> 0) ks then (False, ks)
          else (True, ks\<lparr> setWatchOnly := insert dest (setWatchOnly ks) \<rparr>))"

text \<open>The first entry of a map of views that owns the variant.\<close>

definition owner_view ::
  "key_env \<Rightarrow> CPubKey \<Rightarrow> CPubKey \<Rightarrow> (uint160, CMalleableKeyView \<times> 'v) std_map \<Rightarrow> (CMalleableKeyView \<times> 'v) option" where
  "owner_view env pubKeyVariant R m =
     map_option snd (List.find (\<lambda>(_, view, _). ke_ViewCheck env view R pubKeyVariant) m)"

definition Basic_CheckOwnership :: "key_env \<Rightarrow> CPubKey \<Rightarrow> CPubKey \<Rightarrow> 'a CBasicKeyStore_scheme \<Rightarrow> CMalleableKeyView option" where
  "Basic_CheckOwnership env pubKeyVariant R ks = map_option fst (owner_view env pubKeyVariant R (mapMalleableKeys ks))"

text \<open>The result, and the private key when one is written.\<close>

definition Basic_CreatePrivKey :: "key_env \<Rightarrow> CPubKey \<Rightarrow> CPubKey \<Rightarrow> 'a CBasicKeyStore_scheme \<Rightarrow> bool \<times> CKey option" where
  "Basic_CreatePrivKey env pubKeyVariant R ks =
     (case owner_view env pubKeyVariant R (mapMalleableKeys ks) of
        None \<Rightarrow> (False, None)
      | Some (view, vchSecretH) \<Rightarrow>
          (case ke_KeyVariant env (vchSecretL view) vchSecretH R pubKeyVariant of
             None \<Rightarrow> (False, None)
           | Some key \<Rightarrow> (True, Some key)))"

text \<open>The secrets the malleable key is made of.\<close>

definition Basic_GetMalleableKey :: "key_env \<Rightarrow> CMalleableKeyView \<Rightarrow> 'a CBasicKeyStore_scheme \<Rightarrow> (CSecret \<times> CSecret) option" where
  "Basic_GetMalleableKey env keyView ks =
     map_option (\<lambda>(view, vchSecretH). (vchSecretL view, vchSecretH)) (map_find (view_id env keyView) (mapMalleableKeys ks))"

definition Basic_ListMalleableViews :: "'a CBasicKeyStore_scheme \<Rightarrow> CMalleableKeyView list" where
  "Basic_ListMalleableViews ks = map (\<lambda>(_, view, _). view) (mapMalleableKeys ks)"

section \<open>The encrypted store\<close>

record CCryptoKeyStore = CBasicKeyStore +
  mapCryptedKeys :: "(uint160, CPubKey \<times> bytes) std_map"
  mapCryptedMalleableKeys :: "(uint160, CMalleableKeyView \<times> bytes) std_map"
  vMasterKey :: bytes
  fUseCrypto :: bool

definition IsCrypted :: "CCryptoKeyStore \<Rightarrow> bool" where
  "IsCrypted ks = fUseCrypto ks"

definition IsLocked :: "CCryptoKeyStore \<Rightarrow> bool" where
  "IsLocked ks \<longleftrightarrow> IsCrypted ks \<and> vMasterKey ks = []"

definition SetCrypted :: "CCryptoKeyStore \<Rightarrow> bool \<times> CCryptoKeyStore" where
  "SetCrypted ks =
     (if fUseCrypto ks then (True, ks)
      else if mapKeys ks \<noteq> [] then (False, ks)
      else (True, ks\<lparr> fUseCrypto := True \<rparr>))"

text \<open>
  \<^verbatim>\<open>Lock\<close> also resets \<^verbatim>\<open>CWallet::fWalletUnlockMintOnly\<close> and sends a notification; neither is part of the store.
\<close>

definition Lock :: "CCryptoKeyStore \<Rightarrow> bool \<times> CCryptoKeyStore" where
  "Lock ks =
     (case SetCrypted ks of
        (False, ks) \<Rightarrow> (False, ks)
      | (True, ks) \<Rightarrow> (True, ks\<lparr> vMasterKey := [] \<rparr>))"

text \<open>
  The loop of \<^verbatim>\<open>Unlock\<close> leaves at the first key, either way; \<open>None\<close> is the exception of \<^verbatim>\<open>SetSecret\<close>.
\<close>

definition unlock_check :: "key_env \<Rightarrow> bytes \<Rightarrow> (uint160, CPubKey \<times> bytes) std_map \<Rightarrow> bool option" where
  "unlock_check env vMasterKeyIn m =
     (case m of
        [] \<Rightarrow> Some True
      | (_, vchPubKey, vchCryptedSecret) # _ \<Rightarrow>
          (case ke_Decrypt env vMasterKeyIn vchCryptedSecret (pubkey_GetHash env vchPubKey) of
             None \<Rightarrow> Some False
           | Some vchSecret \<Rightarrow>
               if length vchSecret \<noteq> 32 then Some False
               else case SetSecret env vchSecret (IsCompressed vchPubKey) of
                 None \<Rightarrow> None
               | Some key \<Rightarrow> Some (GetPubKey env key = vchPubKey)))"

definition Unlock :: "key_env \<Rightarrow> bytes \<Rightarrow> CCryptoKeyStore \<Rightarrow> bool option \<times> CCryptoKeyStore" where
  "Unlock env vMasterKeyIn ks =
     (case SetCrypted ks of
        (False, ks) \<Rightarrow> (Some False, ks)
      | (True, ks) \<Rightarrow>
          (case unlock_check env vMasterKeyIn (mapCryptedKeys ks) of
             Some True \<Rightarrow> (Some True, ks\<lparr> vMasterKey := vMasterKeyIn \<rparr>)
           | r \<Rightarrow> (r, ks)))"

definition AddCryptedKey :: "key_env \<Rightarrow> CPubKey \<Rightarrow> bytes \<Rightarrow> CCryptoKeyStore \<Rightarrow> bool \<times> CCryptoKeyStore" where
  "AddCryptedKey env vchPubKey vchCryptedSecret ks =
     (case SetCrypted ks of
        (False, ks) \<Rightarrow> (False, ks)
      | (True, ks) \<Rightarrow>
          (True, ks\<lparr> mapCryptedKeys :=
             map_set (GetID (ke_env env) vchPubKey) (vchPubKey, vchCryptedSecret) (mapCryptedKeys ks) \<rparr>))"

definition AddCryptedMalleableKey ::
  "key_env \<Rightarrow> CMalleableKeyView \<Rightarrow> bytes \<Rightarrow> CCryptoKeyStore \<Rightarrow> bool \<times> CCryptoKeyStore" where
  "AddCryptedMalleableKey env keyView vchCryptedSecretH ks =
     (case SetCrypted ks of
        (False, ks) \<Rightarrow> (False, ks)
      | (True, ks) \<Rightarrow>
          (True, ks\<lparr> mapCryptedMalleableKeys := view_set env keyView vchCryptedSecretH (mapCryptedMalleableKeys ks) \<rparr>))"

definition Crypto_AddKey :: "key_env \<Rightarrow> CKey \<Rightarrow> CCryptoKeyStore \<Rightarrow> bool \<times> CCryptoKeyStore" where
  "Crypto_AddKey env key ks =
     (if (case SetDestination (CKeyID (key_id env key)) of None \<Rightarrow> False | Some script \<Rightarrow> HaveWatchOnly script ks)
      then (False, ks)
      else if \<not> IsCrypted ks then Basic_AddKey env key ks
      else if IsLocked ks then (False, ks)
      else case ke_Encrypt env (vMasterKey ks) (key_secret key) (pubkey_GetHash env (GetPubKey env key)) of
        None \<Rightarrow> (False, ks)
      | Some vchCryptedSecret \<Rightarrow> AddCryptedKey env (GetPubKey env key) vchCryptedSecret ks)"

text \<open>\<^verbatim>\<open>keyH.SetSecret\<close> may throw: \<open>None\<close>.\<close>

definition Crypto_AddMalleableKey ::
  "key_env \<Rightarrow> CMalleableKeyView \<Rightarrow> CSecret \<Rightarrow> CCryptoKeyStore \<Rightarrow> bool option \<times> CCryptoKeyStore" where
  "Crypto_AddMalleableKey env keyView vchSecretH ks =
     (case SetCrypted ks of
        (False, ks) \<Rightarrow> apfst Some (Basic_AddMalleableKey env keyView vchSecretH ks)
      | (True, ks) \<Rightarrow>
          if IsLocked ks then (Some False, ks)
          else case SetSecret env vchSecretH True of
            None \<Rightarrow> (None, ks)
          | Some keyH \<Rightarrow>
              (case ke_Encrypt env (vMasterKey ks) vchSecretH (pubkey_GetHash env (GetPubKey env keyH)) of
                 None \<Rightarrow> (Some False, ks)
               | Some vchCryptedSecretH \<Rightarrow> apfst Some (AddCryptedMalleableKey env keyView vchCryptedSecretH ks)))"

definition Crypto_HaveKey :: "uint160 \<Rightarrow> CCryptoKeyStore \<Rightarrow> bool" where
  "Crypto_HaveKey address ks =
     (if \<not> IsCrypted ks then Basic_HaveKey address ks else map_find address (mapCryptedKeys ks) \<noteq> None)"

definition Crypto_GetKey :: "key_env \<Rightarrow> uint160 \<Rightarrow> CCryptoKeyStore \<Rightarrow> CKey fetch" where
  "Crypto_GetKey env address ks =
     (if \<not> IsCrypted ks then Basic_GetKey env address ks
      else case map_find address (mapCryptedKeys ks) of
        None \<Rightarrow> NotFound
      | Some (vchPubKey, vchCryptedSecret) \<Rightarrow>
          (case ke_Decrypt env (vMasterKey ks) vchCryptedSecret (pubkey_GetHash env vchPubKey) of
             None \<Rightarrow> NotFound
           | Some vchSecret \<Rightarrow>
               if length vchSecret \<noteq> 32 then NotFound
               else case SetSecret env vchSecret (IsCompressed vchPubKey) of
                 None \<Rightarrow> KeyError
               | Some key \<Rightarrow> Found key))"

definition Crypto_GetPubKey :: "key_env \<Rightarrow> uint160 \<Rightarrow> CCryptoKeyStore \<Rightarrow> CPubKey fetch" where
  "Crypto_GetPubKey env address ks =
     (if \<not> IsCrypted ks
      then (case Basic_GetKey env address ks of
              KeyError \<Rightarrow> KeyError | NotFound \<Rightarrow> NotFound | Found key \<Rightarrow> Found (GetPubKey env key))
      else case map_find address (mapCryptedKeys ks) of
        None \<Rightarrow> NotFound
      | Some (vchPubKey, _) \<Rightarrow> Found vchPubKey)"

definition Crypto_GetKeys :: "CCryptoKeyStore \<Rightarrow> uint160 set" where
  "Crypto_GetKeys ks = (if \<not> IsCrypted ks then Basic_GetKeys ks else set (map fst (mapCryptedKeys ks)))"

definition Crypto_CheckOwnership :: "key_env \<Rightarrow> CPubKey \<Rightarrow> CPubKey \<Rightarrow> CCryptoKeyStore \<Rightarrow> CMalleableKeyView option" where
  "Crypto_CheckOwnership env pubKeyVariant R ks =
     (if \<not> IsCrypted ks then Basic_CheckOwnership env pubKeyVariant R ks
      else map_option fst (owner_view env pubKeyVariant R (mapCryptedMalleableKeys ks)))"

text \<open>With no owner the loop ends and the code returns \<^verbatim>\<open>true\<close>, without a key.\<close>

definition Crypto_CreatePrivKey :: "key_env \<Rightarrow> CPubKey \<Rightarrow> CPubKey \<Rightarrow> CCryptoKeyStore \<Rightarrow> bool \<times> CKey option" where
  "Crypto_CreatePrivKey env pubKeyVariant R ks =
     (if \<not> IsCrypted ks then Basic_CreatePrivKey env pubKeyVariant R ks
      else case owner_view env pubKeyVariant R (mapCryptedMalleableKeys ks) of
        None \<Rightarrow> (True, None)
      | Some (view, vchCryptedSecretH) \<Rightarrow>
          (case ke_Decrypt env (vMasterKey ks) vchCryptedSecretH (pubkey_GetHash env (vchPubKeyH view)) of
             None \<Rightarrow> (False, None)
           | Some vchSecretH \<Rightarrow>
               if length vchSecretH \<noteq> 32 then (False, None)
               else case ke_KeyVariant env (vchSecretL view) vchSecretH R pubKeyVariant of
                 None \<Rightarrow> (False, None)
               | Some key \<Rightarrow> (True, Some key)))"

definition Crypto_GetMalleableKey :: "key_env \<Rightarrow> CMalleableKeyView \<Rightarrow> CCryptoKeyStore \<Rightarrow> (CSecret \<times> CSecret) option" where
  "Crypto_GetMalleableKey env keyView ks =
     (if \<not> IsCrypted ks then Basic_GetMalleableKey env keyView ks
      else case map_find (view_id env keyView) (mapCryptedMalleableKeys ks) of
        None \<Rightarrow> None
      | Some (view, vchCryptedSecretH) \<Rightarrow>
          (case ke_Decrypt env (vMasterKey ks) vchCryptedSecretH (pubkey_GetHash env (vchPubKeyH keyView)) of
             None \<Rightarrow> None
           | Some vchSecretH \<Rightarrow> if length vchSecretH \<noteq> 32 then None else Some (vchSecretL view, vchSecretH)))"

definition Crypto_ListMalleableViews :: "CCryptoKeyStore \<Rightarrow> CMalleableKeyView list" where
  "Crypto_ListMalleableViews ks =
     (if \<not> IsCrypted ks then Basic_ListMalleableViews ks
      else map (\<lambda>(_, view, _). view) (mapCryptedMalleableKeys ks))"


text \<open>The loops of \<^verbatim>\<open>EncryptKeys\<close> and \<^verbatim>\<open>DecryptKeys\<close>; \<open>None\<close> is the exception of \<^verbatim>\<open>SetSecret\<close>.\<close>

fun encrypt_keys ::
  "key_env \<Rightarrow> bytes \<Rightarrow> (uint160, CSecret \<times> bool) std_map \<Rightarrow> CCryptoKeyStore \<Rightarrow> bool option \<times> CCryptoKeyStore" where
  "encrypt_keys env vMasterKeyIn [] ks = (Some True, ks)"
| "encrypt_keys env vMasterKeyIn ((_, secret, compressed) # m) ks =
     (case SetSecret env secret compressed of
        None \<Rightarrow> (None, ks)
      | Some key \<Rightarrow>
          (case ke_Encrypt env vMasterKeyIn (key_secret key) (pubkey_GetHash env (GetPubKey env key)) of
             None \<Rightarrow> (Some False, ks)
           | Some vchCryptedSecret \<Rightarrow>
               (case AddCryptedKey env (GetPubKey env key) vchCryptedSecret ks of
                  (False, ks) \<Rightarrow> (Some False, ks)
                | (True, ks) \<Rightarrow> encrypt_keys env vMasterKeyIn m ks)))"

fun encrypt_views ::
  "key_env \<Rightarrow> bytes \<Rightarrow> (uint160, CMalleableKeyView \<times> CSecret) std_map \<Rightarrow> CCryptoKeyStore \<Rightarrow> bool \<times> CCryptoKeyStore" where
  "encrypt_views env vMasterKeyIn [] ks = (True, ks)"
| "encrypt_views env vMasterKeyIn ((_, view, secretH) # m) ks =
     (case ke_Encrypt env vMasterKeyIn secretH (pubkey_GetHash env (vchPubKeyH view)) of
        None \<Rightarrow> (False, ks)
      | Some vchCryptedSecretH \<Rightarrow>
          (case AddCryptedMalleableKey env view vchCryptedSecretH ks of
             (False, ks) \<Rightarrow> (False, ks)
           | (True, ks) \<Rightarrow> encrypt_views env vMasterKeyIn m ks))"

definition EncryptKeys :: "key_env \<Rightarrow> bytes \<Rightarrow> CCryptoKeyStore \<Rightarrow> bool option \<times> CCryptoKeyStore" where
  "EncryptKeys env vMasterKeyIn ks =
     (if mapCryptedKeys ks \<noteq> [] \<or> IsCrypted ks then (Some False, ks)
      else case encrypt_keys env vMasterKeyIn (mapKeys ks) (ks\<lparr> fUseCrypto := True \<rparr>) of
        (Some True, ks) \<Rightarrow>
          (case encrypt_views env vMasterKeyIn (mapMalleableKeys ks) (ks\<lparr> mapKeys := [] \<rparr>) of
             (False, ks) \<Rightarrow> (Some False, ks)
           | (True, ks) \<Rightarrow> (Some True, ks\<lparr> mapMalleableKeys := [] \<rparr>))
      | r \<Rightarrow> r)"

fun decrypt_keys ::
  "key_env \<Rightarrow> bytes \<Rightarrow> (uint160, CPubKey \<times> bytes) std_map \<Rightarrow> CCryptoKeyStore \<Rightarrow> bool option \<times> CCryptoKeyStore" where
  "decrypt_keys env vMasterKeyIn [] ks = (Some True, ks)"
| "decrypt_keys env vMasterKeyIn ((_, vchPubKey, vchCryptedSecret) # m) ks =
     (case ke_Decrypt env vMasterKeyIn vchCryptedSecret (pubkey_GetHash env vchPubKey) of
        None \<Rightarrow> (Some False, ks)
      | Some vchSecret \<Rightarrow>
          if length vchSecret \<noteq> 32 then (Some False, ks)
          else case SetSecret env vchSecret (IsCompressed vchPubKey) of
            None \<Rightarrow> (None, ks)
          | Some key \<Rightarrow>
              (case Basic_AddKey env key ks of
                 (False, ks) \<Rightarrow> (Some False, ks)
               | (True, ks) \<Rightarrow> decrypt_keys env vMasterKeyIn m ks))"

fun decrypt_views ::
  "key_env \<Rightarrow> bytes \<Rightarrow> (uint160, CMalleableKeyView \<times> bytes) std_map \<Rightarrow> CCryptoKeyStore \<Rightarrow> bool \<times> CCryptoKeyStore" where
  "decrypt_views env vMasterKeyIn [] ks = (True, ks)"
| "decrypt_views env vMasterKeyIn ((_, view, vchCryptedSecretH) # m) ks =
     (case ke_Decrypt env vMasterKeyIn vchCryptedSecretH (pubkey_GetHash env (vchPubKeyH view)) of
        None \<Rightarrow> (False, ks)
      | Some vchSecretH \<Rightarrow>
          if length vchSecretH \<noteq> 32 then (False, ks)
          else case Basic_AddMalleableKey env view vchSecretH ks of
            (False, ks) \<Rightarrow> (False, ks)
          | (True, ks) \<Rightarrow> decrypt_views env vMasterKeyIn m ks)"

definition DecryptKeys :: "key_env \<Rightarrow> bytes \<Rightarrow> CCryptoKeyStore \<Rightarrow> bool option \<times> CCryptoKeyStore" where
  "DecryptKeys env vMasterKeyIn ks =
     (if \<not> IsCrypted ks then (Some False, ks)
      else case decrypt_keys env vMasterKeyIn (mapCryptedKeys ks) ks of
        (Some True, ks) \<Rightarrow>
          (case decrypt_views env vMasterKeyIn (mapCryptedMalleableKeys ks) (ks\<lparr> mapCryptedKeys := [] \<rparr>) of
             (False, ks) \<Rightarrow> (Some False, ks)
           | (True, ks) \<Rightarrow> (Some True, ks\<lparr> mapCryptedMalleableKeys := [] \<rparr>))
      | r \<Rightarrow> r)"

section \<open>The store as a state machine\<close>

definition empty_store :: CCryptoKeyStore where
  "empty_store = \<lparr> mapKeys = [], mapMalleableKeys = [], mapScripts = [], setWatchOnly = {},
     mapCryptedKeys = [], mapCryptedMalleableKeys = [], vMasterKey = [], fUseCrypto = False \<rparr>"

text \<open>
  The operations of the encrypted store that change it, as labelled steps. The label of \<^verbatim>\<open>EncryptKeys\<close>
  and of \<^verbatim>\<open>DecryptKeys\<close> holds the result, \<open>None\<close> for an exception, because it decides what the store is like afterwards.
\<close>

datatype ks_op =
    OpAddKey CKey
  | OpAddMalleableKey CMalleableKeyView CSecret
  | OpAddCryptedKey CPubKey bytes
  | OpAddCryptedMalleableKey CMalleableKeyView bytes
  | OpAddCScript bytes
  | OpAddWatchOnly bytes
  | OpRemoveWatchOnly bytes
  | OpLock
  | OpUnlock bytes
  | OpEncryptKeys bytes "bool option"
  | OpDecryptKeys bytes "bool option"

inductive ks_step :: "key_env \<Rightarrow> ks_op \<Rightarrow> CCryptoKeyStore \<Rightarrow> CCryptoKeyStore \<Rightarrow> bool" for env where
  step_AddKey: "Crypto_AddKey env key ks = (b, ks') \<Longrightarrow> ks_step env (OpAddKey key) ks ks'"
| step_AddMalleableKey: "Crypto_AddMalleableKey env view secretH ks = (r, ks') \<Longrightarrow> ks_step env (OpAddMalleableKey view secretH) ks ks'"
| step_AddCryptedKey: "AddCryptedKey env pubkey c ks = (b, ks') \<Longrightarrow> ks_step env (OpAddCryptedKey pubkey c) ks ks'"
| step_AddCryptedMalleableKey:
    "AddCryptedMalleableKey env view c ks = (b, ks') \<Longrightarrow> ks_step env (OpAddCryptedMalleableKey view c) ks ks'"
| step_AddCScript: "AddCScript env script ks = (b, ks') \<Longrightarrow> ks_step env (OpAddCScript script) ks ks'"
| step_AddWatchOnly: "AddWatchOnly env Crypto_HaveKey script ks = (b, ks') \<Longrightarrow> ks_step env (OpAddWatchOnly script) ks ks'"
| step_RemoveWatchOnly: "RemoveWatchOnly script ks = (b, ks') \<Longrightarrow> ks_step env (OpRemoveWatchOnly script) ks ks'"
| step_Lock: "Lock ks = (b, ks') \<Longrightarrow> ks_step env OpLock ks ks'"
| step_Unlock: "Unlock env mk ks = (r, ks') \<Longrightarrow> ks_step env (OpUnlock mk) ks ks'"
| step_EncryptKeys: "EncryptKeys env mk ks = (r, ks') \<Longrightarrow> ks_step env (OpEncryptKeys mk r) ks ks'"
| step_DecryptKeys: "DecryptKeys env mk ks = (r, ks') \<Longrightarrow> ks_step env (OpDecryptKeys mk r) ks ks'"

inductive_cases ks_stepE: "ks_step env op ks ks'"

inductive ks_run :: "key_env \<Rightarrow> ks_op list \<Rightarrow> CCryptoKeyStore \<Rightarrow> CCryptoKeyStore \<Rightarrow> bool" for env where
  run_stop: "ks_run env [] ks ks"
| run_step: "ks_step env op ks ks1 \<Longrightarrow> ks_run env run ks1 ks2 \<Longrightarrow> ks_run env (op # run) ks ks2"

inductive_cases ks_run_ConsE: "ks_run env (op # run) ks ks'"

text \<open>
  The operations that can leave secrets in the clear in a store in encrypted mode: decrypting the keys, which does
  not leave the mode, and an encryption that does not succeed, which enters it before the first key is encrypted.
\<close>

fun leaves_clear :: "ks_op \<Rightarrow> bool" where
  "leaves_clear (OpDecryptKeys mk r) = True"
| "leaves_clear (OpEncryptKeys mk r) = (r \<noteq> Some True)"
| "leaves_clear _ = False"

text \<open>
  The invariant: an encrypted store holds no secret in the clear, a store in the clear has neither
  a master key nor encrypted secrets, and a store in the clear with malleable keys has ordinary keys.
\<close>

definition store_ok :: "CCryptoKeyStore \<Rightarrow> bool" where
  "store_ok ks \<longleftrightarrow>
     map_ok (mapKeys ks) \<and> map_ok (mapScripts ks) \<and> map_ok (mapCryptedKeys ks) \<and>
     (if fUseCrypto ks then mapKeys ks = [] \<and> mapMalleableKeys ks = []
      else vMasterKey ks = [] \<and> mapCryptedKeys ks = [] \<and> mapCryptedMalleableKeys ks = [] \<and>
        (mapMalleableKeys ks \<noteq> [] \<longrightarrow> mapKeys ks \<noteq> []))"

lemma SetCrypted_eq:
  "SetCrypted ks =
     (if \<not> fUseCrypto ks \<and> mapKeys ks \<noteq> [] then (False, ks) else (True, ks\<lparr> fUseCrypto := True \<rparr>))"
  by (cases ks) (simp add: SetCrypted_def)

lemma AddCryptedKey_ok:
  "store_ok ks \<Longrightarrow> AddCryptedKey env pubkey c ks = (b, ks') \<Longrightarrow> store_ok ks'"
  by (auto simp: AddCryptedKey_def SetCrypted_eq store_ok_def map_ok_Cons split: if_splits)

lemma AddCryptedMalleableKey_ok:
  "store_ok ks \<Longrightarrow> AddCryptedMalleableKey env view c ks = (b, ks') \<Longrightarrow> store_ok ks'"
  by (auto simp: AddCryptedMalleableKey_def SetCrypted_eq store_ok_def split: if_splits)

lemma Crypto_AddKey_ok: "store_ok ks \<Longrightarrow> Crypto_AddKey env key ks = (b, ks') \<Longrightarrow> store_ok ks'"
  unfolding Crypto_AddKey_def
  by (auto simp: IsCrypted_def Basic_AddKey_def store_ok_def AddCryptedKey_def SetCrypted_eq map_ok_Cons
      split: if_splits option.splits)

lemma Crypto_AddMalleableKey_ok:
  "store_ok ks \<Longrightarrow> Crypto_AddMalleableKey env view secretH ks = (r, ks') \<Longrightarrow> store_ok ks'"
  by (auto simp: Crypto_AddMalleableKey_def SetCrypted_eq Basic_AddMalleableKey_def AddCryptedMalleableKey_def
      apfst_def map_prod_def store_ok_def split: if_splits option.splits)

lemma lock_ok:
  "store_ok ks \<Longrightarrow> Lock ks = (b, ks') \<Longrightarrow> store_ok ks'"
  "store_ok ks \<Longrightarrow> Unlock env mk ks = (r, ks') \<Longrightarrow> store_ok ks'"
  by (auto simp: Lock_def Unlock_def SetCrypted_eq store_ok_def split: if_splits option.splits bool.splits)

lemma scripts_ok:
  fixes ks :: CCryptoKeyStore
  shows "store_ok ks \<Longrightarrow> AddCScript env script ks = (b, ks') \<Longrightarrow> store_ok ks'"
    and "store_ok ks \<Longrightarrow> AddWatchOnly env Crypto_HaveKey script ks = (b, ks') \<Longrightarrow> store_ok ks'"
    and "store_ok ks \<Longrightarrow> RemoveWatchOnly script ks = (b, ks') \<Longrightarrow> store_ok ks'"
  by (auto simp: AddCScript_def AddWatchOnly_def RemoveWatchOnly_def store_ok_def split: if_splits option.splits)

text \<open>While keys are encrypted, only the map of encrypted keys changes.\<close>

lemma AddCrypted_crypted:
  assumes "fUseCrypto ks"
  shows "AddCryptedKey env pubkey c ks =
      (True, ks\<lparr> mapCryptedKeys := map_set (GetID (ke_env env) pubkey) (pubkey, c) (mapCryptedKeys ks) \<rparr>)"
    and "AddCryptedMalleableKey env view c ks =
      (True, ks\<lparr> mapCryptedMalleableKeys := view_set env view c (mapCryptedMalleableKeys ks) \<rparr>)"
  using assms by (simp_all add: AddCryptedKey_def AddCryptedMalleableKey_def SetCrypted_def)

lemma encrypt_keys_frame:
  assumes "fUseCrypto ks" "encrypt_keys env mk m ks = (r, ks')"
  shows "\<exists>m'. ks' = ks\<lparr> mapCryptedKeys := m' \<rparr> \<and> (map_ok (mapCryptedKeys ks) \<longrightarrow> map_ok m')"
  using assms
proof (induction m arbitrary: ks)
  case Nil
  then show ?case by (intro exI [of _ "mapCryptedKeys ks"]) simp
next
  case (Cons x m)
  obtain i secret compressed where x: "x = (i, secret, compressed)" by (cases x)
  show ?case
  proof (cases "\<exists>key c. SetSecret env secret compressed = Some key \<and>
      ke_Encrypt env mk (key_secret key) (pubkey_GetHash env (GetPubKey env key)) = Some c")
    case False
    with Cons.prems x show ?thesis
      by (intro exI [of _ "mapCryptedKeys ks"]) (auto split: option.splits)
  next
    case True
    then obtain key c where k: "SetSecret env secret compressed = Some key"
        "ke_Encrypt env mk (key_secret key) (pubkey_GetHash env (GetPubKey env key)) = Some c" by blast
    then show ?thesis
      using Cons.prems x Cons.IH [of "ks\<lparr> mapCryptedKeys :=
        map_set (key_id env key) (GetPubKey env key, c) (mapCryptedKeys ks) \<rparr>"]
      by (auto simp: AddCrypted_crypted key_id_def)
  qed
qed

lemma encrypt_views_frame:
  assumes "fUseCrypto ks" "encrypt_views env mk m ks = (r, ks')"
  shows "\<exists>m'. ks' = ks\<lparr> mapCryptedMalleableKeys := m' \<rparr>"
  using assms
proof (induction m arbitrary: ks)
  case Nil
  then show ?case by (intro exI [of _ "mapCryptedMalleableKeys ks"]) simp
next
  case (Cons x m)
  obtain i view secretH where x: "x = (i, view, secretH)" by (cases x)
  show ?case
  proof (cases "ke_Encrypt env mk secretH (pubkey_GetHash env (vchPubKeyH view))")
    case None
    with Cons.prems x show ?thesis by (intro exI [of _ "mapCryptedMalleableKeys ks"]) simp
  next
    case (Some c)
    then show ?thesis
      using Cons.prems x Cons.IH [of "ks\<lparr> mapCryptedMalleableKeys := view_set env view c (mapCryptedMalleableKeys ks) \<rparr>"]
      by (auto simp: AddCrypted_crypted)
  qed
qed


lemma EncryptKeys_ok:
  assumes "store_ok ks" "EncryptKeys env mk ks = (Some True, ks')"
  shows "store_ok ks'" "fUseCrypto ks'" "mapKeys ks' = []" "mapMalleableKeys ks' = []"
proof -
  have n: "\<not> fUseCrypto ks"
    using assms(2) by (auto simp: EncryptKeys_def IsCrypted_def split: if_splits)
  obtain ks1 ks2 where e: "encrypt_keys env mk (mapKeys ks) (ks\<lparr> fUseCrypto := True \<rparr>) = (Some True, ks1)"
      "encrypt_views env mk (mapMalleableKeys ks1) (ks1\<lparr> mapKeys := [] \<rparr>) = (True, ks2)"
      "ks' = ks2\<lparr> mapMalleableKeys := [] \<rparr>"
    using assms(2) by (auto simp: EncryptKeys_def split: if_splits prod.splits option.splits bool.splits)
  obtain m1 where m1: "ks1 = ks\<lparr> fUseCrypto := True, mapCryptedKeys := m1 \<rparr>" "map_ok m1"
    using encrypt_keys_frame [OF _ e(1)] assms(1) n by (auto simp: store_ok_def)
  obtain m2 where m2: "ks2 = ks1\<lparr> mapKeys := [], mapCryptedMalleableKeys := m2 \<rparr>"
    using encrypt_views_frame [OF _ e(2)] m1(1) by auto
  show "store_ok ks'" "fUseCrypto ks'" "mapKeys ks' = []" "mapMalleableKeys ks' = []"
    using assms(1) m1(2) n unfolding e(3) m2 m1(1) by (auto simp: store_ok_def)
qed

lemma ks_step_ok: "ks_step env op ks ks' \<Longrightarrow> \<not> leaves_clear op \<Longrightarrow> store_ok ks \<Longrightarrow> store_ok ks'"
  by (induction rule: ks_step.induct)
    (auto intro: Crypto_AddKey_ok Crypto_AddMalleableKey_ok AddCryptedKey_ok AddCryptedMalleableKey_ok lock_ok
      scripts_ok EncryptKeys_ok(1))

lemma store_ok_empty: "store_ok empty_store"
  by (simp add: store_ok_def empty_store_def)

lemma ks_run_ok: "ks_run env run ks ks' \<Longrightarrow> \<not> list_ex leaves_clear run \<Longrightarrow> store_ok ks \<Longrightarrow> store_ok ks'"
  by (induction rule: ks_run.induct) (auto intro: ks_step_ok)

text \<open>No operation leaves the encrypted mode, and nothing is encrypted outside of it.\<close>

definition clear_mode_ok :: "CCryptoKeyStore \<Rightarrow> bool" where
  "clear_mode_ok ks \<longleftrightarrow> fUseCrypto ks \<or> (vMasterKey ks = [] \<and> mapCryptedKeys ks = [] \<and> mapCryptedMalleableKeys ks = [])"

lemma encrypt_keys_mode: "fUseCrypto ks \<Longrightarrow> encrypt_keys env mk m ks = (r, ks') \<Longrightarrow> fUseCrypto ks'"
  using encrypt_keys_frame by fastforce

lemma encrypt_views_mode: "fUseCrypto ks \<Longrightarrow> encrypt_views env mk m ks = (r, ks') \<Longrightarrow> fUseCrypto ks'"
  using encrypt_views_frame by fastforce

lemma decrypt_keys_mode: "decrypt_keys env mk m ks = (r, ks') \<Longrightarrow> fUseCrypto ks' = fUseCrypto ks"
  by (induction m arbitrary: ks rule: list.induct)
    (simp, fastforce simp: Basic_AddKey_def split: option.splits if_splits prod.splits bool.splits)

lemma decrypt_views_mode: "decrypt_views env mk m ks = (r, ks') \<Longrightarrow> fUseCrypto ks' = fUseCrypto ks"
  by (induction m arbitrary: ks rule: list.induct)
    (simp, fastforce simp: Basic_AddMalleableKey_def split: option.splits if_splits prod.splits bool.splits)

lemma EncryptKeys_mode:
  assumes "EncryptKeys env mk ks = (r, ks')"
  shows "ks' = ks \<or> fUseCrypto ks'"
proof (cases "mapCryptedKeys ks \<noteq> [] \<or> IsCrypted ks")
  case False
  obtain r1 ks1 where k: "encrypt_keys env mk (mapKeys ks) (ks\<lparr> fUseCrypto := True \<rparr>) = (r1, ks1)" by fastforce
  obtain r2 ks2 where v: "encrypt_views env mk (mapMalleableKeys ks1) (ks1\<lparr> mapKeys := [] \<rparr>) = (r2, ks2)" by fastforce
  have "fUseCrypto ks1" "fUseCrypto ks2" using encrypt_keys_mode [OF _ k] encrypt_views_mode [OF _ v] by simp_all
  then show ?thesis using assms False k v by (auto simp: EncryptKeys_def split: option.splits bool.splits)
qed (use assms in \<open>auto simp: EncryptKeys_def\<close>)

lemma DecryptKeys_mode:
  assumes "DecryptKeys env mk ks = (r, ks')"
  shows "fUseCrypto ks' = fUseCrypto ks" "\<not> fUseCrypto ks \<Longrightarrow> ks' = ks"
proof -
  show "\<not> fUseCrypto ks \<Longrightarrow> ks' = ks" using assms by (simp add: DecryptKeys_def IsCrypted_def)
  obtain r1 ks1 where k: "decrypt_keys env mk (mapCryptedKeys ks) ks = (r1, ks1)" by fastforce
  obtain r2 ks2 where v: "decrypt_views env mk (mapCryptedMalleableKeys ks1) (ks1\<lparr> mapCryptedKeys := [] \<rparr>) = (r2, ks2)" by fastforce
  show "fUseCrypto ks' = fUseCrypto ks"
    using assms k v decrypt_keys_mode [OF k] decrypt_views_mode [OF v]
    by (auto simp: DecryptKeys_def split: if_splits option.splits bool.splits)
qed

lemma ks_step_mode: "ks_step env op ks ks' \<Longrightarrow> clear_mode_ok ks \<Longrightarrow> clear_mode_ok ks'"
proof (induction rule: ks_step.induct)
  case (step_EncryptKeys mk ks r ks')
  then show ?case using EncryptKeys_mode [OF step_EncryptKeys(1)] by (auto simp: clear_mode_ok_def)
next
  case (step_DecryptKeys mk ks r ks')
  then show ?case using DecryptKeys_mode [OF step_DecryptKeys(1)] by (auto simp: clear_mode_ok_def)
qed (auto simp: clear_mode_ok_def Crypto_AddKey_def Crypto_AddMalleableKey_def AddCryptedKey_def AddCryptedMalleableKey_def SetCrypted_eq
    IsCrypted_def Basic_AddKey_def Basic_AddMalleableKey_def AddCScript_def AddWatchOnly_def RemoveWatchOnly_def Lock_def Unlock_def
    apfst_def map_prod_def split: if_splits option.splits bool.splits)

lemma ks_run_mode: "ks_run env run ks ks' \<Longrightarrow> clear_mode_ok ks \<Longrightarrow> clear_mode_ok ks'"
  by (induction rule: ks_run.induct) (auto intro: ks_step_mode)

lemma clear_mode_empty: "clear_mode_ok empty_store"
  by (simp add: clear_mode_ok_def empty_store_def)

section \<open>Encrypting and reading back\<close>

text \<open>
  What is relied on: a secret encrypted under a master key is decrypted to itself with it, and the
  form of a public key is that of its length.
\<close>

definition crypter_law :: "key_env \<Rightarrow> bytes \<Rightarrow> bool" where
  "crypter_law env mk \<longleftrightarrow>
     (\<forall>s iv. length s = 32 \<longrightarrow> (\<exists>c. ke_Encrypt env mk s iv = Some c \<and> ke_Decrypt env mk c iv = Some s)) \<and>
     (\<forall>s b. length s = 32 \<longrightarrow> IsCompressed (ke_PubKey env s b) = b)"

lemma crypter_lawD:
  assumes "crypter_law env mk" "length s = 32"
  obtains c where "ke_Encrypt env mk s iv = Some c" "ke_Decrypt env mk c iv = Some s"
  using assms unfolding crypter_law_def by blast

definition entry_ok :: "key_env \<Rightarrow> uint160 \<times> CSecret \<times> bool \<Rightarrow> bool" where
  "entry_ok env = (\<lambda>(i, s, b). length s = 32 \<and> ke_regenerate env s \<and> GetID (ke_env env) (ke_PubKey env s b) = i)"

lemma Basic_AddKey_entry_ok:
  "list_all (entry_ok env) (mapKeys ks) \<Longrightarrow> SetSecret env secret b = Some key \<Longrightarrow> Basic_AddKey env key ks = (r, ks') \<Longrightarrow>
    list_all (entry_ok env) (mapKeys ks')"
proof -
  assume a: "list_all (entry_ok env) (mapKeys ks)" "SetSecret env secret b = Some key" "Basic_AddKey env key ks = (r, ks')"
  have "list_all P m \<Longrightarrow> P (k, v) \<Longrightarrow> list_all P (map_set k v m)" for P k v and m :: "(uint160, CSecret \<times> bool) std_map"
    by (induction m) auto
  with a show ?thesis
    by (auto simp: Basic_AddKey_def SetSecret_def entry_ok_def key_id_def GetPubKey_def split: if_splits)
qed

definition crypted_entry :: "key_env \<Rightarrow> bytes \<Rightarrow> CSecret \<times> bool \<Rightarrow> CPubKey \<times> bytes" where
  "crypted_entry env mk = (\<lambda>(s, b).
     (ke_PubKey env s b, the (ke_Encrypt env mk s (pubkey_GetHash env (ke_PubKey env s b)))))"

lemma encrypt_keys_all:
  assumes "crypter_law env mk" "fUseCrypto ks" "map_ok (mapCryptedKeys ks)" "distinct (map fst m)" "list_all (entry_ok env) m"
  shows "\<exists>m'. encrypt_keys env mk m ks = (Some True, ks\<lparr> mapCryptedKeys := m' \<rparr>) \<and> map_ok m' \<and>
    (\<forall>i. map_find i m' = (case map_find i m of None \<Rightarrow> map_find i (mapCryptedKeys ks) | Some e \<Rightarrow> Some (crypted_entry env mk e)))"
  using assms(2-5)
proof (induction m arbitrary: ks)
  case Nil
  then show ?case by (intro exI [of _ "mapCryptedKeys ks"]) simp
next
  case (Cons x m)
  obtain i s b where x: "x = (i, s, b)" by (cases x)
  have s: "SetSecret env s b = Some (CKey s b)" "GetID (ke_env env) (ke_PubKey env s b) = i" "length s = 32"
    using Cons.prems(4) by (simp_all add: x entry_ok_def SetSecret_def)
  obtain c where c: "ke_Encrypt env mk s (pubkey_GetHash env (ke_PubKey env s b)) = Some c"
    by (rule crypter_lawD [OF assms(1) s(3)])
  let ?ks = "ks\<lparr> mapCryptedKeys := map_set i (ke_PubKey env s b, c) (mapCryptedKeys ks) \<rparr>"
  obtain m' where m': "encrypt_keys env mk m ?ks = (Some True, ?ks\<lparr> mapCryptedKeys := m' \<rparr>)" "map_ok m'"
      "\<forall>i. map_find i m' = (case map_find i m of None \<Rightarrow> map_find i (mapCryptedKeys ?ks) | Some e \<Rightarrow> Some (crypted_entry env mk e))"
    using Cons.IH [of ?ks] Cons.prems by auto
  have "map_find i m = None" using Cons.prems(3) by (simp add: x map_find_def map_of_eq_None_iff)
  then show ?case
    using m' s c Cons.prems(1,2)
    by (intro exI [of _ m']) (auto simp: x AddCrypted_crypted GetPubKey_def map_find_Cons crypted_entry_def split: option.splits)
qed


lemma encrypt_views_all:
  assumes "crypter_law env mk" "fUseCrypto ks" "list_all (\<lambda>(_, _, s). length s = 32) m"
  shows "\<exists>m'. encrypt_views env mk m ks = (True, ks\<lparr> mapCryptedMalleableKeys := m' \<rparr>)"
  using assms(2,3)
proof (induction m arbitrary: ks)
  case Nil
  then show ?case by (intro exI [of _ "mapCryptedMalleableKeys ks"]) simp
next
  case (Cons x m)
  obtain i view s where x: "x = (i, view, s)" by (cases x)
  have s: "length s = 32" using Cons.prems(2) by (simp add: x)
  obtain c where c: "ke_Encrypt env mk s (pubkey_GetHash env (vchPubKeyH view)) = Some c"
    by (rule crypter_lawD [OF assms(1) s])
  show ?case
    using Cons.IH [of "ks\<lparr> mapCryptedMalleableKeys := view_set env view c (mapCryptedMalleableKeys ks) \<rparr>"] Cons.prems c
    by (auto simp: x AddCrypted_crypted)
qed

lemma Crypto_GetKey_crypted_entry:
  assumes "crypter_law env mk" "fUseCrypto ks" "vMasterKey ks = mk" "entry_ok env (i, s, b)"
    and "map_find i (mapCryptedKeys ks) = Some (crypted_entry env mk (s, b))"
  shows "Crypto_GetKey env i ks = Found (CKey s b)"
proof -
  have s: "length s = 32" "SetSecret env s b = Some (CKey s b)" using assms(4) by (simp_all add: entry_ok_def SetSecret_def)
  obtain c where "ke_Encrypt env mk s (pubkey_GetHash env (ke_PubKey env s b)) = Some c"
      "ke_Decrypt env mk c (pubkey_GetHash env (ke_PubKey env s b)) = Some s"
    by (rule crypter_lawD [OF assms(1) s(1)])
  moreover have "IsCompressed (ke_PubKey env s b) = b" using assms(1) s(1) by (simp add: crypter_law_def)
  ultimately show ?thesis using assms s by (simp add: Crypto_GetKey_def IsCrypted_def crypted_entry_def)
qed

lemma unlock_check_entry:
  assumes "crypter_law env mk" "entry_ok env (i, s, b)"
  shows "unlock_check env mk ((i, crypted_entry env mk (s, b)) # m) = Some True"
proof -
  have s: "length s = 32" "SetSecret env s b = Some (CKey s b)" using assms(2) by (simp_all add: entry_ok_def SetSecret_def)
  obtain c where "ke_Encrypt env mk s (pubkey_GetHash env (ke_PubKey env s b)) = Some c"
      "ke_Decrypt env mk c (pubkey_GetHash env (ke_PubKey env s b)) = Some s"
    by (rule crypter_lawD [OF assms(1) s(1)])
  moreover have "IsCompressed (ke_PubKey env s b) = b" using assms(1) s(1) by (simp add: crypter_law_def)
  ultimately show ?thesis using s by (simp add: unlock_check_def crypted_entry_def GetPubKey_def)
qed

lemma unlock_check_all:
  assumes "crypter_law env mk" "map_ok m'" "list_all (entry_ok env) m"
    and "\<forall>i. map_find i m' = map_option (crypted_entry env mk) (map_find i m)"
  shows "unlock_check env mk m' = Some True"
proof (cases m')
  case (Cons x r)
  obtain i e where x: "x = (i, e)" by (cases x)
  then have "map_find i m' = Some e" by (simp add: Cons map_find_def)
  with assms(4) obtain s b where "map_find i m = Some (s, b)" "e = crypted_entry env mk (s, b)" by auto
  moreover from this have "entry_ok env (i, s, b)"
    using assms(3) by (auto simp: list_all_iff map_find_def dest: map_of_SomeD)
  ultimately show ?thesis using unlock_check_entry [OF assms(1)] by (simp add: Cons x)
qed (simp add: unlock_check_def)

section \<open>Properties\<close>

text \<open>
  C35. Whatever operations are applied to a new store, with whatever arguments and results, a store in
  the clear has neither a master key nor encrypted secrets. A store in encrypted mode holds no secret in the clear
  as long as no operation was a \<^verbatim>\<open>DecryptKeys\<close> or an \<^verbatim>\<open>EncryptKeys\<close> that did not succeed. Both exceptions are needed:
  a decryption fills the maps of clear keys without leaving the mode (C36), and an encryption sets the mode first, so that the keys are
  still in the clear when it stops. In both places the wallet (\<^verbatim>\<open>wallet.cpp\<close>, \<^verbatim>\<open>EncryptWallet\<close> and \<^verbatim>\<open>DecryptWallet\<close>) leaves the
  process when the operation returns \<^verbatim>\<open>false\<close>, but goes on after a decryption that succeeds.
\<close>

theorem keystore_no_clear_secret:
  assumes "ks_run env run empty_store ks"
  shows "(IsCrypted ks \<and> (mapKeys ks \<noteq> [] \<or> mapMalleableKeys ks \<noteq> []) \<longrightarrow> list_ex leaves_clear run) \<and>
    (\<not> IsCrypted ks \<longrightarrow> vMasterKey ks = [] \<and> mapCryptedKeys ks = [] \<and> mapCryptedMalleableKeys ks = [])"
  using ks_run_ok [OF assms _ store_ok_empty] ks_run_mode [OF assms clear_mode_empty]
  by (cases "list_ex leaves_clear run") (auto simp: store_ok_def clear_mode_ok_def IsCrypted_def)

text \<open>The first encryption that fails: the mode is set, and the keys are in the clear.\<close>

lemma EncryptKeys_fails_clear:
  assumes "\<not> IsCrypted ks" "mapCryptedKeys ks = []" "mapKeys ks = (i, secret, compressed) # m"
    and "SetSecret env secret compressed = Some key"
    and "ke_Encrypt env mk (key_secret key) (pubkey_GetHash env (GetPubKey env key)) = None"
  shows "EncryptKeys env mk ks = (Some False, ks\<lparr> fUseCrypto := True \<rparr>)"
  using assms by (simp add: EncryptKeys_def)

text \<open>
  Encrypting a store keeps its keys: encryption succeeds, leaves no secret in the clear, the
  locked store still knows which keys it has, and once it is unlocked with the same master key
  every look-up finds the key it found before.
\<close>

theorem EncryptKeys_keeps_keys:
  assumes "crypter_law env mk" "store_ok ks" "\<not> IsCrypted ks" "list_all (entry_ok env) (mapKeys ks)"
    and "list_all (\<lambda>(_, _, s). length s = 32) (mapMalleableKeys ks)"
  shows "\<exists>ks1 ks2 ks3. EncryptKeys env mk ks = (Some True, ks1) \<and> Lock ks1 = (True, ks2) \<and>
    Unlock env mk ks2 = (Some True, ks3) \<and> mapKeys ks1 = [] \<and>
    (\<forall>i. Crypto_HaveKey i ks2 = Basic_HaveKey i ks \<and> Crypto_GetKey env i ks3 = Basic_GetKey env i ks)"
proof -
  have ok: "map_ok (mapKeys ks)" "mapCryptedKeys ks = []" "\<not> fUseCrypto ks"
    using assms(2,3) by (auto simp: store_ok_def IsCrypted_def)
  obtain m where m: "encrypt_keys env mk (mapKeys ks) (ks\<lparr> fUseCrypto := True \<rparr>) =
      (Some True, ks\<lparr> fUseCrypto := True, mapCryptedKeys := m \<rparr>)" "map_ok m"
      "\<forall>i. map_find i m = map_option (crypted_entry env mk) (map_find i (mapKeys ks))"
    using encrypt_keys_all [OF assms(1), of "ks\<lparr> fUseCrypto := True \<rparr>" "mapKeys ks"] ok assms(4)
    by (auto simp: map_ok_distinct option.case_eq_if map_option_case)
  let ?k = "ks\<lparr> fUseCrypto := True, mapCryptedKeys := m, mapKeys := [] \<rparr>"
  obtain m2 where m2: "encrypt_views env mk (mapMalleableKeys ks) ?k = (True, ?k\<lparr> mapCryptedMalleableKeys := m2 \<rparr>)"
    using encrypt_views_all [OF assms(1), of ?k "mapMalleableKeys ks"] assms(5) by auto
  let ?k1 = "?k\<lparr> mapCryptedMalleableKeys := m2, mapMalleableKeys := [] \<rparr>"
  have e: "EncryptKeys env mk ks = (Some True, ?k1)"
    using m(1) m2 ok by (simp add: EncryptKeys_def IsCrypted_def)
  have u: "Unlock env mk (?k1\<lparr> vMasterKey := [] \<rparr>) = (Some True, ?k1\<lparr> vMasterKey := mk \<rparr>)"
    using unlock_check_all [OF assms(1) m(2) assms(4) m(3)] by (simp add: Unlock_def SetCrypted_def)
  have "Crypto_GetKey env i (?k1\<lparr> vMasterKey := mk \<rparr>) = Basic_GetKey env i ks" for i
  proof (cases "map_find i (mapKeys ks)")
    case None
    then show ?thesis using m(3) by (simp add: Crypto_GetKey_def IsCrypted_def Basic_GetKey_def)
  next
    case (Some sb)
    obtain s b where sb: "sb = (s, b)" by (cases sb)
    have "entry_ok env (i, s, b)"
      using Some assms(4) by (auto simp: sb list_all_iff map_find_def dest: map_of_SomeD)
    then show ?thesis
      using Crypto_GetKey_crypted_entry [OF assms(1), of "?k1\<lparr> vMasterKey := mk \<rparr>" i s b] Some m(3)
      by (simp add: sb Basic_GetKey_def SetSecret_def entry_ok_def)
  qed
  then show ?thesis
    using e u m(3)
    by (intro exI [of _ ?k1] exI [of _ "?k1\<lparr> vMasterKey := [] \<rparr>"] exI [of _ "?k1\<lparr> vMasterKey := mk \<rparr>"])
      (auto simp: Lock_def SetCrypted_def Crypto_HaveKey_def IsCrypted_def Basic_HaveKey_def)
qed


definition sample_kenv :: key_env where
  "sample_kenv = \<lparr> ke_env = sample_env, ke_regenerate = (\<lambda>s. True),
     ke_PubKey = (\<lambda>s b. CPubKey (if b then 2 # s else 4 # s @ s)), ke_Sign = (\<lambda>s h. Some [7]),
     ke_Encrypt = (\<lambda>mk s iv. Some s), ke_Decrypt = (\<lambda>mk c iv. Some c),
     ke_ViewCheck = (\<lambda>view R P. False), ke_KeyVariant = (\<lambda>l h R P. None) \<rparr>"

definition sample_secret :: CSecret where
  "sample_secret = replicate 32 9"

definition sample_store :: CCryptoKeyStore where
  "sample_store = snd (Crypto_AddKey sample_kenv (CKey sample_secret True) empty_store)"

lemma sample_store_eq:
  "sample_store = empty_store\<lparr> mapKeys := [(key_id sample_kenv (CKey sample_secret True), sample_secret, True)] \<rparr>"
  by (simp add: sample_store_def Crypto_AddKey_def HaveWatchOnly_def empty_store_def IsCrypted_def Basic_AddKey_def)

lemma crypter_law_sample: "crypter_law sample_kenv mk"
  by (simp add: crypter_law_def sample_kenv_def IsCompressed_def)

theorem keystore_no_clear_secret_witness:
  "\<exists>ks. ks_run sample_kenv [OpAddKey (CKey sample_secret True), OpEncryptKeys [1] (Some True), OpLock] empty_store ks \<and>
     IsCrypted ks \<and> mapCryptedKeys ks \<noteq> [] \<and> mapKeys ks = [] \<and> mapMalleableKeys ks = []"
proof -
  define ks1 where "ks1 = snd (EncryptKeys sample_kenv [1] sample_store)"
  have e: "EncryptKeys sample_kenv [1] sample_store = (Some True, ks1)" "IsCrypted ks1" "mapCryptedKeys ks1 \<noteq> []"
    by (simp_all add: ks1_def sample_store_eq EncryptKeys_def empty_store_def IsCrypted_def SetSecret_def sample_kenv_def sample_secret_def
        AddCryptedKey_def SetCrypted_def)
  have r: "ks_run sample_kenv [OpAddKey (CKey sample_secret True), OpEncryptKeys [1] (Some True), OpLock] empty_store (snd (Lock ks1))"
  proof (intro run_step)
    show "ks_step sample_kenv (OpAddKey (CKey sample_secret True)) empty_store sample_store"
      by (rule step_AddKey [of _ _ _ "fst (Crypto_AddKey sample_kenv (CKey sample_secret True) empty_store)"]) (simp add: sample_store_def)
    show "ks_step sample_kenv (OpEncryptKeys [1] (Some True)) sample_store ks1" using e(1) by (rule step_EncryptKeys)
    show "ks_step sample_kenv OpLock ks1 (snd (Lock ks1))" by (rule step_Lock [of _ "fst (Lock ks1)"]) simp
  qed (rule run_stop)
  have "IsCrypted (snd (Lock ks1))" "mapCryptedKeys (snd (Lock ks1)) \<noteq> []"
    using e(2,3) by (simp_all add: Lock_def SetCrypted_def IsCrypted_def)
  with keystore_no_clear_secret [OF r] r show ?thesis by auto
qed

theorem EncryptKeys_keeps_keys_witness:
  "\<exists>ks1 ks2 ks3. EncryptKeys sample_kenv [1] sample_store = (Some True, ks1) \<and> Lock ks1 = (True, ks2) \<and>
    Unlock sample_kenv [1] ks2 = (Some True, ks3) \<and> mapKeys ks1 = [] \<and>
    Crypto_GetKey sample_kenv (key_id sample_kenv (CKey sample_secret True)) ks3 = Found (CKey sample_secret True)"
proof -
  have o: "store_ok sample_store" "\<not> IsCrypted sample_store" "list_all (\<lambda>(_, _, s). length s = 32) (mapMalleableKeys sample_store)"
    by (simp_all add: sample_store_eq store_ok_def empty_store_def IsCrypted_def map_ok_Cons)
  have k: "list_all (entry_ok sample_kenv) (mapKeys sample_store)"
    by (simp add: sample_store_eq entry_ok_def key_id_def GetPubKey_def sample_kenv_def sample_secret_def)
  have g: "Basic_GetKey sample_kenv (key_id sample_kenv (CKey sample_secret True)) sample_store = Found (CKey sample_secret True)"
    by (simp add: sample_store_eq Basic_GetKey_def map_find_Cons SetSecret_def sample_kenv_def sample_secret_def)
  show ?thesis
    using EncryptKeys_keeps_keys [OF crypter_law_sample o(1,2) k o(3), of "[1]"] g by metis
qed

lemma decrypt_keys_frame:
  assumes "decrypt_keys env mk m ks = (Some True, ks')"
  shows "fUseCrypto ks' = fUseCrypto ks \<and> (m \<noteq> [] \<or> mapKeys ks \<noteq> [] \<longrightarrow> mapKeys ks' \<noteq> [])"
  using assms
proof (induction m arbitrary: ks)
  case (Cons x m)
  obtain i p c where x: "x = (i, p, c)" by (cases x)
  obtain s key where k: "ke_Decrypt env mk c (pubkey_GetHash env p) = Some s" "length s = 32"
      "SetSecret env s (IsCompressed p) = Some key"
    using Cons.prems by (auto simp: x split: option.splits if_splits)
  show ?case
    using Cons.IH [of "snd (Basic_AddKey env key ks)"] Cons.prems k by (simp add: x Basic_AddKey_def)
qed simp

lemma decrypt_views_frame:
  assumes "decrypt_views env mk m ks = (True, ks')"
  shows "fUseCrypto ks' = fUseCrypto ks \<and> mapKeys ks' = mapKeys ks \<and> mapCryptedKeys ks' = mapCryptedKeys ks"
  using assms
proof (induction m arbitrary: ks)
  case (Cons x m)
  obtain i view c where x: "x = (i, view, c)" by (cases x)
  obtain s where k: "ke_Decrypt env mk c (pubkey_GetHash env (vchPubKeyH view)) = Some s" "length s = 32"
    using Cons.prems by (auto simp: x split: option.splits if_splits)
  show ?case
    using Cons.IH [of "snd (Basic_AddMalleableKey env view s ks)"] Cons.prems k by (simp add: x Basic_AddMalleableKey_def)
qed simp

text \<open>
  C36. \<^verbatim>\<open>DecryptKeys\<close> does not leave the encrypted mode: after it succeeds the secrets are in the clear
  in the store, against the rule stated with its fields, but no look-up finds a key any more.
\<close>

theorem DecryptKeys_hides_keys:
  assumes "DecryptKeys env mk ks = (Some True, ks')"
  shows "IsCrypted ks' \<and> (mapCryptedKeys ks \<noteq> [] \<longrightarrow> mapKeys ks' \<noteq> []) \<and>
    (\<forall>i. \<not> Crypto_HaveKey i ks' \<and> Crypto_GetKey env i ks' = NotFound)"
proof -
  obtain ks1 ks2 where e: "fUseCrypto ks" "decrypt_keys env mk (mapCryptedKeys ks) ks = (Some True, ks1)"
      "decrypt_views env mk (mapCryptedMalleableKeys ks1) (ks1\<lparr> mapCryptedKeys := [] \<rparr>) = (True, ks2)"
      "ks' = ks2\<lparr> mapCryptedMalleableKeys := [] \<rparr>"
    using assms by (auto simp: DecryptKeys_def IsCrypted_def split: if_splits prod.splits option.splits bool.splits)
  show ?thesis
    using decrypt_keys_frame [OF e(2)] decrypt_views_frame [OF e(3)] e(1)
    by (auto simp: e(4) IsCrypted_def Crypto_HaveKey_def Crypto_GetKey_def)
qed

theorem DecryptKeys_hides_keys_witness:
  "\<exists>ks ks'. DecryptKeys sample_kenv [1] ks = (Some True, ks') \<and> mapKeys ks' \<noteq> [] \<and>
    Crypto_GetKey sample_kenv (key_id sample_kenv (CKey sample_secret True)) ks' = NotFound"
proof -
  let ?ks = "empty_store\<lparr> fUseCrypto := True, mapCryptedKeys := [(0, CPubKey (2 # sample_secret), sample_secret)] \<rparr>"
  have "DecryptKeys sample_kenv [1] ?ks = (Some True, snd (DecryptKeys sample_kenv [1] ?ks))"
    by (simp add: DecryptKeys_def IsCrypted_def sample_kenv_def sample_secret_def SetSecret_def Basic_AddKey_def empty_store_def)
  from DecryptKeys_hides_keys [OF this] this show ?thesis by auto
qed

text \<open>
  Adding a malleable key to a store that has no keys and was never encrypted fails, and leaves
  the store in encrypted mode without a master key, so that no key can be added to it either.
\<close>

theorem AddMalleableKey_locks_empty_store:
  "Crypto_AddMalleableKey env view secretH empty_store = (Some False, empty_store\<lparr> fUseCrypto := True \<rparr>) \<and>
   Crypto_AddKey env key (empty_store\<lparr> fUseCrypto := True \<rparr>) = (False, empty_store\<lparr> fUseCrypto := True \<rparr>)"
  by (simp add: Crypto_AddMalleableKey_def SetCrypted_def empty_store_def IsLocked_def IsCrypted_def Crypto_AddKey_def
      HaveWatchOnly_def)

end
