(* ===== verification/Script_Sign.thy ===== *)
theory Script_Sign
  imports Keystore
begin

text \<open>
  Signing (\<^verbatim>\<open>src/src/script/script.cpp\<close>): which outputs are ours, the input script that spends an
  output, and the combination of two partly signed inputs. The key store is the interface
  \<^verbatim>\<open>CKeyStore\<close>: its virtual functions are the fields of a record, which the two stores provide.
\<close>

section \<open>The interface of key stores\<close>

record CKeyStore =
  ks_HaveKey :: "uint160 \<Rightarrow> bool"
  ks_GetKey :: "uint160 \<Rightarrow> CKey fetch"
  ks_GetPubKey :: "uint160 \<Rightarrow> CPubKey fetch"
  ks_GetCScript :: "uint160 \<Rightarrow> bytes option"
  ks_HaveWatchOnly :: "bytes \<Rightarrow> bool"
  ks_CheckOwnership :: "CPubKey \<Rightarrow> CPubKey \<Rightarrow> bool"
  ks_CreatePrivKey :: "CPubKey \<Rightarrow> CPubKey \<Rightarrow> bool \<times> CKey option"

definition basic_store :: "key_env \<Rightarrow> 'a CBasicKeyStore_scheme \<Rightarrow> CKeyStore" where
  "basic_store kenv ks =
     \<lparr> ks_HaveKey = (\<lambda>address. Basic_HaveKey address ks),
       ks_GetKey = (\<lambda>address. Basic_GetKey kenv address ks),
       ks_GetPubKey = (\<lambda>address. case Basic_GetKey kenv address ks of
           KeyError \<Rightarrow> KeyError | NotFound \<Rightarrow> NotFound | Found key \<Rightarrow> Found (GetPubKey kenv key)),
       ks_GetCScript = (\<lambda>h. GetCScript h ks),
       ks_HaveWatchOnly = (\<lambda>dest. HaveWatchOnly dest ks),
       ks_CheckOwnership = (\<lambda>p R. Basic_CheckOwnership kenv p R ks \<noteq> None),
       ks_CreatePrivKey = (\<lambda>p R. Basic_CreatePrivKey kenv p R ks) \<rparr>"

definition crypto_store :: "key_env \<Rightarrow> CCryptoKeyStore \<Rightarrow> CKeyStore" where
  "crypto_store kenv ks =
     \<lparr> ks_HaveKey = (\<lambda>address. Crypto_HaveKey address ks),
       ks_GetKey = (\<lambda>address. Crypto_GetKey kenv address ks),
       ks_GetPubKey = (\<lambda>address. Crypto_GetPubKey kenv address ks),
       ks_GetCScript = (\<lambda>h. GetCScript h ks),
       ks_HaveWatchOnly = (\<lambda>dest. HaveWatchOnly dest ks),
       ks_CheckOwnership = (\<lambda>p R. Crypto_CheckOwnership kenv p R ks \<noteq> None),
       ks_CreatePrivKey = (\<lambda>p R. Crypto_CreatePrivKey kenv p R ks) \<rparr>"

section \<open>Which outputs are ours\<close>

datatype isminetype = MINE_NO | MINE_WATCH_ONLY | MINE_SPENDABLE

definition HaveKeys :: "key_env \<Rightarrow> valtype list \<Rightarrow> CKeyStore \<Rightarrow> nat" where
  "HaveKeys kenv pubkeys store =
     length (filter (\<lambda>pubkey. ks_HaveKey store (GetID (ke_env kenv) (CPubKey_Set pubkey))) pubkeys)"

text \<open>
  \<^verbatim>\<open>IsMine\<close> calls itself on the script behind a script hash, and so on as long as the store knows a
  script that is itself a script hash; \<open>n\<close> bounds the depth, \<open>None\<close> says that it was not enough.
\<close>

fun IsMine :: "nat \<Rightarrow> key_env \<Rightarrow> CKeyStore \<Rightarrow> bytes \<Rightarrow> isminetype option" where
  "IsMine 0 kenv store scriptPubKey = None"
| "IsMine (Suc n) kenv store scriptPubKey =
     (let watch = Some (if ks_HaveWatchOnly store scriptPubKey then MINE_WATCH_ONLY else MINE_NO) in
      case Solver scriptPubKey of
        (False, _, _) \<Rightarrow> watch
      | (True, whichType, vSolutions) \<Rightarrow>
          (case whichType of
             TX_PUBKEY \<Rightarrow>
               if ks_HaveKey store (GetID (ke_env kenv) (CPubKey_Set (vSolutions ! 0))) then Some MINE_SPENDABLE else watch
           | TX_PUBKEY_DROP \<Rightarrow>
               if ks_CheckOwnership store (CPubKey_Set (vSolutions ! 0)) (CPubKey_Set (vSolutions ! 1))
               then Some MINE_SPENDABLE else watch
           | TX_PUBKEYHASH \<Rightarrow>
               if ks_HaveKey store (uint160_of (vSolutions ! 0)) then Some MINE_SPENDABLE else watch
           | TX_SCRIPTHASH \<Rightarrow>
               (case ks_GetCScript store (uint160_of (vSolutions ! 0)) of
                  None \<Rightarrow> watch
                | Some subscript \<Rightarrow>
                    (case IsMine n kenv store subscript of
                       None \<Rightarrow> None
                     | Some ret \<Rightarrow> if ret = MINE_SPENDABLE then Some ret else watch))
           | TX_MULTISIG \<Rightarrow>
               (let keys = butlast (tl vSolutions) in
                if HaveKeys kenv keys store = length keys then Some MINE_SPENDABLE else watch)
           | _ \<Rightarrow> watch))"

text \<open>The visitor of \<^verbatim>\<open>ExtractAffectedKeys\<close>, with the depth bounded in the same way.\<close>

fun affected_keys :: "nat \<Rightarrow> key_env \<Rightarrow> CKeyStore \<Rightarrow> bytes \<Rightarrow> uint160 list option" where
  "affected_keys 0 kenv store script = None"
| "affected_keys (Suc n) kenv store script =
     (case ExtractDestinations (ke_env kenv) script of
        (False, _, _, _) \<Rightarrow> Some []
      | (True, _, vDest, _) \<Rightarrow>
          map_option concat (those (map (\<lambda>dest.
            case dest of
              CKeyID keyId \<Rightarrow> Some (if ks_HaveKey store keyId then [keyId] else [])
            | CScriptID scriptId \<Rightarrow>
                (case ks_GetCScript store scriptId of
                   None \<Rightarrow> Some []
                 | Some script \<Rightarrow> affected_keys n kenv store script)
            | _ \<Rightarrow> Some []) vDest)))"

section \<open>Signing\<close>

text \<open>\<open>None\<close> is an exception or a failed assertion; otherwise the result and the script written so far.\<close>

definition sign_with :: "key_env \<Rightarrow> CKey \<Rightarrow> uint256 \<Rightarrow> 32 word \<Rightarrow> bytes \<Rightarrow> bool \<times> bytes" where
  "sign_with kenv key hash nHashType scriptSigRet =
     (case ke_Sign kenv (key_secret key) hash of
        None \<Rightarrow> (False, scriptSigRet)
      | Some vchSig \<Rightarrow> (True, scriptSigRet @ push_vector (vchSig @ [ucast nHashType])))"

definition Sign1 :: "key_env \<Rightarrow> CKeyStore \<Rightarrow> uint160 \<Rightarrow> uint256 \<Rightarrow> 32 word \<Rightarrow> bytes \<Rightarrow> (bool \<times> bytes) option" where
  "Sign1 kenv store address hash nHashType scriptSigRet =
     (case ks_GetKey store address of
        KeyError \<Rightarrow> None
      | NotFound \<Rightarrow> Some (False, scriptSigRet)
      | Found key \<Rightarrow> Some (sign_with kenv key hash nHashType scriptSigRet))"

text \<open>A key that was never set has no private key, and signing with it fails.\<close>

definition SignR :: "key_env \<Rightarrow> CKeyStore \<Rightarrow> CPubKey \<Rightarrow> CPubKey \<Rightarrow> uint256 \<Rightarrow> 32 word \<Rightarrow> bytes \<Rightarrow> bool \<times> bytes" where
  "SignR kenv store pubKey R hash nHashType scriptSigRet =
     (case ks_CreatePrivKey store pubKey R of
        (True, Some key) \<Rightarrow> sign_with kenv key hash nHashType scriptSigRet
      | _ \<Rightarrow> (False, scriptSigRet))"

fun signN_loop :: "key_env \<Rightarrow> CKeyStore \<Rightarrow> uint256 \<Rightarrow> 32 word \<Rightarrow> nat \<Rightarrow> valtype list \<Rightarrow> nat \<Rightarrow> bytes \<Rightarrow> (nat \<times> bytes) option" where
  "signN_loop kenv store hash nHashType nRequired [] nSigned scriptSigRet = Some (nSigned, scriptSigRet)"
| "signN_loop kenv store hash nHashType nRequired (pubkey # pubkeys) nSigned scriptSigRet =
     (if \<not> nSigned < nRequired then Some (nSigned, scriptSigRet)
      else case Sign1 kenv store (GetID (ke_env kenv) (CPubKey_Set pubkey)) hash nHashType scriptSigRet of
        None \<Rightarrow> None
      | Some (ok, scriptSigRet) \<Rightarrow>
          signN_loop kenv store hash nHashType nRequired pubkeys (if ok then nSigned + 1 else nSigned) scriptSigRet)"

definition SignN :: "key_env \<Rightarrow> CKeyStore \<Rightarrow> valtype list \<Rightarrow> uint256 \<Rightarrow> 32 word \<Rightarrow> bytes \<Rightarrow> (bool \<times> bytes) option" where
  "SignN kenv store multisigdata hash nHashType scriptSigRet =
     (let nRequired = unat (hd (hd multisigdata)) in
      map_option (apfst (\<lambda>nSigned. nSigned = nRequired))
        (signN_loop kenv store hash nHashType nRequired (butlast (tl multisigdata)) 0 scriptSigRet))"

definition Solver_sign ::
  "key_env \<Rightarrow> CKeyStore \<Rightarrow> bytes \<Rightarrow> uint256 \<Rightarrow> 32 word \<Rightarrow> (bool \<times> bytes \<times> txnouttype) option" where
  "Solver_sign kenv store scriptPubKey hash nHashType =
     (case Solver scriptPubKey of
        (False, whichTypeRet, _) \<Rightarrow> Some (False, [], whichTypeRet)
      | (True, whichTypeRet, vSolutions) \<Rightarrow>
          map_option (\<lambda>(ok, scriptSigRet). (ok, scriptSigRet, whichTypeRet))
          (case whichTypeRet of
             TX_NONSTANDARD \<Rightarrow> Some (False, [])
           | TX_NULL_DATA \<Rightarrow> Some (False, [])
           | TX_PUBKEY \<Rightarrow> Sign1 kenv store (GetID (ke_env kenv) (CPubKey_Set (vSolutions ! 0))) hash nHashType []
           | TX_PUBKEY_DROP \<Rightarrow>
               Some (SignR kenv store (CPubKey_Set (vSolutions ! 0)) (CPubKey_Set (vSolutions ! 1)) hash nHashType [])
           | TX_PUBKEYHASH \<Rightarrow>
               (let keyID = uint160_of (vSolutions ! 0) in
                case Sign1 kenv store keyID hash nHashType [] of
                  None \<Rightarrow> None
                | Some (False, scriptSigRet) \<Rightarrow> Some (False, scriptSigRet)
                | Some (True, scriptSigRet) \<Rightarrow>
                    (case ks_GetPubKey store keyID of
                       KeyError \<Rightarrow> None
                     | NotFound \<Rightarrow> Some (True, scriptSigRet @ push_vector [])
                     | Found vch \<Rightarrow> Some (True, scriptSigRet @ push_vector (pubkey_data vch))))
           | TX_SCRIPTHASH \<Rightarrow>
               (case ks_GetCScript store (uint160_of (vSolutions ! 0)) of
                  None \<Rightarrow> Some (False, [])
                | Some redeemScript \<Rightarrow> Some (True, redeemScript))
           | TX_MULTISIG \<Rightarrow> SignN kenv store vSolutions hash nHashType (push_opcode OP_0)
           | _ \<Rightarrow> None))"

definition set_scriptSig :: "CTransaction \<Rightarrow> nat \<Rightarrow> bytes \<Rightarrow> CTransaction" where
  "set_scriptSig tx nIn script =
     tx\<lparr> get_vin := (get_vin tx)[nIn := (get_vin tx ! nIn)\<lparr> get_scriptSig := script \<rparr>] \<rparr>"

text \<open>The result, the transaction with its new input script, and the signature cache.\<close>

definition SignSignature ::
  "key_env \<Rightarrow> CKeyStore \<Rightarrow> CSignatureCache \<Rightarrow> bytes \<Rightarrow> CTransaction \<Rightarrow> nat \<Rightarrow> 32 word \<Rightarrow>
    (bool \<times> CTransaction \<times> CSignatureCache) option" where
  "SignSignature kenv store cache fromPubKey txTo nIn nHashType =
     (if \<not> nIn < length (get_vin txTo) then None
      else do {
        hash \<leftarrow> SignatureHash (ke_env kenv) fromPubKey txTo nIn nHashType;
        (ok, scriptSig, whichType) \<leftarrow> Solver_sign kenv store fromPubKey hash nHashType;
        let txTo = set_scriptSig txTo nIn scriptSig;
        if \<not> ok then Some (False, txTo, cache) else do {
        (fSolved, txTo) \<leftarrow>
          (if whichType = TX_SCRIPTHASH
           then do {
             hash2 \<leftarrow> SignatureHash (ke_env kenv) scriptSig txTo nIn nHashType;
             (ok, subSig, subType) \<leftarrow> Solver_sign kenv store scriptSig hash2 nHashType;
             Some (ok \<and> subType \<noteq> TX_SCRIPTHASH, set_scriptSig txTo nIn (subSig @ push_vector scriptSig))
           }
           else Some (True, txTo));
        if \<not> fSolved then Some (False, txTo, cache)
        else case VerifyScript
            \<lparr> a_env = ke_env kenv, a_txTo = txTo, a_nIn = nIn, a_flags = STRICT_FLAGS, a_nHashType = 0 \<rparr>
            cache (get_scriptSig (get_vin txTo ! nIn)) fromPubKey of
          Inl _ \<Rightarrow> None
        | Inr (ok, cache) \<Rightarrow> Some (ok, txTo, cache) }})"

definition SignSignature_from ::
  "key_env \<Rightarrow> CKeyStore \<Rightarrow> CSignatureCache \<Rightarrow> CTransaction \<Rightarrow> CTransaction \<Rightarrow> nat \<Rightarrow> 32 word \<Rightarrow>
    (bool \<times> CTransaction \<times> CSignatureCache) option" where
  "SignSignature_from kenv store cache txFrom txTo nIn nHashType =
     (if \<not> nIn < length (get_vin txTo) then None
      else let prevout = get_prevout (get_vin txTo ! nIn) in
      if \<not> unat (get_n prevout) < length (get_vout txFrom) then None
      else if CTransaction_GetHash (env_Hash (ke_env kenv)) txFrom \<noteq> Some (get_hash prevout) then None
      else SignSignature kenv store cache (get_scriptPubKey (get_vout txFrom ! unat (get_n prevout))) txTo nIn nHashType)"

section \<open>Combining signatures\<close>

definition PushAll :: "valtype list \<Rightarrow> bytes" where
  "PushAll values = concat (map push_vector values)"

definition all_sigs :: "valtype list \<Rightarrow> valtype list \<Rightarrow> valtype list" where
  "all_sigs sigs1 sigs2 = fold insort_insert (filter (\<lambda>v. v \<noteq> []) (sigs1 @ sigs2)) []"

fun assign_sig ::
  "crypto_env \<Rightarrow> bytes \<Rightarrow> CTransaction \<Rightarrow> nat \<Rightarrow> valtype \<Rightarrow> valtype list \<Rightarrow>
    (valtype, valtype) std_map \<Rightarrow> CSignatureCache \<Rightarrow> ((valtype, valtype) std_map \<times> CSignatureCache) option" where
  "assign_sig env scriptPubKey txTo nIn sig [] sigs cache = Some (sigs, cache)"
| "assign_sig env scriptPubKey txTo nIn sig (pubkey # pubkeys) sigs cache =
     (if map_find pubkey sigs \<noteq> None then assign_sig env scriptPubKey txTo nIn sig pubkeys sigs cache
      else case CheckSig env cache sig pubkey scriptPubKey txTo nIn 0 0 of
        None \<Rightarrow> None
      | Some (True, cache) \<Rightarrow> Some (map_set pubkey sig sigs, cache)
      | Some (False, cache) \<Rightarrow> assign_sig env scriptPubKey txTo nIn sig pubkeys sigs cache)"

fun assign_sigs ::
  "crypto_env \<Rightarrow> bytes \<Rightarrow> CTransaction \<Rightarrow> nat \<Rightarrow> valtype list \<Rightarrow> valtype list \<Rightarrow>
    (valtype, valtype) std_map \<Rightarrow> CSignatureCache \<Rightarrow> ((valtype, valtype) std_map \<times> CSignatureCache) option" where
  "assign_sigs env scriptPubKey txTo nIn [] pubkeys sigs cache = Some (sigs, cache)"
| "assign_sigs env scriptPubKey txTo nIn (sig # allsigs) pubkeys sigs cache =
     Option.bind (assign_sig env scriptPubKey txTo nIn sig pubkeys sigs cache)
       (\<lambda>(sigs, cache). assign_sigs env scriptPubKey txTo nIn allsigs pubkeys sigs cache)"

fun merge_sigs :: "(valtype, valtype) std_map \<Rightarrow> valtype list \<Rightarrow> nat \<Rightarrow> bytes" where
  "merge_sigs sigs [] n = concat (replicate n (push_opcode OP_0))"
| "merge_sigs sigs (pubkey # pubkeys) n =
     (if n = 0 then []
      else case map_find pubkey sigs of
        None \<Rightarrow> merge_sigs sigs pubkeys n
      | Some sig \<Rightarrow> push_vector sig @ merge_sigs sigs pubkeys (n - 1))"

definition CombineMultisig ::
  "crypto_env \<Rightarrow> CSignatureCache \<Rightarrow> bytes \<Rightarrow> CTransaction \<Rightarrow> nat \<Rightarrow> valtype list \<Rightarrow> valtype list \<Rightarrow> valtype list \<Rightarrow>
    (bytes \<times> CSignatureCache) option" where
  "CombineMultisig env cache scriptPubKey txTo nIn vSolutions sigs1 sigs2 =
     (if \<not> length vSolutions > 1 then None
      else let
        nSigsRequired = unat (hd (hd vSolutions));
        pubkeys = butlast (tl vSolutions)
      in map_option (\<lambda>(sigs, cache). (push_opcode OP_0 @ merge_sigs sigs pubkeys nSigsRequired, cache))
           (assign_sigs env scriptPubKey txTo nIn (all_sigs sigs1 sigs2) pubkeys [] cache))"

text \<open>The stacks are vectors, bottom first; a witness type leaves the switch and gives no script.\<close>

function CombineSignatures ::
  "crypto_env \<Rightarrow> CSignatureCache \<Rightarrow> bytes \<Rightarrow> CTransaction \<Rightarrow> nat \<Rightarrow> txnouttype \<Rightarrow> valtype list \<Rightarrow> valtype list \<Rightarrow> valtype list \<Rightarrow>
    (bytes \<times> CSignatureCache) option" where
  "CombineSignatures env cache scriptPubKey txTo nIn txType vSolutions sigs1 sigs2 =
     (if txType = TX_NONSTANDARD \<or> txType = TX_NULL_DATA
      then Some (if length sigs1 \<ge> length sigs2 then PushAll sigs1 else PushAll sigs2, cache)
      else if txType = TX_PUBKEY \<or> txType = TX_PUBKEY_DROP \<or> txType = TX_PUBKEYHASH
      then Some (if sigs1 = [] \<or> sigs1 ! 0 = [] then PushAll sigs2 else PushAll sigs1, cache)
      else if txType = TX_SCRIPTHASH
      then (if sigs1 = [] \<or> last sigs1 = [] then Some (PushAll sigs2, cache)
            else if sigs2 = [] \<or> last sigs2 = [] then Some (PushAll sigs1, cache)
            else let spk = last sigs1 in
            case Solver spk of
              (_, txType2, vSolutions2) \<Rightarrow>
                map_option (apfst (\<lambda>result. result @ push_vector spk))
                  (CombineSignatures env cache spk txTo nIn txType2 vSolutions2 (butlast sigs1) (butlast sigs2)))
      else if txType = TX_MULTISIG
      then CombineMultisig env cache scriptPubKey txTo nIn vSolutions sigs1 sigs2
      else Some ([], cache))"
  by pat_completeness auto
termination
  by (relation "measure (\<lambda>(_, _, _, _, _, _, _, sigs1, _). length sigs1)") auto

declare CombineSignatures.simps [simp del]

text \<open>\<^verbatim>\<open>CTransaction()\<close>, the argument of the two evaluations, depends on the time; it is an argument here.\<close>

definition CombineSignatures_scripts ::
  "crypto_env \<Rightarrow> CTransaction \<Rightarrow> CSignatureCache \<Rightarrow> bytes \<Rightarrow> CTransaction \<Rightarrow> nat \<Rightarrow> bytes \<Rightarrow> bytes \<Rightarrow> (bytes \<times> CSignatureCache) option" where
  "CombineSignatures_scripts env blank cache scriptPubKey txTo nIn scriptSig1 scriptSig2 =
     (let a = \<lparr> a_env = env, a_txTo = blank, a_nIn = 0, a_flags = SCRIPT_VERIFY_STRICTENC, a_nHashType = 0 \<rparr> in
      case Solver scriptPubKey of
        (_, txType, vSolutions) \<Rightarrow>
          (case EvalScript a [] cache scriptSig1 of
             Inl _ \<Rightarrow> None
           | Inr (_, stack1, cache) \<Rightarrow>
               (case EvalScript a [] cache scriptSig2 of
                  Inl _ \<Rightarrow> None
                | Inr (_, stack2, cache) \<Rightarrow>
                    CombineSignatures env cache scriptPubKey txTo nIn txType vSolutions (rev stack1) (rev stack2))))"


section \<open>What signing relies on\<close>

text \<open>
  A signature that \<^verbatim>\<open>CKey::Sign\<close> returns verifies with the public key of the secret, and is a strict
  DER encoding with a low second number; public keys are canonical.
\<close>

definition sign_law :: "key_env \<Rightarrow> bool" where
  "sign_law kenv \<longleftrightarrow>
     (\<forall>s hash sig b. ke_Sign kenv s hash = Some sig \<longrightarrow>
        env_Verify (ke_env kenv) (pubkey_data (ke_PubKey kenv s b)) hash sig \<and>
        (\<exists>R S. sig = der_sig R S \<and> der_int R \<and> der_int S \<and> 20 \<le> length sig \<and> length sig \<le> 72 \<and>
           0 < be_nat S \<and> be_nat S \<le> (secp256k1_order - 1) div 2)) \<and>
     (\<forall>s b. length s = 32 \<longrightarrow> (let p = pubkey_data (ke_PubKey kenv s b) in
        p \<noteq> [] \<and> (hd p \<in> {2, 3} \<and> length p = 33 \<or> hd p = 4 \<and> length p = 65)))"

text \<open>The contract of a key store towards its clients.\<close>

locale key_source =
  fixes kenv :: key_env and ok :: "'s \<Rightarrow> bool" and store :: "'s \<Rightarrow> CKeyStore"
  assumes found_id: "ok ks \<Longrightarrow> ks_GetKey (store ks) i = Found key \<Longrightarrow> key_id kenv key = i \<and> length (key_secret key) = 32"
    and found_pub: "ok ks \<Longrightarrow> ks_GetKey (store ks) i = Found key \<Longrightarrow> ks_GetPubKey (store ks) i = Found (GetPubKey kenv key)"
    and found_have: "ok ks \<Longrightarrow> ks_GetKey (store ks) i = Found key \<Longrightarrow> ks_HaveKey (store ks) i"

definition crypted_ok :: "key_env \<Rightarrow> CCryptoKeyStore \<Rightarrow> bool" where
  "crypted_ok kenv ks \<longleftrightarrow>
     list_all (entry_ok kenv) (mapKeys ks) \<and>
     list_all (\<lambda>(i, p, c). GetID (ke_env kenv) p = i \<and>
       (\<forall>s. ke_Decrypt kenv (vMasterKey ks) c (pubkey_GetHash kenv p) = Some s \<longrightarrow>
          length s = 32 \<longrightarrow> ke_PubKey kenv s (IsCompressed p) = p)) (mapCryptedKeys ks)"

lemma Basic_GetKey_Found:
  assumes "list_all (entry_ok kenv) (mapKeys ks)" "Basic_GetKey kenv i ks = Found key"
  shows "key_id kenv key = i \<and> length (key_secret key) = 32 \<and> Basic_HaveKey i ks"
proof -
  obtain s b where m: "map_find i (mapKeys ks) = Some (s, b)" "key = CKey s b"
    using assms(2) by (auto simp: Basic_GetKey_def SetSecret_def split: option.splits if_splits)
  then have "entry_ok kenv (i, s, b)"
    using assms(1) by (auto simp: list_all_iff map_find_def dest: map_of_SomeD)
  with m show ?thesis by (simp add: entry_ok_def key_id_def GetPubKey_def Basic_HaveKey_def)
qed

lemma Crypto_GetKey_Found:
  assumes "crypted_ok kenv ks" "Crypto_GetKey kenv i ks = Found key"
  shows "key_id kenv key = i \<and> length (key_secret key) = 32 \<and> Crypto_HaveKey i ks \<and>
    Crypto_GetPubKey kenv i ks = Found (GetPubKey kenv key)"
proof (cases "IsCrypted ks")
  case False
  then show ?thesis
    using assms Basic_GetKey_Found [of kenv ks i key]
    by (simp add: Crypto_GetKey_def Crypto_HaveKey_def Crypto_GetPubKey_def crypted_ok_def)
next
  case True
  then obtain p c s where m: "map_find i (mapCryptedKeys ks) = Some (p, c)"
      "ke_Decrypt kenv (vMasterKey ks) c (pubkey_GetHash kenv p) = Some s" "length s = 32" "key = CKey s (IsCompressed p)"
    using assms(2) by (auto simp: Crypto_GetKey_def SetSecret_def split: option.splits if_splits)
  have "GetID (ke_env kenv) p = i \<and> ke_PubKey kenv s (IsCompressed p) = p"
    using assms(1) m by (fastforce simp: crypted_ok_def list_all_iff map_find_def dest!: map_of_SomeD)
  then show ?thesis
    using m True by (simp add: key_id_def GetPubKey_def Crypto_HaveKey_def Crypto_GetPubKey_def)
qed

interpretation basic_keys: key_source kenv "\<lambda>ks :: CBasicKeyStore. list_all (entry_ok kenv) (mapKeys ks)" "basic_store kenv" for kenv
  by unfold_locales (auto simp: basic_store_def dest: Basic_GetKey_Found)

interpretation crypto_keys: key_source kenv "crypted_ok kenv" "crypto_store kenv" for kenv
  by unfold_locales (auto simp: crypto_store_def dest: Crypto_GetKey_Found)

section \<open>Spending a key hash\<close>

lemma FindAndDelete_keyhash:
  assumes "20 \<noteq> length v" "length v < 2 ^ 32" "2 \<le> length v"
  shows "fst (FindAndDelete (push_vector v) (pay_to_keyhash h)) = pay_to_keyhash h"
proof -
  let ?cs = "[[0x76], [0xa9], push_vector (le_bytes 20 (unat h)), [0x88], [0xac]]"
  have one: "is_chunk [b]" if "OP_PUSHDATA4 < unat b" for b :: byte
    using that by (simp add: is_chunk_def GetScriptOp_def)
  have "chunks (concat ?cs @ []) = ?cs @ chunks []" "tail_chunk (concat ?cs @ []) = tail_chunk []"
    using one is_chunk_push_vector by (intro chunks_concat; simp)+
  then have c: "chunks (pay_to_keyhash h) = ?cs" "tail_chunk (pay_to_keyhash h) = []"
    by (simp_all add: pay_to_keyhash_def)
  have "length (push_vector v) \<ge> 3" using assms(3) by (simp add: push_vector_def)
  moreover have "push_vector v \<noteq> push_vector (le_bytes 20 (unat h))"
    using GetScriptOp_push_vector [OF assms(2), of "[]"] GetScriptOp_push_vector [of "le_bytes 20 (unat h)" "[]"] assms(1)
    by (auto split: if_splits)
  moreover from calculation(1) have "[b] \<noteq> push_vector v" for b by (cases "push_vector v") auto
  ultimately have "filter (\<lambda>c. c \<noteq> push_vector v) ?cs = ?cs" by simp
  then show ?thesis
    unfolding FindAndDelete_chunk [OF is_chunk_push_vector [OF assms(2)]] c by (simp add: pay_to_keyhash_def)
qed

lemma set_scriptSig_hash:
  assumes "nIn < length (get_vin tx)"
  shows "SignatureHash env code (set_scriptSig tx nIn script) nIn h = SignatureHash env code tx nIn h"
    and "get_nVersion (set_scriptSig tx nIn script) = get_nVersion tx"
    and "length (get_vin (set_scriptSig tx nIn script)) = length (get_vin tx)"
    and "get_scriptSig (get_vin (set_scriptSig tx nIn script) ! nIn) = script"
proof -
  have "map (\<lambda>i. i\<lparr> get_scriptSig := [] \<rparr>) ((get_vin tx)[nIn := (get_vin tx ! nIn)\<lparr> get_scriptSig := script \<rparr>]) =
      map (\<lambda>i. i\<lparr> get_scriptSig := [] \<rparr>) (get_vin tx)"
    using assms by (intro nth_equalityI) (auto simp: nth_list_update)
  then show "SignatureHash env code (set_scriptSig tx nIn script) nIn h = SignatureHash env code tx nIn h"
    unfolding set_scriptSig_def by (intro SignatureHash_cong free_scriptSigs)
qed (use assms in \<open>simp_all add: set_scriptSig_def\<close>)


lemma sign_lawD:
  assumes "sign_law kenv" "ke_Sign kenv (key_secret key) hash = Some sig" "length (key_secret key) = 32"
  defines "p \<equiv> pubkey_data (GetPubKey kenv key)"
  shows "env_Verify (ke_env kenv) p hash sig" "20 \<le> length sig" "length sig \<le> 72"
    "valid_hash_type t \<Longrightarrow> IsDERSignature (sig @ [t]) True True = Some True"
    "33 \<le> length p" "length p \<le> 65" "IsValid (CPubKey_Set p)" "IsCanonicalPubKey p STRICT_FLAGS"
proof -
  obtain R S where r: "sig = der_sig R S" "der_int R" "der_int S" "20 \<le> length sig" "length sig \<le> 72"
      "0 < be_nat S" "be_nat S \<le> (secp256k1_order - 1) div 2"
    using assms(1,2) unfolding sign_law_def by blast
  show "env_Verify (ke_env kenv) p hash sig"
    using assms(1,2) unfolding sign_law_def p_def GetPubKey_def by blast
  show "20 \<le> length sig" "length sig \<le> 72" by fact+
  show "IsDERSignature (sig @ [t]) True True = Some True" if "valid_hash_type t"
    using r that by (intro IsDERSignature_complete [of _ R S True t]) auto
  have "p \<noteq> [] \<and> (hd p \<in> {2, 3} \<and> length p = 33 \<or> hd p = 4 \<and> length p = 65)"
    using assms(1,3) unfolding sign_law_def p_def GetPubKey_def Let_def by blast
  then show "33 \<le> length p" "length p \<le> 65" "IsValid (CPubKey_Set p)" "IsCanonicalPubKey p STRICT_FLAGS"
    by (auto simp: IsValid_def CPubKey_Set_def GetLen_def IsCanonicalPubKey_def hd_conv_nth)
qed

context key_source
begin

lemma SignSignature_pay_to_keyhash:
  assumes "ok ks" "ks_GetKey (store ks) h = Found key" "sign_law kenv" "cache_ok (ke_env kenv) cache"
    and "get_nVersion tx \<in> {1, 2}" "nIn < length (get_vin tx)"
    and "valid_hash_type t" "nHashType = ucast t"
    and "SignatureHash (ke_env kenv) (pay_to_keyhash h) tx nIn nHashType = Some hash"
    and "ke_Sign kenv (key_secret key) hash = Some sig"
  shows "\<exists>cache'. SignSignature kenv (store ks) cache (pay_to_keyhash h) tx nIn nHashType =
    Some (True, set_scriptSig tx nIn (push_vector (sig @ [t]) @ push_vector (pubkey_data (GetPubKey kenv key))), cache')"
proof -
  let ?p = "pubkey_data (GetPubKey kenv key)" and ?sig = "sig @ [t]"
  let ?tx = "set_scriptSig tx nIn (push_vector ?sig @ push_vector ?p)"
  let ?a = "\<lparr> a_env = ke_env kenv, a_txTo = ?tx, a_nIn = nIn, a_flags = STRICT_FLAGS, a_nHashType = 0 \<rparr>"
  have key: "key_id kenv key = h" "length (key_secret key) = 32" "ks_GetPubKey (store ks) h = Found (GetPubKey kenv key)"
    using found_id [OF assms(1,2)] found_pub [OF assms(1,2)] by simp_all
  note law = sign_lawD [OF assms(3,10) key(2)]
  have m: "minimal_data ?sig" "minimal_data ?p" using law(2,3,5,6) by (auto simp: minimal_data_def)
  have t: "(ucast nHashType :: byte) = t"
    by (rule bit_word_eqI) (simp add: assms(8) bit_unsigned_iff)
  have s: "Solver_sign kenv (store ks) (pay_to_keyhash h) hash nHashType =
      Some (True, push_vector ?sig @ push_vector ?p, TX_PUBKEYHASH)"
    by (simp add: Solver_sign_def Solver_keyhash uint160_of_le_bytes Sign1_def assms(2,10) sign_with_def key(3) t)
  have f: "fst (FindAndDelete (push_vector ?sig) (pay_to_keyhash h)) = pay_to_keyhash h"
    using law(2,3) by (intro FindAndDelete_keyhash) auto
  have "sig_ok ?a (pay_to_keyhash h) ?sig ?p"
    using law(1,7,8) law(4) [OF assms(7)] assms(8,9) set_scriptSig_hash(1) [OF assms(6)]
    by (simp add: sig_ok_def IsCanonicalSignature_def sig_verdict_def has_flag_def)
  moreover have "env_Hash160 (ke_env kenv) ?p = h" using key(1) by (simp add: key_id_def GetID_def)
  moreover have "args_ok ?a" using assms(5,6) set_scriptSig_hash [OF assms(6)] by (simp add: args_ok_def)
  ultimately obtain cache' where "VerifyScript ?a cache (push_vector ?sig @ push_vector ?p) (pay_to_keyhash h) = Inr (True, cache')"
    using VerifyScript_pay_to_keyhash [of ?a cache ?sig ?p h] m f assms(4) by auto
  then show ?thesis
    using s assms(6,9) set_scriptSig_hash(4) [OF assms(6)] by (simp add: SignSignature_def)
qed

end

section \<open>Assigning signatures to keys\<close>

definition signs :: "crypto_env \<Rightarrow> bytes \<Rightarrow> CTransaction \<Rightarrow> nat \<Rightarrow> valtype \<Rightarrow> valtype \<Rightarrow> bool" where
  "signs env scriptPubKey txTo nIn sig key \<longleftrightarrow> sig_verdict env sig key scriptPubKey txTo nIn 0 = Some True"

lemma CheckSig_signs:
  assumes "cache_ok env cache" "get_nVersion txTo \<in> {1, 2}"
  obtains cache' where "CheckSig env cache sig key code txTo nIn 0 flags = Some (signs env code txTo nIn sig key, cache')"
    "cache_ok env cache'"
proof -
  obtain h where h: "SignatureHash env code txTo nIn (ucast (last sig)) = Some h"
    using SignatureHash_Some [OF assms(2)] by blast
  obtain b where b: "sig_verdict env sig key code txTo nIn 0 = Some b"
    unfolding sig_verdict_def h by (cases "\<not> IsValid (CPubKey_Set key) \<or> sig = []") auto
  with CheckSig_verdict [OF assms(1), of sig key code txTo nIn 0 flags]
  obtain cache' where "CheckSig env cache sig key code txTo nIn 0 flags = Some (b, cache')" by auto
  with b show ?thesis
    using CheckSig_cache_ok [OF assms(1)] by (intro that) (auto simp: signs_def)
qed

lemma assign_sig_spec:
  assumes "cache_ok env cache" "get_nVersion txTo \<in> {1, 2}" "map_ok sigs"
    and "\<forall>k \<in> set keys. \<forall>k' \<in> set keys. signs env code txTo nIn sig k \<and> signs env code txTo nIn sig k' \<longrightarrow> k = k'"
  shows "\<exists>sigs' cache'. assign_sig env code txTo nIn sig keys sigs cache = Some (sigs', cache') \<and>
    cache_ok env cache' \<and> map_ok sigs' \<and>
    (\<forall>k. map_find k sigs' =
       (if map_find k sigs = None \<and> k \<in> set keys \<and> signs env code txTo nIn sig k then Some sig else map_find k sigs))"
  using assms(1,4)
proof (induction keys arbitrary: cache)
  case (Cons key keys)
  obtain cache1 where c: "CheckSig env cache sig key code txTo nIn 0 0 = Some (signs env code txTo nIn sig key, cache1)"
      "cache_ok env cache1"
    by (rule CheckSig_signs [OF Cons.prems(1) assms(2)])
  have ih: "\<exists>sigs' cache'. assign_sig env code txTo nIn sig keys sigs c = Some (sigs', cache') \<and>
      cache_ok env cache' \<and> map_ok sigs' \<and>
      (\<forall>k. map_find k sigs' =
         (if map_find k sigs = None \<and> k \<in> set keys \<and> signs env code txTo nIn sig k then Some sig else map_find k sigs))"
    if "cache_ok env c" for c
    using Cons.IH [OF that] Cons.prems(2) by simp
  consider (skip) "map_find key sigs \<noteq> None" | (set) "map_find key sigs = None" "signs env code txTo nIn sig key"
    | (fail) "map_find key sigs = None" "\<not> signs env code txTo nIn sig key" by blast
  then show ?case
  proof cases
    case skip
    with ih [OF Cons.prems(1)] obtain sigs' cache' where
      "assign_sig env code txTo nIn sig (key # keys) sigs cache = Some (sigs', cache')" "cache_ok env cache'" "map_ok sigs'"
      "\<forall>k. map_find k sigs' =
         (if map_find k sigs = None \<and> k \<in> set keys \<and> signs env code txTo nIn sig k then Some sig else map_find k sigs)"
      by auto
    with skip show ?thesis by auto
  next
    case set
    then show ?thesis using c assms(3) Cons.prems(2) by auto
  next
    case fail
    with ih [OF c(2)] c(1) obtain sigs' cache' where
      "assign_sig env code txTo nIn sig (key # keys) sigs cache = Some (sigs', cache')" "cache_ok env cache'" "map_ok sigs'"
      "\<forall>k. map_find k sigs' =
         (if map_find k sigs = None \<and> k \<in> set keys \<and> signs env code txTo nIn sig k then Some sig else map_find k sigs)"
      by auto
    with fail show ?thesis by auto
  qed
qed (use assms(3) in simp)

lemma assign_sigs_spec:
  assumes "cache_ok env cache" "get_nVersion txTo \<in> {1, 2}" "map_ok sigs"
    and "\<forall>sig \<in> set allsigs. \<forall>k \<in> set keys. \<forall>k' \<in> set keys.
      signs env code txTo nIn sig k \<and> signs env code txTo nIn sig k' \<longrightarrow> k = k'"
  shows "\<exists>sigs' cache'. assign_sigs env code txTo nIn allsigs keys sigs cache = Some (sigs', cache') \<and>
    (\<forall>k s. map_find k sigs' = Some s \<longrightarrow>
       map_find k sigs = Some s \<or> s \<in> set allsigs \<and> signs env code txTo nIn s k) \<and>
    (\<forall>k \<in> set keys. map_find k sigs \<noteq> None \<or> (\<exists>s \<in> set allsigs. signs env code txTo nIn s k) \<longrightarrow> map_find k sigs' \<noteq> None)"
  using assms(1,3,4)
proof (induction allsigs arbitrary: sigs cache)
  case (Cons sig allsigs)
  obtain sigs1 cache1 where a: "assign_sig env code txTo nIn sig keys sigs cache = Some (sigs1, cache1)"
      "cache_ok env cache1" "map_ok sigs1"
      "\<forall>k. map_find k sigs1 =
         (if map_find k sigs = None \<and> k \<in> set keys \<and> signs env code txTo nIn sig k then Some sig else map_find k sigs)"
    using assign_sig_spec [OF Cons.prems(1) assms(2) Cons.prems(2), of keys code nIn sig] Cons.prems(3) by auto
  obtain sigs2 cache2 where b: "assign_sigs env code txTo nIn allsigs keys sigs1 cache1 = Some (sigs2, cache2)"
      "\<forall>k s. map_find k sigs2 = Some s \<longrightarrow> map_find k sigs1 = Some s \<or> s \<in> set allsigs \<and> signs env code txTo nIn s k"
      "\<forall>k \<in> set keys. map_find k sigs1 \<noteq> None \<or> (\<exists>s \<in> set allsigs. signs env code txTo nIn s k) \<longrightarrow> map_find k sigs2 \<noteq> None"
    using Cons.IH [OF a(2,3)] Cons.prems(3) by auto
  show ?case
  proof (intro exI [of _ sigs2] exI [of _ cache2] conjI allI ballI impI)
    show "assign_sigs env code txTo nIn (sig # allsigs) keys sigs cache = Some (sigs2, cache2)"
      using a(1) b(1) by simp
    show "map_find k sigs = Some s \<or> s \<in> set (sig # allsigs) \<and> signs env code txTo nIn s k"
      if "map_find k sigs2 = Some s" for k s
      using b(2) [rule_format, OF that] a(4) [rule_format, of k] by (auto split: if_splits)
    show "map_find k sigs2 \<noteq> None"
      if "k \<in> set keys" "map_find k sigs \<noteq> None \<or> (\<exists>s \<in> set (sig # allsigs). signs env code txTo nIn s k)" for k
      using b(3) [rule_format, of k] that a(4) [rule_format, of k] by (auto split: if_splits)
  qed
qed simp

lemma set_all_sigs: "set (all_sigs sigs1 sigs2) = {v \<in> set (sigs1 @ sigs2). v \<noteq> []}"
proof -
  have "set (fold insort_insert l acc) = set l \<union> set acc" for l acc :: "valtype list"
    by (induction l arbitrary: acc) (auto simp: set_insort_insert)
  from this [of "filter (\<lambda>v. v \<noteq> []) (sigs1 @ sigs2)" "[]"] show ?thesis
    unfolding all_sigs_def by auto
qed

lemma merge_sigs_eq:
  "merge_sigs sigs keys n =
     PushAll (take n (List.map_filter (\<lambda>k. map_find k sigs) keys)) @
     replicate (n - length (List.map_filter (\<lambda>k. map_find k sigs) keys)) 0"
proof (induction keys arbitrary: n)
  case Nil
  have "concat (replicate n [0]) = replicate n (0 :: byte)" by (induction n) auto
  then show ?case by (simp add: PushAll_def push_opcode_def)
next
  case (Cons key keys)
  then show ?case
    by (cases n) (auto simp: PushAll_def List.map_filter_simps split: option.split)
qed

section \<open>Properties\<close>

text \<open>
  C37. A wallet that holds a key can spend what is paid to it: when the unlocked key store has the
  key of a key hash and signing succeeds, \<^verbatim>\<open>SignSignature\<close> returns true, and the transaction it makes
  differs from the given one only in the input script, which pushes the signature and the key. What is asked of a
  signature is \<open>sign_law\<close>, which includes that it has at least 20 bytes, so that it is no part of the output script.
\<close>

theorem SignSignature_keyhash:
  assumes "crypted_ok kenv ks" "Crypto_GetKey kenv h ks = Found key" "sign_law kenv" "cache_ok (ke_env kenv) cache"
    and "get_nVersion tx \<in> {1, 2}" "nIn < length (get_vin tx)"
    and "valid_hash_type t" "nHashType = ucast t" "SetDestination (CKeyID h) = Some script"
    and "SignatureHash (ke_env kenv) script tx nIn nHashType = Some hash"
    and "ke_Sign kenv (key_secret key) hash = Some sig"
  shows "\<exists>cache'. SignSignature kenv (crypto_store kenv ks) cache script tx nIn nHashType =
    Some (True, set_scriptSig tx nIn (push_vector (sig @ [t]) @ push_vector (pubkey_data (GetPubKey kenv key))), cache')"
proof -
  have "script = pay_to_keyhash h" using assms(9) SetDestination_scripts(1) [of h] by simp
  then show ?thesis
    using crypto_keys.SignSignature_pay_to_keyhash [of kenv ks h key cache tx nIn t nHashType hash sig] assms
    by (simp add: crypto_store_def)
qed

definition signing_kenv :: key_env where
  "signing_kenv = sample_kenv\<lparr> ke_env := sample_env\<lparr> env_Verify := \<lambda>_ _ _. True \<rparr>,
     ke_Sign := \<lambda>s h. Some (der_sig (replicate 20 1) (replicate 20 1)) \<rparr>"

lemma sign_law_signing: "sign_law signing_kenv"
proof -
  let ?n = "replicate 20 1 :: bytes"
  have n: "?n = 1 # replicate 19 1" by (simp flip: replicate_Suc)
  have "be_nat ?n < 256 ^ 20" using be_nat_less [of ?n] by simp
  then have "be_nat ?n \<le> (secp256k1_order - 1) div 2"
    by (rule less_imp_le [OF less_le_trans]) (simp add: secp256k1_order_def)
  moreover have "0 < be_nat ?n" by (subst n) simp
  moreover have "der_int ?n" by (simp add: der_int_def)
  moreover have "length (der_sig ?n ?n) = 46" by (simp add: der_sig_def)
  ultimately have "\<exists>R S. der_sig ?n ?n = der_sig R S \<and> der_int R \<and> der_int S \<and> 20 \<le> length (der_sig ?n ?n) \<and>
      length (der_sig ?n ?n) \<le> 72 \<and> 0 < be_nat S \<and> be_nat S \<le> (secp256k1_order - 1) div 2"
    by (intro exI [of _ ?n] conjI) simp_all
  then show ?thesis
    by (simp add: sign_law_def signing_kenv_def sample_kenv_def Let_def)
qed

theorem SignSignature_keyhash_witness:
  "\<exists>script sig cache'. SetDestination (CKeyID 5) = Some script \<and>
     SignSignature signing_kenv (crypto_store signing_kenv sample_store) empty_cache script sample_tx 0 1 =
     Some (True, set_scriptSig sample_tx 0 (push_vector (sig @ [1]) @ push_vector (2 # sample_secret)), cache')"
proof -
  have e: "ks_GetKey (crypto_store signing_kenv sample_store) 5 = Found (CKey sample_secret True)"
    by (simp add: crypto_store_def Crypto_GetKey_def Basic_GetKey_def sample_store_eq IsCrypted_def empty_store_def
        key_id_def GetID_def sample_kenv_def sample_env_def map_find_Cons SetSecret_def signing_kenv_def sample_secret_def)
  then have g: "Crypto_GetKey signing_kenv 5 sample_store = Found (CKey sample_secret True)"
    by (simp add: crypto_store_def)
  have o: "crypted_ok signing_kenv sample_store"
    by (simp add: crypted_ok_def sample_store_eq empty_store_def entry_ok_def key_id_def GetPubKey_def GetID_def
        signing_kenv_def sample_kenv_def sample_env_def sample_secret_def)
  obtain script where s: "SetDestination (CKeyID 5) = Some script" using SetDestination_scripts(1) by blast
  have v: "get_nVersion sample_tx \<in> {1, 2}" "0 < length (get_vin sample_tx)" by (simp_all add: sample_tx_def)
  obtain hash where h: "SignatureHash (ke_env signing_kenv) script sample_tx 0 1 = Some hash"
    using SignatureHash_Some [OF v(1)] by blast
  obtain sig where k: "ke_Sign signing_kenv (key_secret (CKey sample_secret True)) hash = Some sig"
    by (simp add: signing_kenv_def)
  have t: "valid_hash_type 1" by (simp add: valid_hash_type_def)
  have p: "pubkey_data (GetPubKey signing_kenv (CKey sample_secret True)) = 2 # sample_secret"
    by (simp add: GetPubKey_def signing_kenv_def sample_kenv_def)
  show ?thesis
    using SignSignature_keyhash [OF o g sign_law_signing cache_ok_empty v t _ s h k] s p by auto
qed


text \<open>
  C38. Combining two partly signed multisignature inputs loses no signature: with signatures that
  fit one key each, the result has, for the keys that are signed in either input and in their
  order, a valid signature each, up to the number required, and empty pushes for the missing ones.
\<close>

theorem CombineMultisig_complete:
  assumes "cache_ok env cache" "get_nVersion txTo \<in> {1, 2}"
    and "\<forall>sig \<in> set (sigs1 @ sigs2). \<forall>k \<in> set keys. \<forall>k' \<in> set keys.
      signs env code txTo nIn sig k \<and> signs env code txTo nIn sig k' \<longrightarrow> k = k'"
  shows "\<exists>chosen cache'. CombineMultisig env cache code txTo nIn ([m] # keys @ [[n]]) sigs1 sigs2 =
      Some (0 # PushAll (take (unat m) (map snd chosen)) @ replicate (unat m - length chosen) 0, cache') \<and>
    map fst chosen = filter (\<lambda>k. \<exists>sig \<in> set (sigs1 @ sigs2). signs env code txTo nIn sig k) keys \<and>
    (\<forall>(k, sig) \<in> set chosen. sig \<in> set (sigs1 @ sigs2) \<and> signs env code txTo nIn sig k)"
proof -
  have ne: "signs env code txTo nIn sig k \<Longrightarrow> sig \<noteq> []" for sig k
    by (auto simp: signs_def sig_verdict_def split: if_splits)
  have "\<forall>sig \<in> set (all_sigs sigs1 sigs2). \<forall>k \<in> set keys. \<forall>k' \<in> set keys.
      signs env code txTo nIn sig k \<and> signs env code txTo nIn sig k' \<longrightarrow> k = k'"
    using assms(3) unfolding set_all_sigs by blast
  from assign_sigs_spec [OF assms(1,2) map_ok_Nil this]
  obtain sigs cache' where r: "assign_sigs env code txTo nIn (all_sigs sigs1 sigs2) keys [] cache = Some (sigs, cache')"
      "\<forall>k s. map_find k sigs = Some s \<longrightarrow> s \<in> set (all_sigs sigs1 sigs2) \<and> signs env code txTo nIn s k"
      "\<forall>k \<in> set keys. (\<exists>s \<in> set (all_sigs sigs1 sigs2). signs env code txTo nIn s k) \<longrightarrow> map_find k sigs \<noteq> None"
    by auto
  define chosen where "chosen = List.map_filter (\<lambda>k. map_option (Pair k) (map_find k sigs)) keys"
  have signed: "map_find k sigs \<noteq> None \<longleftrightarrow> (\<exists>sig \<in> set (sigs1 @ sigs2). signs env code txTo nIn sig k)"
    if "k \<in> set keys" for k
    using r(2,3) that ne by (fastforce simp: set_all_sigs)
  have c: "map fst chosen = filter (\<lambda>k. map_find k sigs \<noteq> None) keys"
      "map snd chosen = List.map_filter (\<lambda>k. map_find k sigs) keys"
    unfolding chosen_def by (induction keys) (auto simp: List.map_filter_simps split: option.split)
  have "\<forall>(k, sig) \<in> set chosen. sig \<in> set (sigs1 @ sigs2) \<and> signs env code txTo nIn sig k"
    using r(2) unfolding chosen_def by (fastforce simp: List.map_filter_def set_all_sigs)
  moreover have "map fst chosen = filter (\<lambda>k. \<exists>sig \<in> set (sigs1 @ sigs2). signs env code txTo nIn sig k) keys"
    unfolding c(1) using signed by (intro filter_cong) auto
  moreover have "CombineMultisig env cache code txTo nIn ([m] # keys @ [[n]]) sigs1 sigs2 =
      Some (0 # PushAll (take (unat m) (map snd chosen)) @ replicate (unat m - length chosen) 0, cache')"
    using r(1) c(2) by (simp add: CombineMultisig_def merge_sigs_eq push_opcode_def Let_def flip: length_map [of snd chosen])
  ultimately show ?thesis by blast
qed

theorem CombineMultisig_complete_witness:
  "\<exists>chosen cache'. CombineMultisig sample_env empty_cache [0xae] sample_tx 0 [[1], pubkey_data sample_key, [1]] [[7, 1]] [] =
      Some (0 # PushAll (take 1 (map snd chosen)) @ replicate (1 - length chosen) 0, cache') \<and>
    map fst chosen = filter (\<lambda>k. signs sample_env [0xae] sample_tx 0 [7, 1] k) [pubkey_data sample_key]"
proof -
  have "get_nVersion sample_tx \<in> {1, 2}" by (simp add: sample_tx_def)
  from CombineMultisig_complete [OF cache_ok_empty this, of "[[7, 1]]" "[]" "[pubkey_data sample_key]" sample_env "[0xae]" 0 1 1]
  show ?thesis by auto
qed

end
