(* ===== verification/Level_DB.thy ===== *)
theory Level_DB
  imports Tx
begin

text \<open>
  The database wrapper \<^verbatim>\<open>CLevelDB\<close> (\<^verbatim>\<open>src/src/db.h\<close>, \<^verbatim>\<open>src/src/db.cpp\<close>): reads, writes, and
  transactions that collect their writes in a batch. The LevelDB library is a parameter: its
  functions on a database state \<open>'d\<close> are the fields of \<open>leveldb\<close>, and \<open>leveldb_law\<close> states what its
  documentation promises. \<open>None\<close> is a failed assertion.
\<close>

section \<open>The library\<close>

datatype batch_op = BatchPut bytes bytes | BatchDelete bytes

datatype get_status = GetOk bytes | GetNotFound | GetError

record 'd leveldb =
  ldb_Get :: "'d \<Rightarrow> bytes \<Rightarrow> get_status"
  ldb_Put :: "'d \<Rightarrow> bytes \<Rightarrow> bytes \<Rightarrow> bool \<times> 'd"
  ldb_Delete :: "'d \<Rightarrow> bytes \<Rightarrow> bool \<times> 'd"
  ldb_Write :: "'d \<Rightarrow> batch_op list \<Rightarrow> bool \<times> 'd"

section \<open>The wrapper\<close>

record 'd CLevelDB =
  pdb :: 'd
  activeBatch :: "batch_op list option"
  fReadOnly :: bool
  fSecure :: bool

text \<open>
  The scanner of a batch: whether an entry was found, whether it is deleted, and the value. The
  handlers run over the batch in the order of the writes.
\<close>

fun CBatchScanner :: "bytes \<Rightarrow> batch_op list \<Rightarrow> bool \<times> bool \<times> bytes \<Rightarrow> bool \<times> bool \<times> bytes" where
  "CBatchScanner needle [] st = st"
| "CBatchScanner needle (BatchPut key value # writes) st =
     CBatchScanner needle writes (if key = needle then (True, False, value) else st)"
| "CBatchScanner needle (BatchDelete key # writes) (foundEntry, deleted, foundValue) =
     CBatchScanner needle writes (if key = needle then (True, True, foundValue) else (foundEntry, deleted, foundValue))"

definition ScanBatch :: "bytes \<Rightarrow> batch_op list \<Rightarrow> bool \<times> bool \<times> bytes" where
  "ScanBatch key batch = CBatchScanner key batch (False, False, [])"

text \<open>
  The stream over a value that was read: it asserts that the value is not empty, and it copies
  without comparing with the end, so that a value that is too short is read past its end.
\<close>

datatype 'a db_read = ReadTrue 'a | ReadFalse | ReadBeyondEnd

definition CDBStream_read :: "'a reader \<Rightarrow> bytes \<Rightarrow> 'a db_read option" where
  "CDBStream_read unser strValue =
     (if strValue = [] then None
      else Some (case unser strValue of
          Inr (value, _) \<Rightarrow> ReadTrue value
        | Inl EndOfData \<Rightarrow> ReadBeyondEnd
        | Inl _ \<Rightarrow> ReadFalse))"

definition CDataStream_read :: "'a reader \<Rightarrow> bytes \<Rightarrow> 'a db_read" where
  "CDataStream_read unser strValue = (case unser strValue of Inr (value, _) \<Rightarrow> ReadTrue value | Inl _ \<Rightarrow> ReadFalse)"

definition ReadNormal :: "'d leveldb \<Rightarrow> 'a reader \<Rightarrow> bytes \<Rightarrow> 'd CLevelDB \<Rightarrow> 'a db_read option" where
  "ReadNormal env unser ssKey db =
     (let
        (readFromDb, deleted, strValue) =
          (case activeBatch db of
             None \<Rightarrow> (True, False, [])
           | Some batch \<Rightarrow>
               (case ScanBatch ssKey batch of (foundEntry, deleted, value) \<Rightarrow> (\<not> foundEntry, deleted, value)))
      in
      if deleted then Some ReadFalse
      else if readFromDb
      then (case ldb_Get env (pdb db) ssKey of
              GetOk strValue \<Rightarrow> CDBStream_read unser strValue
            | _ \<Rightarrow> Some ReadFalse)
      else CDBStream_read unser strValue)"

definition ReadSecure :: "'d leveldb \<Rightarrow> 'a reader \<Rightarrow> bytes \<Rightarrow> 'd CLevelDB \<Rightarrow> 'a db_read option" where
  "ReadSecure env unser ssKey db =
     (if activeBatch db \<noteq> None then None
      else Some (case ldb_Get env (pdb db) ssKey of
          GetOk secureValue \<Rightarrow> CDataStream_read unser secureValue
        | _ \<Rightarrow> ReadFalse))"

definition db_Read :: "'d leveldb \<Rightarrow> 'a reader \<Rightarrow> bytes \<Rightarrow> 'd CLevelDB \<Rightarrow> 'a db_read option" where
  "db_Read env unser ssKey db = (if fSecure db then ReadSecure env unser ssKey db else ReadNormal env unser ssKey db)"

definition ExistsNormal :: "'d leveldb \<Rightarrow> bytes \<Rightarrow> 'd CLevelDB \<Rightarrow> bool" where
  "ExistsNormal env ssKey db =
     (if (case activeBatch db of
            None \<Rightarrow> False
          | Some batch \<Rightarrow> (case ScanBatch ssKey batch of (foundEntry, deleted, _) \<Rightarrow> foundEntry \<and> \<not> deleted))
      then True
      else ldb_Get env (pdb db) ssKey \<noteq> GetNotFound)"

definition ExistsSecure :: "'d leveldb \<Rightarrow> bytes \<Rightarrow> 'd CLevelDB \<Rightarrow> bool option" where
  "ExistsSecure env ssKey db =
     (if activeBatch db \<noteq> None then None else Some (ldb_Get env (pdb db) ssKey \<noteq> GetNotFound))"

definition db_Exists :: "'d leveldb \<Rightarrow> bytes \<Rightarrow> 'd CLevelDB \<Rightarrow> bool option" where
  "db_Exists env ssKey db = (if fSecure db then ExistsSecure env ssKey db else Some (ExistsNormal env ssKey db))"

definition WriteNormal ::
  "'d leveldb \<Rightarrow> bytes \<Rightarrow> bytes \<Rightarrow> bool \<Rightarrow> 'd CLevelDB \<Rightarrow> (bool \<times> 'd CLevelDB) option" where
  "WriteNormal env ssKey ssValue fOverwrite db =
     (if fReadOnly db then None
      else if \<not> fOverwrite \<and> ExistsNormal env ssKey db then Some (False, db)
      else case activeBatch db of
        Some batch \<Rightarrow> Some (True, db\<lparr> activeBatch := Some (batch @ [BatchPut ssKey ssValue]) \<rparr>)
      | None \<Rightarrow> (case ldb_Put env (pdb db) ssKey ssValue of (status, d) \<Rightarrow> Some (status, db\<lparr> pdb := d \<rparr>)))"

definition WriteSecure ::
  "'d leveldb \<Rightarrow> bytes \<Rightarrow> bytes \<Rightarrow> bool \<Rightarrow> 'd CLevelDB \<Rightarrow> (bool \<times> 'd CLevelDB) option" where
  "WriteSecure env ssKey ssValue fOverwrite db =
     (if activeBatch db \<noteq> None then None
      else if fReadOnly db then None
      else if \<not> fOverwrite \<and> ExistsSecure env ssKey db = Some True then Some (False, db)
      else case ldb_Put env (pdb db) ssKey ssValue of (status, d) \<Rightarrow> Some (status, db\<lparr> pdb := d \<rparr>))"

definition db_Write ::
  "'d leveldb \<Rightarrow> bytes \<Rightarrow> bytes \<Rightarrow> bool \<Rightarrow> 'd CLevelDB \<Rightarrow> (bool \<times> 'd CLevelDB) option" where
  "db_Write env ssKey ssValue fOverwrite db =
     (if fSecure db then WriteSecure env ssKey ssValue fOverwrite db else WriteNormal env ssKey ssValue fOverwrite db)"

definition EraseNormal :: "'d leveldb \<Rightarrow> bytes \<Rightarrow> 'd CLevelDB \<Rightarrow> (bool \<times> 'd CLevelDB) option" where
  "EraseNormal env ssKey db =
     (if fReadOnly db then None
      else case activeBatch db of
        Some batch \<Rightarrow> Some (True, db\<lparr> activeBatch := Some (batch @ [BatchDelete ssKey]) \<rparr>)
      | None \<Rightarrow> (case ldb_Delete env (pdb db) ssKey of (status, d) \<Rightarrow> Some (status, db\<lparr> pdb := d \<rparr>)))"

definition EraseSecure :: "'d leveldb \<Rightarrow> bytes \<Rightarrow> 'd CLevelDB \<Rightarrow> (bool \<times> 'd CLevelDB) option" where
  "EraseSecure env ssKey db =
     (if activeBatch db \<noteq> None then None
      else if fReadOnly db then None
      else case ldb_Delete env (pdb db) ssKey of (status, d) \<Rightarrow> Some (status, db\<lparr> pdb := d \<rparr>))"

definition db_Erase :: "'d leveldb \<Rightarrow> bytes \<Rightarrow> 'd CLevelDB \<Rightarrow> (bool \<times> 'd CLevelDB) option" where
  "db_Erase env ssKey db = (if fSecure db then EraseSecure env ssKey db else EraseNormal env ssKey db)"

definition TxnBegin :: "'d CLevelDB \<Rightarrow> (bool \<times> 'd CLevelDB) option" where
  "TxnBegin db =
     (if fSecure db then None
      else if activeBatch db \<noteq> None then None
      else Some (True, db\<lparr> activeBatch := Some [] \<rparr>))"

definition TxnCommit :: "'d leveldb \<Rightarrow> 'd CLevelDB \<Rightarrow> (bool \<times> 'd CLevelDB) option" where
  "TxnCommit env db =
     (if fSecure db then None
      else case activeBatch db of
        None \<Rightarrow> None
      | Some batch \<Rightarrow>
          (case ldb_Write env (pdb db) batch of (status, d) \<Rightarrow> Some (status, db\<lparr> pdb := d, activeBatch := None \<rparr>)))"

definition TxnAbort :: "'d CLevelDB \<Rightarrow> (bool \<times> 'd CLevelDB) option" where
  "TxnAbort db = (if fSecure db then None else Some (True, db\<lparr> activeBatch := None \<rparr>))"

definition db_Close :: "'d CLevelDB \<Rightarrow> 'd CLevelDB" where
  "db_Close db = db\<lparr> activeBatch := None \<rparr>"

section \<open>What the library promises\<close>

fun apply_batch :: "batch_op list \<Rightarrow> (bytes \<rightharpoonup> bytes) \<Rightarrow> (bytes \<rightharpoonup> bytes)" where
  "apply_batch [] m = m"
| "apply_batch (BatchPut k v # writes) m = apply_batch writes (m(k \<mapsto> v))"
| "apply_batch (BatchDelete k # writes) m = apply_batch writes (m(k := None))"

text \<open>
  With \<open>content\<close> the entries of a database state: a read finds the entry, a write or a batch that
  reports success is applied as a whole, and one that reports an error changes nothing.
\<close>

definition leveldb_law :: "'d leveldb \<Rightarrow> ('d \<Rightarrow> (bytes \<rightharpoonup> bytes)) \<Rightarrow> bool" where
  "leveldb_law env content \<longleftrightarrow>
     (\<forall>d k. ldb_Get env d k = (case content d k of None \<Rightarrow> GetNotFound | Some v \<Rightarrow> GetOk v)) \<and>
     (\<forall>d k v. content (snd (ldb_Put env d k v)) = (if fst (ldb_Put env d k v) then (content d)(k \<mapsto> v) else content d)) \<and>
     (\<forall>d k. content (snd (ldb_Delete env d k)) = (if fst (ldb_Delete env d k) then (content d)(k := None) else content d)) \<and>
     (\<forall>d writes. content (snd (ldb_Write env d writes)) = (if fst (ldb_Write env d writes) then apply_batch writes (content d) else content d))"

lemma leveldb_lawD:
  assumes "leveldb_law env content"
  shows "ldb_Get env d k = (case content d k of None \<Rightarrow> GetNotFound | Some v \<Rightarrow> GetOk v)"
    "ldb_Put env d k v = (s, d') \<Longrightarrow> content d' = (if s then (content d)(k \<mapsto> v) else content d)"
    "ldb_Delete env d k = (s, d') \<Longrightarrow> content d' = (if s then (content d)(k := None) else content d)"
    "ldb_Write env d writes = (s, d') \<Longrightarrow> content d' = (if s then apply_batch writes (content d) else content d)"
  using assms unfolding leveldb_law_def by (metis fst_conv snd_conv)+

text \<open>The entries that a reader sees: those on disk, with the pending changes of the transaction.\<close>

definition view :: "('d \<Rightarrow> (bytes \<rightharpoonup> bytes)) \<Rightarrow> 'd CLevelDB \<Rightarrow> (bytes \<rightharpoonup> bytes)" where
  "view content db = apply_batch (case activeBatch db of None \<Rightarrow> [] | Some batch \<Rightarrow> batch) (content (pdb db))"

lemma apply_batch_append: "apply_batch (writes @ writes') m = apply_batch writes' (apply_batch writes m)"
proof (induction writes arbitrary: m)
  case (Cons w writes)
  then show ?case by (cases w) (simp_all del: fun_upd_apply)
qed simp

lemma CBatchScanner_view:
  "apply_batch writes (if found then (if deleted then m(k := None) else m(k \<mapsto> v)) else m) k =
     (case CBatchScanner k writes (found, deleted, v) of
        (found, deleted, v) \<Rightarrow> if found then (if deleted then None else Some v) else m k)"
proof (induction writes arbitrary: found deleted v m)
  case (Cons op writes)
  show ?case
  proof (cases op)
    case (BatchPut k' v')
    show ?thesis
    proof (cases "k' = k")
      case True
      then show ?thesis using Cons.IH [of True False m v'] BatchPut by (simp del: fun_upd_apply)
    next
      case False
      then have "(if found then (if deleted then m(k := None) else m(k \<mapsto> v)) else m)(k' \<mapsto> v') =
          (if found then (if deleted then (m(k' \<mapsto> v'))(k := None) else (m(k' \<mapsto> v'))(k \<mapsto> v)) else m(k' \<mapsto> v'))"
        by (auto simp: fun_upd_twist)
      then show ?thesis using Cons.IH [of found deleted "m(k' \<mapsto> v')" v] BatchPut False fun_upd_other [of k k' m]
        by (cases "CBatchScanner k writes (found, deleted, v)") (simp del: fun_upd_apply)
    qed
  next
    case (BatchDelete k')
    show ?thesis
    proof (cases "k' = k")
      case True
      then show ?thesis using Cons.IH [of True True m v] BatchDelete by (simp del: fun_upd_apply)
    next
      case False
      then have "(if found then (if deleted then m(k := None) else m(k \<mapsto> v)) else m)(k' := None) =
          (if found then (if deleted then (m(k' := None))(k := None) else (m(k' := None))(k \<mapsto> v)) else m(k' := None))"
        by (auto simp: fun_upd_twist)
      then show ?thesis using Cons.IH [of found deleted "m(k' := None)" v] BatchDelete False fun_upd_other [of k k' m]
        by (cases "CBatchScanner k writes (found, deleted, v)") (simp del: fun_upd_apply)
    qed
  qed
qed auto

lemma ScanBatch_view:
  "apply_batch batch m k =
     (case ScanBatch k batch of (found, deleted, v) \<Rightarrow> if found then (if deleted then None else Some v) else m k)"
  using CBatchScanner_view [of batch False False m k "[]"] by (simp add: ScanBatch_def)

lemma CBatchScanner_deleted:
  "CBatchScanner k writes (found, deleted, v) = (found', deleted', v') \<Longrightarrow> deleted \<longrightarrow> found \<Longrightarrow> deleted' \<longrightarrow> found'"
proof (induction writes arbitrary: found deleted v)
  case (Cons op writes)
  then show ?case by (cases op) (auto split: if_splits)
qed simp

section \<open>The wrapper as a map\<close>

lemma ReadNormal_view:
  assumes "leveldb_law env content"
  shows "ReadNormal env unser k db =
    (case view content db k of None \<Rightarrow> Some ReadFalse | Some v \<Rightarrow> CDBStream_read unser v)"
proof (cases "activeBatch db")
  case None
  then show ?thesis
    by (auto simp: ReadNormal_def view_def leveldb_lawD(1) [OF assms] split: option.split)
next
  case (Some batch)
  obtain found deleted v where s: "ScanBatch k batch = (found, deleted, v)" by (cases "ScanBatch k batch")
  moreover have "deleted \<longrightarrow> found"
    using CBatchScanner_deleted s unfolding ScanBatch_def by blast
  ultimately show ?thesis
    using Some ScanBatch_view [of batch "content (pdb db)" k]
    by (auto simp: ReadNormal_def view_def leveldb_lawD(1) [OF assms] split: option.split)
qed

text \<open>A sequence of writes and deletions on a map, on the wrapper, and on a batch.\<close>

fun run_writes :: "'d leveldb \<Rightarrow> batch_op list \<Rightarrow> 'd CLevelDB \<Rightarrow> 'd CLevelDB option" where
  "run_writes env [] db = Some db"
| "run_writes env (BatchPut k v # writes) db =
     (case db_Write env k v True db of Some (True, db) \<Rightarrow> run_writes env writes db | _ \<Rightarrow> None)"
| "run_writes env (BatchDelete k # writes) db =
     (case db_Erase env k db of Some (True, db) \<Rightarrow> run_writes env writes db | _ \<Rightarrow> None)"

lemma run_writes_batch:
  assumes "activeBatch db = Some batch" "\<not> fReadOnly db" "\<not> fSecure db"
  shows "run_writes env writes db = Some (db\<lparr> activeBatch := Some (batch @ writes) \<rparr>)"
  using assms
proof (induction writes arbitrary: db batch)
  case (Cons w writes)
  have "run_writes env (w # writes) db = run_writes env writes (db\<lparr> activeBatch := Some (batch @ [w]) \<rparr>)"
    using Cons.prems by (cases w) (simp_all add: db_Write_def WriteNormal_def db_Erase_def EraseNormal_def)
  also have "\<dots> = Some (db\<lparr> activeBatch := Some (batch @ w # writes) \<rparr>)"
    using Cons.IH [of "db\<lparr> activeBatch := Some (batch @ [w]) \<rparr>" "batch @ [w]"] Cons.prems by simp
  finally show ?case .
qed simp

section \<open>Properties\<close>

text \<open>
  C39. Transactions of the database are atomic and isolated from the disk: after the beginning of a
  transaction and any sequence of writes and deletions, which all succeed, the disk is unchanged
  and every read sees the changes in their order; a commit then makes exactly these changes on
  disk or, if the library reports an error, none, and an abort makes none.
\<close>

theorem CLevelDB_transaction:
  assumes "leveldb_law env content" "activeBatch db = None" "\<not> fReadOnly db" "\<not> fSecure db"
  defines "m \<equiv> content (pdb db)"
  shows "\<exists>db1 db2 status db3 db4.
    TxnBegin db = Some (True, db1) \<and> run_writes env writes db1 = Some db2 \<and> content (pdb db2) = m \<and>
    db_Read env unser k db2 =
      (case apply_batch writes m k of None \<Rightarrow> Some ReadFalse | Some v \<Rightarrow> CDBStream_read unser v) \<and>
    TxnCommit env db2 = Some (status, db3) \<and> activeBatch db3 = None \<and>
    content (pdb db3) = (if status then apply_batch writes m else m) \<and>
    TxnAbort db2 = Some (True, db4) \<and> activeBatch db4 = None \<and> content (pdb db4) = m"
proof -
  let ?db1 = "db\<lparr> activeBatch := Some [] \<rparr>" and ?db2 = "db\<lparr> activeBatch := Some writes \<rparr>"
  have "TxnBegin db = Some (True, ?db1)" using assms by (simp add: TxnBegin_def)
  moreover have "run_writes env writes ?db1 = Some ?db2"
    using run_writes_batch [of ?db1 "[]"] assms by simp
  moreover have "db_Read env unser k ?db2 =
      (case apply_batch writes m k of None \<Rightarrow> Some ReadFalse | Some v \<Rightarrow> CDBStream_read unser v)"
    using ReadNormal_view [OF assms(1), of unser k ?db2] assms(4) by (simp add: db_Read_def view_def m_def)
  moreover obtain status d where w: "ldb_Write env (pdb db) writes = (status, d)" by (cases "ldb_Write env (pdb db) writes")
  moreover have "content d = (if status then apply_batch writes m else m)"
    using leveldb_lawD(4) [OF assms(1) w] by (simp add: m_def)
  ultimately show ?thesis
    using assms(4) by (auto simp: TxnCommit_def TxnAbort_def m_def)
qed

definition list_db :: "(bytes \<times> bytes) list leveldb" where
  "list_db =
     \<lparr> ldb_Get = (\<lambda>d k. case map_of d k of None \<Rightarrow> GetNotFound | Some v \<Rightarrow> GetOk v),
       ldb_Put = (\<lambda>d k v. (True, (k, v) # d)),
       ldb_Delete = (\<lambda>d k. (True, filter (\<lambda>(k', _). k' \<noteq> k) d)),
       ldb_Write = (\<lambda>d writes. (True, fold (\<lambda>w d. case w of
          BatchPut k v \<Rightarrow> (k, v) # d | BatchDelete k \<Rightarrow> filter (\<lambda>(k', _). k' \<noteq> k) d) writes d)) \<rparr>"

lemma map_of_filter_neq: "map_of (filter (\<lambda>(k', _). k' \<noteq> k) d) = (map_of d)(k := None)"
  by (induction d) auto

lemma leveldb_law_list: "leveldb_law list_db map_of"
proof -
  have "map_of (fold (\<lambda>w d. case w of BatchPut k v \<Rightarrow> (k, v) # d | BatchDelete k \<Rightarrow> filter (\<lambda>(k', _). k' \<noteq> k) d) writes d) =
      apply_batch writes (map_of d)" for writes and d :: "(bytes \<times> bytes) list"
  proof (induction writes arbitrary: d)
    case (Cons w writes)
    then show ?case by (cases w) (simp_all add: map_of_filter_neq del: fun_upd_apply)
  qed simp
  then show ?thesis
    by (simp add: leveldb_law_def list_db_def map_of_filter_neq)
qed

definition sample_db :: "(bytes \<times> bytes) list CLevelDB" where
  "sample_db = \<lparr> pdb = [([1], [2])], activeBatch = None, fReadOnly = False, fSecure = False \<rparr>"

theorem CLevelDB_transaction_witness:
  "\<exists>db1 db2 status db3.
    TxnBegin sample_db = Some (True, db1) \<and> run_writes list_db [BatchPut [3] [4], BatchDelete [1]] db1 = Some db2 \<and>
    db_Read list_db (Unserialize_word :: byte reader) [3] db2 = Some (ReadTrue 4) \<and>
    TxnCommit list_db db2 = Some (status, db3)"
proof -
  have "CDBStream_read (Unserialize_word :: byte reader) [4] = Some (ReadTrue 4)"
    by (simp add: CDBStream_read_def Unserialize_word_def bind_reader_def stream_read_def return_reader_def)
  then show ?thesis
    using CLevelDB_transaction [OF leveldb_law_list, of sample_db "[BatchPut [3] [4], BatchDelete [1]]"
        "Unserialize_word :: byte reader" "[3]"]
    by (auto simp: sample_db_def)
qed

text \<open>
  \<^verbatim>\<open>Exists\<close> does not see a deletion that is pending: for a key that is on disk and that the
  running transaction has deleted, \<^verbatim>\<open>Read\<close> reports that there is no entry and \<^verbatim>\<open>Exists\<close> that there is one.
\<close>

theorem Exists_ignores_pending_delete:
  assumes "leveldb_law env content" "activeBatch db = Some batch" "\<not> fReadOnly db" "\<not> fSecure db"
    and "content (pdb db) k = Some v"
  shows "\<exists>db'. db_Erase env k db = Some (True, db') \<and> db_Read env unser k db' = Some ReadFalse \<and>
    db_Exists env k db' = Some True"
proof -
  let ?db = "db\<lparr> activeBatch := Some (batch @ [BatchDelete k]) \<rparr>"
  have "db_Read env unser k ?db = Some ReadFalse"
    using ReadNormal_view [OF assms(1), of unser k ?db] assms(4) by (simp add: db_Read_def view_def apply_batch_append)
  moreover have "db_Exists env k ?db = Some True"
    using assms(4,5) leveldb_lawD(1) [OF assms(1)] by (simp add: db_Exists_def ExistsNormal_def)
  ultimately show ?thesis
    using assms by (simp add: db_Erase_def EraseNormal_def)
qed

theorem Exists_ignores_pending_delete_witness:
  "\<exists>db'. db_Erase list_db [1] (sample_db\<lparr> activeBatch := Some [] \<rparr>) = Some (True, db') \<and>
     db_Read list_db (Unserialize_word :: byte reader) [1] db' = Some ReadFalse \<and> db_Exists list_db [1] db' = Some True"
  by (rule Exists_ignores_pending_delete [OF leveldb_law_list, of _ "[]" _ "[2]"]) (simp_all add: sample_db_def)

end
