(* ===== verification/Tx_Check.thy ===== *)
theory Tx_Check
  imports Script_Sign
begin

text \<open>
  The checks of a transaction that need no context (\<^verbatim>\<open>src/src/block/transaction.cpp\<close>): amounts,
  \<^verbatim>\<open>CheckTransaction\<close>, standardness, signature operations and the minimum fee. Amounts are \<^verbatim>\<open>int64_t\<close>:
  sums wrap, and \<open>sint\<close> reads them. The penalty that \<^verbatim>\<open>DoS\<close> adds to the transaction is the second
  component of a verdict; \<open>None\<close> is a failed assertion or an exception.
\<close>

section \<open>Amounts and limits\<close>

definition COIN :: int where "COIN = 1000000"
definition CENT :: int where "CENT = 10000"
definition MAX_BLOCK_SIZE :: nat where "MAX_BLOCK_SIZE = 1000000"
definition MAX_BLOCK_SIZE_GEN :: nat where "MAX_BLOCK_SIZE_GEN = MAX_BLOCK_SIZE div 2"
definition MAX_BLOCK_SIGOPS :: nat where "MAX_BLOCK_SIGOPS = MAX_BLOCK_SIZE div 50"
definition MIN_TX_FEE :: int where "MIN_TX_FEE = 10000"
definition MIN_RELAY_TX_FEE :: int where "MIN_RELAY_TX_FEE = MIN_TX_FEE"
definition MAX_MONEY :: int where "MAX_MONEY = 8000000 * COIN"

definition MoneyRange :: "64 word \<Rightarrow> bool" where
  "MoneyRange nValue \<longleftrightarrow> sint nValue \<ge> 0 \<and> sint nValue \<le> MAX_MONEY"

fun value_out :: "CTxOut list \<Rightarrow> 64 word \<Rightarrow> 64 word option" where
  "value_out [] nValueOut = Some nValueOut"
| "value_out (txout # vout) nValueOut =
     (let nValueOut = nValueOut + get_nValue txout in
      if \<not> MoneyRange (get_nValue txout) \<or> \<not> MoneyRange nValueOut then None
      else value_out vout nValueOut)"

definition GetValueOut :: "CTransaction \<Rightarrow> 64 word option" where
  "GetValueOut tx = value_out (get_vout tx) 0"

section \<open>CheckTransaction\<close>

type_synonym verdict = "bool \<times> nat"

definition DoS :: "nat \<Rightarrow> bool \<Rightarrow> verdict" where
  "DoS nDoSIn fIn = (fIn, nDoSIn)"

text \<open>\<^verbatim>\<open>::GetSerializeSize\<close> counts the bytes that the serialisation would write.\<close>

definition tx_size :: "CTransaction \<Rightarrow> nat option" where
  "tx_size tx = map_option length (CTransaction_Serialize tx)"

fun check_outputs :: "bool \<Rightarrow> CTxOut list \<Rightarrow> 64 word \<Rightarrow> verdict" where
  "check_outputs base_or_stake [] nValueOut = (True, 0)"
| "check_outputs base_or_stake (txout # vout) nValueOut =
     (if CTxOut_IsEmpty txout \<and> \<not> base_or_stake then DoS 100 False
      else if sint (get_nValue txout) < 0 then DoS 100 False
      else if sint (get_nValue txout) > MAX_MONEY then DoS 100 False
      else let nValueOut = nValueOut + get_nValue txout in
      if \<not> MoneyRange nValueOut then DoS 100 False
      else check_outputs base_or_stake vout nValueOut)"

fun duplicate_inputs :: "CTxIn list \<Rightarrow> COutPoint set \<Rightarrow> bool" where
  "duplicate_inputs [] vInOutPoints = False"
| "duplicate_inputs (txin # vin) vInOutPoints =
     (if get_prevout txin \<in> vInOutPoints then True
      else duplicate_inputs vin (insert (get_prevout txin) vInOutPoints))"

definition check_inputs :: "CTransaction \<Rightarrow> verdict" where
  "check_inputs tx =
     (if IsCoinBase tx
      then (let nSize = length (get_scriptSig (get_vin tx ! 0)) in
            if nSize < 2 \<or> nSize > 100 then DoS 100 False else (True, 0))
      else if list_ex (\<lambda>txin. COutPoint_IsNull (get_prevout txin)) (get_vin tx) then DoS 10 False
      else (True, 0))"

definition CheckTransaction :: "CTransaction \<Rightarrow> verdict option" where
  "CheckTransaction tx =
     (if get_vin tx = [] then Some (DoS 10 False)
      else if get_vout tx = [] then Some (DoS 10 False)
      else case tx_size tx of
        None \<Rightarrow> None
      | Some nSize \<Rightarrow>
          if nSize > MAX_BLOCK_SIZE then Some (DoS 100 False)
          else (case check_outputs (IsCoinBase tx \<or> IsCoinStake tx) (get_vout tx) 0 of
                  (False, penalty) \<Rightarrow> Some (False, penalty)
                | (True, _) \<Rightarrow>
                    if duplicate_inputs (get_vin tx) {} then Some (False, 0)
                    else Some (check_inputs tx)))"

section \<open>Standard transactions\<close>

fun standard_inputs :: "CTxIn list \<Rightarrow> string option" where
  "standard_inputs [] = None"
| "standard_inputs (txin # vin) =
     (if length (get_scriptSig txin) > 1650 then Some ''scriptsig-size''
      else if \<not> IsPushOnly (get_scriptSig txin) then Some ''scriptsig-not-pushonly''
      else if \<not> HasCanonicalPushes (get_scriptSig txin) then Some ''txin-scriptsig-not-canonicalpushes''
      else standard_inputs vin)"

fun standard_outputs :: "CTxOut list \<Rightarrow> nat \<Rightarrow> string + nat" where
  "standard_outputs [] nDataOut = Inr nDataOut"
| "standard_outputs (txout # vout) nDataOut =
     (case Script_IsStandard (get_scriptPubKey txout) of
        (False, _) \<Rightarrow> Inl ''scriptpubkey''
      | (True, whichType) \<Rightarrow>
          if whichType = TX_NULL_DATA then standard_outputs vout (nDataOut + 1)
          else if get_nValue txout = 0 then Inl ''txout-value=0''
          else if \<not> HasCanonicalPushes (get_scriptPubKey txout) then Inl ''txout-scriptsig-not-canonicalpushes''
          else standard_outputs vout nDataOut)"

text \<open>The reason why a transaction is not standard, or \<open>None\<close>.\<close>

definition IsStandard :: "CTransaction \<Rightarrow> string option" where
  "IsStandard tx =
     (if sint (get_nVersion tx) > 1 then Some ''version''
      else case standard_inputs (get_vin tx) of
        Some strReason \<Rightarrow> Some strReason
      | None \<Rightarrow>
          (case standard_outputs (get_vout tx) 0 of
             Inl strReason \<Rightarrow> Some strReason
           | Inr nDataOut \<Rightarrow> if nDataOut > 1 then Some ''multi-op-return'' else None))"

section \<open>Signature operations and fees\<close>

fun add_sigops :: "bytes list \<Rightarrow> 32 word \<Rightarrow> 32 word option" where
  "add_sigops [] nSigOps = Some nSigOps"
| "add_sigops (script # scripts) nSigOps =
     Option.bind (GetSigOpCount script False) (\<lambda>n. add_sigops scripts (nSigOps + n))"

definition GetLegacySigOpCount :: "CTransaction \<Rightarrow> 32 word option" where
  "GetLegacySigOpCount tx =
     Option.bind (if \<not> IsCoinBase tx then add_sigops (map get_scriptSig (get_vin tx)) 0 else Some 0)
       (add_sigops (map get_scriptPubKey (get_vout tx)))"

datatype GetMinFee_mode = GMF_BLOCK | GMF_RELAY | GMF_SEND

fun dust_fee :: "CTxOut list \<Rightarrow> 64 word \<Rightarrow> 64 word \<Rightarrow> 64 word" where
  "dust_fee [] nBaseFee nMinFee = nMinFee"
| "dust_fee (txout # vout) nBaseFee nMinFee =
     dust_fee vout nBaseFee
       (if sint (get_nValue txout) < CENT \<and> \<not> CTxOut_IsEmpty txout then nMinFee + nBaseFee else nMinFee)"

definition GetMinFee :: "CTransaction \<Rightarrow> 32 word \<Rightarrow> bool \<Rightarrow> GetMinFee_mode \<Rightarrow> 32 word \<Rightarrow> 64 word" where
  "GetMinFee tx nBlockSize fAllowFree mode nBytes =
     (let
        nMinTxFee = (if IsCoinStake tx then word_of_int CENT else word_of_int MIN_TX_FEE);
        nMinRelayTxFee = (if IsCoinStake tx then word_of_int CENT else word_of_int MIN_RELAY_TX_FEE);
        nBaseFee = (if mode = GMF_RELAY then nMinRelayTxFee else nMinTxFee);
        nNewBlockSize = nBlockSize + nBytes;
        nMinFee = (1 + word_of_nat (unat nBytes div 1000)) * nBaseFee;
        nMinFee =
          (if fAllowFree
           then if nBlockSize = 1 then (if nBytes < 1000 then 0 else nMinFee)
                else (if nNewBlockSize < 27000 then 0 else nMinFee)
           else nMinFee);
        nMinFee = dust_fee (get_vout tx) nBaseFee nMinFee;
        nearly_full = nBlockSize \<noteq> 1 \<and> unat nNewBlockSize \<ge> MAX_BLOCK_SIZE_GEN div 2
      in
      if nearly_full \<and> unat nNewBlockSize \<ge> MAX_BLOCK_SIZE_GEN then word_of_int MAX_MONEY
      else let nMinFee =
        (if nearly_full
         then nMinFee * word_of_nat (MAX_BLOCK_SIZE_GEN div (MAX_BLOCK_SIZE_GEN - unat nNewBlockSize))
         else nMinFee)
      in if \<not> MoneyRange nMinFee then word_of_int MAX_MONEY else nMinFee)"

section \<open>Sums of amounts\<close>

definition total_out :: "CTxOut list \<Rightarrow> int" where
  "total_out vout = (\<Sum>txout \<leftarrow> vout. sint (get_nValue txout))"

lemma total_out_simps [simp]:
  "total_out [] = 0" "total_out (txout # vout) = sint (get_nValue txout) + total_out vout"
  by (simp_all add: total_out_def)

lemma total_out_nonneg: "\<forall>txout \<in> set vout. 0 \<le> sint (get_nValue txout) \<Longrightarrow> 0 \<le> total_out vout"
  by (induction vout) auto

lemma sint_money_add:
  assumes "MoneyRange a" "MoneyRange b"
  shows "sint (a + b) = sint a + sint b"
  unfolding sint_word_ariths(1)
  by (rule signed_take_bit_int_eq_self) (use assms in \<open>simp_all add: MoneyRange_def MAX_MONEY_def COIN_def\<close>)

lemma check_outputs_iff:
  assumes "MoneyRange acc"
  shows "fst (check_outputs bs vout acc) \<longleftrightarrow>
    (\<forall>txout \<in> set vout. 0 \<le> sint (get_nValue txout) \<and> (CTxOut_IsEmpty txout \<longrightarrow> bs)) \<and>
    sint acc + total_out vout \<le> MAX_MONEY"
  using assms
proof (induction vout arbitrary: acc)
  case (Cons txout vout)
  show ?case
  proof (cases "MoneyRange (get_nValue txout)")
    case True
    note add = sint_money_add [OF Cons.prems True]
    show ?thesis
    proof (cases "MoneyRange (acc + get_nValue txout)")
      case ok: True
      show ?thesis
        using Cons.IH [OF ok] True ok add by (auto simp: DoS_def Let_def MoneyRange_def)
    next
      case False
      then have "sint acc + sint (get_nValue txout) > MAX_MONEY"
        using add True Cons.prems by (simp add: MoneyRange_def)
      then have "\<not> sint acc + total_out (txout # vout) \<le> MAX_MONEY"
        if "\<forall>txout \<in> set vout. 0 \<le> sint (get_nValue txout)"
        using total_out_nonneg [OF that] by simp
      with False True show ?thesis by (auto simp: DoS_def Let_def MoneyRange_def)
    qed
  next
    case False
    have "\<not> sint acc + total_out (txout # vout) \<le> MAX_MONEY"
      if "0 \<le> sint (get_nValue txout)" "\<forall>txout \<in> set vout. 0 \<le> sint (get_nValue txout)"
      using total_out_nonneg [OF that(2)] that(1) False Cons.prems by (auto simp: MoneyRange_def)
    with False show ?thesis by (auto simp: DoS_def MoneyRange_def)
  qed
qed (simp add: MoneyRange_def)

lemma check_outputs_True: "fst (check_outputs bs vout acc) \<Longrightarrow> check_outputs bs vout acc = (True, 0)"
  by (induction vout arbitrary: acc) (auto simp: DoS_def Let_def split: if_splits)

lemma value_out_iff:
  assumes "MoneyRange acc"
  shows "value_out vout acc = Some r \<longleftrightarrow>
    (\<forall>txout \<in> set vout. 0 \<le> sint (get_nValue txout)) \<and> sint acc + total_out vout \<le> MAX_MONEY \<and>
    sint r = sint acc + total_out vout"
  using assms
proof (induction vout arbitrary: acc)
  case Nil
  then show ?case by (auto simp: MoneyRange_def dest: signed_word_eqI)
next
  case (Cons txout vout)
  show ?case
  proof (cases "MoneyRange (get_nValue txout) \<and> MoneyRange (acc + get_nValue txout)")
    case True
    then show ?thesis
      using Cons.IH [of "acc + get_nValue txout"] sint_money_add [OF Cons.prems, of "get_nValue txout"]
      by (auto simp: Let_def MoneyRange_def)
  next
    case False
    have "\<not> sint acc + total_out (txout # vout) \<le> MAX_MONEY"
      if a: "0 \<le> sint (get_nValue txout)" and b: "\<forall>txout \<in> set vout. 0 \<le> sint (get_nValue txout)"
    proof (cases "MoneyRange (get_nValue txout)")
      case True
      then show ?thesis
        using False total_out_nonneg [OF b] sint_money_add [OF Cons.prems True] a Cons.prems by (auto simp: MoneyRange_def)
    next
      case f: False
      then show ?thesis using total_out_nonneg [OF b] a Cons.prems by (auto simp: MoneyRange_def)
    qed
    with False show ?thesis by (auto simp: Let_def)
  qed
qed

lemma MoneyRange_0 [simp]: "MoneyRange 0"
  by (simp add: MoneyRange_def MAX_MONEY_def COIN_def)

lemma GetValueOut_iff:
  "GetValueOut tx = Some r \<longleftrightarrow>
    (\<forall>txout \<in> set (get_vout tx). 0 \<le> sint (get_nValue txout)) \<and> total_out (get_vout tx) \<le> MAX_MONEY \<and>
    sint r = total_out (get_vout tx)"
  unfolding GetValueOut_def by (simp add: value_out_iff)

lemma duplicate_inputs_iff:
  "duplicate_inputs vin S \<longleftrightarrow> \<not> (distinct (map get_prevout vin) \<and> get_prevout ` set vin \<inter> S = {})"
  by (induction vin arbitrary: S) auto

section \<open>Properties\<close>

definition valid_tx :: "CTransaction \<Rightarrow> bool" where
  "valid_tx tx \<longleftrightarrow>
     get_nVersion tx \<in> {1, 2} \<and> get_vin tx \<noteq> [] \<and> get_vout tx \<noteq> [] \<and> length (tx_body tx) \<le> 1000000 \<and>
     (\<forall>txout \<in> set (get_vout tx). 0 \<le> sint (get_nValue txout) \<and>
        (CTxOut_IsEmpty txout \<longrightarrow> IsCoinBase tx \<or> IsCoinStake tx)) \<and>
     (\<Sum>txout \<leftarrow> get_vout tx. sint (get_nValue txout)) \<le> 8000000 * 1000000 \<and>
     distinct (map get_prevout (get_vin tx)) \<and>
     (if IsCoinBase tx then length (get_scriptSig (hd (get_vin tx))) \<in> {2..100}
      else \<forall>txin \<in> set (get_vin tx). \<not> COutPoint_IsNull (get_prevout txin))"

lemma CheckTransaction_iff_valid:
  "(CheckTransaction tx = Some (True, 0) \<longleftrightarrow> valid_tx tx) \<and>
   (valid_tx tx \<longrightarrow> (\<exists>r. GetValueOut tx = Some r \<and> sint r = (\<Sum>txout \<leftarrow> get_vout tx. sint (get_nValue txout))))"
proof
  let ?bs = "IsCoinBase tx \<or> IsCoinStake tx"
  have "CheckTransaction tx = Some (True, 0) \<longleftrightarrow>
      get_vin tx \<noteq> [] \<and> get_vout tx \<noteq> [] \<and> (\<exists>n. tx_size tx = Some n \<and> n \<le> 1000000) \<and>
      fst (check_outputs ?bs (get_vout tx) 0) \<and> \<not> duplicate_inputs (get_vin tx) {} \<and> check_inputs tx = (True, 0)"
    unfolding CheckTransaction_def MAX_BLOCK_SIZE_def
    by (cases "check_outputs ?bs (get_vout tx) 0"; cases "tx_size tx") (auto simp: DoS_def split: bool.split)
  then show "CheckTransaction tx = Some (True, 0) \<longleftrightarrow> valid_tx tx"
    by (cases "get_vin tx = []")
      (auto simp: valid_tx_def tx_size_def CTransaction_Serialize_def check_outputs_iff duplicate_inputs_iff check_inputs_def
        total_out_def MAX_MONEY_def COIN_def Let_def DoS_def list_ex_iff hd_conv_nth)
  have "GetValueOut tx = Some (word_of_int (total_out (get_vout tx)))" if "valid_tx tx"
  proof -
    have "0 \<le> total_out (get_vout tx)" "total_out (get_vout tx) \<le> 8000000 * 1000000"
      using that total_out_nonneg [of "get_vout tx"] by (auto simp: valid_tx_def total_out_def)
    then have "sint (word_of_int (total_out (get_vout tx)) :: 64 word) = total_out (get_vout tx)"
      by (simp add: sint_sbintrunc' signed_take_bit_int_eq_self)
    with that show ?thesis
      unfolding GetValueOut_iff by (auto simp: valid_tx_def total_out_def MAX_MONEY_def COIN_def)
  qed
  then show "valid_tx tx \<longrightarrow> (\<exists>r. GetValueOut tx = Some r \<and> sint r = (\<Sum>txout \<leftarrow> get_vout tx. sint (get_nValue txout)))"
    using GetValueOut_iff [of tx] by (auto simp: total_out_def)
qed

text \<open>
  \<^verbatim>\<open>CheckTransaction\<close> accepts exactly the transactions with inputs and outputs, of at most a
  megabyte, whose amounts are not negative and have a sum, as a number, of at most the money
  supply, with no input twice, and with inputs that fit the kind of the transaction; and for such
  a transaction \<^verbatim>\<open>GetValueOut\<close> returns that sum.
\<close>

theorem CheckTransaction_valid:
  "(CheckTransaction tx = Some (True, 0) \<longleftrightarrow> valid_tx tx) \<and>
   (valid_tx tx \<longrightarrow> (\<exists>r. GetValueOut tx = Some r \<and> sint r = (\<Sum>txout \<leftarrow> get_vout tx. sint (get_nValue txout))))"
  by (rule CheckTransaction_iff_valid)

theorem CheckTransaction_valid_witness:
  "CheckTransaction sample_tx = Some (True, 0) \<and> (\<exists>r. GetValueOut sample_tx = Some r \<and> sint r = 1)"
proof -
  have "valid_tx sample_tx"
    by (simp add: valid_tx_def sample_tx_def tx_body_def Serialize_CTxIn_def Serialize_CTxOut_def Serialize_COutPoint_def
        Serialize_vector_def Serialize_bytes_def WriteCompactSize_def COutPoint_IsNull_def CTxOut_IsEmpty_def IsCoinBase_def)
  then show ?thesis
    using CheckTransaction_valid [of sample_tx] by (simp add: sample_tx_def)
qed

end
