(* ===== verification/Tx_DB.thy ===== *)
theory Tx_DB
  imports Level_DB Tx_Check
begin

text \<open>
  The transaction index (\<^verbatim>\<open>CDiskTxPos\<close> and \<^verbatim>\<open>CTxIndex\<close> of \<^verbatim>\<open>src/src/block/transaction.h\<close>, \<^verbatim>\<open>CTxDB\<close> of
  \<^verbatim>\<open>src/src/txdb-leveldb.cpp\<close>): for each transaction of the main chain its position and, for each of
  its outputs, the position of the transaction that spends it. The locale \<open>tx_index\<close> is what the
  clients of the index rely on: the entries as a map, and that writes in an open transaction succeed.
\<close>

section \<open>Positions and index entries\<close>

record CDiskTxPos =
  get_nFile :: "32 word"
  get_nBlockPos :: "32 word"
  get_nTxPos :: "32 word"

definition CDiskTxPos_null :: CDiskTxPos where
  "CDiskTxPos_null = \<lparr> get_nFile = 0xffffffff, get_nBlockPos = 0, get_nTxPos = 0 \<rparr>"

definition CDiskTxPos_IsNull :: "CDiskTxPos \<Rightarrow> bool" where
  "CDiskTxPos_IsNull pos \<longleftrightarrow> get_nFile pos = 0xffffffff"

text \<open>\<^verbatim>\<open>CDiskTxPos(1,1,1)\<close>, which says that the transaction is in the memory pool.\<close>

definition mempool_pos :: CDiskTxPos where
  "mempool_pos = \<lparr> get_nFile = 1, get_nBlockPos = 1, get_nTxPos = 1 \<rparr>"

record CTxIndex =
  get_pos :: CDiskTxPos
  get_vSpent :: "CDiskTxPos list"

definition CTxIndex_SetNull :: CTxIndex where
  "CTxIndex_SetNull = \<lparr> get_pos = CDiskTxPos_null, get_vSpent = [] \<rparr>"

definition new_CTxIndex :: "CDiskTxPos \<Rightarrow> nat \<Rightarrow> CTxIndex" where
  "new_CTxIndex posIn nOutputs = \<lparr> get_pos = posIn, get_vSpent = replicate nOutputs CDiskTxPos_null \<rparr>"

definition Serialize_CDiskTxPos :: "CDiskTxPos \<Rightarrow> bytes" where
  "Serialize_CDiskTxPos pos =
     Serialize_word (get_nFile pos) @ Serialize_word (get_nBlockPos pos) @ Serialize_word (get_nTxPos pos)"

definition Unserialize_CDiskTxPos :: "CDiskTxPos reader" where
  "Unserialize_CDiskTxPos =
     bind_reader Unserialize_word (\<lambda>f. bind_reader Unserialize_word (\<lambda>b. bind_reader Unserialize_word (\<lambda>t.
     return_reader \<lparr> get_nFile = f, get_nBlockPos = b, get_nTxPos = t \<rparr>)))"

definition Serialize_CTxIndex :: "CTxIndex \<Rightarrow> bytes" where
  "Serialize_CTxIndex txindex =
     Serialize_word (0 :: 32 word) @ Serialize_CDiskTxPos (get_pos txindex) @
     Serialize_vector Serialize_CDiskTxPos (get_vSpent txindex)"

definition Unserialize_CTxIndex :: "CTxIndex reader" where
  "Unserialize_CTxIndex =
     bind_reader (Unserialize_word :: 32 word reader) (\<lambda>nVersion. bind_reader Unserialize_CDiskTxPos (\<lambda>p.
     bind_reader (Unserialize_vector Unserialize_CDiskTxPos) (\<lambda>spent.
     return_reader \<lparr> get_pos = p, get_vSpent = spent \<rparr>)))"

section \<open>The database\<close>

definition bytes_of_string :: "string \<Rightarrow> bytes" where
  "bytes_of_string s = map (\<lambda>c. word_of_nat (of_char c)) s"

definition tx_key :: "uint256 \<Rightarrow> bytes" where
  "tx_key hash = Serialize_bytes (bytes_of_string ''tx'') @ Serialize_word hash"

definition ReadTxIndex :: "'d leveldb \<Rightarrow> uint256 \<Rightarrow> 'd CLevelDB \<Rightarrow> CTxIndex db_read option" where
  "ReadTxIndex env hash db = db_Read env Unserialize_CTxIndex (tx_key hash) db"

definition UpdateTxIndex :: "'d leveldb \<Rightarrow> uint256 \<Rightarrow> CTxIndex \<Rightarrow> 'd CLevelDB \<Rightarrow> (bool \<times> 'd CLevelDB) option" where
  "UpdateTxIndex env hash txindex db = db_Write env (tx_key hash) (Serialize_CTxIndex txindex) True db"

definition AddTxIndex ::
  "'d leveldb \<Rightarrow> (bytes \<Rightarrow> uint256) \<Rightarrow> CTransaction \<Rightarrow> CDiskTxPos \<Rightarrow> 'd CLevelDB \<Rightarrow> (bool \<times> 'd CLevelDB) option" where
  "AddTxIndex env Hash tx pos db =
     Option.bind (CTransaction_GetHash Hash tx) (\<lambda>hash.
       db_Write env (tx_key hash) (Serialize_CTxIndex (new_CTxIndex pos (length (get_vout tx)))) True db)"

definition EraseTxIndex ::
  "'d leveldb \<Rightarrow> (bytes \<Rightarrow> uint256) \<Rightarrow> CTransaction \<Rightarrow> 'd CLevelDB \<Rightarrow> (bool \<times> 'd CLevelDB) option" where
  "EraseTxIndex env Hash tx db = Option.bind (CTransaction_GetHash Hash tx) (\<lambda>hash. db_Erase env (tx_key hash) db)"

definition ContainsTx :: "'d leveldb \<Rightarrow> uint256 \<Rightarrow> 'd CLevelDB \<Rightarrow> bool option" where
  "ContainsTx env hash db = db_Exists env (tx_key hash) db"

text \<open>The block files are a parameter: the transaction at a position, if it can be read.\<close>

definition ReadDiskTx ::
  "'d leveldb \<Rightarrow> (CDiskTxPos \<Rightarrow> CTransaction option) \<Rightarrow> uint256 \<Rightarrow> 'd CLevelDB \<Rightarrow> (CTransaction \<times> CTxIndex) db_read option" where
  "ReadDiskTx env files hash db =
     map_option (\<lambda>r. case r of
         ReadFalse \<Rightarrow> ReadFalse
       | ReadBeyondEnd \<Rightarrow> ReadBeyondEnd
       | ReadTrue txindex \<Rightarrow> (case files (get_pos txindex) of None \<Rightarrow> ReadFalse | Some tx \<Rightarrow> ReadTrue (tx, txindex)))
       (ReadTxIndex env hash db)"

definition ReadHashBestChain :: "'d leveldb \<Rightarrow> 'd CLevelDB \<Rightarrow> uint256 db_read option" where
  "ReadHashBestChain env db = db_Read env Unserialize_word (Serialize_bytes (bytes_of_string ''hashBestChain'')) db"

definition WriteHashBestChain :: "'d leveldb \<Rightarrow> uint256 \<Rightarrow> 'd CLevelDB \<Rightarrow> (bool \<times> 'd CLevelDB) option" where
  "WriteHashBestChain env hashBestChain db =
     db_Write env (Serialize_bytes (bytes_of_string ''hashBestChain'')) (Serialize_word hashBestChain) True db"

definition ReadSyncCheckpoint :: "'d leveldb \<Rightarrow> 'd CLevelDB \<Rightarrow> uint256 db_read option" where
  "ReadSyncCheckpoint env db = db_Read env Unserialize_word (Serialize_bytes (bytes_of_string ''hashSyncCheckpoint'')) db"

definition WriteSyncCheckpoint :: "'d leveldb \<Rightarrow> uint256 \<Rightarrow> 'd CLevelDB \<Rightarrow> (bool \<times> 'd CLevelDB) option" where
  "WriteSyncCheckpoint env hashCheckpoint db =
     db_Write env (Serialize_bytes (bytes_of_string ''hashSyncCheckpoint'')) (Serialize_word hashCheckpoint) True db"

definition ReadCheckpointPubKey :: "'d leveldb \<Rightarrow> 'd CLevelDB \<Rightarrow> bytes db_read option" where
  "ReadCheckpointPubKey env db = db_Read env Unserialize_bytes (Serialize_bytes (bytes_of_string ''strCheckpointPubKey'')) db"

definition WriteCheckpointPubKey :: "'d leveldb \<Rightarrow> bytes \<Rightarrow> 'd CLevelDB \<Rightarrow> (bool \<times> 'd CLevelDB) option" where
  "WriteCheckpointPubKey env strPubKey db =
     db_Write env (Serialize_bytes (bytes_of_string ''strCheckpointPubKey'')) (Serialize_bytes strPubKey) True db"

definition ReadModifierUpgradeTime :: "'d leveldb \<Rightarrow> 'd CLevelDB \<Rightarrow> 32 word db_read option" where
  "ReadModifierUpgradeTime env db = db_Read env Unserialize_word (Serialize_bytes (bytes_of_string ''nUpgradeTime'')) db"

definition WriteModifierUpgradeTime :: "'d leveldb \<Rightarrow> 32 word \<Rightarrow> 'd CLevelDB \<Rightarrow> (bool \<times> 'd CLevelDB) option" where
  "WriteModifierUpgradeTime env nUpgradeTime db =
     db_Write env (Serialize_bytes (bytes_of_string ''nUpgradeTime'')) (Serialize_word nUpgradeTime) True db"

section \<open>The contract of the index\<close>

definition wf_index :: "CTxIndex \<Rightarrow> bool" where
  "wf_index txindex \<longleftrightarrow> length (get_vSpent txindex) \<le> MAX_SIZE"

locale tx_index =
  fixes ok :: "'s \<Rightarrow> bool" and live :: "'s \<Rightarrow> bool" and index :: "'s \<Rightarrow> uint256 \<rightharpoonup> CTxIndex"
    and rd :: "uint256 \<Rightarrow> 's \<Rightarrow> CTxIndex db_read option"
    and upd :: "uint256 \<Rightarrow> CTxIndex \<Rightarrow> 's \<Rightarrow> (bool \<times> 's) option"
    and era :: "uint256 \<Rightarrow> 's \<Rightarrow> (bool \<times> 's) option"
  assumes rd_index: "ok s \<Longrightarrow> rd h s = Some (case index s h of None \<Rightarrow> ReadFalse | Some x \<Rightarrow> ReadTrue x)"
    and upd_index: "ok s \<Longrightarrow> wf_index x \<Longrightarrow>
      \<exists>b s'. upd h x s = Some (b, s') \<and> ok s' \<and> index s' = (if b then (index s)(h \<mapsto> x) else index s)"
    and era_index: "ok s \<Longrightarrow> \<exists>b s'. era h s = Some (b, s') \<and> ok s' \<and> index s' = (if b then (index s)(h := None) else index s)"
    and wf_index: "ok s \<Longrightarrow> index s h = Some x \<Longrightarrow> wf_index x"
    and upd_live: "ok s \<Longrightarrow> live s \<Longrightarrow> upd h x s = Some (b, s') \<Longrightarrow> b \<and> live s'"
    and era_live: "ok s \<Longrightarrow> live s \<Longrightarrow> era h s = Some (b, s') \<Longrightarrow> b \<and> live s'"
begin

lemma upd_in_transaction:
  assumes "ok s" "live s" "wf_index x"
  obtains s' where "upd h x s = Some (True, s')" "ok s'" "live s'" "index s' = (index s)(h \<mapsto> x)"
  using upd_index [OF assms(1,3), of h] upd_live [OF assms(1,2), of h x] by auto

lemma era_in_transaction:
  assumes "ok s" "live s"
  obtains s' where "era h s = Some (True, s')" "ok s'" "live s'" "index s' = (index s)(h := None)"
  using era_index [OF assms(1), of h] era_live [OF assms, of h] by auto

end

section \<open>The database provides the index\<close>

interpretation codec_pos: codec Serialize_CDiskTxPos Unserialize_CDiskTxPos "\<lambda>_. True"
proof -
  have iff: "Unserialize_CDiskTxPos s = Inr (p, rest) \<longleftrightarrow> True \<and> s = Serialize_CDiskTxPos p @ rest" for s p rest
    by (cases p) (auto simp: Unserialize_CDiskTxPos_def Serialize_CDiskTxPos_def bind_reader_Inr return_reader_def word_reads)
  show "codec Serialize_CDiskTxPos Unserialize_CDiskTxPos (\<lambda>_. True)"
    by unfold_locales (simp_all add: iff)
qed

interpretation codec_spent: codec "Serialize_vector Serialize_CDiskTxPos" "Unserialize_vector Unserialize_CDiskTxPos"
    "\<lambda>v. length v \<le> MAX_SIZE \<and> list_all (\<lambda>_. True) v"
  by (rule codec_vector) (rule codec_pos.codec_axioms)

lemma Unserialize_Serialize_CTxIndex:
  assumes "wf_index x"
  shows "Unserialize_CTxIndex (Serialize_CTxIndex x) = Inr (x, [])"
  using assms
  by (cases x) (auto simp: Unserialize_CTxIndex_def Serialize_CTxIndex_def bind_reader_Inr return_reader_def wf_index_def
      codec_uint32.unser_iff codec_pos.unser_iff codec_spent.unser_iff list_all_iff)

lemma Serialize_CTxIndex_not_Nil [simp]: "Serialize_CTxIndex x \<noteq> []"
proof -
  have "length (Serialize_CTxIndex x) \<ge> 4" by (simp add: Serialize_CTxIndex_def)
  then show ?thesis by auto
qed

lemma CDBStream_read_index: "wf_index x \<Longrightarrow> CDBStream_read Unserialize_CTxIndex (Serialize_CTxIndex x) = Some (ReadTrue x)"
  by (simp add: CDBStream_read_def Unserialize_Serialize_CTxIndex)

lemma tx_key_inj [simp]: "tx_key h = tx_key h' \<longleftrightarrow> h = h'"
  using codec_uint256.ser_inj [of h h'] by (auto simp: tx_key_def)

lemma write_view:
  assumes "leveldb_law env content" "\<not> fReadOnly db" "\<not> fSecure db"
  shows "\<exists>b db'. db_Write env k v True db = Some (b, db') \<and> \<not> fReadOnly db' \<and> \<not> fSecure db' \<and>
      view content db' = (if b then (view content db)(k \<mapsto> v) else view content db)"
    "\<exists>b db'. db_Erase env k db = Some (b, db') \<and> \<not> fReadOnly db' \<and> \<not> fSecure db' \<and>
      view content db' = (if b then (view content db)(k := None) else view content db)"
proof -
  obtain b d where p: "ldb_Put env (pdb db) k v = (b, d)" by (cases "ldb_Put env (pdb db) k v")
  obtain b' d' where q: "ldb_Delete env (pdb db) k = (b', d')" by (cases "ldb_Delete env (pdb db) k")
  show "\<exists>b db'. db_Write env k v True db = Some (b, db') \<and> \<not> fReadOnly db' \<and> \<not> fSecure db' \<and>
      view content db' = (if b then (view content db)(k \<mapsto> v) else view content db)"
    using assms(2,3) p leveldb_lawD(2) [OF assms(1) p]
    by (cases "activeBatch db") (auto simp: db_Write_def WriteNormal_def view_def apply_batch_append)
  show "\<exists>b db'. db_Erase env k db = Some (b, db') \<and> \<not> fReadOnly db' \<and> \<not> fSecure db' \<and>
      view content db' = (if b then (view content db)(k := None) else view content db)"
    using assms(2,3) q leveldb_lawD(3) [OF assms(1) q]
    by (cases "activeBatch db") (auto simp: db_Erase_def EraseNormal_def view_def apply_batch_append)
qed

definition txdb_ok :: "'d leveldb \<Rightarrow> ('d \<Rightarrow> (bytes \<rightharpoonup> bytes)) \<Rightarrow> 'd CLevelDB \<Rightarrow> bool" where
  "txdb_ok env content db \<longleftrightarrow>
     leveldb_law env content \<and> \<not> fReadOnly db \<and> \<not> fSecure db \<and>
     (\<forall>h v. view content db (tx_key h) = Some v \<longrightarrow> (\<exists>x. wf_index x \<and> v = Serialize_CTxIndex x))"

definition txdb_index :: "('d \<Rightarrow> (bytes \<rightharpoonup> bytes)) \<Rightarrow> 'd CLevelDB \<Rightarrow> uint256 \<rightharpoonup> CTxIndex" where
  "txdb_index content db h =
     Option.bind (view content db (tx_key h)) (\<lambda>v. case Unserialize_CTxIndex v of Inr (x, _) \<Rightarrow> Some x | Inl _ \<Rightarrow> None)"

lemma txdb_index_cases:
  assumes "txdb_ok env content db"
  obtains "view content db (tx_key h) = None" "txdb_index content db h = None"
  | x where "wf_index x" "view content db (tx_key h) = Some (Serialize_CTxIndex x)" "txdb_index content db h = Some x"
proof (cases "view content db (tx_key h)")
  case None
  then show ?thesis by (intro that(1)) (simp_all add: txdb_index_def)
next
  case (Some v)
  with assms obtain x where "wf_index x" "v = Serialize_CTxIndex x" unfolding txdb_ok_def by blast
  with Some show ?thesis by (intro that(2)) (simp_all add: txdb_index_def Unserialize_Serialize_CTxIndex)
qed

lemma txdb_index_upd:
  assumes "txdb_ok env content db" "wf_index x" "view content db' = (view content db)(tx_key h \<mapsto> Serialize_CTxIndex x)"
    and "\<not> fReadOnly db'" "\<not> fSecure db'"
  shows "txdb_ok env content db'" "txdb_index content db' = (txdb_index content db)(h \<mapsto> x)"
  using assms by (auto simp: txdb_ok_def txdb_index_def fun_eq_iff Unserialize_Serialize_CTxIndex)

lemma txdb_index_era:
  assumes "txdb_ok env content db" "view content db' = (view content db)(tx_key h := None)"
    and "\<not> fReadOnly db'" "\<not> fSecure db'"
  shows "txdb_ok env content db'" "txdb_index content db' = (txdb_index content db)(h := None)"
  using assms by (auto simp: txdb_ok_def txdb_index_def fun_eq_iff)

lemma txdb_same_view:
  assumes "txdb_ok env content db" "view content db' = view content db" "\<not> fReadOnly db'" "\<not> fSecure db'"
  shows "txdb_ok env content db'" "txdb_index content db' = txdb_index content db"
  using assms by (auto simp: txdb_ok_def txdb_index_def fun_eq_iff)

interpretation txdb: tx_index "txdb_ok env content" "\<lambda>db. activeBatch db \<noteq> None" "txdb_index content" "ReadTxIndex env" "UpdateTxIndex env"
    "\<lambda>hash. db_Erase env (tx_key hash)" for env content
proof
  fix db h
  assume ok: "txdb_ok env content db"
  then have law: "leveldb_law env content" "\<not> fReadOnly db" "\<not> fSecure db" by (simp_all add: txdb_ok_def)
  show "ReadTxIndex env h db = Some (case txdb_index content db h of None \<Rightarrow> ReadFalse | Some x \<Rightarrow> ReadTrue x)"
    using ok by (rule txdb_index_cases [of env content db h])
      (simp_all add: ReadTxIndex_def db_Read_def ReadNormal_view [OF law(1)] law(3) CDBStream_read_index)
  show "wf_index x" if "txdb_index content db h = Some x" for x
    using ok by (rule txdb_index_cases [of env content db h]) (use that in simp_all)
  show "\<exists>b db'. UpdateTxIndex env h x db = Some (b, db') \<and> txdb_ok env content db' \<and>
      txdb_index content db' = (if b then (txdb_index content db)(h \<mapsto> x) else txdb_index content db)" if "wf_index x" for x
  proof -
    obtain b db' where w: "db_Write env (tx_key h) (Serialize_CTxIndex x) True db = Some (b, db')" "\<not> fReadOnly db'" "\<not> fSecure db'"
        "view content db' = (if b then (view content db)(tx_key h \<mapsto> Serialize_CTxIndex x) else view content db)"
      using write_view(1) [OF law] by blast
    then show ?thesis
      using txdb_index_upd [OF ok that _ w(2,3)] txdb_same_view [OF ok _ w(2,3)] by (cases b) (auto simp: UpdateTxIndex_def)
  qed
  obtain b db' where w: "db_Erase env (tx_key h) db = Some (b, db')" "\<not> fReadOnly db'" "\<not> fSecure db'"
      "view content db' = (if b then (view content db)(tx_key h := None) else view content db)"
    using write_view(2) [OF law] by blast
  then show "\<exists>b db'. db_Erase env (tx_key h) db = Some (b, db') \<and> txdb_ok env content db' \<and>
      txdb_index content db' = (if b then (txdb_index content db)(h := None) else txdb_index content db)"
    using txdb_index_era [OF ok _ w(2,3)] txdb_same_view [OF ok _ w(2,3)] by (cases b) auto
  show "b \<and> activeBatch db' \<noteq> None" if "activeBatch db \<noteq> None" "UpdateTxIndex env h x db = Some (b, db')" for x b db'
    using that law(2,3) by (auto simp: UpdateTxIndex_def db_Write_def WriteNormal_def)
  show "b \<and> activeBatch db' \<noteq> None" if "activeBatch db \<noteq> None" "db_Erase env (tx_key h) db = Some (b, db')" for b db'
    using that law(2,3) by (auto simp: db_Erase_def EraseNormal_def)
qed

end
