(* ===== verification/Bignum.thy ===== *)
theory Bignum
  imports Script_Sig
begin

text \<open>
  Big numbers (\<^verbatim>\<open>src/src/bignum.h\<close>): the conversions of \<^verbatim>\<open>CBigNum\<close> between machine integers, compact
  targets and OpenSSL numbers. A number is an \<open>int\<close>. OpenSSL is a parameter: \<open>bn2mpi\<close> and \<open>mpi2bn\<close>
  stand for \<^verbatim>\<open>BN_bn2mpi\<close> and \<^verbatim>\<open>BN_mpi2bn\<close>, and \<open>bn_law\<close> states the documented MPI format: four bytes of
  length, then the magnitude, most significant byte first, with the sign in the top bit.
  \<^verbatim>\<open>BN_set_word\<close> is used where a word of OpenSSL has 64 bits.
\<close>

record bn_env =
  ulong64 :: bool
  bn_set_word :: "64 word \<Rightarrow> int"
  bn2mpi :: "int \<Rightarrow> bytes"
  mpi2bn :: "bytes \<Rightarrow> int"

section \<open>Writing numbers\<close>

definition mpi_header :: "nat \<Rightarrow> bytes" where
  "mpi_header nSize = [word_of_nat (nSize div 2 ^ 24), word_of_nat (nSize div 2 ^ 16), word_of_nat (nSize div 2 ^ 8), word_of_nat nSize]"

text \<open>
  The loop of \<^verbatim>\<open>setuint64\<close>, \<^verbatim>\<open>setuint160\<close>, \<^verbatim>\<open>setuint256\<close> and \<^verbatim>\<open>setint64\<close> over the bytes of the number, most
  significant first: leading zeroes are dropped, and the sign goes into the first byte or into a
  byte of its own.
\<close>

fun mpi_bytes :: "bool \<Rightarrow> bytes \<Rightarrow> bytes" where
  "mpi_bytes fNegative [] = []"
| "mpi_bytes fNegative (c # cs) =
     (if c = 0 then mpi_bytes fNegative cs
      else if c AND 0x80 \<noteq> 0 then (if fNegative then 0x80 else 0) # c # cs
      else (if fNegative then c OR 0x80 else c) # cs)"

definition set_magnitude :: "bn_env \<Rightarrow> bool \<Rightarrow> bytes \<Rightarrow> int" where
  "set_magnitude env fNegative cs =
     (let p = mpi_bytes fNegative cs in mpi2bn env (mpi_header (length p) @ p))"

definition setuint64 :: "bn_env \<Rightarrow> 64 word \<Rightarrow> int" where
  "setuint64 env n =
     (if ulong64 env then bn_set_word env n
      else set_magnitude env False (rev (le_bytes 8 (unat n))))"

definition setint64 :: "bn_env \<Rightarrow> 64 word \<Rightarrow> int" where
  "setint64 env sn =
     (if sint sn < 0 then set_magnitude env True (rev (le_bytes 8 (unat (- (sn + 1) + 1))))
      else set_magnitude env False (rev (le_bytes 8 (unat sn))))"

definition setuint160 :: "bn_env \<Rightarrow> uint160 \<Rightarrow> int" where
  "setuint160 env n = set_magnitude env False (rev (le_bytes 20 (unat n)))"

definition setuint256 :: "bn_env \<Rightarrow> uint256 \<Rightarrow> int" where
  "setuint256 env n = set_magnitude env False (rev (le_bytes 32 (unat n)))"

definition setvch :: "bn_env \<Rightarrow> bytes \<Rightarrow> int" where
  "setvch env vch = mpi2bn env (mpi_header (length vch) @ rev vch)"

section \<open>Reading numbers\<close>

definition clear_sign :: "bytes \<Rightarrow> bytes" where
  "clear_sign vch = (if length vch > 4 then vch[4 := vch ! 4 AND 0x7f] else vch)"

text \<open>The low bytes of the number, least significant first, into an integer of \<open>k\<close> bytes.\<close>

definition get_magnitude :: "bn_env \<Rightarrow> nat \<Rightarrow> int \<Rightarrow> nat" where
  "get_magnitude env k bn =
     (let vch = bn2mpi env bn in
      if length vch < 4 then 0
      else le_nat (take k (rev (drop 4 (clear_sign vch)))))"

definition getuint64 :: "bn_env \<Rightarrow> int \<Rightarrow> 64 word" where
  "getuint64 env bn = word_of_nat (get_magnitude env 8 bn)"

definition getuint160 :: "bn_env \<Rightarrow> int \<Rightarrow> uint160" where
  "getuint160 env bn = word_of_nat (get_magnitude env 20 bn)"

definition getuint256 :: "bn_env \<Rightarrow> int \<Rightarrow> uint256" where
  "getuint256 env bn = word_of_nat (get_magnitude env 32 bn)"

definition getvch :: "bn_env \<Rightarrow> int \<Rightarrow> bytes" where
  "getvch env bn =
     (let vch = bn2mpi env bn in if length vch \<le> 4 then [] else rev (drop 4 vch))"

section \<open>Compact targets\<close>

definition SetCompact :: "bn_env \<Rightarrow> 32 word \<Rightarrow> int" where
  "SetCompact env nCompact =
     (let
        nSize = unat (drop_bit 24 nCompact);
        vch = replicate (4 + nSize) 0;
        vch = vch[3 := word_of_nat nSize];
        vch = (if nSize \<ge> 1 then vch[4 := ucast (drop_bit 16 nCompact)] else vch);
        vch = (if nSize \<ge> 2 then vch[5 := ucast (drop_bit 8 nCompact)] else vch);
        vch = (if nSize \<ge> 3 then vch[6 := ucast nCompact] else vch)
      in mpi2bn env vch)"

definition GetCompact :: "bn_env \<Rightarrow> int \<Rightarrow> 32 word" where
  "GetCompact env bn =
     (let
        vch = bn2mpi env bn;
        nSize = length vch - 4;
        nCompact = push_bit 24 (word_of_nat nSize);
        nCompact = (if nSize \<ge> 1 then nCompact OR push_bit 16 (ucast (vch ! 4)) else nCompact);
        nCompact = (if nSize \<ge> 2 then nCompact OR push_bit 8 (ucast (vch ! 5)) else nCompact);
        nCompact = (if nSize \<ge> 3 then nCompact OR ucast (vch ! 6) else nCompact)
      in nCompact)"

section \<open>The MPI format\<close>

fun be_min :: "nat \<Rightarrow> bytes" where
  "be_min n = (if n = 0 then [] else be_min (n div 256) @ [word_of_nat (n mod 256)])"

declare be_min.simps [simp del]

definition mpi_payload :: "int \<Rightarrow> bytes" where
  "mpi_payload n = mpi_bytes (n < 0) (be_min (nat \<bar>n\<bar>))"

definition mpi_value :: "bytes \<Rightarrow> int" where
  "mpi_value p =
     (if p = [] then 0
      else if hd p AND 0x80 \<noteq> 0 then - int (be_nat ((hd p AND 0x7f) # tl p))
      else int (be_nat p))"

definition bn_law :: "bn_env \<Rightarrow> bool" where
  "bn_law env \<longleftrightarrow>
     (\<forall>n. bn_set_word env n = uint n) \<and>
     (\<forall>n. bn2mpi env n = mpi_header (length (mpi_payload n)) @ mpi_payload n) \<and>
     (\<forall>p. length p < 2 ^ 32 \<longrightarrow> mpi2bn env (mpi_header (length p) @ p) = mpi_value p)"

lemma length_mpi_header [simp]: "length (mpi_header n) = 4"
  by (simp add: mpi_header_def)

lemma be_nat_append: "be_nat (a @ b) = be_nat a * 256 ^ length b + be_nat b"
  by (induction a) (auto simp: algebra_simps power_add)

lemma be_nat_rev: "be_nat (rev cs) = le_nat cs"
  by (induction cs) (auto simp: be_nat_append)

lemma be_nat_be_min [simp]: "be_nat (be_min n) = n"
proof (induction n rule: be_min.induct)
  case (1 n)
  then show ?case
    by (subst be_min.simps) (auto simp: be_nat_append)
qed

lemma be_min_0 [simp]: "be_min 0 = []"
  by (simp add: be_min.simps)

lemma be_min_hd: "n \<noteq> 0 \<Longrightarrow> be_min n \<noteq> [] \<and> hd (be_min n) \<noteq> 0"
proof (induction n rule: be_min.induct)
  case (1 n)
  show ?case
  proof (cases "n div 256 = 0")
    case True
    with \<open>n \<noteq> 0\<close> have "n < 256" by simp
    with \<open>n \<noteq> 0\<close> have "unat (word_of_nat n :: byte) \<noteq> 0" by simp
    then have "(word_of_nat n :: byte) \<noteq> 0" by (metis unat_0)
    with True \<open>n \<noteq> 0\<close> \<open>n < 256\<close> show ?thesis
      by (subst (1 2) be_min.simps) auto
  next
    case False
    with 1 show ?thesis by (subst (1 2) be_min.simps) auto
  qed
qed

lemma mpi_value_mpi_bytes:
  "mpi_value (mpi_bytes neg cs) = (if neg then - int (be_nat cs) else int (be_nat cs))"
proof (induction cs)
  case (Cons c cs)
  have "unat c < 128 \<Longrightarrow> (c OR 0x80) AND 0x7f = c"
    by (intro word_unat_eq_iff [THEN iffD2]) (simp add: byte_or_80)
  then show ?case
    using Cons by (cases "c = 0") (auto simp: mpi_value_def [of "_ # _"] byte_or_80)
qed (simp add: mpi_value_def)

lemma mpi_value_payload [simp]: "mpi_value (mpi_payload n) = n"
  by (simp add: mpi_payload_def mpi_value_mpi_bytes)

lemma length_mpi_bytes: "length (mpi_bytes neg cs) \<le> Suc (length cs)"
  by (induction cs) auto

lemma bn_lawD:
  assumes "bn_law env"
  shows "bn_set_word env n = uint n"
    "bn2mpi env bn = mpi_header (length (mpi_payload bn)) @ mpi_payload bn"
    "length p < 2 ^ 32 \<Longrightarrow> mpi2bn env (mpi_header (length p) @ p) = mpi_value p"
  using assms by (auto simp: bn_law_def)

section \<open>Conversions\<close>

lemma set_magnitude_value:
  assumes "bn_law env" "length cs < 2 ^ 32 - 1"
  shows "set_magnitude env neg cs = (if neg then - int (be_nat cs) else int (be_nat cs))"
proof -
  have "length (mpi_bytes neg cs) < 2 ^ 32"
    using length_mpi_bytes [of neg cs] assms(2) by linarith
  then show ?thesis
    by (simp add: set_magnitude_def bn_lawD(3) [OF assms(1)] mpi_value_mpi_bytes)
qed

lemma mpi_bytes_magnitude:
  "be_nat (case mpi_bytes neg cs of [] \<Rightarrow> [] | b # bs \<Rightarrow> (b AND 0x7f) # bs) = be_nat cs"
proof (induction cs)
  case (Cons c cs)
  have "unat c < 128 \<Longrightarrow> (c OR 0x80) AND 0x7f = c" "unat c < 128 \<Longrightarrow> c AND 0x7f = c"
    by (intro word_unat_eq_iff [THEN iffD2], simp add: byte_or_80)+
  with Cons show ?case by auto
qed simp

lemma le_nat_take: "le_nat (take k cs) = le_nat cs mod 256 ^ k"
proof (cases "k \<le> length cs")
  case True
  have "le_nat cs = le_nat (take k cs) + 256 ^ k * le_nat (drop k cs)"
    using le_nat_append [of "take k cs" "drop k cs"] True by (simp add: min_def)
  moreover have "le_nat (take k cs) < 256 ^ k"
    using le_nat_less [of "take k cs"] True by (simp add: min_absorb2)
  ultimately show ?thesis by simp
next
  case False
  then have "le_nat cs < 256 ^ k"
    using le_nat_less [of cs] by (meson less_le_trans nat_le_linear power_increasing one_le_numeral)
  with False show ?thesis by simp
qed

lemma get_magnitude_value:
  assumes "bn_law env"
  shows "get_magnitude env k n = nat \<bar>n\<bar> mod 256 ^ k"
proof -
  have "drop 4 (clear_sign (mpi_header m @ p)) = (case p of [] \<Rightarrow> [] | b # bs \<Rightarrow> (b AND 0x7f) # bs)" for m p
    by (cases p) (simp_all add: clear_sign_def list_update_append nth_append)
  then have "get_magnitude env k n = le_nat (take k (rev (case mpi_payload n of [] \<Rightarrow> [] | b # bs \<Rightarrow> (b AND 0x7f) # bs)))"
    by (simp add: get_magnitude_def bn_lawD(2) [OF assms] Let_def)
  then show ?thesis
    unfolding le_nat_take by (simp add: mpi_payload_def mpi_bytes_magnitude flip: be_nat_rev)
qed

lemma word_of_magnitude:
  assumes "LENGTH('a :: len) = 8 * k"
  shows "(word_of_nat (nat \<bar>bn\<bar> mod 256 ^ k) :: 'a word) = word_of_int \<bar>bn\<bar>"
proof -
  have p: "(2 :: nat) ^ LENGTH('a) = 256 ^ k" by (simp add: assms power_mult)
  have "unat (word_of_nat m :: 'a word) = unat (word_of_nat (m mod 256 ^ k) :: 'a word)" for m
    unfolding unat_of_nat p by simp
  then have "(word_of_nat (nat \<bar>bn\<bar> mod 256 ^ k) :: 'a word) = word_of_nat (nat \<bar>bn\<bar>)"
    unfolding word_unat_eq_iff by simp
  then show ?thesis by simp
qed

lemma conversions:
  assumes "bn_law env"
  shows "setuint64 env n = uint n" "setint64 env n = sint n" "setuint256 env h = uint h" "setuint160 env i = uint i"
    "getuint64 env bn = word_of_int \<bar>bn\<bar>" "getuint256 env bn = word_of_int \<bar>bn\<bar>" "getuint160 env bn = word_of_int \<bar>bn\<bar>"
proof -
  have set: "set_magnitude env neg (rev (le_bytes k m)) = (if neg then - int m else int m)" if "m < 256 ^ k" "k < 100" for neg k m
    using set_magnitude_value [OF assms, of "rev (le_bytes k m)" neg] that by (simp add: be_nat_rev)
  show "setuint64 env n = uint n"
    using set [of "unat n" 8 False] unsigned_less [of n] by (auto simp: setuint64_def bn_lawD(1) [OF assms])
  have r: "sint n < 2 ^ 64" "- sint n < 2 ^ 64" using sint_greater_eq [of n] sint_less [of n] by simp_all
  have pos: "uint n = sint n" if "0 \<le> sint n"
    using that r uint_word_of_int [of "sint n", where ?'a = 64] by simp
  have neg: "uint (- (n + 1) + 1) = - sint n" if "sint n < 0"
    using that r uint_word_of_int [of "- sint n", where ?'a = 64] by simp
  show "setint64 env n = sint n"
    using pos neg set [of "unat (- (n + 1) + 1)" 8 True] set [of "unat n" 8 False] unsigned_less [of n]
      unsigned_less [of "- (n + 1) + 1"] by (auto simp: setint64_def)
  show "setuint256 env h = uint h" "setuint160 env i = uint i"
    using set [of "unat h" 32 False] unsigned_less [of h] set [of "unat i" 20 False] unsigned_less [of i]
    by (auto simp: setuint256_def setuint160_def)
  show "getuint64 env bn = word_of_int \<bar>bn\<bar>" "getuint256 env bn = word_of_int \<bar>bn\<bar>" "getuint160 env bn = word_of_int \<bar>bn\<bar>"
    unfolding getuint64_def getuint256_def getuint160_def get_magnitude_value [OF assms]
    by (rule word_of_magnitude, simp)+
qed

section \<open>Compact targets keep the leading bytes\<close>

definition compact_payload :: "nat \<Rightarrow> byte \<Rightarrow> byte \<Rightarrow> byte \<Rightarrow> bytes" where
  "compact_payload n b2 b1 b0 = take n ([b2, b1, b0] @ replicate (n - 3) 0)"

lemma mpi_header_small: "n < 256 \<Longrightarrow> mpi_header n = [0, 0, 0, word_of_nat n]"
  by (simp add: mpi_header_def)

lemma compact_vch:
  assumes "n < 256"
  shows "(let vch = replicate (4 + n) 0;
      vch = vch[3 := word_of_nat n];
      vch = (if n \<ge> 1 then vch[4 := b2] else vch);
      vch = (if n \<ge> 2 then vch[5 := b1] else vch)
    in if n \<ge> 3 then vch[6 := b0] else vch) = mpi_header n @ compact_payload n b2 b1 b0"
proof -
  consider "n = 0" | "n = 1" | "n = 2" | k where "n = Suc (Suc (Suc k))"
    by (metis One_nat_def Suc_1 old.nat.exhaust)
  then show ?thesis
    using mpi_header_small [OF assms] by cases (simp_all add: compact_payload_def eval_nat_numeral)
qed

lemma SetCompact_value:
  assumes "bn_law env"
  shows "SetCompact env c = mpi_value (compact_payload (unat (drop_bit 24 c)) (ucast (drop_bit 16 c)) (ucast (drop_bit 8 c)) (ucast c))"
proof -
  define n where "n = unat (drop_bit 24 c)"
  have "unat c < 2 ^ 32" using unsigned_less [of c] by simp
  then have n: "n < 256" by (simp add: n_def drop_bit_eq_div unat_div)
  let ?p = "compact_payload n (ucast (drop_bit 16 c)) (ucast (drop_bit 8 c)) (ucast c)"
  have "length ?p = n" by (auto simp: compact_payload_def)
  then have "mpi2bn env (mpi_header n @ ?p) = mpi_value ?p"
    using bn_lawD(3) [OF assms, of ?p] n by simp
  moreover have "SetCompact env c = mpi2bn env (mpi_header n @ ?p)"
    unfolding SetCompact_def Let_def n_def [symmetric] by (subst compact_vch [OF n, unfolded Let_def]) (rule refl)
  ultimately show ?thesis by (simp add: n_def)
qed

definition byte_at :: "bytes \<Rightarrow> nat \<Rightarrow> byte" where
  "byte_at p i = (if i < length p then p ! i else 0)"

lemma GetCompact_value:
  fixes bn :: int
  assumes "bn_law env"
  defines "p \<equiv> mpi_payload bn"
  shows "GetCompact env bn =
    push_bit 24 (word_of_nat (length p)) OR push_bit 16 (ucast (byte_at p 0)) OR push_bit 8 (ucast (byte_at p 1)) OR
    ucast (byte_at p 2)"
  by (simp add: GetCompact_def bn_lawD(2) [OF assms(1)] p_def [symmetric] byte_at_def nth_append Let_def or.assoc Suc_le_eq)

lemma compact_fields:
  fixes b2 b1 b0 :: byte
  assumes "n < 256"
  defines "c \<equiv> push_bit 24 (word_of_nat n) OR push_bit 16 (ucast b2) OR push_bit 8 (ucast b1) OR (ucast b0 :: 32 word)"
  shows "unat (drop_bit 24 c) = n" "ucast (drop_bit 16 c) = b2" "ucast (drop_bit 8 c) = b1" "ucast c = b0"
proof -
  have "take_bit 8 n = n" using assms(1) by (simp add: take_bit_nat_eq_self_iff)
  then have b: "\<not> bit n m" if "8 \<le> m" for m
    using that by (metis bit_take_bit_iff linorder_not_less)
  have "drop_bit 24 c = word_of_nat n"
    unfolding c_def by (rule bit_word_eqI) (auto simp: bit_simps b dest: bit_imp_le_length)
  then show "unat (drop_bit 24 c) = n" using assms(1) by (simp add: unat_of_nat)
  show "ucast (drop_bit 16 c) = b2" "ucast (drop_bit 8 c) = b1" "ucast c = b0"
    unfolding c_def by (rule bit_word_eqI; auto simp: bit_simps dest: bit_imp_le_length)+
qed

lemma compact_payload_take:
  "compact_payload (length p) (byte_at p 0) (byte_at p 1) (byte_at p 2) = take 3 p @ replicate (length p - 3) 0"
proof -
  consider "p = []" | a where "p = [a]" | a b where "p = [a, b]" | a b c q where "p = a # b # c # q"
    by (metis list.exhaust)
  then show ?thesis by cases (simp_all add: compact_payload_def byte_at_def)
qed

lemma Set_Get_Compact:
  assumes "bn_law env" "length (mpi_payload bn) < 256"
  shows "unat (drop_bit 24 (GetCompact env bn)) = length (mpi_payload bn)"
    "SetCompact env (GetCompact env bn) =
      mpi_value (take 3 (mpi_payload bn) @ replicate (length (mpi_payload bn) - 3) 0)"
  unfolding SetCompact_value [OF assms(1)] GetCompact_value [OF assms(1)] compact_fields [OF assms(2)] compact_payload_take
  by (rule refl)+

lemma be_nat_zeros [simp]: "be_nat (replicate k 0) = 0"
  by (induction k) auto

lemma be_nat_truncate:
  "be_nat (take j m @ replicate (length m - j) 0) = be_nat m - be_nat m mod 256 ^ (length m - j)"
proof -
  have "be_nat m = be_nat (take j m) * 256 ^ (length m - j) + be_nat (drop j m)"
    using be_nat_append [of "take j m" "drop j m"] by simp
  moreover have "be_nat (drop j m) < 256 ^ (length m - j)"
    using be_nat_less [of "drop j m"] by simp
  ultimately show ?thesis by (simp add: be_nat_append)
qed

lemma be_min_be_nat: "m = [] \<or> hd m \<noteq> 0 \<Longrightarrow> be_min (be_nat m) = m"
proof (induction m rule: rev_induct)
  case (snoc x m)
  show ?case
  proof (cases "m = []")
    case True
    with snoc.prems have "unat x \<noteq> 0" by (simp add: unat_eq_0)
    then show ?thesis using True unat_byte_less [of x] by (subst be_min.simps) (simp del: unat_byte_less unat_eq_zero)
  next
    case False
    with snoc have "be_min (be_nat m) = m" "hd m \<noteq> 0" by auto
    then have "be_nat m \<noteq> 0" using False by (metis be_min_0)
    moreover have "(be_nat m * 256 + unat x) div 256 = be_nat m" "(be_nat m * 256 + unat x) mod 256 = unat x"
      using unat_byte_less [of x] by (simp_all del: unat_byte_less)
    ultimately show ?thesis
      using \<open>be_min (be_nat m) = m\<close> by (subst be_min.simps) (simp add: be_nat_append)
  qed
qed simp

lemma mpi_bytes_truncate:
  assumes "m \<noteq> []" "hd m \<noteq> 0"
  defines "j \<equiv> if hd m AND 0x80 \<noteq> 0 then 2 else 3"
  shows "take 3 (mpi_bytes neg m) @ replicate (length (mpi_bytes neg m) - 3) 0 = mpi_bytes neg (take j m @ replicate (length m - j) 0)"
    "length (mpi_bytes neg m) - 3 = length m - j"
  using assms by (cases m; cases "tl m"; auto simp: numeral_eq_Suc)+

lemma length_be_min: "n < 256 ^ k \<Longrightarrow> length (be_min n) \<le> k"
proof (induction k arbitrary: n)
  case (Suc k)
  then have "length (be_min (n div 256)) \<le> k" by (simp add: less_mult_imp_div_less mult.commute)
  then show ?case by (subst be_min.simps) simp
qed simp

lemma be_nat_lower:
  assumes "m \<noteq> []" "hd m \<noteq> 0"
  shows "unat (hd m) * 256 ^ (length m - 1) \<le> be_nat m"
  using assms by (cases m) auto

lemma truncated_payload:
  assumes "bn \<noteq> 0"
  defines "m \<equiv> be_min (nat \<bar>bn\<bar>)"
  defines "j \<equiv> if hd m AND 0x80 \<noteq> 0 then 2 else 3"
  defines "k \<equiv> 256 ^ (length m - j) :: int"
  shows "take 3 (mpi_payload bn) @ replicate (length (mpi_payload bn) - 3) 0 = mpi_payload (sgn bn * (\<bar>bn\<bar> - \<bar>bn\<bar> mod k))"
    "k = 256 ^ (length (mpi_payload bn) - 3)" "length m \<le> j \<or> k * 2 ^ 15 \<le> \<bar>bn\<bar>"
proof -
  have m: "m \<noteq> []" "hd m \<noteq> 0" "be_nat m = nat \<bar>bn\<bar>" using be_min_hd [of "nat \<bar>bn\<bar>"] assms(1) by (simp_all add: m_def)
  let ?m = "take j m @ replicate (length m - j) 0"
  note t = mpi_bytes_truncate [OF m(1,2), folded j_def]
  have "hd ?m = hd m" using m(1) by (cases m) (auto simp: j_def)
  with m have "be_min (be_nat ?m) = ?m" by (intro be_min_be_nat) simp
  then have e: "be_min (nat (\<bar>bn\<bar> - \<bar>bn\<bar> mod k)) = ?m"
    unfolding be_nat_truncate m(3) by (simp add: k_def nat_diff_distrib' nat_mod_distrib nat_power_eq)
  have pos: "0 < \<bar>bn\<bar> - \<bar>bn\<bar> mod k"
  proof (rule ccontr)
    assume "\<not> 0 < \<bar>bn\<bar> - \<bar>bn\<bar> mod k"
    then have "be_min (nat (\<bar>bn\<bar> - \<bar>bn\<bar> mod k)) = []" by simp
    then have "?m = []" unfolding e .
    moreover have "0 < j" by (simp add: j_def)
    ultimately show False using m(1) by auto
  qed
  then have "\<bar>sgn bn * (\<bar>bn\<bar> - \<bar>bn\<bar> mod k)\<bar> = \<bar>bn\<bar> - \<bar>bn\<bar> mod k" "sgn bn * (\<bar>bn\<bar> - \<bar>bn\<bar> mod k) < 0 \<longleftrightarrow> bn < 0"
    using assms(1) by (auto simp: abs_mult sgn_if)
  then show "take 3 (mpi_payload bn) @ replicate (length (mpi_payload bn) - 3) 0 = mpi_payload (sgn bn * (\<bar>bn\<bar> - \<bar>bn\<bar> mod k))"
    unfolding mpi_payload_def using t e by (simp add: m_def)
  show "k = 256 ^ (length (mpi_payload bn) - 3)"
    using t by (simp add: k_def mpi_payload_def m_def)
  show "length m \<le> j \<or> k * 2 ^ 15 \<le> \<bar>bn\<bar>"
  proof (rule disjCI)
    assume "\<not> k * 2 ^ 15 \<le> \<bar>bn\<bar>"
    have "unat (hd m) * 256 ^ (length m - 1) \<le> nat \<bar>bn\<bar>" using be_nat_lower [OF m(1,2)] m(3) by simp
    moreover have "2 ^ 15 * 256 ^ (length m - j) \<le> unat (hd m) * 256 ^ (length m - 1)" if "j < length m"
    proof -
      have u: "1 \<le> unat (hd m)" "j = 2 \<Longrightarrow> 128 \<le> unat (hd m)" using m(2) by (auto simp: j_def unat_gt_0 Suc_le_eq split: if_splits)
      have "(256 :: nat) ^ (length m - 1) = 256 ^ (j - 1) * 256 ^ (length m - j)"
        using that by (simp add: j_def flip: power_add)
      then show ?thesis using u by (auto simp: j_def split: if_splits)
    qed
    moreover have "nat \<bar>bn\<bar> < 2 ^ 15 * 256 ^ (length m - j)"
      using \<open>\<not> k * 2 ^ 15 \<le> \<bar>bn\<bar>\<close> by (simp add: k_def nat_less_iff)
    ultimately show "length m \<le> j" by linarith
  qed
qed

lemma Set_Get_Compact_truncates:
  assumes "bn_law env" "\<bar>bn\<bar> < 256 ^ 254"
  defines "c \<equiv> GetCompact env bn"
  defines "k \<equiv> 256 ^ (unat (drop_bit 24 c) - 3) :: int"
  shows "SetCompact env c = sgn bn * (\<bar>bn\<bar> - \<bar>bn\<bar> mod k) \<and>
    (k = 1 \<or> k * 2 ^ 15 \<le> \<bar>bn\<bar>) \<and> GetCompact env (SetCompact env c) = c"
proof (cases "bn = 0")
  case True
  have "mpi_payload 0 = []" by (simp add: mpi_payload_def)
  then show ?thesis
    using Set_Get_Compact [OF assms(1), of bn] True GetCompact_value [OF assms(1), of 0]
    by (simp add: c_def k_def mpi_value_def)
next
  case False
  have "nat \<bar>bn\<bar> < 256 ^ 254" using assms(2) by (simp add: nat_less_iff)
  then have l: "length (mpi_payload bn) < 256"
    using length_be_min [of "nat \<bar>bn\<bar>" 254] length_mpi_bytes [of "bn < 0" "be_min (nat \<bar>bn\<bar>)"]
    by (simp add: mpi_payload_def)
  note t = truncated_payload [OF False]
  have k: "k = 256 ^ (length (mpi_payload bn) - 3)"
    unfolding k_def c_def Set_Get_Compact(1) [OF assms(1) l] by (rule refl)
  let ?b = "sgn bn * (\<bar>bn\<bar> - \<bar>bn\<bar> mod k)"
  have p: "take 3 (mpi_payload bn) @ replicate (length (mpi_payload bn) - 3) 0 = mpi_payload ?b"
    using t(1) unfolding t(2) k .
  have "SetCompact env c = ?b"
    unfolding c_def Set_Get_Compact(2) [OF assms(1) l] p by (rule mpi_value_payload)
  moreover have "GetCompact env ?b = c"
  proof -
    have "length (mpi_payload ?b) = length (mpi_payload bn)"
      by (simp flip: p)
    moreover have "byte_at (mpi_payload ?b) i = byte_at (mpi_payload bn) i" if "i < 3" for i
      unfolding p [symmetric] using that by (auto simp: byte_at_def nth_append min_def)
    ultimately show ?thesis
      unfolding c_def GetCompact_value [OF assms(1)] by simp
  qed
  moreover have "k = 1 \<or> k * 2 ^ 15 \<le> \<bar>bn\<bar>"
    using t(3) unfolding t(2) k [symmetric] using mpi_bytes_truncate(2) [OF be_min_hd [THEN conjunct1] be_min_hd [THEN conjunct2], of "nat \<bar>bn\<bar>" "bn < 0"] False
    by (auto simp: k mpi_payload_def)
  ultimately show ?thesis by simp
qed

lemma compact_positive:
  assumes "bn_law env" "0 < bn" "bn < 256 ^ 254"
  shows "0 < SetCompact env (GetCompact env bn)" "SetCompact env (GetCompact env bn) \<le> bn"
proof -
  let ?k = "256 ^ (unat (drop_bit 24 (GetCompact env bn)) - 3) :: int"
  have e: "SetCompact env (GetCompact env bn) = bn - bn mod ?k" "?k = 1 \<or> ?k * 2 ^ 15 \<le> bn"
    using Set_Get_Compact_truncates [OF assms(1), of bn] assms(2,3) by auto
  have "bn mod k < bn" if "k = 1 \<or> k * 2 ^ 15 \<le> bn" "0 < k" for k
    using that(1)
  proof
    assume "k * 2 ^ 15 \<le> bn"
    then have "k * 32768 \<le> bn" by simp
    then show ?thesis using pos_mod_bound [OF that(2), of bn] that(2) by linarith
  qed (use assms(2) in simp)
  then have "bn mod ?k < bn" using e(2) by simp
  with e(1) show "0 < SetCompact env (GetCompact env bn)" by simp
  show "SetCompact env (GetCompact env bn) \<le> bn" unfolding e(1) by simp
qed

section \<open>Properties\<close>

text \<open>
  The compact form of a target keeps its leading bytes: what is read back has the sign of the
  number and its magnitude without the bytes below the third, which is exact for three bytes and
  less, and otherwise precise to one part in \<open>2 ^ 15\<close>; and its compact form is the same again.
\<close>

theorem compact_roundtrip:
  assumes "bn_law env" "\<bar>bn\<bar> < 256 ^ 254"
  defines "c \<equiv> GetCompact env bn"
  defines "k \<equiv> 256 ^ (unat (drop_bit 24 c) - 3) :: int"
  shows "SetCompact env c = sgn bn * (\<bar>bn\<bar> - \<bar>bn\<bar> mod k) \<and>
    (k = 1 \<or> k * 2 ^ 15 \<le> \<bar>bn\<bar>) \<and> GetCompact env (SetCompact env c) = c"
  unfolding c_def k_def using assms(1,2) by (rule Set_Get_Compact_truncates)

definition mpi_env :: bn_env where
  "mpi_env = \<lparr> ulong64 = True, bn_set_word = uint, bn2mpi = (\<lambda>n. mpi_header (length (mpi_payload n)) @ mpi_payload n),
     mpi2bn = (\<lambda>v. mpi_value (drop 4 v)) \<rparr>"

lemma bn_law_mpi_env: "bn_law mpi_env"
  by (simp add: bn_law_def mpi_env_def)

theorem compact_roundtrip_witness:
  "\<exists>k. SetCompact mpi_env (GetCompact mpi_env 0x1234567890) = 0x1234567890 - 0x1234567890 mod k \<and>
     (k = 1 \<or> k * 2 ^ 15 \<le> 0x1234567890)"
  using compact_roundtrip [OF bn_law_mpi_env, of "0x1234567890"] by auto

end
