(* ===== verification/Difficulty.thy ===== *)
theory Difficulty
  imports Bignum Tx_Check "HOL-Library.Signed_Division" "HOL-Library.Sublist"
begin

text \<open>
  The block index and the difficulty (\<^verbatim>\<open>src/src/block/block.h\<close>, \<^verbatim>\<open>src/src/miner/diff.cpp\<close>): block times,
  targets, the retargeting rule and the rewards. A pointer to a block index is the list of the
  blocks from that block back to the genesis block along \<^verbatim>\<open>pprev\<close>; the empty list is the null
  pointer. Targets are big numbers, and \<^verbatim>\<open>/\<close> on them truncates towards zero.
\<close>

section \<open>The block index\<close>

record CBlockIndex =
  bi_hashBlock :: uint256
  bi_nFile :: "32 word"
  bi_nBlockPos :: "32 word"
  bi_nChainTrust :: uint256
  bi_nHeight :: "32 word"
  bi_nMint :: "64 word"
  bi_nMoneySupply :: "64 word"
  bi_nStakeModifier :: "64 word"
  bi_nStakeModifierChecksum :: "32 word"
  bi_prevoutStake :: COutPoint
  bi_nStakeTime :: "32 word"
  bi_hashProofOfStake :: uint256
  bi_nFlags :: "32 word"
  bi_nVersion :: "32 word"
  bi_hashPrevBlock :: uint256
  bi_hashMerkleRoot :: uint256
  bi_nTime :: "32 word"
  bi_nBits :: "32 word"
  bi_nNonce :: "32 word"

type_synonym chain = "CBlockIndex list"

abbreviation (input) BLOCK_PROOF_OF_STAKE :: "32 word" where "BLOCK_PROOF_OF_STAKE \<equiv> 1"
abbreviation (input) BLOCK_STAKE_ENTROPY :: "32 word" where "BLOCK_STAKE_ENTROPY \<equiv> 2"
abbreviation (input) BLOCK_STAKE_MODIFIER :: "32 word" where "BLOCK_STAKE_MODIFIER \<equiv> 4"

definition GetBlockTime :: "CBlockIndex \<Rightarrow> int" where
  "GetBlockTime pindex = uint (bi_nTime pindex)"

definition bi_IsProofOfStake :: "CBlockIndex \<Rightarrow> bool" where
  "bi_IsProofOfStake pindex \<longleftrightarrow> bi_nFlags pindex AND BLOCK_PROOF_OF_STAKE \<noteq> 0"

definition SetProofOfStake :: "CBlockIndex \<Rightarrow> CBlockIndex" where
  "SetProofOfStake pindex = pindex\<lparr> bi_nFlags := bi_nFlags pindex OR BLOCK_PROOF_OF_STAKE \<rparr>"

definition GetStakeEntropyBit :: "CBlockIndex \<Rightarrow> 32 word" where
  "GetStakeEntropyBit pindex = drop_bit 1 (bi_nFlags pindex AND BLOCK_STAKE_ENTROPY)"

definition SetStakeEntropyBit :: "CBlockIndex \<Rightarrow> 32 word \<Rightarrow> bool \<times> CBlockIndex" where
  "SetStakeEntropyBit pindex nEntropyBit =
     (if nEntropyBit > 1 then (False, pindex)
      else (True, pindex\<lparr> bi_nFlags := bi_nFlags pindex OR (if nEntropyBit \<noteq> 0 then BLOCK_STAKE_ENTROPY else 0) \<rparr>))"

definition GeneratedStakeModifier :: "CBlockIndex \<Rightarrow> bool" where
  "GeneratedStakeModifier pindex \<longleftrightarrow> bi_nFlags pindex AND BLOCK_STAKE_MODIFIER \<noteq> 0"

definition SetStakeModifier :: "CBlockIndex \<Rightarrow> 64 word \<Rightarrow> bool \<Rightarrow> CBlockIndex" where
  "SetStakeModifier pindex nModifier fGeneratedStakeModifier =
     (let pindex = pindex\<lparr> bi_nStakeModifier := nModifier \<rparr> in
      if fGeneratedStakeModifier then pindex\<lparr> bi_nFlags := bi_nFlags pindex OR BLOCK_STAKE_MODIFIER \<rparr> else pindex)"

text \<open>\<open>None\<close> on the null pointer, which the callers do not pass.\<close>

definition GetMedianTimePast :: "chain \<Rightarrow> int option" where
  "GetMedianTimePast chain =
     (if chain = [] then None
      else let pmedian = sort (map GetBlockTime (take 11 chain)) in Some (pmedian ! (length pmedian div 2)))"

fun super_majority :: "int \<Rightarrow> chain \<Rightarrow> nat \<Rightarrow> nat \<Rightarrow> nat \<Rightarrow> nat" where
  "super_majority minVersion [] nRequired n nFound = nFound"
| "super_majority minVersion (pstart # chain) nRequired n nFound =
     (if n = 0 \<or> \<not> nFound < nRequired then nFound
      else super_majority minVersion chain nRequired (n - 1)
        (if sint (bi_nVersion pstart) \<ge> minVersion then nFound + 1 else nFound))"

definition IsSuperMajority :: "int \<Rightarrow> chain \<Rightarrow> nat \<Rightarrow> nat \<Rightarrow> bool" where
  "IsSuperMajority minVersion chain nRequired nToCheck \<longleftrightarrow>
     super_majority minVersion chain nRequired nToCheck 0 \<ge> nRequired"

section \<open>Targets\<close>

text \<open>The settings that differ between the main and the test network, and the conversions of OpenSSL.\<close>

record diff_env =
  de_bn :: bn_env
  fTestNet :: bool

definition bnProofOfWorkLimit :: "diff_env \<Rightarrow> int" where
  "bnProofOfWorkLimit env =
     setuint256 (de_bn env) (if fTestNet env then drop_bit 16 (NOT 0) else drop_bit 20 (NOT 0))"

definition bnProofOfStakeLimit :: "diff_env \<Rightarrow> int" where
  "bnProofOfStakeLimit env = setuint256 (de_bn env) (drop_bit 27 (NOT 0))"

definition nStakeTargetSpacing :: "diff_env \<Rightarrow> int" where
  "nStakeTargetSpacing env = (if fTestNet env then 1 * 60 else 6 * 60)"

definition nPowTargetSpacing :: "diff_env \<Rightarrow> int" where
  "nPowTargetSpacing env = (if fTestNet env then 60 else 3 * 60)"

definition nTargetTimespan :: int where "nTargetTimespan = 7 * (24 * 60 * 60)"
definition TARGETS_SWITCH_WORK :: int where "TARGETS_SWITCH_WORK = 1533636000"

function double_target :: "int \<Rightarrow> int \<Rightarrow> int \<Rightarrow> int" where
  "double_target bnTargetLimit nTime bnResult =
     (if nTime > 0 \<and> bnResult < bnTargetLimit
      then double_target bnTargetLimit (nTime - 24 * 60 * 60) (bnResult * 2)
      else bnResult)"
  by pat_completeness auto
termination
  by (relation "measure (\<lambda>(_, nTime, _). nat nTime)") auto

declare double_target.simps [simp del]

definition ComputeMaxBits :: "diff_env \<Rightarrow> int \<Rightarrow> 32 word \<Rightarrow> int \<Rightarrow> 32 word" where
  "ComputeMaxBits env bnTargetLimit nBase nTime =
     (let
        bnResult = SetCompact (de_bn env) nBase;
        bnResult = bnResult * 2;
        bnResult = double_target bnTargetLimit nTime bnResult;
        bnResult = (if bnResult > bnTargetLimit then bnTargetLimit else bnResult)
      in GetCompact (de_bn env) bnResult)"

definition GetProofOfStakeLimit :: "diff_env \<Rightarrow> 32 word \<Rightarrow> int" where
  "GetProofOfStakeLimit env nTime =
     (if fTestNet env then bnProofOfStakeLimit env
      else if uint nTime > TARGETS_SWITCH_WORK then bnProofOfStakeLimit env
      else bnProofOfWorkLimit env)"

definition ComputeMinWork :: "diff_env \<Rightarrow> 32 word \<Rightarrow> int \<Rightarrow> 32 word" where
  "ComputeMinWork env nBase nTime = ComputeMaxBits env (bnProofOfWorkLimit env) nBase nTime"

definition ComputeMinStake :: "diff_env \<Rightarrow> 32 word \<Rightarrow> int \<Rightarrow> 32 word \<Rightarrow> 32 word" where
  "ComputeMinStake env nBase nTime nBlockTime = ComputeMaxBits env (GetProofOfStakeLimit env nBlockTime) nBase nTime"

definition CheckProofOfWork :: "diff_env \<Rightarrow> uint256 \<Rightarrow> 32 word \<Rightarrow> bool" where
  "CheckProofOfWork env hash nBits =
     (let bnTarget = SetCompact (de_bn env) nBits in
      if bnTarget \<le> 0 \<or> bnTarget > bnProofOfWorkLimit env then False
      else if hash > getuint256 (de_bn env) bnTarget then False
      else True)"

section \<open>Rewards\<close>

definition POW_REWARD_BLOCK :: "(int \<times> int) list" where
  "POW_REWARD_BLOCK = [(0, 1 * COIN), (1000, 2 * COIN), (20000, 6 * COIN), (100000, 2 * COIN), (500000, 1 * COIN)]"

definition POS_REWARD_BLOCK :: "(int \<times> int) list" where
  "POS_REWARD_BLOCK = [(1533549600, 3 * CENT)]"

text \<open>The loop over a table: the entry whose range holds the height or time, or the last one.\<close>

fun reward_loop :: "(int \<times> int) list \<Rightarrow> int \<Rightarrow> int \<Rightarrow> int" where
  "reward_loop [] x r = r"
| "reward_loop [data1] x r = snd data1"
| "reward_loop (data1 # data2 # rest) x r =
     (if fst data1 \<le> x \<and> x < fst data2 then snd data1 else reward_loop (data2 # rest) x (snd data1))"

definition GetProofOfWorkReward :: "int \<Rightarrow> 64 word \<Rightarrow> 64 word" where
  "GetProofOfWorkReward nBestHeight nFees =
     (let
        nSubsidy = 10 * COIN;
        nSubsidy = (if nBestHeight = 0 then 860000 * COIN else reward_loop POW_REWARD_BLOCK nBestHeight nSubsidy)
      in word_of_int nSubsidy + nFees)"

text \<open>The time is that of the clock: the argument \<^verbatim>\<open>nTime\<close> of the source is not used.\<close>

definition GetProofOfStakeReward :: "int \<Rightarrow> 64 word \<Rightarrow> 64 word" where
  "GetProofOfStakeReward bTime nCoinAge =
     (let nReward = reward_loop POS_REWARD_BLOCK bTime (3 * CENT)
      in word_of_int (sint (nCoinAge * word_of_int nReward * 33) sdiv (365 * 33 + 8)))"

section \<open>Retargeting\<close>

definition GetTargetSpacingWorkMax :: "diff_env \<Rightarrow> 32 word \<Rightarrow> int" where
  "GetTargetSpacingWorkMax env nTime =
     (if uint nTime < TARGETS_SWITCH_WORK then 3 * nPowTargetSpacing env
      else if fTestNet env then 1 * nPowTargetSpacing env
      else 2 * nPowTargetSpacing env)"

fun GetLastBlockIndex :: "chain \<Rightarrow> bool \<Rightarrow> chain" where
  "GetLastBlockIndex (pindex # pprev # chain) fProofOfStake =
     (if bi_IsProofOfStake pindex \<noteq> fProofOfStake then GetLastBlockIndex (pprev # chain) fProofOfStake
      else pindex # pprev # chain)"
| "GetLastBlockIndex chain fProofOfStake = chain"

definition retarget :: "diff_env \<Rightarrow> bool \<Rightarrow> CBlockIndex \<Rightarrow> CBlockIndex \<Rightarrow> CBlockIndex \<Rightarrow> int" where
  "retarget env fProofOfStake pindexLast pindexPrev pindexPrevPrev =
     (let
        nActualSpacing = GetBlockTime pindexPrev - GetBlockTime pindexPrevPrev;
        bnNew = SetCompact (de_bn env) (bi_nBits pindexPrev);
        nTargetSpacing =
          (if fProofOfStake then nStakeTargetSpacing env
           else min (GetTargetSpacingWorkMax env (bi_nTime pindexLast))
             (nStakeTargetSpacing env * (1 + sint (bi_nHeight pindexLast) - sint (bi_nHeight pindexPrev))));
        nInterval = nTargetTimespan sdiv nTargetSpacing;
        bnNew = bnNew * ((nInterval - 1) * nTargetSpacing + nActualSpacing + nActualSpacing)
      in bnNew sdiv ((nInterval + 1) * nTargetSpacing))"

definition GetNextTargetRequired :: "diff_env \<Rightarrow> chain \<Rightarrow> bool \<Rightarrow> 32 word" where
  "GetNextTargetRequired env chain fProofOfStake =
     (let bnTargetLimit = (if fProofOfStake then bnProofOfStakeLimit env else bnProofOfWorkLimit env) in
      case chain of
        [] \<Rightarrow> GetCompact (de_bn env) bnTargetLimit
      | pindexLast # _ \<Rightarrow>
          (case GetLastBlockIndex chain fProofOfStake of
             pindexPrev # pprev # chain' \<Rightarrow>
               (case GetLastBlockIndex (pprev # chain') fProofOfStake of
                  pindexPrevPrev # _ # _ \<Rightarrow>
                    (let
                       bnNew = retarget env fProofOfStake pindexLast pindexPrev pindexPrevPrev;
                       bnNew = (if bnNew > bnTargetLimit then bnTargetLimit else bnNew)
                     in GetCompact (de_bn env) bnNew)
                | _ \<Rightarrow> GetCompact (de_bn env) bnTargetLimit)
           | _ \<Rightarrow> GetCompact (de_bn env) bnTargetLimit))"

section \<open>The median of the block times\<close>

lemma sorted_nth_ge_iff:
  fixes v :: "'a :: linorder"
  assumes "sorted xs" "i < length xs"
  shows "v \<le> xs ! i \<longleftrightarrow> length (filter (\<lambda>y. y < v) xs) \<le> i"
  using assms
proof (induction xs arbitrary: i)
  case (Cons x xs)
  show ?case
  proof (cases "x < v")
    case True
    with Cons show ?thesis by (cases i) auto
  next
    case False
    then have "filter (\<lambda>y. y < v) (x # xs) = []" using Cons.prems(1) by (auto simp: filter_empty_conv)
    moreover have "x \<le> (x # xs) ! i"
      using Cons.prems by (cases i) auto
    ultimately show ?thesis using False by simp
  qed
qed simp

lemma sort_nth_ge_iff:
  fixes v :: "'a :: linorder"
  assumes "i < length xs"
  shows "v \<le> sort xs ! i \<longleftrightarrow> length (filter (\<lambda>y. y < v) xs) \<le> i"
proof -
  have "length (filter (\<lambda>y. y < v) (sort xs)) = length (filter (\<lambda>y. y < v) xs)"
    by (simp add: filter_sort)
  then show ?thesis using sorted_nth_ge_iff [of "sort xs" i v] assms by simp
qed

section \<open>Targets are in range\<close>

lemma limits_value:
  assumes "bn_law (de_bn env)"
  shows "bnProofOfWorkLimit env = (if fTestNet env then 2 ^ 240 - 1 else 2 ^ 236 - 1)"
    "bnProofOfStakeLimit env = 2 ^ 229 - 1"
  unfolding bnProofOfWorkLimit_def bnProofOfStakeLimit_def conversions(3) [OF assms]
  by (simp_all add: drop_bit_eq_div uint_div unsigned_minus_1_eq_mask mask_eq_exp_minus_1)

lemma CheckProofOfWork_iff:
  assumes "bn_law (de_bn env)"
  defines "bnTarget \<equiv> \<lambda>nBits. SetCompact (de_bn env) nBits"
  shows "CheckProofOfWork env hash nBits \<longleftrightarrow>
    0 < bnTarget nBits \<and> bnTarget nBits \<le> bnProofOfWorkLimit env \<and> uint hash \<le> bnTarget nBits"
proof -
  have "uint (word_of_int T :: uint256) = T" if "0 < T" "T \<le> bnProofOfWorkLimit env" for T
    using that limits_value(1) [OF assms(1)] by (simp add: uint_word_of_int split: if_splits)
  then show ?thesis
    by (auto simp: CheckProofOfWork_def bnTarget_def Let_def conversions(6) [OF assms(1)] word_less_def not_less)
qed

lemma limit_bounds:
  assumes "bn_law (de_bn env)"
  defines "L \<equiv> \<lambda>pos. if pos then bnProofOfStakeLimit env else bnProofOfWorkLimit env"
  shows "0 < L pos" "L pos < 256 ^ 254"
  by (simp_all add: L_def limits_value [OF assms(1)])

lemma spacing_bounds:
  fixes h h' :: int and env :: diff_env and t :: "32 word"
  assumes "h \<le> h'"
  defines "S \<equiv> \<lambda>pos. if pos then nStakeTargetSpacing env else min (GetTargetSpacingWorkMax env t) (nStakeTargetSpacing env * (1 + h' - h))"
  shows "60 \<le> S pos" "S pos \<le> 540"
proof -
  have "nStakeTargetSpacing env * 1 \<le> nStakeTargetSpacing env * (1 + h' - h)"
    using assms(1) by (intro mult_left_mono) (simp_all add: nStakeTargetSpacing_def)
  then show "60 \<le> S pos" "S pos \<le> 540"
    unfolding S_def by (auto simp: nStakeTargetSpacing_def GetTargetSpacingWorkMax_def nPowTargetSpacing_def split: if_splits)
qed

lemma retarget_positive:
  fixes T S actual :: int
  assumes "60 \<le> S" "S \<le> 540" "8 \<le> T" "- (3 * 86400) \<le> actual"
  defines "n \<equiv> nTargetTimespan sdiv S"
  shows "0 < (T * ((n - 1) * S + actual + actual)) sdiv ((n + 1) * S)"
proof -
  have n: "n = 604800 div S" using assms(1) by (simp add: n_def nTargetTimespan_def signed_divide_int_def)
  have nS: "n * S \<le> 604800" "604800 < n * S + S"
    using assms(1) by (simp_all add: n mult.commute [of _ S] mult_div_mod_eq [symmetric] del: mult_div_mod_eq)
      (smt (verit) Euclidean_Rings.pos_mod_bound mult_div_mod_eq Euclidean_Rings.pos_mod_sign)+
  let ?m = "(n - 1) * S + actual + actual" and ?d = "(n + 1) * S"
  have "85000 \<le> ?m" "?d \<le> 605340" "0 < ?d"
    using nS assms by (simp_all add: algebra_simps)
  moreover have "8 * 85000 \<le> T * ?m" using assms(3) calculation(1) by (intro mult_mono) auto
  ultimately have "?d \<le> T * ?m" by linarith
  then have "0 < (T * ?m) div ?d" using \<open>0 < ?d\<close> by (simp add: pos_imp_zdiv_pos_iff)
  then show ?thesis using \<open>0 < ?d\<close> \<open>?d \<le> T * ?m\<close> by (simp add: signed_divide_int_def)
qed

lemma GetLastBlockIndex_suffix: "suffix (GetLastBlockIndex chain f) chain"
  by (induction chain f rule: GetLastBlockIndex.induct) (auto intro: suffix_ConsI)

section \<open>Properties\<close>

text \<open>
  C40. The target that the next block has to meet is always one that \<^verbatim>\<open>CheckProofOfWork\<close> can accept: it
  is positive and within the limit of its kind, for every chain with heights that do not decrease,
  targets of at least eight and no block more than three days before one it follows; and a hash
  meets it exactly when, as a number, it is not above it.
\<close>

theorem GetNextTargetRequired_in_range:
  assumes "bn_law (de_bn env)"
    and "sorted_wrt (\<lambda>b b'. sint (bi_nHeight b') \<le> sint (bi_nHeight b) \<and> GetBlockTime b' \<le> GetBlockTime b + 3 * 86400) chain"
    and "\<forall>b \<in> set chain. 8 \<le> SetCompact (de_bn env) (bi_nBits b)"
  defines "T \<equiv> \<lambda>pos. SetCompact (de_bn env) (GetNextTargetRequired env chain pos)"
  shows "0 < T True \<and> T True \<le> bnProofOfStakeLimit env \<and> 0 < T False \<and> T False \<le> bnProofOfWorkLimit env \<and>
    (CheckProofOfWork env hash (GetNextTargetRequired env chain False) \<longleftrightarrow> uint hash \<le> T False)"
proof -
  let ?L = "\<lambda>pos. if pos then bnProofOfStakeLimit env else bnProofOfWorkLimit env"
  have ok: "0 < SetCompact (de_bn env) (GetCompact (de_bn env) x) \<and> SetCompact (de_bn env) (GetCompact (de_bn env) x) \<le> ?L pos"
    if "0 < x" "x \<le> ?L pos" for x pos
    using compact_positive [OF assms(1), of x] limit_bounds [OF assms(1), of pos] that by (auto split: if_splits)
  have range: "0 < T pos \<and> T pos \<le> ?L pos" for pos
  proof (cases "\<exists>last c p q c' r u c''. chain = last # c \<and> GetLastBlockIndex chain pos = p # q # c' \<and>
      GetLastBlockIndex (q # c') pos = r # u # c''")
    case False
    then have "GetNextTargetRequired env chain pos = GetCompact (de_bn env) (?L pos)"
      by (auto simp: GetNextTargetRequired_def Let_def split: list.split)
    then show ?thesis using ok [of "?L pos" pos] limit_bounds(1) [OF assms(1), of pos] by (auto simp: T_def)
  next
    case True
    then obtain last c p q c' r u c'' where c: "chain = last # c" "GetLastBlockIndex chain pos = p # q # c'"
      "GetLastBlockIndex (q # c') pos = r # u # c''" by blast
    have s: "suffix (p # q # c') chain" "suffix (r # u # c'') (q # c')"
      using GetLastBlockIndex_suffix [of chain pos] GetLastBlockIndex_suffix [of "q # c'" pos] c by simp_all
    then have m: "p \<in> set chain" "r \<in> set (q # c')" by (auto dest: set_mono_suffix)
    have "sorted_wrt (\<lambda>b b'. sint (bi_nHeight b') \<le> sint (bi_nHeight b) \<and> GetBlockTime b' \<le> GetBlockTime b + 3 * 86400) (p # q # c')"
      using s(1) assms(2) by (auto simp: suffix_def sorted_wrt_append)
    then have t: "- (3 * 86400) \<le> GetBlockTime p - GetBlockTime r" using m(2) by auto
    have h: "sint (bi_nHeight p) \<le> sint (bi_nHeight last)" using m(1) assms(2) c(1) by auto
    let ?x = "retarget env pos last p r"
    have "0 < ?x"
      unfolding retarget_def Let_def using spacing_bounds [OF h] assms(3) m(1) t by (intro retarget_positive) auto
    then have "0 < min ?x (?L pos)" using limit_bounds(1) [OF assms(1), of pos] by simp
    moreover have "GetNextTargetRequired env chain pos = GetCompact (de_bn env) (min ?x (?L pos))"
      using c by (simp add: GetNextTargetRequired_def Let_def min_def)
    ultimately show ?thesis using ok [of "min ?x (?L pos)" pos] by (simp add: T_def)
  qed
  then show ?thesis
    using range [of True] range [of False] CheckProofOfWork_iff [OF assms(1), of hash] by (simp add: T_def)
qed

definition sample_index :: CBlockIndex where
  "sample_index = \<lparr> bi_hashBlock = 7, bi_nFile = 1, bi_nBlockPos = 8, bi_nChainTrust = 1, bi_nHeight = 0, bi_nMint = 0,
     bi_nMoneySupply = 0, bi_nStakeModifier = 0, bi_nStakeModifierChecksum = 0, bi_prevoutStake = COutPoint_null,
     bi_nStakeTime = 0, bi_hashProofOfStake = 0, bi_nFlags = 0, bi_nVersion = 6, bi_hashPrevBlock = 0, bi_hashMerkleRoot = 0,
     bi_nTime = 1533549600, bi_nBits = GetCompact mpi_env 256, bi_nNonce = 0 \<rparr>"

definition main_net :: diff_env where
  "main_net = \<lparr> de_bn = mpi_env, fTestNet = False \<rparr>"

theorem GetNextTargetRequired_in_range_witness:
  "0 < SetCompact mpi_env (GetNextTargetRequired main_net [sample_index, sample_index, sample_index] False)"
proof -
  have "\<not> k * 2 ^ 15 \<le> 256" if "1 \<le> k" for k :: int using that by simp
  from this [of "256 ^ (unat (drop_bit 24 (GetCompact mpi_env 256)) - 3)"]
  have "SetCompact mpi_env (GetCompact mpi_env 256) = 256"
    using Set_Get_Compact_truncates [OF bn_law_mpi_env, of 256] by auto
  then have b: "\<forall>b \<in> set [sample_index, sample_index, sample_index]. 8 \<le> SetCompact (de_bn main_net) (bi_nBits b)"
    by (simp add: sample_index_def main_net_def)
  have l: "bn_law (de_bn main_net)" using bn_law_mpi_env by (simp add: main_net_def)
  from GetNextTargetRequired_in_range [OF l _ b, of 0] show ?thesis by (simp add: main_net_def)
qed

text \<open>
  The median time past of the chain never goes back: with a new block later than the median
  of the block before it, as a block has to be to be accepted, the median does not decrease.
\<close>

theorem GetMedianTimePast_mono:
  assumes "GetMedianTimePast chain = Some m" "GetBlockTime pindex > m"
  shows "\<exists>m'. GetMedianTimePast (pindex # chain) = Some m' \<and> m \<le> m'"
proof -
  let ?w = "map GetBlockTime (take 11 chain)" and ?w' = "map GetBlockTime (take 11 (pindex # chain))"
  have c: "chain \<noteq> []" "m = sort ?w ! (length ?w div 2)"
    using assms(1) by (auto simp: GetMedianTimePast_def Let_def split: if_splits)
  have l: "length ?w div 2 < length ?w" "length ?w div 2 \<le> length ?w' div 2" "length ?w' div 2 < length ?w'"
  proof -
    have half: "n div 2 < n" if "0 < n" for n :: nat using that by simp
    have "0 < length ?w" "0 < length ?w'" "length ?w \<le> length ?w'" using c(1) by auto
    then show "length ?w div 2 < length ?w" "length ?w div 2 \<le> length ?w' div 2" "length ?w' div 2 < length ?w'"
      by (blast intro: half div_le_mono)+
  qed
  have "length (filter (\<lambda>y. y < m) ?w') \<le> length (filter (\<lambda>y. y < m) ?w)"
  proof -
    have "take 11 chain = take 10 chain @ take 1 (drop 10 chain)" using take_add [of 10 1 chain] by simp
    then show ?thesis using assms(2) by (simp add: take_Cons')
  qed
  also have "\<dots> \<le> length ?w div 2"
    using sort_nth_ge_iff [OF l(1), of m] c(2) by simp
  finally have "m \<le> sort ?w' ! (length ?w' div 2)"
    using sort_nth_ge_iff [OF l(3), of m] l(2) by simp
  then show ?thesis by (simp add: GetMedianTimePast_def Let_def)
qed

theorem GetMedianTimePast_mono_witness:
  "\<exists>m'. GetMedianTimePast [sample_index\<lparr> bi_nTime := 1533549601 \<rparr>, sample_index] = Some m' \<and> 1533549600 \<le> m'"
  by (rule GetMedianTimePast_mono) (simp_all add: GetMedianTimePast_def GetBlockTime_def sample_index_def)

end
