(* ===== verification/Tx_Connect.thy ===== *)
theory Tx_Connect
  imports Tx_DB Difficulty
begin

text \<open>
  Connecting a transaction to the chain (\<^verbatim>\<open>src/src/block/transaction.cpp\<close>): the previous transactions
  are fetched from the index, the block files and the memory pool, every input is checked, and the
  outputs that it spends are marked; disconnecting takes the marks back. \<open>None\<close> is a failed
  assertion, an exception, or a read past the end of a value of the database.
\<close>

section \<open>Surroundings\<close>

text \<open>
  What the functions read besides their arguments: the hash and signature functions, the database
  library, the block files (transactions by position, block times by file and position), the
  network and OpenSSL, the clock, and the time of the last checkpoint.
\<close>

record 'd node_env =
  ne_crypto :: crypto_env
  ne_ldb :: "'d leveldb"
  ne_files :: "CDiskTxPos \<Rightarrow> CTransaction option"
  ne_block_time :: "32 word \<Rightarrow> 32 word \<Rightarrow> int option"
  ne_diff :: diff_env
  ne_GetTime :: int
  ne_LastCheckpointTime :: int

definition nCoinbaseMaturity :: "'d node_env \<Rightarrow> int" where
  "nCoinbaseMaturity env = (if fTestNet (ne_diff env) then 6 else 15)"

definition nStakeMinAge :: "'d node_env \<Rightarrow> int" where
  "nStakeMinAge env = (if fTestNet (ne_diff env) then 2 * (60 * 60) else 8 * (60 * 60))"

type_synonym MapPrevTx = "(uint256, CTxIndex \<times> CTransaction) std_map"
type_synonym queued_changes = "(uint256, CTxIndex) std_map"

abbreviation GetHash :: "'d node_env \<Rightarrow> CTransaction \<Rightarrow> uint256 option" where
  "GetHash env \<equiv> CTransaction_GetHash (env_Hash (ne_crypto env))"

section \<open>Reading previous transactions\<close>

text \<open>\<^verbatim>\<open>ReadFromDisk(txdb, prevout, txindexRet)\<close>: \<open>Some None\<close> is the result false.\<close>

definition ReadFromDisk :: "'d node_env \<Rightarrow> 'd CLevelDB \<Rightarrow> COutPoint \<Rightarrow> (CTransaction \<times> CTxIndex) option option" where
  "ReadFromDisk env txdb prevout =
     (case ReadTxIndex (ne_ldb env) (get_hash prevout) txdb of
        None \<Rightarrow> None
      | Some ReadBeyondEnd \<Rightarrow> None
      | Some ReadFalse \<Rightarrow> Some None
      | Some (ReadTrue txindex) \<Rightarrow>
          (case ne_files env (get_pos txindex) of
             None \<Rightarrow> Some None
           | Some tx \<Rightarrow> if unat (get_n prevout) \<ge> length (get_vout tx) then Some None else Some (Some (tx, txindex))))"

definition GetOutputFor :: "CTxIn \<Rightarrow> MapPrevTx \<Rightarrow> CTxOut option" where
  "GetOutputFor input inputs =
     (case map_find (get_hash (get_prevout input)) inputs of
        None \<Rightarrow> None
      | Some (_, txPrev) \<Rightarrow>
          if unat (get_n (get_prevout input)) \<ge> length (get_vout txPrev) then None
          else Some (get_vout txPrev ! unat (get_n (get_prevout input))))"

fun value_in :: "CTxIn list \<Rightarrow> MapPrevTx \<Rightarrow> 64 word \<Rightarrow> 64 word option" where
  "value_in [] inputs nResult = Some nResult"
| "value_in (txin # vin) inputs nResult =
     Option.bind (GetOutputFor txin inputs) (\<lambda>out. value_in vin inputs (nResult + get_nValue out))"

definition GetValueIn :: "CTransaction \<Rightarrow> MapPrevTx \<Rightarrow> 64 word option" where
  "GetValueIn tx inputs = (if IsCoinBase tx then Some 0 else value_in (get_vin tx) inputs 0)"

fun p2sh_sigops :: "CTxIn list \<Rightarrow> MapPrevTx \<Rightarrow> 32 word \<Rightarrow> 32 word option" where
  "p2sh_sigops [] inputs nSigOps = Some nSigOps"
| "p2sh_sigops (txin # vin) inputs nSigOps =
     (case GetOutputFor txin inputs of
        None \<Rightarrow> None
      | Some prevout \<Rightarrow>
          if IsPayToScriptHash (get_scriptPubKey prevout)
          then Option.bind (GetSigOpCount_P2SH (get_scriptPubKey prevout) (get_scriptSig txin))
                 (\<lambda>n. p2sh_sigops vin inputs (nSigOps + n))
          else p2sh_sigops vin inputs nSigOps)"

definition GetP2SHSigOpCount :: "CTransaction \<Rightarrow> MapPrevTx \<Rightarrow> 32 word option" where
  "GetP2SHSigOpCount tx inputs = (if IsCoinBase tx then Some 0 else p2sh_sigops (get_vin tx) inputs 0)"

text \<open>\<^verbatim>\<open>EvalScript\<close> is called with \<^verbatim>\<open>false\<close> for its flags, that is, with no flag.\<close>

fun inputs_standard ::
  "'d node_env \<Rightarrow> CTransaction \<Rightarrow> MapPrevTx \<Rightarrow> CTxIn list \<Rightarrow> nat \<Rightarrow> CSignatureCache \<Rightarrow> (bool \<times> CSignatureCache) option" where
  "inputs_standard env tx mapInputs [] i cache = Some (True, cache)"
| "inputs_standard env tx mapInputs (txin # vin) i cache =
     (case GetOutputFor txin mapInputs of
        None \<Rightarrow> None
      | Some prev \<Rightarrow>
          (case Solver (get_scriptPubKey prev) of
             (False, _, _) \<Rightarrow> Some (False, cache)
           | (True, whichType, vSolutions) \<Rightarrow>
               (case ScriptSigArgsExpected whichType vSolutions of
                  None \<Rightarrow> None
                | Some nArgsExpected \<Rightarrow>
                    if nArgsExpected < 0 then Some (False, cache)
                    else (case EvalScript
                        \<lparr> a_env = ne_crypto env, a_txTo = tx, a_nIn = i, a_flags = 0, a_nHashType = 0 \<rparr>
                        [] cache (get_scriptSig txin) of
                      Inl _ \<Rightarrow> None
                    | Inr (False, _, cache) \<Rightarrow> Some (False, cache)
                    | Inr (True, vstack, cache) \<Rightarrow>
                        if whichType = TX_SCRIPTHASH
                        then (case vstack of
                            [] \<Rightarrow> Some (False, cache)
                          | subscript # _ \<Rightarrow>
                              (case Solver subscript of
                                 (False, _, _) \<Rightarrow> Some (False, cache)
                               | (True, whichType2, vSolutions2) \<Rightarrow>
                                   if whichType2 = TX_SCRIPTHASH then Some (False, cache)
                                   else (case ScriptSigArgsExpected whichType2 vSolutions2 of
                                       None \<Rightarrow> None
                                     | Some tmpExpected \<Rightarrow>
                                         if tmpExpected < 0 then Some (False, cache)
                                         else if int (length vstack) \<noteq> nArgsExpected + tmpExpected then Some (False, cache)
                                         else inputs_standard env tx mapInputs vin (i + 1) cache)))
                        else if int (length vstack) \<noteq> nArgsExpected then Some (False, cache)
                        else inputs_standard env tx mapInputs vin (i + 1) cache))))"

definition AreInputsStandard ::
  "'d node_env \<Rightarrow> CTransaction \<Rightarrow> MapPrevTx \<Rightarrow> CSignatureCache \<Rightarrow> (bool \<times> CSignatureCache) option" where
  "AreInputsStandard env tx mapInputs cache =
     (if IsCoinBase tx then Some (True, cache) else inputs_standard env tx mapInputs (get_vin tx) 0 cache)"

section \<open>FetchInputs\<close>

text \<open>
  The inputs, or failure with \<^verbatim>\<open>fInvalid\<close> and the penalty; no caller reads the inputs after a failure.
\<close>

datatype fetched = Inputs MapPrevTx | NoInputs bool nat

text \<open>The index entry and the transaction of one input: \<open>Some None\<close> is a failure.\<close>

definition fetch_one ::
  "'d node_env \<Rightarrow> 'd CLevelDB \<Rightarrow> (uint256, CTransaction) std_map \<Rightarrow> queued_changes \<Rightarrow> bool \<Rightarrow> bool \<Rightarrow> uint256 \<Rightarrow>
    (CTxIndex \<times> CTransaction) option option" where
  "fetch_one env txdb mapTx mapTestPool fBlock fMiner hash =
     (case (if (fBlock \<or> fMiner) \<and> map_find hash mapTestPool \<noteq> None
            then map_option ReadTrue (map_find hash mapTestPool)
            else ReadTxIndex (ne_ldb env) hash txdb) of
        Some (ReadTrue txindex) \<Rightarrow>
          if get_pos txindex = mempool_pos
          then Some (map_option (\<lambda>txPrev. (txindex, txPrev)) (map_find hash mapTx))
          else Some (map_option (\<lambda>txPrev. (txindex, txPrev)) (ne_files env (get_pos txindex)))
      | Some ReadFalse \<Rightarrow>
          if fBlock \<or> fMiner then Some None
          else Some (map_option (\<lambda>txPrev. (CTxIndex_SetNull\<lparr> get_vSpent := replicate (length (get_vout txPrev)) CDiskTxPos_null \<rparr>, txPrev))
                 (map_find hash mapTx))
      | _ \<Rightarrow> None)"

fun fetch_loop ::
  "(uint256 \<Rightarrow> (CTxIndex \<times> CTransaction) option option) \<Rightarrow> CTxIn list \<Rightarrow> MapPrevTx \<Rightarrow> MapPrevTx option option" where
  "fetch_loop fetch [] inputsRet = Some (Some inputsRet)"
| "fetch_loop fetch (txin # vin) inputsRet =
     (let hash = get_hash (get_prevout txin) in
      if map_find hash inputsRet \<noteq> None then fetch_loop fetch vin inputsRet
      else case fetch hash of
        None \<Rightarrow> None
      | Some None \<Rightarrow> Some None
      | Some (Some entry) \<Rightarrow> fetch_loop fetch vin (map_set hash entry inputsRet))"

definition prevout_in_range :: "MapPrevTx \<Rightarrow> COutPoint \<Rightarrow> bool" where
  "prevout_in_range inputs prevout \<longleftrightarrow>
     (case map_find (get_hash prevout) inputs of
        None \<Rightarrow> False
      | Some (txindex, txPrev) \<Rightarrow>
          \<not> (unat (get_n prevout) \<ge> length (get_vout txPrev) \<or> unat (get_n prevout) \<ge> length (get_vSpent txindex)))"

definition FetchInputs ::
  "'d node_env \<Rightarrow> 'd CLevelDB \<Rightarrow> (uint256, CTransaction) std_map \<Rightarrow> CTransaction \<Rightarrow> queued_changes \<Rightarrow> bool \<Rightarrow> bool \<Rightarrow>
    MapPrevTx \<Rightarrow> fetched option" where
  "FetchInputs env txdb mapTx tx mapTestPool fBlock fMiner inputsRet =
     (if IsCoinBase tx then Some (Inputs inputsRet)
      else case fetch_loop (fetch_one env txdb mapTx mapTestPool fBlock fMiner) (get_vin tx) inputsRet of
        None \<Rightarrow> None
      | Some None \<Rightarrow> Some (NoInputs False 0)
      | Some (Some inputs) \<Rightarrow>
          if list_ex (\<lambda>txin. map_find (get_hash (get_prevout txin)) inputs = None) (get_vin tx) then None
          else if list_all (\<lambda>txin. prevout_in_range inputs (get_prevout txin)) (get_vin tx) then Some (Inputs inputs)
          else Some (NoInputs True 100))"

section \<open>Coin age\<close>

fun cent_seconds :: "'d node_env \<Rightarrow> 'd CLevelDB \<Rightarrow> CTransaction \<Rightarrow> CTxIn list \<Rightarrow> int \<Rightarrow> int option option" where
  "cent_seconds env txdb tx [] bnCentSecond = Some (Some bnCentSecond)"
| "cent_seconds env txdb tx (txin # vin) bnCentSecond =
     (case ReadFromDisk env txdb (get_prevout txin) of
        None \<Rightarrow> None
      | Some None \<Rightarrow> cent_seconds env txdb tx vin bnCentSecond
      | Some (Some (txPrev, txindex)) \<Rightarrow>
          if get_nTime tx < get_nTime txPrev then Some None
          else (case ne_block_time env (get_nFile (get_pos txindex)) (get_nBlockPos (get_pos txindex)) of
              None \<Rightarrow> Some None
            | Some blockTime \<Rightarrow>
                if blockTime + nStakeMinAge env > uint (get_nTime tx) then cent_seconds env txdb tx vin bnCentSecond
                else
                  (let nValueIn = sint (get_nValue (get_vout txPrev ! unat (get_n (get_prevout txin)))) in
                   cent_seconds env txdb tx vin
                     (bnCentSecond + (nValueIn * uint (get_nTime tx - get_nTime txPrev)) sdiv CENT))))"

text \<open>\<open>Some None\<close> is the result false.\<close>

definition GetCoinAge :: "'d node_env \<Rightarrow> 'd CLevelDB \<Rightarrow> CTransaction \<Rightarrow> 64 word option option" where
  "GetCoinAge env txdb tx =
     (if IsCoinBase tx then Some (Some 0)
      else map_option (map_option (\<lambda>bnCentSecond.
          getuint64 (de_bn (ne_diff env)) (bnCentSecond * CENT sdiv COIN sdiv (24 * 60 * 60))))
        (cent_seconds env txdb tx (get_vin tx) 0))"

section \<open>ConnectInputs\<close>

record CScriptCheck =
  sc_scriptPubKey :: bytes
  sc_txTo :: CTransaction
  sc_nIn :: nat
  sc_nFlags :: "32 word"
  sc_nHashType :: "32 word"

definition new_CScriptCheck :: "CTransaction \<Rightarrow> CTransaction \<Rightarrow> nat \<Rightarrow> 32 word \<Rightarrow> 32 word \<Rightarrow> CScriptCheck" where
  "new_CScriptCheck txFromIn txToIn nInIn nFlagsIn nHashTypeIn =
     \<lparr> sc_scriptPubKey = get_scriptPubKey (get_vout txFromIn ! unat (get_n (get_prevout (get_vin txToIn ! nInIn)))),
       sc_txTo = txToIn, sc_nIn = nInIn, sc_nFlags = nFlagsIn, sc_nHashType = nHashTypeIn \<rparr>"

definition run_CScriptCheck :: "crypto_env \<Rightarrow> CSignatureCache \<Rightarrow> CScriptCheck \<Rightarrow> (bool \<times> CSignatureCache) option" where
  "run_CScriptCheck env cache check =
     (case VerifyScript
         \<lparr> a_env = env, a_txTo = sc_txTo check, a_nIn = sc_nIn check, a_flags = sc_nFlags check, a_nHashType = sc_nHashType check \<rparr>
         cache (get_scriptSig (get_vin (sc_txTo check) ! sc_nIn check)) (sc_scriptPubKey check) of
       Inl _ \<Rightarrow> None
     | Inr r \<Rightarrow> Some r)"

definition VerifySignature ::
  "crypto_env \<Rightarrow> CSignatureCache \<Rightarrow> CTransaction \<Rightarrow> CTransaction \<Rightarrow> nat \<Rightarrow> 32 word \<Rightarrow> 32 word \<Rightarrow> (bool \<times> CSignatureCache) option" where
  "VerifySignature env cache txFrom txTo nIn flags nHashType =
     run_CScriptCheck env cache (new_CScriptCheck txFrom txTo nIn flags nHashType)"

text \<open>The walk back from the block that is connected: is the previous transaction in one of the last blocks?\<close>

fun immature :: "int \<Rightarrow> int \<Rightarrow> CDiskTxPos \<Rightarrow> chain \<Rightarrow> bool" where
  "immature maturity nHeight pos [] = False"
| "immature maturity nHeight pos (pindex # chain) =
     (if \<not> nHeight - sint (bi_nHeight pindex) < maturity then False
      else if bi_nBlockPos pindex = get_nBlockPos pos \<and> bi_nFile pindex = get_nFile pos then True
      else immature maturity nHeight pos chain)"

text \<open>The first loop: \<open>Inl\<close> is a return with that verdict, \<open>Inr\<close> the sum of the inputs.\<close>

fun connect_values ::
  "'d node_env \<Rightarrow> CTransaction \<Rightarrow> MapPrevTx \<Rightarrow> chain \<Rightarrow> CTxIn list \<Rightarrow> 64 word \<Rightarrow> (verdict + 64 word) option" where
  "connect_values env tx inputs pindexBlock [] nValueIn = Some (Inr nValueIn)"
| "connect_values env tx inputs pindexBlock (txin # vin) nValueIn =
     (let prevout = get_prevout txin in
      case map_find (get_hash prevout) inputs of
        None \<Rightarrow> None
      | Some (txindex, txPrev) \<Rightarrow>
          if \<not> prevout_in_range inputs prevout then Some (Inl (DoS 100 False))
          else if (IsCoinBase txPrev \<or> IsCoinStake txPrev) \<and>
            immature (nCoinbaseMaturity env) (sint (bi_nHeight (hd pindexBlock))) (get_pos txindex) pindexBlock
          then Some (Inl (False, 0))
          else if get_nTime txPrev > get_nTime tx then Some (Inl (DoS 100 False))
          else let
            nValue = get_nValue (get_vout txPrev ! unat (get_n prevout));
            nValueIn = nValueIn + nValue
          in if \<not> MoneyRange nValue \<or> \<not> MoneyRange nValueIn then Some (Inl (DoS 100 False))
             else connect_values env tx inputs pindexBlock vin nValueIn)"

text \<open>
  The second loop, over the inputs from the \<open>i\<close>-th on. \<open>checks\<close> is \<open>None\<close> when \<^verbatim>\<open>pvChecks\<close> is null: the
  scripts are then checked in place, and otherwise queued.
\<close>

record connect_state =
  cn_inputs :: MapPrevTx
  cn_mapTestPool :: queued_changes
  cn_checks :: "CScriptCheck list option"
  cn_cache :: CSignatureCache

definition script_check ::
  "'d node_env \<Rightarrow> CTransaction \<Rightarrow> 32 word \<Rightarrow> bool \<Rightarrow> nat \<Rightarrow> CTransaction \<Rightarrow> connect_state \<Rightarrow> (verdict option \<times> connect_state) option" where
  "script_check env tx flags fScriptChecks i txPrev st =
     (if \<not> fScriptChecks then Some (None, st)
      else let check = new_CScriptCheck txPrev tx i flags 0 in
      case cn_checks st of
        Some vChecks \<Rightarrow> Some (None, st\<lparr> cn_checks := Some (vChecks @ [check]) \<rparr>)
      | None \<Rightarrow>
          (case run_CScriptCheck (ne_crypto env) (cn_cache st) check of
             None \<Rightarrow> None
           | Some (True, cache) \<Rightarrow> Some (None, st\<lparr> cn_cache := cache \<rparr>)
           | Some (False, cache) \<Rightarrow>
               if flags AND STRICT_FLAGS \<noteq> 0
               then (case run_CScriptCheck (ne_crypto env) cache (new_CScriptCheck txPrev tx i (flags AND NOT STRICT_FLAGS) 0) of
                   None \<Rightarrow> None
                 | Some (True, cache) \<Rightarrow> Some (Some (False, 0), st\<lparr> cn_cache := cache \<rparr>)
                 | Some (False, cache) \<Rightarrow> Some (Some (DoS 100 False), st\<lparr> cn_cache := cache \<rparr>))
               else Some (Some (DoS 100 False), st\<lparr> cn_cache := cache \<rparr>)))"

fun connect_spends ::
  "'d node_env \<Rightarrow> CTransaction \<Rightarrow> CDiskTxPos \<Rightarrow> bool \<Rightarrow> bool \<Rightarrow> bool \<Rightarrow> 32 word \<Rightarrow> CTxIn list \<Rightarrow> nat \<Rightarrow> connect_state \<Rightarrow>
    (verdict option \<times> connect_state) option" where
  "connect_spends env tx posThisTx fBlock fMiner fScriptChecks flags [] i st = Some (None, st)"
| "connect_spends env tx posThisTx fBlock fMiner fScriptChecks flags (txin # vin) i st =
     (let prevout = get_prevout txin in
      case map_find (get_hash prevout) (cn_inputs st) of
        None \<Rightarrow> None
      | Some (txindex, txPrev) \<Rightarrow>
          if \<not> CDiskTxPos_IsNull (get_vSpent txindex ! unat (get_n prevout)) then Some (Some (False, 0), st)
          else (case script_check env tx flags fScriptChecks i txPrev st of
              None \<Rightarrow> None
            | Some (Some v, st) \<Rightarrow> Some (Some v, st)
            | Some (None, st) \<Rightarrow>
                (let
                   txindex = txindex\<lparr> get_vSpent := (get_vSpent txindex)[unat (get_n prevout) := posThisTx] \<rparr>;
                   st = st\<lparr> cn_inputs := map_set (get_hash prevout) (txindex, txPrev) (cn_inputs st) \<rparr>;
                   st = (if fBlock \<or> fMiner
                         then st\<lparr> cn_mapTestPool := map_set (get_hash prevout) txindex (cn_mapTestPool st) \<rparr> else st)
                 in connect_spends env tx posThisTx fBlock fMiner fScriptChecks flags vin (i + 1) st)))"

text \<open>The amounts at the end: the reward of a coin stake, the fee of any other transaction.\<close>

definition connect_amounts ::
  "'d node_env \<Rightarrow> 'd CLevelDB \<Rightarrow> CTransaction \<Rightarrow> chain \<Rightarrow> 64 word \<Rightarrow> verdict option" where
  "connect_amounts env txdb tx pindexBlock nValueIn =
     (if IsCoinStake tx
      then (if uint (get_nTime tx) > ne_LastCheckpointTime env
            then do {
              nTxSize \<leftarrow> CTransaction_GetSerializeSize tx;
              age \<leftarrow> GetCoinAge env txdb tx;
              (case age of
                 None \<Rightarrow> Some (False, 0)
               | Some nCoinAge \<Rightarrow> do {
                   nValueOut \<leftarrow> GetValueOut tx;
                   let nReward = nValueOut - nValueIn;
                   let nCalculatedReward =
                     GetProofOfStakeReward (ne_GetTime env) nCoinAge -
                     GetMinFee tx 1 False GMF_BLOCK (word_of_nat nTxSize) + word_of_int CENT;
                   if sint nReward > sint nCalculatedReward then Some (DoS 100 False) else Some (True, 0) })
            }
            else Some (True, 0))
      else do {
        nValueOut \<leftarrow> GetValueOut tx;
        if sint nValueIn < sint nValueOut then Some (DoS 100 False)
        else let nTxFee = nValueIn - nValueOut in
        if sint nTxFee < 0 then Some (DoS 100 False)
        else let nFees = 0 + nTxFee in
        if \<not> MoneyRange nFees then Some (DoS 100 False) else Some (True, 0) })"

text \<open>The verdict, \<^verbatim>\<open>mapTestPool\<close>, the queued checks and the signature cache.\<close>

definition ConnectInputs ::
  "'d node_env \<Rightarrow> 'd CLevelDB \<Rightarrow> CTransaction \<Rightarrow> MapPrevTx \<Rightarrow> queued_changes \<Rightarrow> CDiskTxPos \<Rightarrow> chain \<Rightarrow> bool \<Rightarrow> bool \<Rightarrow>
    bool \<Rightarrow> 32 word \<Rightarrow> CScriptCheck list option \<Rightarrow> CSignatureCache \<Rightarrow> (verdict \<times> connect_state) option" where
  "ConnectInputs env txdb tx inputs mapTestPool posThisTx pindexBlock fBlock fMiner fScriptChecks flags pvChecks cache =
     (let st = \<lparr> cn_inputs = inputs, cn_mapTestPool = mapTestPool, cn_checks = pvChecks, cn_cache = cache \<rparr> in
      if IsCoinBase tx then Some ((True, 0), st)
      else case connect_values env tx inputs pindexBlock (get_vin tx) 0 of
        None \<Rightarrow> None
      | Some (Inl v) \<Rightarrow> Some (v, st)
      | Some (Inr nValueIn) \<Rightarrow>
          (case connect_spends env tx posThisTx fBlock fMiner fScriptChecks flags (get_vin tx) 0 st of
             None \<Rightarrow> None
           | Some (Some v, st) \<Rightarrow> Some (v, st)
           | Some (None, st) \<Rightarrow> map_option (\<lambda>v. (v, st)) (connect_amounts env txdb tx pindexBlock nValueIn)))"

fun client_connect ::
  "crypto_env \<Rightarrow> (uint256, CTransaction) std_map \<Rightarrow> CTransaction \<Rightarrow> CTxIn list \<Rightarrow> nat \<Rightarrow> 64 word \<Rightarrow> CSignatureCache \<Rightarrow>
    (64 word option \<times> CSignatureCache) option" where
  "client_connect env mapTx tx [] i nValueIn cache = Some (Some nValueIn, cache)"
| "client_connect env mapTx tx (txin # vin) i nValueIn cache =
     (let prevout = get_prevout txin in
      case map_find (get_hash prevout) mapTx of
        None \<Rightarrow> Some (None, cache)
      | Some txPrev \<Rightarrow>
          if unat (get_n prevout) \<ge> length (get_vout txPrev) then Some (None, cache)
          else (case VerifySignature env cache txPrev tx i (SCRIPT_VERIFY_NOCACHE OR SCRIPT_VERIFY_P2SH) 0 of
              None \<Rightarrow> None
            | Some (False, cache) \<Rightarrow> Some (None, cache)
            | Some (True, cache) \<Rightarrow>
                (let nValue = get_nValue (get_vout txPrev ! unat (get_n prevout)); nValueIn = nValueIn + nValue in
                 if \<not> MoneyRange nValue \<or> \<not> MoneyRange nValueIn then Some (None, cache)
                 else client_connect env mapTx tx vin (i + 1) nValueIn cache)))"

definition ClientConnectInputs ::
  "crypto_env \<Rightarrow> (uint256, CTransaction) std_map \<Rightarrow> CTransaction \<Rightarrow> CSignatureCache \<Rightarrow> (bool \<times> CSignatureCache) option" where
  "ClientConnectInputs env mapTx tx cache =
     (if IsCoinBase tx then Some (False, cache)
      else case client_connect env mapTx tx (get_vin tx) 0 0 cache of
        None \<Rightarrow> None
      | Some (None, cache) \<Rightarrow> Some (False, cache)
      | Some (Some nValueIn, cache) \<Rightarrow> map_option (\<lambda>out. (\<not> sint out > sint nValueIn, cache)) (GetValueOut tx))"

section \<open>DisconnectInputs\<close>

text \<open>The loop over the inputs, on any index with a function to read and one to update an entry.\<close>

fun disconnect_loop ::
  "(uint256 \<Rightarrow> 's \<Rightarrow> CTxIndex db_read option) \<Rightarrow> (uint256 \<Rightarrow> CTxIndex \<Rightarrow> 's \<Rightarrow> (bool \<times> 's) option) \<Rightarrow> CTxIn list \<Rightarrow> 's \<Rightarrow>
    (bool \<times> 's) option" where
  "disconnect_loop rd upd [] txdb = Some (True, txdb)"
| "disconnect_loop rd upd (txin # vin) txdb =
     (let prevout = get_prevout txin in
      case rd (get_hash prevout) txdb of
        Some ReadFalse \<Rightarrow> Some (False, txdb)
      | Some (ReadTrue txindex) \<Rightarrow>
          if unat (get_n prevout) \<ge> length (get_vSpent txindex) then Some (False, txdb)
          else (case upd (get_hash prevout)
                (txindex\<lparr> get_vSpent := (get_vSpent txindex)[unat (get_n prevout) := CDiskTxPos_null] \<rparr>) txdb of
              None \<Rightarrow> None
            | Some (False, txdb) \<Rightarrow> Some (False, txdb)
            | Some (True, txdb) \<Rightarrow> disconnect_loop rd upd vin txdb)
      | _ \<Rightarrow> None)"

definition DisconnectInputs :: "'d node_env \<Rightarrow> CTransaction \<Rightarrow> 'd CLevelDB \<Rightarrow> (bool \<times> 'd CLevelDB) option" where
  "DisconnectInputs env tx txdb =
     (case (if \<not> IsCoinBase tx
            then disconnect_loop (ReadTxIndex (ne_ldb env)) (UpdateTxIndex (ne_ldb env)) (get_vin tx) txdb
            else Some (True, txdb)) of
        None \<Rightarrow> None
      | Some (False, txdb) \<Rightarrow> Some (False, txdb)
      | Some (True, txdb) \<Rightarrow>
          map_option (\<lambda>(_, txdb). (True, txdb)) (EraseTxIndex (ne_ldb env) (env_Hash (ne_crypto env)) tx txdb))"

text \<open>The loop of \<^verbatim>\<open>ConnectBlock\<close> that writes the queued changes of the index.\<close>

fun write_queued ::
  "(uint256 \<Rightarrow> CTxIndex \<Rightarrow> 's \<Rightarrow> (bool \<times> 's) option) \<Rightarrow> queued_changes \<Rightarrow> 's \<Rightarrow> (bool \<times> 's) option" where
  "write_queued upd [] txdb = Some (True, txdb)"
| "write_queued upd ((hash, txindex) # mapQueuedChanges) txdb =
     (case upd hash txindex txdb of
        None \<Rightarrow> None
      | Some (False, txdb) \<Rightarrow> Some (False, txdb)
      | Some (True, txdb) \<Rightarrow> write_queued upd mapQueuedChanges txdb)"

section \<open>Marks on the outputs\<close>

definition marks :: "CDiskTxPos \<Rightarrow> uint256 \<Rightarrow> CTxIn list \<Rightarrow> CDiskTxPos list \<Rightarrow> CDiskTxPos list" where
  "marks p h vin spent =
     fold (\<lambda>txin v. if get_hash (get_prevout txin) = h then v[unat (get_n (get_prevout txin)) := p] else v) vin spent"

lemma marks_simps [simp]:
  "marks p h [] spent = spent"
  "marks p h (txin # vin) spent =
     marks p h vin (if get_hash (get_prevout txin) = h then spent[unat (get_n (get_prevout txin)) := p] else spent)"
  by (simp_all add: marks_def)

lemma length_marks [simp]: "length (marks p h vin spent) = length spent"
  by (induction vin arbitrary: spent) auto

lemma marks_nth:
  "j < length spent \<Longrightarrow>
   marks p h vin spent ! j =
     (if \<exists>txin \<in> set vin. get_hash (get_prevout txin) = h \<and> unat (get_n (get_prevout txin)) = j then p else spent ! j)"
  by (induction vin arbitrary: spent) (auto simp: nth_list_update)

lemma marks_id: "h \<notin> (\<lambda>txin. get_hash (get_prevout txin)) ` set vin \<Longrightarrow> marks p h vin spent = spent"
  by (induction vin) auto

text \<open>Marks that are taken back leave what was there before, if that was null.\<close>

lemma marks_back:
  assumes "\<forall>txin \<in> set vin. get_hash (get_prevout txin) = h \<longrightarrow>
      spent ! unat (get_n (get_prevout txin)) = CDiskTxPos_null"
  shows "marks CDiskTxPos_null h vin (marks p h vin spent) = spent"
  using assms by (intro nth_equalityI) (auto simp: marks_nth)

context tx_index
begin

lemma disconnect_loop_marks:
  assumes "ok s" "live s"
    and "\<forall>txin \<in> set vin. \<exists>x. index s (get_hash (get_prevout txin)) = Some x \<and>
      unat (get_n (get_prevout txin)) < length (get_vSpent x)"
  shows "\<exists>s'. disconnect_loop rd upd vin s = Some (True, s') \<and> ok s' \<and> live s' \<and>
    (\<forall>h. index s' h = map_option (\<lambda>x. x\<lparr> get_vSpent := marks CDiskTxPos_null h vin (get_vSpent x) \<rparr>) (index s h))"
  using assms
proof (induction vin arbitrary: s)
  case Nil
  then show ?case by (auto simp: option.map_ident_strong)
next
  case (Cons txin vin)
  let ?h = "get_hash (get_prevout txin)" and ?n = "unat (get_n (get_prevout txin))"
  obtain x where x: "index s ?h = Some x" "?n < length (get_vSpent x)" using Cons.prems(3) by auto
  let ?x = "x\<lparr> get_vSpent := (get_vSpent x)[?n := CDiskTxPos_null] \<rparr>"
  have "wf_index ?x" using wf_index [OF Cons.prems(1) x(1)] by (simp add: wf_index_def)
  then obtain s1 where s1: "upd ?h ?x s = Some (True, s1)" "ok s1" "live s1" "index s1 = (index s)(?h \<mapsto> ?x)"
    using upd_in_transaction [OF Cons.prems(1,2)] by blast
  have "\<forall>txin \<in> set vin. \<exists>x. index s1 (get_hash (get_prevout txin)) = Some x \<and>
      unat (get_n (get_prevout txin)) < length (get_vSpent x)"
    using Cons.prems(3) x by (auto simp: s1(4))
  from Cons.IH [OF s1(2,3) this] obtain s' where s': "disconnect_loop rd upd vin s1 = Some (True, s')" "ok s'" "live s'"
      "\<forall>h. index s' h = map_option (\<lambda>x. x\<lparr> get_vSpent := marks CDiskTxPos_null h vin (get_vSpent x) \<rparr>) (index s1 h)" by blast
  have "disconnect_loop rd upd (txin # vin) s = Some (True, s')"
    using x s1(1) s'(1) rd_index [OF Cons.prems(1), of ?h] by simp
  moreover have "index s' h = map_option (\<lambda>x. x\<lparr> get_vSpent := marks CDiskTxPos_null h (txin # vin) (get_vSpent x) \<rparr>) (index s h)" for h
    using s'(4) x(1) by (cases "h = ?h") (simp_all add: s1(4))
  ultimately show ?case using s'(2,3) by blast
qed

lemma write_queued_index:
  assumes "ok s" "live s" "map_ok m" "\<forall>(h, x) \<in> set m. wf_index x"
  shows "\<exists>s'. write_queued upd m s = Some (True, s') \<and> ok s' \<and> live s' \<and>
    (\<forall>h. index s' h = (case map_find h m of Some x \<Rightarrow> Some x | None \<Rightarrow> index s h))"
  using assms
proof (induction m arbitrary: s)
  case (Cons e m)
  obtain k x where e: "e = (k, x)" by (cases e)
  obtain s1 where s1: "upd k x s = Some (True, s1)" "ok s1" "live s1" "index s1 = (index s)(k \<mapsto> x)"
    using upd_in_transaction [OF Cons.prems(1,2), of x k] Cons.prems(4) by (auto simp: e)
  obtain s' where s': "write_queued upd m s1 = Some (True, s')" "ok s'" "live s'"
      "\<forall>h. index s' h = (case map_find h m of Some x \<Rightarrow> Some x | None \<Rightarrow> index s1 h)"
    using Cons.IH [OF s1(2,3)] Cons.prems(3,4) by (auto simp: e map_ok_Cons)
  have "map_find k m = None"
    using Cons.prems(3) by (auto simp: e map_ok_Cons map_find_def map_of_eq_None_iff)
  with s1 s' show ?case by (auto simp: e map_find_Cons split: option.split)
qed simp

end

section \<open>What a connected transaction satisfies\<close>

definition spent_value :: "MapPrevTx \<Rightarrow> CTxIn \<Rightarrow> int" where
  "spent_value inputs txin = (case GetOutputFor txin inputs of Some out \<Rightarrow> sint (get_nValue out) | None \<Rightarrow> 0)"

lemma prevout_in_rangeD:
  assumes "prevout_in_range inputs prevout"
  obtains txindex txPrev where "map_find (get_hash prevout) inputs = Some (txindex, txPrev)"
    "unat (get_n prevout) < length (get_vout txPrev)" "unat (get_n prevout) < length (get_vSpent txindex)"
  using assms by (auto simp: prevout_in_range_def split: option.splits)

lemma connect_values_sum:
  assumes "connect_values env tx inputs pindexBlock vin acc = Some (Inr r)" "MoneyRange acc"
  shows "(\<forall>txin \<in> set vin. prevout_in_range inputs (get_prevout txin)) \<and> MoneyRange r \<and>
    sint r = sint acc + (\<Sum>txin \<leftarrow> vin. spent_value inputs txin)"
  using assms
proof (induction vin arbitrary: acc)
  case (Cons txin vin)
  obtain txindex txPrev where f: "map_find (get_hash (get_prevout txin)) inputs = Some (txindex, txPrev)"
    using Cons.prems(1) by (auto simp: Let_def split: option.splits)
  define v where "v = get_nValue (get_vout txPrev ! unat (get_n (get_prevout txin)))"
  have c: "prevout_in_range inputs (get_prevout txin)" "MoneyRange v" "MoneyRange (acc + v)"
      "connect_values env tx inputs pindexBlock vin (acc + v) = Some (Inr r)"
    using Cons.prems(1) f by (auto simp: Let_def v_def split: if_splits)
  then have "spent_value inputs txin = sint v"
    using f by (auto simp: spent_value_def GetOutputFor_def v_def prevout_in_range_def)
  then show ?case
    using Cons.IH [OF c(4,3)] c(1) sint_money_add [OF Cons.prems(2) c(2)] by simp
qed simp

text \<open>The sum that \<^verbatim>\<open>GetValueIn\<close> computes is the one that the first loop has checked.\<close>

lemma connect_values_value_in:
  "connect_values env tx inputs pindexBlock vin acc = Some (Inr r) \<Longrightarrow> value_in vin inputs acc = Some r"
proof (induction vin arbitrary: acc)
  case (Cons txin vin)
  then obtain txindex txPrev where f: "map_find (get_hash (get_prevout txin)) inputs = Some (txindex, txPrev)"
    by (auto simp: Let_def split: option.splits)
  with Cons.prems have "prevout_in_range inputs (get_prevout txin)"
      "connect_values env tx inputs pindexBlock vin (acc + get_nValue (get_vout txPrev ! unat (get_n (get_prevout txin)))) = Some (Inr r)"
    by (auto simp: Let_def split: if_splits)
  with Cons.IH f show ?case by (auto simp: GetOutputFor_def prevout_in_range_def)
qed simp

lemma script_check_frame:
  assumes "script_check env tx flags fScriptChecks i txPrev st = Some (v, st')"
  shows "cn_inputs st' = cn_inputs st" "cn_mapTestPool st' = cn_mapTestPool st"
  using assms by (auto simp: script_check_def Let_def split: if_splits option.splits bool.splits)

lemma connect_spends_Cons:
  assumes "connect_spends env tx p fBlock fMiner fScriptChecks flags (txin # vin) i st = Some (None, st')"
  obtains txindex txPrev st1 where
    "map_find (get_hash (get_prevout txin)) (cn_inputs st) = Some (txindex, txPrev)"
    "CDiskTxPos_IsNull (get_vSpent txindex ! unat (get_n (get_prevout txin)))"
    "script_check env tx flags fScriptChecks i txPrev st = Some (None, st1)"
    "connect_spends env tx p fBlock fMiner fScriptChecks flags vin (i + 1)
      (st1\<lparr> cn_inputs := map_set (get_hash (get_prevout txin))
          (txindex\<lparr> get_vSpent := (get_vSpent txindex)[unat (get_n (get_prevout txin)) := p] \<rparr>, txPrev) (cn_inputs st),
        cn_mapTestPool := (if fBlock \<or> fMiner
          then map_set (get_hash (get_prevout txin))
            (txindex\<lparr> get_vSpent := (get_vSpent txindex)[unat (get_n (get_prevout txin)) := p] \<rparr>) (cn_mapTestPool st)
          else cn_mapTestPool st) \<rparr>) = Some (None, st')"
proof -
  obtain x t where f: "map_find (get_hash (get_prevout txin)) (cn_inputs st) = Some (x, t)"
    using assms by (auto simp: Let_def split: option.splits)
  with assms have "CDiskTxPos_IsNull (get_vSpent x ! unat (get_n (get_prevout txin)))"
    by (auto simp: Let_def split: if_splits)
  moreover from this assms f obtain st1 where s: "script_check env tx flags fScriptChecks i t st = Some (None, st1)"
    by (auto simp: Let_def split: option.splits)
  moreover have e: "st1\<lparr> cn_inputs := m, cn_mapTestPool := cn_mapTestPool st \<rparr> = st1\<lparr> cn_inputs := m \<rparr>" for m
    using script_check_frame(2) [OF s] by (cases st1) simp
  ultimately show ?thesis
    using assms f script_check_frame [OF s]
    by (intro that [of x t st1]; cases "fBlock \<or> fMiner") (auto simp: Let_def e)
qed

lemma prevout_in_range_mark:
  assumes "map_ok inputs" "map_find h inputs = Some (x, t)" "length spent = length (get_vSpent x)"
  shows "prevout_in_range (map_set h (x\<lparr> get_vSpent := spent \<rparr>, t) inputs) = prevout_in_range inputs"
  using assms by (auto simp: prevout_in_range_def fun_eq_iff split: option.splits)

lemma connect_spends_marks:
  assumes "connect_spends env tx p fBlock fMiner fScriptChecks flags vin i st = Some (None, st')" "map_ok (cn_inputs st)"
  shows "map_ok (cn_inputs st') \<and> (\<forall>h. map_find h (cn_inputs st') =
    map_option (\<lambda>(x, t). (x\<lparr> get_vSpent := marks p h vin (get_vSpent x) \<rparr>, t)) (map_find h (cn_inputs st)))"
  using assms
proof (induction vin arbitrary: i st)
  case Nil
  then show ?case by (auto simp: option.map_ident_strong)
next
  case (Cons txin vin)
  from Cons.prems(1) obtain x t st1 where c: "map_find (get_hash (get_prevout txin)) (cn_inputs st) = Some (x, t)"
    and n: "connect_spends env tx p fBlock fMiner fScriptChecks flags vin (i + 1)
      (st1\<lparr> cn_inputs := map_set (get_hash (get_prevout txin))
          (x\<lparr> get_vSpent := (get_vSpent x)[unat (get_n (get_prevout txin)) := p] \<rparr>, t) (cn_inputs st),
        cn_mapTestPool := (if fBlock \<or> fMiner
          then map_set (get_hash (get_prevout txin))
            (x\<lparr> get_vSpent := (get_vSpent x)[unat (get_n (get_prevout txin)) := p] \<rparr>) (cn_mapTestPool st)
          else cn_mapTestPool st) \<rparr>) = Some (None, st')"
    by (rule connect_spends_Cons)
  from Cons.IH [OF n] Cons.prems(2) c show ?case by auto
qed

lemma connect_spends_null:
  assumes "connect_spends env tx p fBlock fMiner fScriptChecks flags vin i st = Some (None, st')" "map_ok (cn_inputs st)"
    and "\<forall>txin \<in> set vin. prevout_in_range (cn_inputs st) (get_prevout txin)" "\<not> CDiskTxPos_IsNull p"
  shows "distinct (map get_prevout vin) \<and> (\<forall>txin \<in> set vin. \<exists>x t. map_find (get_hash (get_prevout txin)) (cn_inputs st) = Some (x, t) \<and>
    CDiskTxPos_IsNull (get_vSpent x ! unat (get_n (get_prevout txin))))"
  using assms
proof (induction vin arbitrary: i st)
  case (Cons txin vin)
  let ?h = "get_hash (get_prevout txin)" and ?n = "unat (get_n (get_prevout txin))"
  from Cons.prems(1) obtain x t st1 where c: "map_find ?h (cn_inputs st) = Some (x, t)"
      "CDiskTxPos_IsNull (get_vSpent x ! ?n)"
    and n: "connect_spends env tx p fBlock fMiner fScriptChecks flags vin (i + 1)
      (st1\<lparr> cn_inputs := map_set ?h (x\<lparr> get_vSpent := (get_vSpent x)[?n := p] \<rparr>, t) (cn_inputs st),
        cn_mapTestPool := (if fBlock \<or> fMiner then map_set ?h (x\<lparr> get_vSpent := (get_vSpent x)[?n := p] \<rparr>) (cn_mapTestPool st)
          else cn_mapTestPool st) \<rparr>) = Some (None, st')"
    by (rule connect_spends_Cons)
  let ?inputs = "map_set ?h (x\<lparr> get_vSpent := (get_vSpent x)[?n := p] \<rparr>, t) (cn_inputs st)"
  have r: "?n < length (get_vSpent x)" using Cons.prems(3) c(1) by (auto simp: prevout_in_range_def)
  have ih: "distinct (map get_prevout vin)" "\<forall>txin \<in> set vin. \<exists>x t. map_find (get_hash (get_prevout txin)) ?inputs = Some (x, t) \<and>
      CDiskTxPos_IsNull (get_vSpent x ! unat (get_n (get_prevout txin)))"
    using Cons.IH [OF n] Cons.prems(2-4) prevout_in_range_mark [OF Cons.prems(2) c(1), of "(get_vSpent x)[?n := p]"] by auto
  have old: "(\<exists>y u. map_find (get_hash (get_prevout txin')) (cn_inputs st) = Some (y, u) \<and>
      CDiskTxPos_IsNull (get_vSpent y ! unat (get_n (get_prevout txin')))) \<and> get_prevout txin' \<noteq> get_prevout txin"
    if "txin' \<in> set vin" for txin'
  proof (cases "get_hash (get_prevout txin') = ?h")
    case True
    then have "CDiskTxPos_IsNull ((get_vSpent x)[?n := p] ! unat (get_n (get_prevout txin')))"
      using ih(2) [rule_format, OF that] Cons.prems(2) by auto
    then have "unat (get_n (get_prevout txin')) \<noteq> ?n" using r Cons.prems(4) by auto
    with True c(1) \<open>CDiskTxPos_IsNull ((get_vSpent x)[?n := p] ! unat (get_n (get_prevout txin')))\<close>
    show ?thesis by auto
  next
    case False
    then show ?thesis using ih(2) [rule_format, OF that] Cons.prems(2) by auto
  qed
  then have "get_prevout txin \<notin> get_prevout ` set vin" by force
  with ih(1) old c show ?case by auto
qed simp

lemma early_returns_false:
  "connect_values env tx inputs pindexBlock vin acc = Some (Inl v) \<Longrightarrow> \<not> fst v"
  "script_check env tx flags fScriptChecks i txPrev st = Some (Some v, st') \<Longrightarrow> \<not> fst v"
  "connect_spends env tx p fBlock fMiner fScriptChecks flags vin i st = Some (Some v, st') \<Longrightarrow> \<not> fst v"
proof -
  show "connect_values env tx inputs pindexBlock vin acc = Some (Inl v) \<Longrightarrow> \<not> fst v"
    by (induction vin arbitrary: acc) (auto simp: Let_def DoS_def split: option.splits if_splits)
  have sc: "script_check env tx flags fScriptChecks i txPrev st = Some (Some v, st') \<Longrightarrow> \<not> fst v" for i txPrev st st'
    by (auto simp: script_check_def Let_def DoS_def split: option.splits if_splits bool.splits)
  then show "script_check env tx flags fScriptChecks i txPrev st = Some (Some v, st') \<Longrightarrow> \<not> fst v" .
  show "connect_spends env tx p fBlock fMiner fScriptChecks flags vin i st = Some (Some v, st') \<Longrightarrow> \<not> fst v"
  proof (induction vin arbitrary: i st)
    case (Cons txin vin)
    then show ?case
      by (auto simp: Let_def dest: sc split: option.splits if_splits prod.splits)
  qed simp
qed

lemma ConnectInputs_TrueE:
  assumes "ConnectInputs env txdb tx inputs mapTestPool p pindexBlock fBlock fMiner fScriptChecks flags pvChecks cache = Some ((True, penalty), st)"
    and "\<not> IsCoinBase tx"
  obtains nValueIn where "connect_values env tx inputs pindexBlock (get_vin tx) 0 = Some (Inr nValueIn)"
    "connect_spends env tx p fBlock fMiner fScriptChecks flags (get_vin tx) 0
      \<lparr> cn_inputs = inputs, cn_mapTestPool = mapTestPool, cn_checks = pvChecks, cn_cache = cache \<rparr> = Some (None, st)"
    "connect_amounts env txdb tx pindexBlock nValueIn = Some (True, penalty)"
  using assms
  by (auto simp: ConnectInputs_def Let_def dest: early_returns_false split: option.splits sum.splits prod.splits)

text \<open>The scripts of an input and of the output that it spends succeed, whatever the signature cache holds.\<close>

definition script_ok :: "crypto_env \<Rightarrow> CTransaction \<Rightarrow> nat \<Rightarrow> 32 word \<Rightarrow> bytes \<Rightarrow> bool" where
  "script_ok env tx i flags scriptPubKey \<longleftrightarrow>
     (\<forall>cache. cache_ok env cache \<longrightarrow>
       (\<exists>cache'. VerifyScript \<lparr> a_env = env, a_txTo = tx, a_nIn = i, a_flags = flags, a_nHashType = 0 \<rparr> cache
          (get_scriptSig (get_vin tx ! i)) scriptPubKey = Inr (True, cache')))"

lemma run_CScriptCheck_ok:
  assumes "run_CScriptCheck env cache (new_CScriptCheck txPrev tx i flags 0) = Some (True, cache')"
    and "cache_ok env cache" "digest_lengths env" "get_nVersion tx \<in> {1, 2}" "i < length (get_vin tx)"
  shows "script_ok env tx i flags (get_scriptPubKey (get_vout txPrev ! unat (get_n (get_prevout (get_vin tx ! i)))))"
    "cache_ok env cache'"
proof -
  let ?a = "\<lparr> a_env = env, a_txTo = tx, a_nIn = i, a_flags = flags, a_nHashType = 0 \<rparr>"
  have a: "args_ok ?a" using assms(4,5) by (simp add: args_ok_def)
  show "script_ok env tx i flags (get_scriptPubKey (get_vout txPrev ! unat (get_n (get_prevout (get_vin tx ! i)))))"
    unfolding script_ok_def
  proof (intro allI impI)
    fix c assume "cache_ok env c"
    then show "\<exists>cache'. VerifyScript ?a c (get_scriptSig (get_vin tx ! i))
        (get_scriptPubKey (get_vout txPrev ! unat (get_n (get_prevout (get_vin tx ! i))))) = Inr (True, cache')"
      using VerifyScript_two_caches [OF a, of cache c "get_scriptSig (get_vin tx ! i)"
          "get_scriptPubKey (get_vout txPrev ! unat (get_n (get_prevout (get_vin tx ! i))))"] assms(1-3)
      by (auto simp: run_CScriptCheck_def new_CScriptCheck_def)
  qed
  show "cache_ok env cache'"
    using VerifyScript_two_caches [OF a, of cache cache "get_scriptSig (get_vin tx ! i)"
        "get_scriptPubKey (get_vout txPrev ! unat (get_n (get_prevout (get_vin tx ! i))))"] assms(1-3)
    by (auto simp: run_CScriptCheck_def new_CScriptCheck_def)
qed

lemma connect_spends_scripts:
  assumes "connect_spends env tx p fBlock fMiner True flags vin i st = Some (None, st')" "cn_checks st = None"
    and "map_ok (cn_inputs st)" "drop i (get_vin tx) = vin" "cache_ok (ne_crypto env) (cn_cache st)"
    and "digest_lengths (ne_crypto env)" "get_nVersion tx \<in> {1, 2}"
  shows "\<forall>j. i \<le> j \<and> j < length (get_vin tx) \<longrightarrow> (\<exists>x t. map_find (get_hash (get_prevout (get_vin tx ! j))) (cn_inputs st) = Some (x, t) \<and>
    script_ok (ne_crypto env) tx j flags (get_scriptPubKey (get_vout t ! unat (get_n (get_prevout (get_vin tx ! j))))))"
  using assms
proof (induction vin arbitrary: i st)
  case (Cons txin vin)
  let ?h = "get_hash (get_prevout txin)" and ?n = "unat (get_n (get_prevout txin))"
  have i: "i < length (get_vin tx)" "get_vin tx ! i = txin" "drop (i + 1) (get_vin tx) = vin"
    using Cons.prems(4) nth_via_drop [OF Cons.prems(4)] drop_all [of "get_vin tx" i] tl_drop [of i "get_vin tx"]
    by (cases "i < length (get_vin tx)"; simp add: drop_Suc)+
  from Cons.prems(1) obtain x t st1 where c: "map_find ?h (cn_inputs st) = Some (x, t)"
      "script_check env tx flags True i t st = Some (None, st1)"
    and n: "connect_spends env tx p fBlock fMiner True flags vin (i + 1)
      (st1\<lparr> cn_inputs := map_set ?h (x\<lparr> get_vSpent := (get_vSpent x)[?n := p] \<rparr>, t) (cn_inputs st),
        cn_mapTestPool := (if fBlock \<or> fMiner then map_set ?h (x\<lparr> get_vSpent := (get_vSpent x)[?n := p] \<rparr>) (cn_mapTestPool st)
          else cn_mapTestPool st) \<rparr>) = Some (None, st')"
    by (rule connect_spends_Cons)
  from c(2) Cons.prems(2) obtain cache' where r:
      "run_CScriptCheck (ne_crypto env) (cn_cache st) (new_CScriptCheck t tx i flags 0) = Some (True, cache')"
      "st1 = st\<lparr> cn_cache := cache' \<rparr>"
    by (auto simp: script_check_def Let_def split: option.splits bool.splits if_splits)
  note ok = run_CScriptCheck_ok [OF r(1) Cons.prems(5-7) i(1)]
  have "\<exists>x t. map_find (get_hash (get_prevout (get_vin tx ! j))) (cn_inputs st) = Some (x, t) \<and>
      script_ok (ne_crypto env) tx j flags (get_scriptPubKey (get_vout t ! unat (get_n (get_prevout (get_vin tx ! j)))))"
    if j: "i \<le> j" "j < length (get_vin tx)" for j
  proof (cases "j = i")
    case True
    then show ?thesis using ok(1) c(1) i(2) by auto
  next
    case False
    then have "i + 1 \<le> j" using j(1) by simp
    with Cons.IH [OF n] Cons.prems(2-7) r(2) ok(2) i(3) j(2)
    have "\<exists>x' t'. map_find (get_hash (get_prevout (get_vin tx ! j)))
          (map_set ?h (x\<lparr> get_vSpent := (get_vSpent x)[?n := p] \<rparr>, t) (cn_inputs st)) = Some (x', t') \<and>
        script_ok (ne_crypto env) tx j flags (get_scriptPubKey (get_vout t' ! unat (get_n (get_prevout (get_vin tx ! j)))))"
      by auto
    with Cons.prems(3) c(1) show ?thesis by (auto split: if_splits)
  qed
  then show ?case by blast
qed auto

lemma connect_spends_pool:
  assumes "connect_spends env tx p fBlock fMiner fScriptChecks flags vin i st = Some (None, st')" "fBlock \<or> fMiner"
    and "map_ok (cn_inputs st)" "map_ok (cn_mapTestPool st)"
  shows "map_ok (cn_mapTestPool st') \<and> (\<forall>h. map_find h (cn_mapTestPool st') =
    (if h \<in> (\<lambda>txin. get_hash (get_prevout txin)) ` set vin then map_option fst (map_find h (cn_inputs st'))
     else map_find h (cn_mapTestPool st)))"
  using assms
proof (induction vin arbitrary: i st)
  case (Cons txin vin)
  let ?h = "get_hash (get_prevout txin)" and ?n = "unat (get_n (get_prevout txin))"
  from Cons.prems(1) obtain x t st1 where c: "map_find ?h (cn_inputs st) = Some (x, t)"
    and n: "connect_spends env tx p fBlock fMiner fScriptChecks flags vin (i + 1)
      (st1\<lparr> cn_inputs := map_set ?h (x\<lparr> get_vSpent := (get_vSpent x)[?n := p] \<rparr>, t) (cn_inputs st),
        cn_mapTestPool := (if fBlock \<or> fMiner then map_set ?h (x\<lparr> get_vSpent := (get_vSpent x)[?n := p] \<rparr>) (cn_mapTestPool st)
          else cn_mapTestPool st) \<rparr>) = Some (None, st')"
    by (rule connect_spends_Cons)
  have "map_find ?h (cn_inputs st') = Some (x\<lparr> get_vSpent := (get_vSpent x)[?n := p] \<rparr>, t)"
    if "?h \<notin> (\<lambda>txin. get_hash (get_prevout txin)) ` set vin"
    using connect_spends_marks [OF n] Cons.prems(3) by (simp add: marks_id [OF that])
  with Cons.IH [OF n] Cons.prems(2-4) show ?case by auto
qed simp

lemma fetch_loop_entries:
  assumes "fetch_loop fetch vin inputs = Some (Some inputs')" "map_ok inputs"
    and "\<And>h e. map_find h inputs = Some e \<Longrightarrow> P h e" "\<And>h e. fetch h = Some (Some e) \<Longrightarrow> P h e"
  shows "map_ok inputs' \<and> (\<forall>h e. map_find h inputs' = Some e \<longrightarrow> P h e)"
  using assms
proof (induction vin arbitrary: inputs)
  case (Cons txin vin)
  let ?h = "get_hash (get_prevout txin)"
  show ?case
  proof (cases "map_find ?h inputs")
    case (Some e)
    with Cons.prems(1) have "fetch_loop fetch vin inputs = Some (Some inputs')" by (simp add: Let_def)
    then show ?thesis using Cons.IH Cons.prems(2-4) by blast
  next
    case None
    with Cons.prems(1) obtain e where e: "fetch ?h = Some (Some e)" "fetch_loop fetch vin (map_set ?h e inputs) = Some (Some inputs')"
      by (auto simp: Let_def split: option.splits)
    show ?thesis
      by (rule Cons.IH [OF e(2)]) (use Cons.prems(2-4) e(1) in \<open>auto split: if_splits\<close>)
  qed
qed auto

lemma FetchInputs_map_ok:
  assumes "FetchInputs env db mapTx tx mapTestPool fBlock fMiner [] = Some (Inputs inputs)"
  shows "map_ok inputs"
  using assms fetch_loop_entries [of "fetch_one env db mapTx mapTestPool fBlock fMiner" "get_vin tx" "[]" _ "\<lambda>_ _. True"]
  by (auto simp: FetchInputs_def split: option.splits if_splits)

text \<open>The index with the queued changes over it, which is what the next transaction of a block sees.\<close>

definition queued_view :: "queued_changes \<Rightarrow> (uint256 \<rightharpoonup> CTxIndex) \<Rightarrow> uint256 \<rightharpoonup> CTxIndex" where
  "queued_view m I h = (case map_find h m of Some x \<Rightarrow> Some x | None \<Rightarrow> I h)"

lemma queued_view_Nil [simp]: "queued_view [] I = I"
  by (simp add: queued_view_def fun_eq_iff)

lemma queued_view_set [simp]: "map_ok m \<Longrightarrow> queued_view (map_set h x m) I = (queued_view m I)(h \<mapsto> x)"
  by (auto simp: queued_view_def fun_eq_iff)

lemma FetchInputs_view:
  assumes "FetchInputs env db mapTx tx m True False [] = Some (Inputs inputs)" "\<not> IsCoinBase tx"
    and "txdb_ok (ne_ldb env) content db"
  shows "map_ok inputs" "map_find h inputs = Some (x, t) \<Longrightarrow> queued_view m (txdb_index content db) h = Some x"
    "txin \<in> set (get_vin tx) \<Longrightarrow> prevout_in_range inputs (get_prevout txin)"
proof -
  obtain inputs' where f: "fetch_loop (fetch_one env db mapTx m True False) (get_vin tx) [] = Some (Some inputs')" "inputs = inputs'"
    using assms(1,2) by (auto simp: FetchInputs_def split: option.splits if_splits)
  have "queued_view m (txdb_index content db) h = Some (fst e)" if "fetch_one env db mapTx m True False h = Some (Some e)" for h e
    using that txdb.rd_index [OF assms(3), of h]
    by (auto simp: fetch_one_def queued_view_def split: option.splits db_read.splits if_splits)
  then have "map_ok inputs \<and> (\<forall>h e. map_find h inputs = Some e \<longrightarrow> queued_view m (txdb_index content db) h = Some (fst e))"
    unfolding f(2) by (intro fetch_loop_entries [OF f(1)]) auto
  then show "map_ok inputs" "map_find h inputs = Some (x, t) \<Longrightarrow> queued_view m (txdb_index content db) h = Some x" by auto
  show "txin \<in> set (get_vin tx) \<Longrightarrow> prevout_in_range inputs (get_prevout txin)"
    using assms(1,2) f by (auto simp: FetchInputs_def list_all_iff split: if_splits)
qed

text \<open>The outputs that a transaction spends: they are in the index, and not yet spent.\<close>

definition unspent :: "(uint256 \<rightharpoonup> CTxIndex) \<Rightarrow> CTxIn \<Rightarrow> bool" where
  "unspent V txin \<longleftrightarrow> (\<exists>x. V (get_hash (get_prevout txin)) = Some x \<and> unat (get_n (get_prevout txin)) < length (get_vSpent x) \<and>
     get_vSpent x ! unat (get_n (get_prevout txin)) = CDiskTxPos_null)"

definition spend_marks :: "CDiskTxPos \<Rightarrow> CTxIn list \<Rightarrow> (uint256 \<rightharpoonup> CTxIndex) \<Rightarrow> uint256 \<rightharpoonup> CTxIndex" where
  "spend_marks p vin V h = map_option (\<lambda>x. x\<lparr> get_vSpent := marks p h vin (get_vSpent x) \<rparr>) (V h)"

text \<open>The index holds no other null position than the one that \<^verbatim>\<open>SetNull\<close> makes.\<close>

definition nulls_ok :: "(uint256 \<rightharpoonup> CTxIndex) \<Rightarrow> bool" where
  "nulls_ok V \<longleftrightarrow> (\<forall>h x p. V h = Some x \<and> p \<in> set (get_vSpent x) \<and> CDiskTxPos_IsNull p \<longrightarrow> p = CDiskTxPos_null)"

lemma spend_marks_Nil [simp]: "spend_marks p [] V = V"
  by (simp add: spend_marks_def fun_eq_iff option.map_ident_strong)

lemma spend_marks_id: "h \<notin> (\<lambda>txin. get_hash (get_prevout txin)) ` set vin \<Longrightarrow> spend_marks p vin V h = V h"
  by (simp add: spend_marks_def marks_id option.map_ident_strong)

lemma ConnectInputs_view:
  assumes "FetchInputs env db mapTx tx m True False [] = Some (Inputs inputs)"
    and "ConnectInputs env db tx inputs m p pindexBlock True False fScriptChecks flags pvChecks cache = Some ((True, penalty), st)"
    and "\<not> IsCoinBase tx" "txdb_ok (ne_ldb env) content db" "\<not> CDiskTxPos_IsNull p" "map_ok m"
    and "nulls_ok (queued_view m (txdb_index content db))"
  shows "map_ok (cn_mapTestPool st)"
    "queued_view (cn_mapTestPool st) (txdb_index content db) = spend_marks p (get_vin tx) (queued_view m (txdb_index content db))"
    "txin \<in> set (get_vin tx) \<Longrightarrow> unspent (queued_view m (txdb_index content db)) txin"
proof -
  let ?I = "txdb_index content db" and ?V = "queued_view m (txdb_index content db)" and ?vin = "get_vin tx"
    and ?h = "\<lambda>txin. get_hash (get_prevout txin)"
  note f = FetchInputs_view [OF assms(1,3,4)]
  obtain nValueIn where c: "connect_spends env tx p True False fScriptChecks flags ?vin 0
      \<lparr> cn_inputs = inputs, cn_mapTestPool = m, cn_checks = pvChecks, cn_cache = cache \<rparr> = Some (None, st)"
    using assms(2,3) by (rule ConnectInputs_TrueE)
  have marks: "map_find h (cn_inputs st) =
      map_option (\<lambda>(x, t). (x\<lparr> get_vSpent := marks p h ?vin (get_vSpent x) \<rparr>, t)) (map_find h inputs)" for h
    using connect_spends_marks [OF c] f(1) by simp
  have pool: "map_ok (cn_mapTestPool st)" "map_find h (cn_mapTestPool st) =
      (if h \<in> ?h ` set ?vin then map_option fst (map_find h (cn_inputs st)) else map_find h m)" for h
    using connect_spends_pool [OF c] f(1) assms(6) by simp_all
  show "map_ok (cn_mapTestPool st)" by (rule pool(1))
  have found: "\<exists>x t. map_find (?h txin) inputs = Some (x, t) \<and> ?V (?h txin) = Some x \<and>
      unat (get_n (get_prevout txin)) < length (get_vSpent x)" if "txin \<in> set ?vin" for txin
    using f(3) [OF that] by (rule prevout_in_rangeD) (use f(2) in auto)
  have null: "\<forall>txin \<in> set ?vin. \<exists>x t. map_find (?h txin) inputs = Some (x, t) \<and>
      CDiskTxPos_IsNull (get_vSpent x ! unat (get_n (get_prevout txin)))"
    using connect_spends_null [OF c] f(1,3) assms(5) by simp
  show "unspent ?V txin" if "txin \<in> set ?vin"
    using found [OF that] bspec [OF null that] assms(7) unfolding unspent_def nulls_ok_def by (metis nth_mem option.inject prod.inject)
  show "queued_view (cn_mapTestPool st) ?I = spend_marks p ?vin ?V"
  proof
    fix h
    show "queued_view (cn_mapTestPool st) ?I h = spend_marks p ?vin ?V h"
    proof (cases "h \<in> ?h ` set ?vin")
      case True
      then obtain txin where t: "txin \<in> set ?vin" "h = ?h txin" by blast
      from found [OF t(1)] True t(2) show ?thesis
        by (auto simp: queued_view_def pool(2) marks spend_marks_def split: option.splits)
    next
      case False
      then show ?thesis by (simp add: spend_marks_id [OF False]) (simp add: queued_view_def pool(2))
    qed
  qed
qed

text \<open>What a transaction spends, for \<^verbatim>\<open>DisconnectInputs\<close>: nothing, if it is a coin base.\<close>

definition spent_by :: "CTransaction \<Rightarrow> CTxIn list" where
  "spent_by tx = (if IsCoinBase tx then [] else get_vin tx)"

lemma DisconnectInputs_view:
  assumes "txdb_ok (ne_ldb env) content db" "activeBatch db \<noteq> None" "GetHash env tx = Some hash"
    and "\<And>txin. txin \<in> set (spent_by tx) \<Longrightarrow> unspent V txin"
    and "\<And>h. h \<noteq> hash \<or> h \<in> (\<lambda>txin. get_hash (get_prevout txin)) ` set (spent_by tx) \<Longrightarrow>
      txdb_index content db h = spend_marks p (spent_by tx) V h"
  obtains db' where "DisconnectInputs env tx db = Some (True, db')" "txdb_ok (ne_ldb env) content db'" "activeBatch db' \<noteq> None"
    "txdb_index content db' = V(hash := None)"
proof -
  let ?vin = "spent_by tx" and ?J = "txdb_index content db"
  have "\<exists>x. ?J (get_hash (get_prevout txin)) = Some x \<and> unat (get_n (get_prevout txin)) < length (get_vSpent x)"
    if "txin \<in> set ?vin" for txin
    using assms(4) [OF that] assms(5) [of "get_hash (get_prevout txin)"] that by (auto simp: unspent_def spend_marks_def)
  then obtain db1 where d: "disconnect_loop (ReadTxIndex (ne_ldb env)) (UpdateTxIndex (ne_ldb env)) ?vin db = Some (True, db1)"
      "txdb_ok (ne_ldb env) content db1" "activeBatch db1 \<noteq> None"
      "\<forall>h. txdb_index content db1 h = map_option (\<lambda>x. x\<lparr> get_vSpent := marks CDiskTxPos_null h ?vin (get_vSpent x) \<rparr>) (?J h)"
    using txdb.disconnect_loop_marks [OF assms(1,2), of ?vin] by blast
  have undone: "txdb_index content db1 h = V h" if "h \<noteq> hash" for h
  proof (cases "V h")
    case (Some x)
    have "marks CDiskTxPos_null h ?vin (marks p h ?vin (get_vSpent x)) = get_vSpent x"
      using assms(4) Some by (intro marks_back) (fastforce simp: unspent_def)
    with Some show ?thesis by (simp add: d(4) assms(5) [of h] that spend_marks_def)
  qed (simp add: d(4) assms(5) [of h] that spend_marks_def)
  obtain db' where e: "db_Erase (ne_ldb env) (tx_key hash) db1 = Some (True, db')" "txdb_ok (ne_ldb env) content db'"
      "activeBatch db' \<noteq> None" "txdb_index content db' = (txdb_index content db1)(hash := None)"
    by (rule txdb.era_in_transaction [OF d(2,3)])
  have "DisconnectInputs env tx db = Some (True, db')"
    using d(1) e(1) assms(3) by (cases "IsCoinBase tx") (simp_all add: DisconnectInputs_def EraseTxIndex_def spent_by_def)
  moreover have "txdb_index content db' = V(hash := None)"
    using undone by (auto simp: e(4))
  ultimately show ?thesis using that e(2,3) by blast
qed

text \<open>Writing the queued changes makes the index equal to the view of them.\<close>

lemma write_queued_view:
  assumes "txdb_ok (ne_ldb env) content db" "activeBatch db \<noteq> None" "map_ok m"
    and "\<And>h x. queued_view m (txdb_index content db) h = Some x \<Longrightarrow> wf_index x"
  obtains db' where "write_queued (UpdateTxIndex (ne_ldb env)) m db = Some (True, db')" "txdb_ok (ne_ldb env) content db'"
    "activeBatch db' \<noteq> None" "txdb_index content db' = queued_view m (txdb_index content db)"
proof -
  have "wf_index x" if "(h, x) \<in> set m" for h x
    using assms(4) [of h x] that assms(3) by (simp add: queued_view_def map_find_eq_Some [symmetric])
  then have "\<forall>(h, x) \<in> set m. wf_index x" by blast
  then show ?thesis
    using txdb.write_queued_index [OF assms(1-3)] that unfolding queued_view_def fun_eq_iff by blast
qed

lemma ConnectInputs_True:
  assumes "ConnectInputs env txdb tx inputs mapTestPool posThisTx pindexBlock fBlock fMiner True flags None cache = Some ((True, penalty), st)"
    and "\<not> IsCoinBase tx" "\<not> IsCoinStake tx" "map_ok inputs" "\<not> CDiskTxPos_IsNull posThisTx" "get_nVersion tx \<in> {1, 2}"
    and "digest_lengths (ne_crypto env)" "cache_ok (ne_crypto env) cache"
  shows "distinct (map get_prevout (get_vin tx)) \<and>
    (\<forall>i < length (get_vin tx). let prevout = get_prevout (get_vin tx ! i); n = unat (get_n prevout) in
       \<exists>txindex txPrev. map_find (get_hash prevout) inputs = Some (txindex, txPrev) \<and>
         n < length (get_vout txPrev) \<and> CDiskTxPos_IsNull (get_vSpent txindex ! n) \<and>
         script_ok (ne_crypto env) tx i flags (get_scriptPubKey (get_vout txPrev ! n))) \<and>
    (\<Sum>txout \<leftarrow> get_vout tx. sint (get_nValue txout)) \<le> (\<Sum>txin \<leftarrow> get_vin tx. spent_value inputs txin)"
proof -
  let ?st = "\<lparr> cn_inputs = inputs, cn_mapTestPool = mapTestPool, cn_checks = None, cn_cache = cache \<rparr>"
  obtain nValueIn where v: "connect_values env tx inputs pindexBlock (get_vin tx) 0 = Some (Inr nValueIn)"
      "connect_spends env tx posThisTx fBlock fMiner True flags (get_vin tx) 0 ?st = Some (None, st)"
      "connect_amounts env txdb tx pindexBlock nValueIn = Some (True, penalty)"
    using assms(1,2) by (rule ConnectInputs_TrueE)
  have r: "\<forall>txin \<in> set (get_vin tx). prevout_in_range inputs (get_prevout txin)"
      "sint nValueIn = (\<Sum>txin \<leftarrow> get_vin tx. spent_value inputs txin)"
    using connect_values_sum [OF v(1)] by simp_all
  have d: "distinct (map get_prevout (get_vin tx))"
      "\<forall>txin \<in> set (get_vin tx). \<exists>x t. map_find (get_hash (get_prevout txin)) inputs = Some (x, t) \<and>
        CDiskTxPos_IsNull (get_vSpent x ! unat (get_n (get_prevout txin)))"
    using connect_spends_null [OF v(2)] assms(4,5) r(1) by simp_all
  have sc: "\<forall>j. 0 \<le> j \<and> j < length (get_vin tx) \<longrightarrow> (\<exists>x t. map_find (get_hash (get_prevout (get_vin tx ! j))) inputs = Some (x, t) \<and>
      script_ok (ne_crypto env) tx j flags (get_scriptPubKey (get_vout t ! unat (get_n (get_prevout (get_vin tx ! j))))))"
    using connect_spends_scripts [OF v(2)] assms(4,6-8) by simp
  obtain out where o: "GetValueOut tx = Some out" "sint out \<le> sint nValueIn"
    using v(3) assms(3) by (auto simp: connect_amounts_def DoS_def split: if_splits bind_splits)
  have "(\<Sum>txout \<leftarrow> get_vout tx. sint (get_nValue txout)) \<le> (\<Sum>txin \<leftarrow> get_vin tx. spent_value inputs txin)"
    using o GetValueOut_iff [of tx out] r(2) by (simp add: total_out_def)
  moreover have "\<exists>txindex txPrev. map_find (get_hash (get_prevout (get_vin tx ! i))) inputs = Some (txindex, txPrev) \<and>
      unat (get_n (get_prevout (get_vin tx ! i))) < length (get_vout txPrev) \<and>
      CDiskTxPos_IsNull (get_vSpent txindex ! unat (get_n (get_prevout (get_vin tx ! i)))) \<and>
      script_ok (ne_crypto env) tx i flags (get_scriptPubKey (get_vout txPrev ! unat (get_n (get_prevout (get_vin tx ! i)))))"
    if "i < length (get_vin tx)" for i
  proof -
    have m: "get_vin tx ! i \<in> set (get_vin tx)" using that by simp
    show ?thesis
      using bspec [OF r(1) m] bspec [OF d(2) m] sc [rule_format, of i] that
      by (elim prevout_in_rangeD) auto
  qed
  ultimately show ?thesis using d(1) by (simp add: Let_def)
qed

section \<open>Properties\<close>


text \<open>
  Disconnecting undoes connecting: in a database transaction, after the changes that
  \<^verbatim>\<open>ConnectInputs\<close> queued for a transaction of a block are written, every output it spends is marked
  with its position; and \<^verbatim>\<open>DisconnectInputs\<close> then succeeds and gives back the index as it was, with the
  entry of the transaction itself removed.
\<close>

theorem DisconnectInputs_undoes:
  assumes "txdb_ok (ne_ldb env) content db" "activeBatch db \<noteq> None" "\<not> IsCoinBase tx" "GetHash env tx = Some hash"
    and "FetchInputs env db mapTx tx [] True False [] = Some (Inputs inputs)"
    and "ConnectInputs env db tx inputs [] posThisTx pindexBlock True False fScriptChecks flags pvChecks cache = Some ((True, penalty), st)"
    and "\<not> CDiskTxPos_IsNull posThisTx" "nulls_ok (txdb_index content db)"
  shows "\<exists>db1 db2. write_queued (UpdateTxIndex (ne_ldb env)) (cn_mapTestPool st) db = Some (True, db1) \<and>
    (\<forall>txin \<in> set (get_vin tx). \<exists>x. txdb_index content db1 (get_hash (get_prevout txin)) = Some x \<and>
       get_vSpent x ! unat (get_n (get_prevout txin)) = posThisTx) \<and>
    DisconnectInputs env tx db1 = Some (True, db2) \<and> txdb_index content db2 = (txdb_index content db)(hash := None)"
proof -
  let ?I = "txdb_index content db" and ?vin = "get_vin tx" and ?h = "\<lambda>txin. get_hash (get_prevout txin)"
  note v = ConnectInputs_view [OF assms(5,6,3,1,7), simplified, OF assms(8)]
  have "wf_index x" if "spend_marks posThisTx ?vin ?I h = Some x" for h x
    using that txdb.wf_index [OF assms(1), of h] by (auto simp: spend_marks_def wf_index_def)
  then obtain db1 where w: "write_queued (UpdateTxIndex (ne_ldb env)) (cn_mapTestPool st) db = Some (True, db1)"
      "txdb_ok (ne_ldb env) content db1" "activeBatch db1 \<noteq> None" "txdb_index content db1 = spend_marks posThisTx ?vin ?I"
    using write_queued_view [OF assms(1,2) v(1)] unfolding v(2) by blast
  have vin: "spent_by tx = ?vin" using assms(3) by (simp add: spent_by_def)
  obtain db2 where "DisconnectInputs env tx db1 = Some (True, db2)" "txdb_index content db2 = ?I(hash := None)"
    by (rule DisconnectInputs_view [OF w(2,3) assms(4), of ?I posThisTx]) (simp_all add: vin w(4) v(3))
  moreover have "\<exists>x. txdb_index content db1 (?h txin) = Some x \<and> get_vSpent x ! unat (get_n (get_prevout txin)) = posThisTx"
    if "txin \<in> set ?vin" for txin
    using v(3) [OF that] that by (auto simp: w(4) unspent_def spend_marks_def marks_nth)
  ultimately show ?thesis using w(1) by blast
qed

section \<open>A spend\<close>

definition prev_pos :: CDiskTxPos where
  "prev_pos = \<lparr> get_nFile = 2, get_nBlockPos = 3, get_nTxPos = 4 \<rparr>"

definition prev_tx :: CTransaction where
  "prev_tx = \<lparr> get_nVersion = 1, get_nTime = 0, get_vin = [], get_vout = [\<lparr> get_nValue = 50000, get_scriptPubKey = [] \<rparr>], get_nLockTime = 0 \<rparr>"

definition spend_tx :: CTransaction where
  "spend_tx = \<lparr> get_nVersion = 1, get_nTime = 10,
     get_vin = [\<lparr> get_prevout = \<lparr> get_hash = 9, get_n = 0 \<rparr>, get_scriptSig = push_vector [7, 7] @ push_vector [7, 7],
       get_nSequence = 0, get_scriptWitness = [] \<rparr>],
     get_vout = [\<lparr> get_nValue = 20000, get_scriptPubKey = [] \<rparr>], get_nLockTime = 0 \<rparr>"

definition spend_env :: "(bytes \<times> bytes) list node_env" where
  "spend_env = \<lparr> ne_crypto = sample_env, ne_ldb = list_db, ne_files = (\<lambda>p. if p = prev_pos then Some prev_tx else None),
     ne_block_time = (\<lambda>_ _. None), ne_diff = main_net, ne_GetTime = 0, ne_LastCheckpointTime = 0 \<rparr>"

definition spend_db :: "(bytes \<times> bytes) list CLevelDB" where
  "spend_db = \<lparr> pdb = [(tx_key 9, Serialize_CTxIndex (new_CTxIndex prev_pos 1))], activeBatch = Some [], fReadOnly = False, fSecure = False \<rparr>"

definition spend_inputs :: MapPrevTx where
  "spend_inputs = [(9, new_CTxIndex prev_pos 1, prev_tx)]"

lemma VerifyScript_spend: "VerifyScript a cache (push_vector [7, 7] @ push_vector [7, 7]) [] = Inr (True, cache)"
proof -
  have m: "minimal_data [7, 7]" by (simp add: minimal_data_def)
  have "EvalScript a st cache [] = Inr (True, st, cache)" for st
    by (simp add: EvalScript_def init_state_def eval_loop.simps)
  then show ?thesis
    unfolding VerifyScript_def EvalScript_two_pushes [OF m m]
    by (simp add: Let_def IsPayToScriptHash_def)
qed

lemma spend_env_main: "spend_env\<lparr> ne_diff := main_net \<rparr> = spend_env"
  by (simp add: spend_env_def)

lemma connect_spend_any:
  "ConnectInputs env db spend_tx spend_inputs m p chain fBlock False fScriptChecks flags None cache =
     Some ((True, 0),
       \<lparr> cn_inputs = [(9, (new_CTxIndex prev_pos 1)\<lparr> get_vSpent := [p] \<rparr>, prev_tx)],
         cn_mapTestPool = (if fBlock then map_set 9 ((new_CTxIndex prev_pos 1)\<lparr> get_vSpent := [p] \<rparr>) m else m),
         cn_checks = None, cn_cache = cache \<rparr>)"
proof -
  have "connect_values env spend_tx spend_inputs chain (get_vin spend_tx) 0 = Some (Inr 50000)"
    by (simp add: spend_tx_def spend_inputs_def map_find_Cons prevout_in_range_def prev_tx_def new_CTxIndex_def
        MoneyRange_def MAX_MONEY_def COIN_def IsCoinBase_def IsCoinStake_def)
  moreover have "run_CScriptCheck (ne_crypto env) cache (new_CScriptCheck prev_tx spend_tx 0 flags 0) = Some (True, cache)"
    by (simp add: run_CScriptCheck_def new_CScriptCheck_def spend_tx_def prev_tx_def VerifyScript_spend)
  then have "connect_spends env spend_tx p fBlock False fScriptChecks flags (get_vin spend_tx) 0
      \<lparr> cn_inputs = spend_inputs, cn_mapTestPool = m, cn_checks = None, cn_cache = cache \<rparr> =
     Some (None, \<lparr> cn_inputs = [(9, (new_CTxIndex prev_pos 1)\<lparr> get_vSpent := [p] \<rparr>, prev_tx)],
         cn_mapTestPool = (if fBlock then map_set 9 ((new_CTxIndex prev_pos 1)\<lparr> get_vSpent := [p] \<rparr>) m else m),
         cn_checks = None, cn_cache = cache \<rparr>)"
    by (simp add: spend_tx_def [THEN arg_cong [of _ _ get_vin]] spend_inputs_def map_find_Cons script_check_def new_CTxIndex_def
        CDiskTxPos_IsNull_def CDiskTxPos_null_def Let_def)
  moreover have "connect_amounts env db spend_tx chain 50000 = Some (True, 0)"
    by (simp add: connect_amounts_def spend_tx_def IsCoinStake_def GetValueOut_def MoneyRange_def MAX_MONEY_def COIN_def)
  moreover have "\<not> IsCoinBase spend_tx"
    by (simp add: spend_tx_def IsCoinBase_def COutPoint_IsNull_def)
  ultimately show ?thesis by (simp add: ConnectInputs_def)
qed

lemma connect_spend_net:
  "ConnectInputs (spend_env\<lparr> ne_diff := d \<rparr>) db spend_tx spend_inputs [] mempool_pos [] fBlock False True flags None empty_cache =
     Some ((True, 0),
       \<lparr> cn_inputs = [(9, (new_CTxIndex prev_pos 1)\<lparr> get_vSpent := [mempool_pos] \<rparr>, prev_tx)],
         cn_mapTestPool = (if fBlock then [(9, (new_CTxIndex prev_pos 1)\<lparr> get_vSpent := [mempool_pos] \<rparr>)] else []),
         cn_checks = None, cn_cache = empty_cache \<rparr>)"
  by (simp add: connect_spend_any)

lemmas connect_spend = connect_spend_net [where d = main_net and fBlock = True and flags = 0, unfolded spend_env_main if_True]

lemma spend_db_ok: "txdb_ok (ne_ldb spend_env) map_of spend_db"
proof -
  have "wf_index (new_CTxIndex prev_pos 1)" by (simp add: wf_index_def new_CTxIndex_def MAX_SIZE_def)
  then show ?thesis
    using leveldb_law_list by (auto simp: txdb_ok_def spend_env_def spend_db_def view_def split: if_splits)
qed

lemma spend_side_conditions:
  "\<not> IsCoinBase spend_tx" "\<not> IsCoinStake spend_tx" "map_ok spend_inputs" "\<not> CDiskTxPos_IsNull mempool_pos"
  "get_nVersion spend_tx \<in> {1, 2}" "digest_lengths (ne_crypto spend_env)" "activeBatch spend_db \<noteq> None"
  using digest_lengths_sample
  by (simp_all add: spend_tx_def IsCoinBase_def IsCoinStake_def COutPoint_IsNull_def spend_inputs_def map_ok_def
      CDiskTxPos_IsNull_def mempool_pos_def spend_env_def spend_db_def)

lemma fetch_spend_any:
  assumes "ne_ldb env = list_db" "ne_files env = ne_files spend_env" "map_find 9 m = None"
  shows "FetchInputs env spend_db [] spend_tx m fBlock False [] = Some (Inputs spend_inputs)"
proof -
  have r: "ReadTxIndex list_db 9 spend_db = Some (ReadTrue (new_CTxIndex prev_pos 1))"
  proof -
    have "wf_index (new_CTxIndex prev_pos 1)" by (simp add: wf_index_def new_CTxIndex_def MAX_SIZE_def)
    then show ?thesis
      using txdb.rd_index [OF spend_db_ok, of 9]
      by (simp add: spend_env_def txdb_index_def view_def spend_db_def Unserialize_Serialize_CTxIndex)
  qed
  have "fetch_one env spend_db [] m fBlock False 9 = Some (Some (new_CTxIndex prev_pos 1, prev_tx))"
    unfolding fetch_one_def by (simp add: assms spend_env_def r) (simp add: new_CTxIndex_def prev_pos_def mempool_pos_def)
  then have "fetch_loop (fetch_one env spend_db [] m fBlock False) (get_vin spend_tx) [] = Some (Some spend_inputs)"
    by (simp add: spend_tx_def spend_inputs_def)
  then show ?thesis
    using spend_side_conditions(1)
    by (simp add: FetchInputs_def) (simp add: spend_tx_def spend_inputs_def map_find_Cons prevout_in_range_def prev_tx_def new_CTxIndex_def)
qed

lemma fetch_spend_net:
  "FetchInputs (spend_env\<lparr> ne_diff := d \<rparr>) spend_db [] spend_tx [] fBlock False [] = Some (Inputs spend_inputs)"
  by (rule fetch_spend_any) (simp_all add: spend_env_def)

lemmas fetch_spend = fetch_spend_net [where d = main_net and fBlock = True, unfolded spend_env_main]


theorem DisconnectInputs_undoes_witness:
  "\<exists>q db1 db2. write_queued (UpdateTxIndex list_db) q spend_db = Some (True, db1) \<and>
     DisconnectInputs spend_env spend_tx db1 = Some (True, db2) \<and>
     txdb_index map_of db2 = (txdb_index map_of spend_db)(5 := None)"
proof -
  have h: "GetHash spend_env spend_tx = Some 5"
    by (simp add: CTransaction_GetHash_def CTransaction_Serialize_def spend_tx_def spend_env_def sample_env_def)
  have n: "nulls_ok (txdb_index map_of spend_db)"
    by (auto simp: nulls_ok_def txdb_index_def view_def spend_db_def Unserialize_Serialize_CTxIndex wf_index_def MAX_SIZE_def new_CTxIndex_def
        split: if_splits)
  have e: "ne_ldb spend_env = list_db" by (simp add: spend_env_def)
  from DisconnectInputs_undoes [OF spend_db_ok spend_side_conditions(7,1) h fetch_spend connect_spend spend_side_conditions(4) n]
  show ?thesis unfolding e by blast
qed

end
