(* ===== verification/Mempool.thy ===== *)
theory Mempool
  imports Tx_Connect
begin

text \<open>
  The memory pool (\<^verbatim>\<open>CTxMemPool_impl\<close> in \<^verbatim>\<open>src/src/block/transaction.h\<close> and \<^verbatim>\<open>.cpp\<close>): the transactions that
  wait for a block, by their hash, and for each output that one of them spends the input that does.
  The operations are the steps of a relation; its invariant is that the two maps agree and that no
  two transactions of the pool spend the same output.
\<close>

section \<open>Data\<close>

text \<open>Outputs are the keys of a map, in the order of \<^verbatim>\<open>operator<\<close>.\<close>

instantiation COutPoint_ext :: (linorder) linorder
begin

definition less_COutPoint_ext :: "'a COutPoint_ext \<Rightarrow> 'a COutPoint_ext \<Rightarrow> bool" where
  "less_COutPoint_ext a b \<longleftrightarrow> get_hash a < get_hash b \<or>
     get_hash a = get_hash b \<and> (get_n a < get_n b \<or> get_n a = get_n b \<and> COutPoint.more a < COutPoint.more b)"

definition less_eq_COutPoint_ext :: "'a COutPoint_ext \<Rightarrow> 'a COutPoint_ext \<Rightarrow> bool" where
  "less_eq_COutPoint_ext a b \<longleftrightarrow> a < b \<or> a = b"

instance
proof
  fix x y z :: "'a COutPoint_ext"
  show "(x < y) = (x \<le> y \<and> \<not> y \<le> x)" by (auto simp: less_eq_COutPoint_ext_def less_COutPoint_ext_def)
  show "x \<le> x" by (simp add: less_eq_COutPoint_ext_def)
  show "x \<le> z" if "x \<le> y" "y \<le> z" using that by (auto simp: less_eq_COutPoint_ext_def less_COutPoint_ext_def)
  show "x = y" if "x \<le> y" "y \<le> x" using that by (auto simp: less_eq_COutPoint_ext_def less_COutPoint_ext_def)
  show "x \<le> y \<or> y \<le> x"
    by (cases x; cases y) (auto simp: less_eq_COutPoint_ext_def less_COutPoint_ext_def not_less)
qed

end

lemma COutPoint_less_iff: "COutPoint_less a b \<longleftrightarrow> a < b" for a b :: COutPoint
  by (simp add: COutPoint_less_def less_COutPoint_ext_def)

text \<open>The pointer to an element of \<^verbatim>\<open>mapTx\<close> is the key of that element.\<close>

record CInPoint =
  get_ptx :: "uint256 option"
  inpoint_n :: "32 word"

record CTxMemPool =
  mapTx :: "(uint256, CTransaction) std_map"
  mapNextTx :: "(COutPoint, CInPoint) std_map"
  nTransactionsUpdated :: "32 word"

definition empty_pool :: CTxMemPool where
  "empty_pool = \<lparr> mapTx = [], mapNextTx = [], nTransactionsUpdated = 0 \<rparr>"

section \<open>Operations on the maps\<close>

definition pool_exists :: "uint256 \<Rightarrow> CTxMemPool \<Rightarrow> bool" where
  "pool_exists hash pool \<longleftrightarrow> map_find hash (mapTx pool) \<noteq> None"

text \<open>\<^verbatim>\<open>lookup\<close> is \<^verbatim>\<open>operator[]\<close>, which adds a null transaction under a hash that is not there.\<close>

definition null_tx :: "int \<Rightarrow> CTransaction" where
  "null_tx AdjustedTime = \<lparr> get_nVersion = 1, get_nTime = word_of_int AdjustedTime, get_vin = [], get_vout = [], get_nLockTime = 0 \<rparr>"

definition pool_lookup :: "int \<Rightarrow> uint256 \<Rightarrow> CTxMemPool \<Rightarrow> CTransaction \<times> CTxMemPool" where
  "pool_lookup AdjustedTime hash pool =
     (case map_find hash (mapTx pool) of
        Some tx \<Rightarrow> (tx, pool)
      | None \<Rightarrow> (null_tx AdjustedTime, pool\<lparr> mapTx := map_set hash (null_tx AdjustedTime) (mapTx pool) \<rparr>))"

fun add_inpoints :: "uint256 \<Rightarrow> CTxIn list \<Rightarrow> nat \<Rightarrow> (COutPoint, CInPoint) std_map \<Rightarrow> (COutPoint, CInPoint) std_map" where
  "add_inpoints hash [] i next = next"
| "add_inpoints hash (txin # vin) i next =
     add_inpoints hash vin (i + 1) (map_set (get_prevout txin) \<lparr> get_ptx = Some hash, inpoint_n = word_of_nat i \<rparr> next)"

definition addUnchecked :: "uint256 \<Rightarrow> CTransaction \<Rightarrow> CTxMemPool \<Rightarrow> bool \<times> CTxMemPool" where
  "addUnchecked hash tx pool =
     (True, pool\<lparr> mapTx := map_set hash tx (mapTx pool), mapNextTx := add_inpoints hash (get_vin tx) 0 (mapNextTx pool),
        nTransactionsUpdated := nTransactionsUpdated pool + 1 \<rparr>)"

definition pool_remove :: "(bytes \<Rightarrow> uint256) \<Rightarrow> CTransaction \<Rightarrow> CTxMemPool \<Rightarrow> (bool \<times> CTxMemPool) option" where
  "pool_remove Hash tx pool =
     map_option (\<lambda>hash.
       (True,
        if pool_exists hash pool
        then pool\<lparr> mapNextTx := fold (\<lambda>txin. map_erase (get_prevout txin)) (get_vin tx) (mapNextTx pool),
               mapTx := map_erase hash (mapTx pool), nTransactionsUpdated := nTransactionsUpdated pool + 1 \<rparr>
        else pool))
     (CTransaction_GetHash Hash tx)"

definition pool_clear :: "CTxMemPool \<Rightarrow> CTxMemPool" where
  "pool_clear pool = pool\<lparr> mapTx := [], mapNextTx := [], nTransactionsUpdated := nTransactionsUpdated pool + 1 \<rparr>"

definition queryHashes :: "CTxMemPool \<Rightarrow> uint256 list" where
  "queryHashes pool = map fst (mapTx pool)"

definition pool_size :: "CTxMemPool \<Rightarrow> nat" where
  "pool_size pool = length (mapTx pool)"

section \<open>Acceptance\<close>

text \<open>
  What \<^verbatim>\<open>accept\<close> reads besides the node: the network time, whether a wallet owns the transaction, and
  the floating-point arithmetic of the limit on free transactions: the decay of the count over a
  number of seconds, the comparison with the limit, and the addition of a size.
\<close>

record ('d, 'f) pool_env =
  pe_node :: "'d node_env"
  pe_AdjustedTime :: int
  pe_IsFromMe :: "CTransaction \<Rightarrow> bool"
  pe_decay :: "'f \<Rightarrow> int \<Rightarrow> 'f"
  pe_exceeds :: "'f \<Rightarrow> bool"
  pe_add :: "'f \<Rightarrow> nat \<Rightarrow> 'f"

text \<open>The pool, the static variables of \<^verbatim>\<open>accept\<close>, and the signature cache.\<close>

record 'f accept_state =
  as_pool :: CTxMemPool
  dFreeCount :: 'f
  nLastTime :: int
  as_cache :: CSignatureCache

definition FutureDrift :: "int \<Rightarrow> int" where
  "FutureDrift nTime = nTime + 2 * (60 * 60)"

definition rate_limit :: "('d, 'f) pool_env \<Rightarrow> CTransaction \<Rightarrow> nat \<Rightarrow> 'f accept_state \<Rightarrow> bool \<times> 'f accept_state" where
  "rate_limit env tx nSize st =
     (let
        nNow = ne_GetTime (pe_node env);
        st = st\<lparr> dFreeCount := pe_decay env (dFreeCount st) (nNow - nLastTime st) \<rparr>;
        st = st\<lparr> nLastTime := nNow \<rparr>
      in
      if pe_exceeds env (dFreeCount st) \<and> \<not> pe_IsFromMe env tx then (False, st)
      else (True, st\<lparr> dFreeCount := pe_add env (dFreeCount st) nSize \<rparr>))"

text \<open>The part for \<^verbatim>\<open>fCheckInputs\<close>: the verdict and \<^verbatim>\<open>*pfMissingInputs\<close>.\<close>

definition accept_inputs ::
  "('d, 'f) pool_env \<Rightarrow> chain \<Rightarrow> 'd CLevelDB \<Rightarrow> CTransaction \<Rightarrow> 'f accept_state \<Rightarrow> ((verdict \<times> bool) \<times> 'f accept_state) option" where
  "accept_inputs env pindexBest txdb tx st =
     (case FetchInputs (pe_node env) txdb (mapTx (as_pool st)) tx [] False False [] of
        None \<Rightarrow> None
      | Some (NoInputs fInvalid penalty) \<Rightarrow> Some (((False, penalty), \<not> fInvalid), st)
      | Some (Inputs mapInputs) \<Rightarrow> do {
          (standard, cache) \<leftarrow> AreInputsStandard (pe_node env) tx mapInputs (as_cache st);
          let st = st\<lparr> as_cache := cache \<rparr>;
          if \<not> standard \<and> \<not> fTestNet (ne_diff (pe_node env)) then Some (((False, 0), False), st)
          else do {
            nValueIn \<leftarrow> GetValueIn tx mapInputs;
            nValueOut \<leftarrow> GetValueOut tx;
            let nFees = nValueIn - nValueOut;
            nSize \<leftarrow> tx_size tx;
            let txMinFee = GetMinFee tx 1000 True GMF_RELAY (word_of_nat nSize);
            if sint nFees < sint txMinFee then Some (((False, 0), False), st)
            else do {
              let (relay, st) = (if sint nFees < MIN_RELAY_TX_FEE then rate_limit env tx nSize st else (True, st));
              if \<not> relay then Some (((False, 0), False), st)
              else do {
                (v, cn) \<leftarrow> ConnectInputs (pe_node env) txdb tx mapInputs [] mempool_pos pindexBest False False True STRICT_FLAGS None
                  (as_cache st);
                Some ((v, False), st\<lparr> as_cache := cn_cache cn \<rparr>)
              }
            }
          }
        })"

definition accept ::
  "('d, 'f) pool_env \<Rightarrow> chain \<Rightarrow> 'd CLevelDB \<Rightarrow> CTransaction \<Rightarrow> bool \<Rightarrow> 'f accept_state \<Rightarrow> ((verdict \<times> bool) \<times> 'f accept_state) option" where
  "accept env pindexBest txdb tx fCheckInputs st =
     (if uint (get_nTime tx) > FutureDrift (pe_AdjustedTime env) then Some ((DoS 10 False, False), st)
      else case CheckTransaction tx of
        None \<Rightarrow> None
      | Some (False, penalty) \<Rightarrow> Some (((False, penalty), False), st)
      | Some (True, _) \<Rightarrow>
          if IsCoinBase tx then Some ((DoS 100 False, False), st)
          else if IsCoinStake tx then Some ((DoS 100 False, False), st)
          else if uint (get_nLockTime tx) > 2 ^ 31 - 1 then Some (((False, 0), False), st)
          else if \<not> fTestNet (ne_diff (pe_node env)) \<and> IsStandard tx \<noteq> None then Some (((False, 0), False), st)
          else do {
            hash \<leftarrow> GetHash (pe_node env) tx;
            if pool_exists hash (as_pool st) then Some (((False, 0), False), st)
            else do {
              contained \<leftarrow> (if fCheckInputs then ContainsTx (ne_ldb (pe_node env)) hash txdb else Some False);
              if contained then Some (((False, 0), False), st)
              else if list_ex (\<lambda>txin. map_find (get_prevout txin) (mapNextTx (as_pool st)) \<noteq> None) (get_vin tx)
              then Some (((False, 0), False), st)
              else do {
                ((v, fMissingInputs), st) \<leftarrow>
                  (if fCheckInputs then accept_inputs env pindexBest txdb tx st else Some (((True, 0), False), st));
                if \<not> fst v then Some ((v, fMissingInputs), st)
                else Some ((v, fMissingInputs), st\<lparr> as_pool := snd (addUnchecked hash tx (as_pool st)) \<rparr>)
              }
            }
          })"

text \<open>\<^verbatim>\<open>CTransaction_impl::AcceptToMemoryPool\<close> calls \<^verbatim>\<open>accept\<close>; \<^verbatim>\<open>GetTransaction\<close> looks in the pool and then on disk.\<close>

definition GetTransaction :: "'d node_env \<Rightarrow> 'd CLevelDB \<Rightarrow> uint256 \<Rightarrow> CTxMemPool \<Rightarrow> CTransaction option option" where
  "GetTransaction env txdb hash pool =
     (case map_find hash (mapTx pool) of
        Some tx \<Rightarrow> Some (Some tx)
      | None \<Rightarrow> map_option (map_option fst) (ReadFromDisk env txdb \<lparr> get_hash = hash, get_n = 0 \<rparr>))"

section \<open>The invariant\<close>

text \<open>Which input of the pool spends an output.\<close>

definition spends :: "(uint256, CTransaction) std_map \<Rightarrow> COutPoint \<Rightarrow> CInPoint \<Rightarrow> bool" where
  "spends txs outpoint p \<longleftrightarrow>
     (\<exists>hash tx i. map_find hash txs = Some tx \<and> i < length (get_vin tx) \<and> get_prevout (get_vin tx ! i) = outpoint \<and>
        p = \<lparr> get_ptx = Some hash, inpoint_n = word_of_nat i \<rparr>)"

definition pool_ok :: "(bytes \<Rightarrow> uint256) \<Rightarrow> CTxMemPool \<Rightarrow> bool" where
  "pool_ok Hash pool \<longleftrightarrow> map_ok (mapTx pool) \<and> map_ok (mapNextTx pool) \<and>
     (\<forall>hash tx. map_find hash (mapTx pool) = Some tx \<longrightarrow>
        CTransaction_GetHash Hash tx = Some hash \<and> valid_tx tx \<and> \<not> IsCoinBase tx \<and> \<not> IsCoinStake tx) \<and>
     (\<forall>outpoint p. map_find outpoint (mapNextTx pool) = Some p \<longleftrightarrow> spends (mapTx pool) outpoint p)"

lemma add_inpoints_ok: "map_ok next \<Longrightarrow> map_ok (add_inpoints hash vin i next)"
  by (induction vin arbitrary: i "next") auto

lemma add_inpoints_find:
  assumes "map_ok next" "distinct (map get_prevout vin)"
  shows "map_find outpoint (add_inpoints hash vin i next) = Some p \<longleftrightarrow>
    (\<exists>j < length vin. get_prevout (vin ! j) = outpoint \<and> p = \<lparr> get_ptx = Some hash, inpoint_n = word_of_nat (i + j) \<rparr>) \<or>
    outpoint \<notin> get_prevout ` set vin \<and> map_find outpoint next = Some p"
  using assms
proof (induction vin arbitrary: i "next")
  case (Cons txin vin)
  let ?next = "map_set (get_prevout txin) \<lparr> get_ptx = Some hash, inpoint_n = word_of_nat i \<rparr> next"
  have "map_find outpoint (add_inpoints hash (txin # vin) i next) = Some p \<longleftrightarrow>
    (\<exists>j < length vin. get_prevout (vin ! j) = outpoint \<and> p = \<lparr> get_ptx = Some hash, inpoint_n = word_of_nat (i + 1 + j) \<rparr>) \<or>
    outpoint \<notin> get_prevout ` set vin \<and> map_find outpoint ?next = Some p"
    using Cons.IH [of ?next "i + 1"] Cons.prems by simp
  also have "map_find outpoint ?next = Some p \<longleftrightarrow>
      (if outpoint = get_prevout txin then p = \<lparr> get_ptx = Some hash, inpoint_n = word_of_nat i \<rparr> else map_find outpoint next = Some p)"
    using Cons.prems(1) by auto
  finally show ?case
    using Cons.prems(2) by (auto simp: Ex_less_Suc2 split: if_splits)
qed simp

lemma spends_set:
  assumes "map_ok txs" "map_find hash txs = None"
  shows "spends (map_set hash tx txs) outpoint p \<longleftrightarrow>
    (\<exists>i < length (get_vin tx). get_prevout (get_vin tx ! i) = outpoint \<and> p = \<lparr> get_ptx = Some hash, inpoint_n = word_of_nat i \<rparr>) \<or>
    spends txs outpoint p"
proof -
  have "map_find h (map_set hash tx txs) = Some t \<longleftrightarrow> h = hash \<and> t = tx \<or> map_find h txs = Some t" for h t
    using assms by auto
  then show ?thesis unfolding spends_def by (simp only:) blast
qed

lemma addUnchecked_ok:
  assumes "pool_ok Hash pool" "CTransaction_GetHash Hash tx = Some hash" "valid_tx tx" "\<not> IsCoinBase tx" "\<not> IsCoinStake tx"
    and "map_find hash (mapTx pool) = None" "\<forall>txin \<in> set (get_vin tx). map_find (get_prevout txin) (mapNextTx pool) = None"
  shows "pool_ok Hash (snd (addUnchecked hash tx pool))"
proof -
  have ok: "map_ok (mapTx pool)" "map_ok (mapNextTx pool)"
      "map_find outpoint (mapNextTx pool) = Some p \<longleftrightarrow> spends (mapTx pool) outpoint p" for outpoint p
    using assms(1) by (auto simp: pool_ok_def)
  have "distinct (map get_prevout (get_vin tx))" using assms(3) by (simp add: valid_tx_def)
  from add_inpoints_find [OF ok(2) this, of _ hash 0]
  have "map_find outpoint (add_inpoints hash (get_vin tx) 0 (mapNextTx pool)) = Some p \<longleftrightarrow>
      spends (map_set hash tx (mapTx pool)) outpoint p" for outpoint p
    unfolding spends_set [OF ok(1) assms(6)] ok(3) [symmetric] using assms(7) by auto
  then show ?thesis
    using assms(1-5) by (auto simp: pool_ok_def addUnchecked_def add_inpoints_ok split: if_splits)
qed

lemma fold_erase:
  "map_find outpoint (fold (\<lambda>txin. map_erase (get_prevout txin)) vin next) =
     (if outpoint \<in> get_prevout ` set vin then None else map_find outpoint next)"
  "map_ok next \<Longrightarrow> map_ok (fold (\<lambda>txin. map_erase (get_prevout txin)) vin next)"
  by (induction vin arbitrary: "next") auto

lemma spends_unique: "pool_ok Hash pool \<Longrightarrow> spends (mapTx pool) outpoint p \<Longrightarrow> spends (mapTx pool) outpoint q \<Longrightarrow> p = q"
  by (auto simp: pool_ok_def) (metis option.inject)

text \<open>In the pool the output of an input is spent by the transaction of that input only.\<close>

lemma pool_no_conflict:
  assumes "pool_ok Hash pool" "map_find hash (mapTx pool) = Some tx" "map_find hash' (mapTx pool) = Some tx'"
    and "outpoint \<in> get_prevout ` set (get_vin tx)" "outpoint \<in> get_prevout ` set (get_vin tx')"
  shows "hash = hash'"
proof -
  have "\<exists>i. spends (mapTx pool) outpoint \<lparr> get_ptx = Some h, inpoint_n = word_of_nat i \<rparr>"
    if "map_find h (mapTx pool) = Some t" "outpoint \<in> get_prevout ` set (get_vin t)" for h t
    using that unfolding spends_def by (auto simp: in_set_conv_nth) metis
  then show ?thesis using assms spends_unique [OF assms(1)] by (metis CInPoint.ext_inject option.inject)
qed

lemma spends_erase:
  assumes "pool_ok Hash pool" "map_find hash (mapTx pool) = Some tx"
  shows "spends (map_erase hash (mapTx pool)) outpoint p \<longleftrightarrow>
    outpoint \<notin> get_prevout ` set (get_vin tx) \<and> spends (mapTx pool) outpoint p"
proof -
  have other: "h = hash" if "map_find h (mapTx pool) = Some t" "i < length (get_vin t)"
      "get_prevout (get_vin t ! i) \<in> get_prevout ` set (get_vin tx)" for h t i
    using pool_no_conflict [OF assms(1) that(1) assms(2) imageI [OF nth_mem [OF that(2)]] that(3)] .
  have "map_find h (map_erase hash (mapTx pool)) = Some t \<and> i < length (get_vin t) \<and> get_prevout (get_vin t ! i) = outpoint \<and> X \<longleftrightarrow>
      outpoint \<notin> get_prevout ` set (get_vin tx) \<and>
      map_find h (mapTx pool) = Some t \<and> i < length (get_vin t) \<and> get_prevout (get_vin t ! i) = outpoint \<and> X" for h t i X
  proof (cases "h = hash")
    case True
    then show ?thesis using assms(2) imageI [OF nth_mem, of i "get_vin t" get_prevout] by auto
  next
    case False
    with other show ?thesis by (simp; blast)
  qed
  then show ?thesis unfolding spends_def by (simp only:) blast
qed

lemma pool_remove_ok:
  assumes "pool_ok Hash pool" "CTransaction_GetHash Hash tx = Some hash"
    and "\<And>tx'. map_find hash (mapTx pool) = Some tx' \<Longrightarrow> get_prevout ` set (get_vin tx') = get_prevout ` set (get_vin tx)"
    and "pool_remove Hash tx pool = Some (b, pool')"
  shows "pool_ok Hash pool'"
proof (cases "map_find hash (mapTx pool)")
  case None
  then show ?thesis using assms by (auto simp: pool_remove_def pool_exists_def)
next
  case (Some tx')
  with assms(2,4) have "pool' = pool\<lparr> mapNextTx := fold (\<lambda>txin. map_erase (get_prevout txin)) (get_vin tx) (mapNextTx pool),
      mapTx := map_erase hash (mapTx pool), nTransactionsUpdated := nTransactionsUpdated pool + 1 \<rparr>"
    by (auto simp: pool_remove_def pool_exists_def)
  moreover have "map_find outpoint (fold (\<lambda>txin. map_erase (get_prevout txin)) (get_vin tx) (mapNextTx pool)) = Some p \<longleftrightarrow>
      spends (map_erase hash (mapTx pool)) outpoint p" for outpoint p
    using assms(1) by (simp add: fold_erase(1) spends_erase [OF assms(1) Some] assms(3) [OF Some] pool_ok_def)
  ultimately show ?thesis
    using assms(1) fold_erase(2) by (auto simp: pool_ok_def split: if_splits)
qed

section \<open>What acceptance decides\<close>

lemma CheckTransaction_True: "CheckTransaction tx = Some (True, p) \<Longrightarrow> valid_tx tx"
proof -
  assume c: "CheckTransaction tx = Some (True, p)"
  have "check_inputs tx = (True, p) \<Longrightarrow> p = 0"
    by (auto simp: check_inputs_def DoS_def Let_def split: if_splits)
  with c have "p = 0"
    by (auto simp: CheckTransaction_def DoS_def split: option.splits if_splits prod.splits bool.splits)
  with c CheckTransaction_iff_valid [of tx] show "valid_tx tx" by simp
qed

lemma rate_limit_frame: "rate_limit env tx nSize st = (ok, st') \<Longrightarrow> as_pool st' = as_pool st \<and> as_cache st' = as_cache st"
  by (auto simp: rate_limit_def Let_def split: if_splits)

lemma accept_inputs_pool: "accept_inputs env pindexBest txdb tx st = Some (r, st') \<Longrightarrow> as_pool st' = as_pool st"
  by (auto simp: accept_inputs_def Let_def dest!: rate_limit_frame split: option.splits fetched.splits bind_splits prod.splits if_splits)

text \<open>The checks that do not depend on the inputs, and what is left.\<close>

lemma acceptE:
  assumes "accept env pindexBest txdb tx fCheckInputs st = Some (((True, penalty), missing), st')"
  obtains hash st1 where "GetHash (pe_node env) tx = Some hash" "valid_tx tx" "\<not> IsCoinBase tx" "\<not> IsCoinStake tx"
    "map_find hash (mapTx (as_pool st)) = None" "\<forall>txin \<in> set (get_vin tx). map_find (get_prevout txin) (mapNextTx (as_pool st)) = None"
    "(if fCheckInputs then accept_inputs env pindexBest txdb tx st else Some (((True, 0), False), st)) = Some (((True, penalty), missing), st1)"
    "st' = st1\<lparr> as_pool := snd (addUnchecked hash tx (as_pool st1)) \<rparr>"
proof -
  obtain p where "CheckTransaction tx = Some (True, p)"
    using assms by (auto simp: accept_def DoS_def split: if_splits option.splits bool.splits)
  then have v: "valid_tx tx" by (rule CheckTransaction_True)
  have n: "\<not> IsCoinBase tx" "\<not> IsCoinStake tx"
    using assms by (auto simp: accept_def DoS_def split: if_splits option.splits bool.splits)
  obtain hash where h: "GetHash (pe_node env) tx = Some hash" "map_find hash (mapTx (as_pool st)) = None"
      "\<not> list_ex (\<lambda>txin. map_find (get_prevout txin) (mapNextTx (as_pool st)) \<noteq> None) (get_vin tx)"
    using assms by (auto simp: accept_def DoS_def pool_exists_def split: if_splits option.splits bool.splits bind_splits)
  obtain st1 where "(if fCheckInputs then accept_inputs env pindexBest txdb tx st else Some (((True, 0), False), st)) =
      Some (((True, penalty), missing), st1)" "st' = st1\<lparr> as_pool := snd (addUnchecked hash tx (as_pool st1)) \<rparr>"
    using assms h(1) by (auto simp: accept_def DoS_def split: if_splits option.splits bool.splits bind_splits prod.splits)
  with v n h show ?thesis by (intro that [of hash st1]) (auto simp: list_ex_iff)
qed

lemma accept_False:
  assumes "accept env pindexBest txdb tx fCheckInputs st = Some (((False, penalty), missing), st')"
  shows "as_pool st' = as_pool st"
  using assms
  by (auto simp: accept_def DoS_def dest: accept_inputs_pool split: if_splits option.splits bool.splits bind_splits prod.splits)

lemma accept_keeps_ok:
  assumes "accept env pindexBest txdb tx fCheckInputs st = Some (r, st')" "pool_ok (env_Hash (ne_crypto (pe_node env))) (as_pool st)"
  shows "pool_ok (env_Hash (ne_crypto (pe_node env))) (as_pool st')"
proof (cases "fst (fst r)")
  case True
  then obtain p m where a: "accept env pindexBest txdb tx fCheckInputs st = Some (((True, p), m), st')"
    using assms(1) by (metis prod.collapse)
  show ?thesis
  proof (rule acceptE [OF a])
    fix hash st1
    assume h: "GetHash (pe_node env) tx = Some hash" "valid_tx tx" "\<not> IsCoinBase tx" "\<not> IsCoinStake tx"
      "map_find hash (mapTx (as_pool st)) = None" "\<forall>txin \<in> set (get_vin tx). map_find (get_prevout txin) (mapNextTx (as_pool st)) = None"
      and i: "(if fCheckInputs then accept_inputs env pindexBest txdb tx st else Some (((True, 0), False), st)) = Some (((True, p), m), st1)"
      and st': "st' = st1\<lparr> as_pool := snd (addUnchecked hash tx (as_pool st1)) \<rparr>"
    have "as_pool st1 = as_pool st" using i by (auto dest: accept_inputs_pool split: if_splits)
    with addUnchecked_ok [OF assms(2) h] st' show ?thesis by simp
  qed
next
  case False
  then obtain p m where "accept env pindexBest txdb tx fCheckInputs st = Some (((False, p), m), st')"
    using assms(1) by (metis prod.collapse)
  from accept_False [OF this] assms(2) show ?thesis by simp
qed

section \<open>Reachable pools\<close>

text \<open>
  The pools of a node with given hash function and database library. Between two steps the clock,
  the database and the chain may change in any way. A transaction is removed when a block has it:
  if the pool has one with the same hash, it has the same inputs.
\<close>

inductive pool_reaches :: "(bytes \<Rightarrow> uint256) \<Rightarrow> 'd leveldb \<Rightarrow> 'f accept_state \<Rightarrow> bool" for Hash :: "bytes \<Rightarrow> uint256" and ldb :: "'d leveldb" where
  start: "as_pool st = empty_pool \<Longrightarrow> pool_reaches Hash ldb st"
| accept: "pool_reaches Hash ldb st \<Longrightarrow> env_Hash (ne_crypto (pe_node env)) = Hash \<Longrightarrow> ne_ldb (pe_node env) = ldb \<Longrightarrow>
    accept env pindexBest txdb tx fCheckInputs st = Some (r, st') \<Longrightarrow> pool_reaches Hash ldb st'"
| remove: "pool_reaches Hash ldb st \<Longrightarrow> CTransaction_GetHash Hash tx = Some hash \<Longrightarrow>
    (\<And>tx'. map_find hash (mapTx (as_pool st)) = Some tx' \<Longrightarrow> map get_prevout (get_vin tx') = map get_prevout (get_vin tx)) \<Longrightarrow>
    pool_remove Hash tx (as_pool st) = Some (b, pool') \<Longrightarrow> pool_reaches Hash ldb (st\<lparr> as_pool := pool' \<rparr>)"
| clear: "pool_reaches Hash ldb st \<Longrightarrow> pool_reaches Hash ldb (st\<lparr> as_pool := pool_clear (as_pool st) \<rparr>)"

lemma pool_reaches_ok: "pool_reaches Hash ldb st \<Longrightarrow> pool_ok Hash (as_pool st)"
proof (induction rule: pool_reaches.induct)
  case (accept st env pindexBest txdb tx fCheckInputs r st')
  then show ?case using accept_keeps_ok by blast
next
  case (remove st tx hash b pool')
  have "get_prevout ` set (get_vin tx') = get_prevout ` set (get_vin tx)" if "map_find hash (mapTx (as_pool st)) = Some tx'" for tx'
    using arg_cong [OF remove(3) [OF that], of set] by simp
  with remove pool_remove_ok show ?case by (metis accept_state.select_convs(1) accept_state.surjective accept_state.update_convs(1))
qed (auto simp: pool_ok_def empty_pool_def pool_clear_def spends_def)

section \<open>What an accepted transaction satisfies\<close>

lemma inputs_standard_cache:
  assumes "inputs_standard env tx mapInputs vin i cache = Some (b, cache')"
    and "cache_ok (ne_crypto env) cache" "digest_lengths (ne_crypto env)"
  shows "cache_ok (ne_crypto env) cache'"
  using assms
proof (induction vin arbitrary: i cache)
  case (Cons txin vin)
  let ?a = "\<lparr> a_env = ne_crypto env, a_txTo = tx, a_nIn = i, a_flags = 0, a_nHashType = 0 \<rparr>"
  have k: "cache_ok (ne_crypto env) c" if "EvalScript ?a [] cache (get_scriptSig txin) = Inr (ok, st, c)" for ok st c
    using EvalScript_keeps [OF _ _ _ _ that] Cons.prems(2,3) by simp
  from Cons.prems(1,2) show ?case
    by (auto split: option.splits prod.splits bool.splits sum.splits list.splits if_splits
        dest: k intro: Cons.IH [OF _ k Cons.prems(3)])
qed simp

lemma accept_inputsE:
  assumes "accept_inputs env pindexBest txdb tx st = Some (((True, penalty), missing), st')"
  obtains mapInputs standard cache nValueIn nValueOut nSize cn where
    "FetchInputs (pe_node env) txdb (mapTx (as_pool st)) tx [] False False [] = Some (Inputs mapInputs)"
    "AreInputsStandard (pe_node env) tx mapInputs (as_cache st) = Some (standard, cache)"
    "GetValueIn tx mapInputs = Some nValueIn" "GetValueOut tx = Some nValueOut" "tx_size tx = Some nSize"
    "sint (GetMinFee tx 1000 True GMF_RELAY (word_of_nat nSize)) \<le> sint (nValueIn - nValueOut)"
    "ConnectInputs (pe_node env) txdb tx mapInputs [] mempool_pos pindexBest False False True STRICT_FLAGS None cache = Some ((True, penalty), cn)"
proof -
  obtain mapInputs where f: "FetchInputs (pe_node env) txdb (mapTx (as_pool st)) tx [] False False [] = Some (Inputs mapInputs)"
    using assms by (auto simp: accept_inputs_def split: option.splits fetched.splits)
  obtain standard cache where a: "AreInputsStandard (pe_node env) tx mapInputs (as_cache st) = Some (standard, cache)"
    using assms f by (auto simp: accept_inputs_def split: bind_splits prod.splits)
  show ?thesis
    using assms f a
    by (auto simp: accept_inputs_def Let_def not_less dest!: rate_limit_frame split: bind_splits prod.splits if_splits
        intro!: that [OF f a])
qed

lemma accepted_fees:
  assumes "ConnectInputs env txdb tx inputs mapTestPool p pindexBlock fBlock fMiner fScriptChecks flags pvChecks cache = Some ((True, penalty), st)"
    and "\<not> IsCoinBase tx" "GetValueIn tx inputs = Some nValueIn" "GetValueOut tx = Some nValueOut"
  shows "sint (nValueIn - nValueOut) = (\<Sum>txin \<leftarrow> get_vin tx. spent_value inputs txin) - (\<Sum>txout \<leftarrow> get_vout tx. sint (get_nValue txout))"
proof -
  obtain r where c: "connect_values env tx inputs pindexBlock (get_vin tx) 0 = Some (Inr r)"
    using assms(1,2) by (rule ConnectInputs_TrueE)
  have r: "nValueIn = r" "MoneyRange r" "sint r = (\<Sum>txin \<leftarrow> get_vin tx. spent_value inputs txin)"
    using connect_values_value_in [OF c] connect_values_sum [OF c] assms(2,3) by (simp_all add: GetValueIn_def)
  have o: "MoneyRange nValueOut" "sint nValueOut = (\<Sum>txout \<leftarrow> get_vout tx. sint (get_nValue txout))"
    using assms(4) GetValueOut_iff [of tx nValueOut] total_out_nonneg [of "get_vout tx"]
    by (auto simp: total_out_def MoneyRange_def MAX_MONEY_def COIN_def)
  have "sint (r - nValueOut) = sint r - sint nValueOut"
    using r(2) o(1) by (simp add: sint_word_ariths MoneyRange_def MAX_MONEY_def COIN_def signed_take_bit_int_eq_self)
  with r o show ?thesis by simp
qed

section \<open>Properties\<close>

text \<open>
  C18. In every pool that a node reaches by accepting, removing and clearing, in any order and with any
  clock, database and chain: each transaction is valid, stands under its own hash and is neither a
  coin base nor a coin stake; no output is spent by two transactions; and the map of spent
  outputs has exactly the outputs that the transactions of the pool spend, each with the input
  that spends it.
\<close>

theorem mempool_consistent:
  assumes "pool_reaches Hash ldb st"
  shows "(\<forall>hash tx. map_find hash (mapTx (as_pool st)) = Some tx \<longrightarrow>
      CTransaction_GetHash Hash tx = Some hash \<and> valid_tx tx \<and> \<not> IsCoinBase tx \<and> \<not> IsCoinStake tx) \<and>
    (\<forall>hash hash' tx tx' outpoint. map_find hash (mapTx (as_pool st)) = Some tx \<and> map_find hash' (mapTx (as_pool st)) = Some tx' \<and>
      outpoint \<in> get_prevout ` set (get_vin tx) \<and> outpoint \<in> get_prevout ` set (get_vin tx') \<longrightarrow> hash = hash') \<and>
    (\<forall>outpoint p. map_find outpoint (mapNextTx (as_pool st)) = Some p \<longleftrightarrow>
      (\<exists>hash tx i. map_find hash (mapTx (as_pool st)) = Some tx \<and> i < length (get_vin tx) \<and> get_prevout (get_vin tx ! i) = outpoint \<and>
        p = \<lparr> get_ptx = Some hash, inpoint_n = word_of_nat i \<rparr>))"
proof -
  note ok = pool_reaches_ok [OF assms]
  have "hash = hash'" if "map_find hash (mapTx (as_pool st)) = Some tx" "map_find hash' (mapTx (as_pool st)) = Some tx'"
      "outpoint \<in> get_prevout ` set (get_vin tx)" "outpoint \<in> get_prevout ` set (get_vin tx')" for hash hash' tx tx' outpoint
    using pool_no_conflict [OF ok] that by blast
  with ok show ?thesis unfolding pool_ok_def spends_def by blast
qed

text \<open>
  C19. A transaction that \<^verbatim>\<open>accept\<close> takes into the pool after the check of its inputs is valid and new,
  conflicts with no transaction of the pool, spends outputs that exist and are not spent, each with
  scripts that succeed under the strict flags, and pays at least the minimum fee for relaying, as a
  number; then it is added. A transaction that is not accepted leaves the pool as it is.
\<close>

theorem accept_admits:
  assumes "accept env pindexBest txdb tx True st = Some (((b, penalty), missing), st')"
    and "digest_lengths (ne_crypto (pe_node env))" "cache_ok (ne_crypto (pe_node env)) (as_cache st)"
  shows "if b then \<exists>hash inputs. GetHash (pe_node env) tx = Some hash \<and> valid_tx tx \<and> map_find hash (mapTx (as_pool st)) = None \<and>
      (\<forall>txin \<in> set (get_vin tx). map_find (get_prevout txin) (mapNextTx (as_pool st)) = None) \<and>
      FetchInputs (pe_node env) txdb (mapTx (as_pool st)) tx [] False False [] = Some (Inputs inputs) \<and>
      (\<forall>i < length (get_vin tx). let prevout = get_prevout (get_vin tx ! i); n = unat (get_n prevout) in
         \<exists>txindex txPrev. map_find (get_hash prevout) inputs = Some (txindex, txPrev) \<and>
           n < length (get_vout txPrev) \<and> CDiskTxPos_IsNull (get_vSpent txindex ! n) \<and>
           script_ok (ne_crypto (pe_node env)) tx i STRICT_FLAGS (get_scriptPubKey (get_vout txPrev ! n))) \<and>
      (\<Sum>txin \<leftarrow> get_vin tx. spent_value inputs txin) - (\<Sum>txout \<leftarrow> get_vout tx. sint (get_nValue txout)) \<ge>
        sint (GetMinFee tx 1000 True GMF_RELAY (word_of_nat (length (tx_body tx)))) \<and>
      as_pool st' = snd (addUnchecked hash tx (as_pool st))
    else as_pool st' = as_pool st"
proof (cases b)
  case True
  with assms(1) obtain hash st1 where a: "GetHash (pe_node env) tx = Some hash" "valid_tx tx" "\<not> IsCoinBase tx" "\<not> IsCoinStake tx"
      "map_find hash (mapTx (as_pool st)) = None" "\<forall>txin \<in> set (get_vin tx). map_find (get_prevout txin) (mapNextTx (as_pool st)) = None"
      "accept_inputs env pindexBest txdb tx st = Some (((True, penalty), missing), st1)"
      "st' = st1\<lparr> as_pool := snd (addUnchecked hash tx (as_pool st1)) \<rparr>"
    by (auto elim!: acceptE)
  obtain inputs standard cache nValueIn nValueOut nSize cn where i:
      "FetchInputs (pe_node env) txdb (mapTx (as_pool st)) tx [] False False [] = Some (Inputs inputs)"
      "AreInputsStandard (pe_node env) tx inputs (as_cache st) = Some (standard, cache)"
      "GetValueIn tx inputs = Some nValueIn" "GetValueOut tx = Some nValueOut" "tx_size tx = Some nSize"
      "sint (GetMinFee tx 1000 True GMF_RELAY (word_of_nat nSize)) \<le> sint (nValueIn - nValueOut)"
      "ConnectInputs (pe_node env) txdb tx inputs [] mempool_pos pindexBest False False True STRICT_FLAGS None cache = Some ((True, penalty), cn)"
    using a(7) by (rule accept_inputsE)
  have v: "get_nVersion tx \<in> {1, 2}" using a(2) by (simp add: valid_tx_def)
  have s: "nSize = length (tx_body tx)" using i(5) v by (auto simp: tx_size_def CTransaction_Serialize_def)
  have c: "cache_ok (ne_crypto (pe_node env)) cache"
    using i(2) inputs_standard_cache [OF _ assms(3,2)] a(3) by (auto simp: AreInputsStandard_def)
  have "\<not> CDiskTxPos_IsNull mempool_pos" by (simp add: CDiskTxPos_IsNull_def mempool_pos_def)
  note r = ConnectInputs_True [OF i(7) a(3,4) FetchInputs_map_ok [OF i(1)] this v assms(2) c]
  note f = i(6) [unfolded accepted_fees [OF i(7) a(3) i(3,4)] s]
  have p: "as_pool st' = snd (addUnchecked hash tx (as_pool st))" using a(8) accept_inputs_pool [OF a(7)] by simp
  from True a(1,2,5,6) i(1) r f p show ?thesis by auto
next
  case False
  with accept_False assms(1) show ?thesis by auto
qed

section \<open>An accepted transaction\<close>

definition test_node :: "(bytes \<times> bytes) list node_env" where
  "test_node = spend_env\<lparr> ne_diff := main_net\<lparr> fTestNet := True \<rparr> \<rparr>"

definition test_env :: "((bytes \<times> bytes) list, nat) pool_env" where
  "test_env = \<lparr> pe_node = test_node, pe_AdjustedTime = 0, pe_IsFromMe = (\<lambda>_. False), pe_decay = (\<lambda>c _. c),
     pe_exceeds = (\<lambda>_. False), pe_add = (+) \<rparr>"

definition start_state :: "nat accept_state" where
  "start_state = \<lparr> as_pool = empty_pool, dFreeCount = 0, nLastTime = 0, as_cache = empty_cache \<rparr>"

lemma push_spend: "push_vector [7, 7] = [2, 7, 7]"
  by code_simp

lemma spend_tx_size: "length (tx_body spend_tx) = 70"
  by (simp add: length_tx_body push_spend spend_tx_def GetSizeOfCompactSize_def)

lemma spend_tx_checks:
  "tx_size spend_tx = Some 70" "GetValueOut spend_tx = Some 20000" "GetValueIn spend_tx spend_inputs = Some 50000"
  "GetMinFee spend_tx 1000 True GMF_RELAY 70 = 0"
proof -
  show "tx_size spend_tx = Some 70" using spend_tx_size by (simp add: tx_size_def CTransaction_Serialize_def spend_tx_def)
  show "GetValueOut spend_tx = Some 20000" "GetValueIn spend_tx spend_inputs = Some 50000"
    using spend_side_conditions(1)
    by (simp_all add: GetValueOut_def GetValueIn_def)
      (simp_all add: spend_tx_def MoneyRange_def MAX_MONEY_def COIN_def GetOutputFor_def spend_inputs_def map_find_Cons prev_tx_def)
  show "GetMinFee spend_tx 1000 True GMF_RELAY 70 = 0"
    using spend_side_conditions(2)
    by (simp add: GetMinFee_def Let_def MAX_BLOCK_SIZE_GEN_def MAX_BLOCK_SIZE_def) (simp add: spend_tx_def CENT_def)
qed

lemma CheckTransaction_spend: "CheckTransaction spend_tx = Some (True, 0)"
proof -
  have "valid_tx spend_tx"
    using spend_side_conditions(1) spend_tx_size
    by (simp add: valid_tx_def) (simp add: spend_tx_def COutPoint_IsNull_def CTxOut_IsEmpty_def)
  then show ?thesis using CheckTransaction_iff_valid [of spend_tx] by simp
qed

lemma spend_tx_hash: "GetHash test_node spend_tx = Some 5"
  by (simp add: test_node_def spend_env_def CTransaction_GetHash_def CTransaction_Serialize_def spend_tx_def sample_env_def)

lemma spend_tx_new: "ContainsTx (ne_ldb test_node) 5 spend_db = Some False"
  by (simp add: test_node_def spend_env_def ContainsTx_def db_Exists_def ExistsNormal_def spend_db_def list_db_def ScanBatch_def)

lemma Solver_Nil: "Solver [] = (False, TX_NONSTANDARD, [])"
  by code_simp

lemma spend_tx_standard: "AreInputsStandard test_node spend_tx spend_inputs empty_cache = Some (False, empty_cache)"
  using spend_side_conditions(1)
  by (simp add: AreInputsStandard_def) (simp add: spend_tx_def GetOutputFor_def spend_inputs_def map_find_Cons prev_tx_def Solver_Nil)

lemma accept_spend:
  "accept test_env [] spend_db spend_tx True start_state =
     Some (((True, 0), False), start_state\<lparr> as_pool := snd (addUnchecked 5 spend_tx empty_pool) \<rparr>)"
proof -
  have n: "pe_node test_env = test_node" "fTestNet (ne_diff test_node)" "mapTx empty_pool = []" "mapNextTx empty_pool = []"
    by (simp_all add: test_env_def test_node_def empty_pool_def)
  have "accept_inputs test_env [] spend_db spend_tx start_state = Some (((True, 0), False), start_state)"
    using fetch_spend_net [of "main_net\<lparr> fTestNet := True \<rparr>" False]
      connect_spend_net [of "main_net\<lparr> fTestNet := True \<rparr>" spend_db False "0x17"]
    by (simp add: accept_inputs_def n start_state_def spend_tx_standard spend_tx_checks MIN_RELAY_TX_FEE_def MIN_TX_FEE_def flip: test_node_def)
  then show ?thesis
    using spend_side_conditions(1,2)
    by (simp add: accept_def n CheckTransaction_spend spend_tx_hash spend_tx_new pool_exists_def start_state_def list_ex_iff)
      (simp add: spend_tx_def test_env_def FutureDrift_def)
qed

definition pool_state :: "nat accept_state" where
  "pool_state = start_state\<lparr> as_pool := snd (addUnchecked 5 spend_tx empty_pool) \<rparr>"

lemma pool_state_next:
  "map_find \<lparr> get_hash = 9, get_n = 0 \<rparr> (mapNextTx (as_pool pool_state)) = Some \<lparr> get_ptx = Some 5, inpoint_n = 0 \<rparr>"
  by (simp add: pool_state_def addUnchecked_def empty_pool_def spend_tx_def map_find_Cons)

theorem mempool_consistent_witness:
  "\<exists>hash tx. map_find hash (mapTx (as_pool pool_state)) = Some tx \<and> CTransaction_GetHash (env_Hash (ne_crypto test_node)) tx = Some hash \<and>
     valid_tx tx \<and> (\<exists>i < length (get_vin tx). get_prevout (get_vin tx ! i) = \<lparr> get_hash = 9, get_n = 0 \<rparr> \<and> (0 :: 32 word) = word_of_nat i)"
proof -
  have n: "pe_node test_env = test_node" by (simp add: test_env_def)
  have "pool_reaches (env_Hash (ne_crypto test_node)) (ne_ldb test_node) start_state"
    by (rule pool_reaches.start) (simp add: start_state_def)
  note pool_reaches.accept [OF this, of test_env, unfolded n, OF refl refl accept_spend, folded pool_state_def]
  note r = mempool_consistent [OF this]
  obtain hash tx i where "map_find hash (mapTx (as_pool pool_state)) = Some tx" "i < length (get_vin tx)"
      "get_prevout (get_vin tx ! i) = \<lparr> get_hash = 9, get_n = 0 \<rparr>" "(0 :: 32 word) = word_of_nat i"
    using r [THEN conjunct2, THEN conjunct2, rule_format, THEN iffD1, OF pool_state_next] by auto
  with r [THEN conjunct1, rule_format, of hash tx] show ?thesis by blast
qed

theorem accept_admits_witness:
  "\<exists>hash inputs. GetHash test_node spend_tx = Some hash \<and> FetchInputs test_node spend_db [] spend_tx [] False False [] = Some (Inputs inputs) \<and>
     (\<Sum>txin \<leftarrow> get_vin spend_tx. spent_value inputs txin) - (\<Sum>txout \<leftarrow> get_vout spend_tx. sint (get_nValue txout)) \<ge> 0 \<and>
     as_pool pool_state = snd (addUnchecked hash spend_tx empty_pool)"
proof -
  have n: "pe_node test_env = test_node" "as_cache start_state = empty_cache" "as_pool start_state = empty_pool" "mapTx empty_pool = []"
    by (simp_all add: test_env_def start_state_def empty_pool_def)
  have d: "digest_lengths (ne_crypto (pe_node test_env))"
    using digest_lengths_sample by (simp add: n test_node_def spend_env_def)
  have c: "cache_ok (ne_crypto (pe_node test_env)) (as_cache start_state)" by (simp add: n cache_ok_empty)
  have "word_of_nat 70 = (70 :: 32 word)" by simp
  from accept_admits [OF accept_spend d c, unfolded if_True n spend_tx_size this spend_tx_checks(4) signed_0]
  show ?thesis unfolding pool_state_def by (elim exE conjE) (intro exI conjI; assumption)
qed

end
