(* ===== verification/Merkle.thy ===== *)
theory Merkle
  imports Sig_Check
begin

text \<open>
  Merkle trees (\<^verbatim>\<open>CMerkleTree\<close> of \<^verbatim>\<open>src/src/merkle/merkle_tree.cpp\<close>): the hashes of the transactions of a
  block and, row by row, the hashes of pairs of neighbours, in one vector. The specification is the
  list of the rows, each made from the one before. \<^verbatim>\<open>hash_basis::Hash\<close> of two values is the hash of the
  bytes of the first and then the second.
\<close>

section \<open>The tree\<close>

record CMerkleTree =
  merkle_vtx :: "CTransaction list"
  vMerkleTree :: "uint256 list"

definition Hash_pair :: "(bytes \<Rightarrow> uint256) \<Rightarrow> uint256 \<Rightarrow> uint256 \<Rightarrow> uint256" where
  "Hash_pair Hash a b = Hash (Serialize_word a @ Serialize_word b)"

text \<open>The loops of \<^verbatim>\<open>BuildMerkleTree\<close>: over a row that starts at \<open>j\<close>, and over the rows.\<close>

function build_row :: "(bytes \<Rightarrow> uint256) \<Rightarrow> nat \<Rightarrow> nat \<Rightarrow> nat \<Rightarrow> uint256 list \<Rightarrow> uint256 list" where
  "build_row Hash j nSize i tree =
     (if i < nSize
      then let i2 = min (i + 1) (nSize - 1) in
        build_row Hash j nSize (i + 2) (tree @ [Hash_pair Hash (tree ! (j + i)) (tree ! (j + i2))])
      else tree)"
  by pat_completeness auto
termination by (relation "measure (\<lambda>(_, _, nSize, i, _). nSize - i)") auto

function build_rows :: "(bytes \<Rightarrow> uint256) \<Rightarrow> nat \<Rightarrow> nat \<Rightarrow> uint256 list \<Rightarrow> uint256 list" where
  "build_rows Hash j nSize tree =
     (if nSize > 1 then build_rows Hash (j + nSize) ((nSize + 1) div 2) (build_row Hash j nSize 0 tree) else tree)"
  by pat_completeness auto
termination by (relation "measure (\<lambda>(_, _, nSize, _). nSize)") auto

fun tx_hashes :: "(bytes \<Rightarrow> uint256) \<Rightarrow> CTransaction list \<Rightarrow> uint256 list option" where
  "tx_hashes Hash [] = Some []"
| "tx_hashes Hash (tx # vtx) =
     Option.bind (CTransaction_GetHash Hash tx) (\<lambda>h. map_option ((#) h) (tx_hashes Hash vtx))"

definition BuildMerkleTree :: "(bytes \<Rightarrow> uint256) \<Rightarrow> CMerkleTree \<Rightarrow> (uint256 \<times> CMerkleTree) option" where
  "BuildMerkleTree Hash t =
     map_option (\<lambda>hashes.
       let tree = build_rows Hash 0 (length (merkle_vtx t)) hashes
       in (if tree = [] then 0 else last tree, t\<lparr> vMerkleTree := tree \<rparr>))
     (tx_hashes Hash (merkle_vtx t))"

section \<open>Branches\<close>

function branch_loop :: "uint256 list \<Rightarrow> int \<Rightarrow> nat \<Rightarrow> nat \<Rightarrow> uint256 list" where
  "branch_loop tree nIndex j nSize =
     (if nSize > 1
      then let i = min (xor nIndex 1) (int nSize - 1) in
        tree ! nat (int j + i) # branch_loop tree (drop_bit 1 nIndex) (j + nSize) ((nSize + 1) div 2)
      else [])"
  by pat_completeness auto
termination by (relation "measure (\<lambda>(_, _, _, nSize). nSize)") auto

definition GetMerkleBranch :: "(bytes \<Rightarrow> uint256) \<Rightarrow> int \<Rightarrow> CMerkleTree \<Rightarrow> (uint256 list \<times> CMerkleTree) option" where
  "GetMerkleBranch Hash nIndex t =
     map_option (\<lambda>t. (branch_loop (vMerkleTree t) nIndex 0 (length (merkle_vtx t)), t))
       (if vMerkleTree t = [] then map_option snd (BuildMerkleTree Hash t) else Some t)"

fun check_branch :: "(bytes \<Rightarrow> uint256) \<Rightarrow> uint256 \<Rightarrow> uint256 list \<Rightarrow> int \<Rightarrow> uint256" where
  "check_branch Hash hash [] nIndex = hash"
| "check_branch Hash hash (otherside # vMerkleBranch) nIndex =
     check_branch Hash
       (if and nIndex 1 \<noteq> 0 then Hash_pair Hash otherside hash else Hash_pair Hash hash otherside)
       vMerkleBranch (drop_bit 1 nIndex)"

definition CheckMerkleBranch :: "(bytes \<Rightarrow> uint256) \<Rightarrow> uint256 \<Rightarrow> uint256 list \<Rightarrow> int \<Rightarrow> uint256" where
  "CheckMerkleBranch Hash hash vMerkleBranch nIndex =
     (if nIndex = -1 then 0 else check_branch Hash hash vMerkleBranch nIndex)"

declare build_row.simps [simp del] build_rows.simps [simp del] branch_loop.simps [simp del]

section \<open>Rows\<close>

text \<open>The row above a row; the last element of an odd row is paired with itself.\<close>

fun parents :: "(bytes \<Rightarrow> uint256) \<Rightarrow> uint256 list \<Rightarrow> uint256 list" where
  "parents Hash (x # y # row) = Hash_pair Hash x y # parents Hash row"
| "parents Hash [x] = [Hash_pair Hash x x]"
| "parents Hash [] = []"

lemma length_parents [simp]: "length (parents Hash row) = (length row + 1) div 2"
  by (induction Hash row rule: parents.induct) auto

function merkle_root :: "(bytes \<Rightarrow> uint256) \<Rightarrow> uint256 list \<Rightarrow> uint256" where
  "merkle_root Hash row = (if length row > 1 then merkle_root Hash (parents Hash row) else if row = [] then 0 else hd row)"
  by pat_completeness auto
termination by (relation "measure (\<lambda>(_, row). length row)") auto

declare merkle_root.simps [simp del]

lemma parents_nth:
  "k < length (parents Hash row) \<Longrightarrow>
    parents Hash row ! k = Hash_pair Hash (row ! (2 * k)) (row ! min (2 * k + 1) (length row - 1))"
proof (induction Hash row arbitrary: k rule: parents.induct)
  case (1 Hash x y row)
  show ?case
  proof (cases k)
    case (Suc k')
    have "min (2 * k + 1) (length (x # y # row) - 1) = Suc (Suc (min (2 * k' + 1) (length row - 1)))"
      using "1.prems" Suc by (cases row) auto
    with 1 Suc show ?thesis by simp
  qed simp
qed auto

text \<open>What the row loop appends is the row of the parents.\<close>

lemma build_row_parents:
  assumes "length row > 1" "even i"
  shows "build_row Hash (length pre) (length row) i (pre @ row @ take (i div 2) (parents Hash row)) = pre @ row @ parents Hash row"
  using assms(2)
proof (induction "length row - i" arbitrary: i rule: less_induct)
  case less
  show ?case
  proof (cases "i < length row")
    case True
    let ?k = "i div 2"
    have k: "?k < length (parents Hash row)" "2 * ?k = i" "min (i + 1) (length row - 1) < length row"
      using True less.prems by auto
    have "Hash_pair Hash (row ! i) (row ! min (i + 1) (length row - 1)) = parents Hash row ! ?k"
      using parents_nth [OF k(1)] k(2) by simp
    then have "build_row Hash (length pre) (length row) i (pre @ row @ take ?k (parents Hash row)) =
        build_row Hash (length pre) (length row) (i + 2) (pre @ row @ take (?k + 1) (parents Hash row))"
      using True k(1,3) by (subst build_row.simps) (simp add: nth_append take_Suc_conv_app_nth Let_def)
    also have "\<dots> = pre @ row @ parents Hash row"
      using less.hyps [of "i + 2"] True less.prems by simp
    finally show ?thesis .
  next
    case False
    with less.prems have "length (parents Hash row) \<le> i div 2" by (auto elim: evenE)
    with False show ?thesis by (subst build_row.simps) simp
  qed
qed

text \<open>The rows of the tree one after the other.\<close>

function all_rows :: "(bytes \<Rightarrow> uint256) \<Rightarrow> uint256 list \<Rightarrow> uint256 list" where
  "all_rows Hash row = row @ (if length row > 1 then all_rows Hash (parents Hash row) else [])"
  by pat_completeness auto
termination by (relation "measure (\<lambda>(_, row). length row)") auto

declare all_rows.simps [simp del]

lemma build_rows_all: "build_rows Hash (length pre) (length row) (pre @ row) = pre @ all_rows Hash row"
proof (induction Hash row arbitrary: pre rule: all_rows.induct)
  case (1 Hash row)
  show ?case
  proof (cases "length row > 1")
    case True
    then have "build_rows Hash (length pre) (length row) (pre @ row) =
        build_rows Hash (length (pre @ row)) (length (parents Hash row)) ((pre @ row) @ parents Hash row)"
      using build_row_parents [OF True, of 0 Hash pre] by (subst build_rows.simps) simp
    also have "\<dots> = pre @ all_rows Hash row"
      unfolding "1.IH" [OF True] using True by (simp add: all_rows.simps [of Hash row])
    finally show ?thesis .
  next
    case False
    then show ?thesis by (simp add: build_rows.simps all_rows.simps [of Hash row])
  qed
qed

lemma all_rows_Nil [simp]: "all_rows Hash row = [] \<longleftrightarrow> row = []"
  by (subst all_rows.simps) auto

lemma last_all_rows: "row \<noteq> [] \<Longrightarrow> last (all_rows Hash row) = merkle_root Hash row"
proof (induction Hash row rule: all_rows.induct)
  case (1 Hash row)
  show ?case
  proof (cases "length row > 1")
    case True
    have "0 < (length row + 1) div 2" using True by (simp add: div_greater_zero_iff)
    then have "parents Hash row \<noteq> []" using length_parents [of Hash row] by (metis length_greater_0_conv)
    with True 1 show ?thesis by (subst all_rows.simps, subst merkle_root.simps) simp
  next
    case False
    then have "length row = 1" using "1.prems" by (cases row) auto
    then show ?thesis by (subst all_rows.simps, subst merkle_root.simps) (auto simp: length_Suc_conv)
  qed
qed

lemma BuildMerkleTree_root:
  "BuildMerkleTree Hash t =
     map_option (\<lambda>hashes. (merkle_root Hash hashes, t\<lparr> vMerkleTree := all_rows Hash hashes \<rparr>)) (tx_hashes Hash (merkle_vtx t))"
proof -
  have "length hashes = length vtx" if "tx_hashes Hash vtx = Some hashes" for hashes vtx
    using that by (induction vtx arbitrary: hashes) (auto split: bind_splits)
  then have "build_rows Hash 0 (length (merkle_vtx t)) hashes = all_rows Hash hashes" if "tx_hashes Hash (merkle_vtx t) = Some hashes" for hashes
    using build_rows_all [of Hash "[]" hashes] that by fastforce
  moreover have "merkle_root Hash [] = 0" by (subst merkle_root.simps) simp
  ultimately show ?thesis
    by (cases "tx_hashes Hash (merkle_vtx t)") (simp_all add: BuildMerkleTree_def Let_def last_all_rows)
qed

section \<open>Branches of rows\<close>

text \<open>The neighbours of an element and of its ancestors.\<close>

function row_branch :: "(bytes \<Rightarrow> uint256) \<Rightarrow> uint256 list \<Rightarrow> nat \<Rightarrow> uint256 list" where
  "row_branch Hash row k =
     (if length row > 1
      then row ! (if odd k then k - 1 else min (k + 1) (length row - 1)) # row_branch Hash (parents Hash row) (k div 2)
      else [])"
  by pat_completeness auto
termination by (relation "measure (\<lambda>(_, row, _). length row)") auto

declare row_branch.simps [simp del]

lemma branch_loop_row:
  "k < length row \<Longrightarrow> branch_loop (pre @ all_rows Hash row) (int k) (length pre) (length row) = row_branch Hash row k"
proof (induction Hash row k arbitrary: pre rule: row_branch.induct)
  case (1 Hash row k)
  show ?case
  proof (cases "length row > 1")
    case True
    let ?i = "if odd k then k - 1 else min (k + 1) (length row - 1)"
    have i: "nat (int (length pre) + min (xor (int k) 1) (int (length row) - 1)) = length pre + ?i"
      using "1.prems" by (cases "odd k") (auto simp: xor_one_eq elim!: oddE)
    have "drop_bit 1 (int k) = int (k div 2)" by (simp add: drop_bit_eq_div zdiv_int)
    moreover have "(pre @ all_rows Hash row) ! (length pre + ?i) = row ! ?i"
      using "1.prems" by (subst all_rows.simps) (auto simp: nth_append)
    moreover have "branch_loop ((pre @ row) @ all_rows Hash (parents Hash row)) (int (k div 2)) (length (pre @ row)) (length (parents Hash row)) =
        row_branch Hash (parents Hash row) (k div 2)"
      using "1.prems" True by (intro "1.IH") auto
    moreover have "pre @ all_rows Hash row = (pre @ row) @ all_rows Hash (parents Hash row)"
      using True by (subst all_rows.simps) simp
    ultimately show ?thesis
      using True by (subst branch_loop.simps, subst row_branch.simps) (simp add: Let_def i)
  next
    case False
    then show ?thesis by (subst branch_loop.simps, subst row_branch.simps) simp
  qed
qed

lemma check_row_branch: "k < length row \<Longrightarrow> check_branch Hash (row ! k) (row_branch Hash row k) (int k) = merkle_root Hash row"
proof (induction Hash row k rule: row_branch.induct)
  case (1 Hash row k)
  show ?case
  proof (cases "length row > 1")
    case True
    let ?i = "if odd k then k - 1 else min (k + 1) (length row - 1)"
    have k: "k div 2 < length (parents Hash row)" using "1.prems" by auto
    have "(if and (int k) 1 \<noteq> 0 then Hash_pair Hash (row ! ?i) (row ! k) else Hash_pair Hash (row ! k) (row ! ?i)) = parents Hash row ! (k div 2)"
    proof (cases "odd k")
      case True
      then have "2 * (k div 2) = k - 1" "min (2 * (k div 2) + 1) (length row - 1) = k" "and (int k) 1 \<noteq> 0"
        using "1.prems" by (auto simp: and_one_eq mod2_eq_if elim!: oddE)
      with True show ?thesis unfolding parents_nth [OF k] by simp
    next
      case False
      then have "2 * (k div 2) = k" "and (int k) 1 = 0" by (auto simp: and_one_eq mod2_eq_if)
      with False show ?thesis unfolding parents_nth [OF k] by simp
    qed
    moreover have "drop_bit 1 (int k) = int (k div 2)" by (simp add: drop_bit_eq_div zdiv_int)
    ultimately show ?thesis
      using "1.IH" [OF True k] True by (subst row_branch.simps, subst merkle_root.simps) simp
  next
    case False
    with "1.prems" have "k = 0" "row \<noteq> []" by auto
    with False show ?thesis by (subst row_branch.simps, subst merkle_root.simps) (simp add: hd_conv_nth)
  qed
qed

lemma length_tx_hashes: "tx_hashes Hash vtx = Some hashes \<Longrightarrow> length hashes = length vtx"
  by (induction vtx arbitrary: hashes) (auto split: bind_splits)

lemma tx_hashes_nth: "tx_hashes Hash vtx = Some hashes \<Longrightarrow> i < length vtx \<Longrightarrow> CTransaction_GetHash Hash (vtx ! i) = Some (hashes ! i)"
  by (induction vtx arbitrary: hashes i) (auto simp: nth_Cons split: bind_splits nat.splits)

section \<open>Binding\<close>

text \<open>What is hashed on the way from a leaf to the root.\<close>

fun branch_inputs :: "(bytes \<Rightarrow> uint256) \<Rightarrow> uint256 \<Rightarrow> uint256 list \<Rightarrow> int \<Rightarrow> bytes list" where
  "branch_inputs Hash hash [] nIndex = []"
| "branch_inputs Hash hash (otherside # vMerkleBranch) nIndex =
     (let input = (if and nIndex 1 \<noteq> 0 then Serialize_word otherside @ Serialize_word hash
                   else Serialize_word hash @ Serialize_word otherside)
      in input # branch_inputs Hash (Hash input) vMerkleBranch (drop_bit 1 nIndex))"

lemma Hash_input_inj:
  "Serialize_word a @ Serialize_word b = Serialize_word a' @ Serialize_word b' \<longleftrightarrow> a = a' \<and> b = b'" for a b a' b' :: uint256
  using codec_uint256.ser_inj by (auto simp: append_eq_append_conv)

text \<open>Two branches to the same root from the same place are equal, or two of their inputs have the same hash.\<close>

lemma check_branch_binding:
  assumes "check_branch Hash h b i = check_branch Hash h' b' i" "length b = length b'"
  shows "h = h' \<and> b = b' \<or>
    (\<exists>k < length b. branch_inputs Hash h b i ! k \<noteq> branch_inputs Hash h' b' i ! k \<and>
       Hash (branch_inputs Hash h b i ! k) = Hash (branch_inputs Hash h' b' i ! k))"
  using assms
proof (induction b arbitrary: b' h h' i)
  case (Cons x b)
  obtain y c where b': "b' = y # c" "length b = length c" using Cons.prems(2) by (cases b') auto
  let ?in = "\<lambda>h x. if and i 1 \<noteq> 0 then Serialize_word x @ Serialize_word h else Serialize_word h @ Serialize_word x"
  have step: "check_branch Hash h (x # b) i = check_branch Hash (Hash (?in h x)) b (drop_bit 1 i)" for h x b
    by (simp add: Hash_pair_def)
  have "check_branch Hash (Hash (?in h x)) b (drop_bit 1 i) = check_branch Hash (Hash (?in h' y)) c (drop_bit 1 i)"
    using Cons.prems(1) unfolding b'(1) step .
  from Cons.IH [OF this b'(2)] consider
      "Hash (?in h x) = Hash (?in h' y)" "b = c"
    | k where "k < length b" "branch_inputs Hash (Hash (?in h x)) b (drop_bit 1 i) ! k \<noteq> branch_inputs Hash (Hash (?in h' y)) c (drop_bit 1 i) ! k"
        "Hash (branch_inputs Hash (Hash (?in h x)) b (drop_bit 1 i) ! k) = Hash (branch_inputs Hash (Hash (?in h' y)) c (drop_bit 1 i) ! k)"
    by blast
  then show ?case
  proof cases
    case 1
    show ?thesis
    proof (cases "?in h x = ?in h' y")
      case True
      then show ?thesis using 1(2) b' by (auto simp: Hash_input_inj split: if_splits)
    next
      case False
      with 1(1) show ?thesis by (intro disjI2 exI [of _ 0]) (simp add: b' Let_def)
    qed
  next
    case 2
    then show ?thesis by (intro disjI2 exI [of _ "Suc k"]) (simp add: b' Let_def)
  qed
qed simp

section \<open>Properties\<close>

text \<open>
  C26. The branch of a transaction proves that it is in the block: \<^verbatim>\<open>GetMerkleBranch\<close> of the tree gives a
  branch with which \<^verbatim>\<open>CheckMerkleBranch\<close> computes the root from the hash of the transaction, for trees of
  any size; and whoever shows another hash or another branch of this length for the same place
  and root has two different inputs with the same hash, at the same step of the two branches.
\<close>

theorem merkle_branch_proves:
  assumes "BuildMerkleTree Hash t = Some (root, t')" "i < length (merkle_vtx t)" "CTransaction_GetHash Hash (merkle_vtx t ! i) = Some h"
  shows "\<exists>branch. GetMerkleBranch Hash (int i) t' = Some (branch, t') \<and> CheckMerkleBranch Hash h branch (int i) = root \<and>
    (\<forall>h' branch'. length branch' = length branch \<and> CheckMerkleBranch Hash h' branch' (int i) = root \<longrightarrow>
       h = h' \<and> branch = branch' \<or>
       (\<exists>k < length branch. branch_inputs Hash h branch (int i) ! k \<noteq> branch_inputs Hash h' branch' (int i) ! k \<and>
          Hash (branch_inputs Hash h branch (int i) ! k) = Hash (branch_inputs Hash h' branch' (int i) ! k)))"
proof -
  obtain hashes where h: "tx_hashes Hash (merkle_vtx t) = Some hashes" "root = merkle_root Hash hashes"
      "t' = t\<lparr> vMerkleTree := all_rows Hash hashes \<rparr>"
    using assms(1) by (auto simp: BuildMerkleTree_root)
  have l: "length hashes = length (merkle_vtx t)" using h(1) by (rule length_tx_hashes)
  have i: "h = hashes ! i" "i < length hashes" "hashes \<noteq> []"
    using tx_hashes_nth [OF h(1) assms(2)] assms(2,3) l by auto
  have "GetMerkleBranch Hash (int i) t' = Some (row_branch Hash hashes i, t')"
    using branch_loop_row [OF i(2), of "[]" Hash] i(3) by (simp add: GetMerkleBranch_def h(3) l)
  moreover have "CheckMerkleBranch Hash h' b (int i) = check_branch Hash h' b (int i)" for h' b
    by (simp add: CheckMerkleBranch_def)
  moreover have r: "check_branch Hash h (row_branch Hash hashes i) (int i) = root"
    using check_row_branch [OF i(2), of Hash] i(1) h(2) by simp
  ultimately show ?thesis
    using check_branch_binding [of Hash h "row_branch Hash hashes i" "int i", unfolded r]
    by (intro exI [of _ "row_branch Hash hashes i"]) (simp only: simp_thms, metis)
qed

theorem merkle_branch_proves_witness:
  "\<exists>root t' branch. BuildMerkleTree (\<lambda>v. word_of_nat (length v)) \<lparr> merkle_vtx = [sample_tx, sample_tx, sample_tx], vMerkleTree = [] \<rparr> = Some (root, t') \<and>
     GetMerkleBranch (\<lambda>v. word_of_nat (length v)) 2 t' = Some (branch, t') \<and>
     CheckMerkleBranch (\<lambda>v. word_of_nat (length v)) (word_of_nat (length (tx_body sample_tx))) branch 2 = root"
proof -
  let ?H = "\<lambda>v. word_of_nat (length v) :: uint256" and ?t = "\<lparr> merkle_vtx = [sample_tx, sample_tx, sample_tx], vMerkleTree = [] \<rparr>"
  have g: "CTransaction_GetHash ?H sample_tx = Some (word_of_nat (length (tx_body sample_tx)))"
    by (simp add: CTransaction_GetHash_def CTransaction_Serialize_def sample_tx_def)
  then obtain root t' where b: "BuildMerkleTree ?H ?t = Some (root, t')"
    by (auto simp: BuildMerkleTree_root)
  from merkle_branch_proves [OF b, of 2] g show ?thesis
    unfolding b by auto
qed

end
