(* ===== verification/Block.thy ===== *)
theory Block
  imports Mempool Merkle
begin

text \<open>
  Blocks (\<^verbatim>\<open>src/src/block/block.h\<close>, \<^verbatim>\<open>src/src/block/block.cpp\<close>): the header and its hash, the block on the
  wire and the index entry on disk, the checks of a block that need no other block, and what
  connecting and disconnecting a block do to the database. \<open>None\<close> is a failed assertion, an exception
  or a read past the end of a value.
\<close>

section \<open>Headers and blocks\<close>

record CBlockHeader =
  bh_nVersion :: "32 word"
  bh_hashPrevBlock :: uint256
  bh_hashMerkleRoot :: uint256
  bh_nTime :: "32 word"
  bh_nBits :: "32 word"
  bh_nNonce :: "32 word"

record CBlock = CBlockHeader +
  get_vtx :: "CTransaction list"
  get_vchBlockSig :: bytes

text \<open>
  What the functions read besides their arguments: the surroundings of a transaction, the hash of
  headers, the adjusted time, the height of the best chain, the last hardened checkpoint, the number
  of threads that check scripts, and whether stored hashes of blocks are trusted.
\<close>

record 'd block_env =
  be_node :: "'d node_env"
  be_scrypt :: "bytes \<Rightarrow> uint256"
  be_AdjustedTime :: int
  be_nBestHeight :: int
  be_TotalBlocksEstimate :: int
  be_nScriptCheckThreads :: nat
  be_fUseFastIndex :: bool

definition CURRENT_VERSION :: "32 word" where "CURRENT_VERSION = 6"

definition CBlock_SetNull :: CBlock where
  "CBlock_SetNull = \<lparr> bh_nVersion = CURRENT_VERSION, bh_hashPrevBlock = 0, bh_hashMerkleRoot = 0, bh_nTime = 0, bh_nBits = 0,
     bh_nNonce = 0, get_vtx = [], get_vchBlockSig = [] \<rparr>"

text \<open>The packed header in memory, which is also its form on the wire.\<close>

definition Serialize_CBlockHeader :: "'a CBlockHeader_scheme \<Rightarrow> bytes" where
  "Serialize_CBlockHeader h =
     Serialize_word (bh_nVersion h) @ Serialize_word (bh_hashPrevBlock h) @ Serialize_word (bh_hashMerkleRoot h) @
     Serialize_word (bh_nTime h) @ Serialize_word (bh_nBits h) @ Serialize_word (bh_nNonce h)"

definition Unserialize_CBlockHeader :: "CBlockHeader reader" where
  "Unserialize_CBlockHeader =
     bind_reader Unserialize_word (\<lambda>ver. bind_reader Unserialize_word (\<lambda>prev. bind_reader Unserialize_word (\<lambda>root.
     bind_reader Unserialize_word (\<lambda>time. bind_reader Unserialize_word (\<lambda>bits. bind_reader Unserialize_word (\<lambda>nonce.
     return_reader \<lparr> bh_nVersion = ver, bh_hashPrevBlock = prev, bh_hashMerkleRoot = root, bh_nTime = time, bh_nBits = bits,
       bh_nNonce = nonce \<rparr>))))))"

definition CBlockHeader_IsNull :: "'a CBlockHeader_scheme \<Rightarrow> bool" where
  "CBlockHeader_IsNull h \<longleftrightarrow> bh_nBits h = 0"

definition CBlockHeader_GetHash :: "'d block_env \<Rightarrow> 'a CBlockHeader_scheme \<Rightarrow> uint256" where
  "CBlockHeader_GetHash env h = be_scrypt env (Serialize_CBlockHeader h)"

definition bh_GetBlockTime :: "'a CBlockHeader_scheme \<Rightarrow> int" where
  "bh_GetBlockTime h = uint (bh_nTime h)"

definition UpdateTime :: "'d block_env \<Rightarrow> 'a CBlockHeader_scheme \<Rightarrow> 'a CBlockHeader_scheme" where
  "UpdateTime env h = h\<lparr> bh_nTime := word_of_int (max (bh_GetBlockTime h) (be_AdjustedTime env)) \<rparr>"

fun serialize_vtx :: "CTransaction list \<Rightarrow> bytes option" where
  "serialize_vtx [] = Some []"
| "serialize_vtx (tx # vtx) = Option.bind (CTransaction_Serialize tx) (\<lambda>b. map_option ((@) b) (serialize_vtx vtx))"

definition CBlock_Serialize :: "CBlock \<Rightarrow> bytes option" where
  "CBlock_Serialize block =
     map_option (\<lambda>b. Serialize_CBlockHeader block @ WriteCompactSize (length (get_vtx block)) @ b @
       Serialize_bytes (get_vchBlockSig block)) (serialize_vtx (get_vtx block))"

definition CBlock_Unserialize :: "CBlock reader" where
  "CBlock_Unserialize =
     bind_reader Unserialize_word (\<lambda>ver. bind_reader Unserialize_word (\<lambda>prev. bind_reader Unserialize_word (\<lambda>root.
     bind_reader Unserialize_word (\<lambda>time. bind_reader Unserialize_word (\<lambda>bits. bind_reader Unserialize_word (\<lambda>nonce.
     bind_reader (Unserialize_vector CTransaction_Unserialize) (\<lambda>vtx. bind_reader Unserialize_bytes (\<lambda>sig.
     return_reader \<lparr> bh_nVersion = ver, bh_hashPrevBlock = prev, bh_hashMerkleRoot = root, bh_nTime = time, bh_nBits = bits,
       bh_nNonce = nonce, get_vtx = vtx, get_vchBlockSig = sig \<rparr>))))))))"

definition CBlock_size :: "CBlock \<Rightarrow> nat option" where
  "CBlock_size block = map_option length (CBlock_Serialize block)"

definition CBlock_GetStakeEntropyBit :: "'d block_env \<Rightarrow> CBlock \<Rightarrow> 32 word" where
  "CBlock_GetStakeEntropyBit env block = ucast (CBlockHeader_GetHash env block AND 1)"

definition IsProofOfStake :: "CBlock \<Rightarrow> bool" where
  "IsProofOfStake block \<longleftrightarrow> length (get_vtx block) > 1 \<and> IsCoinStake (get_vtx block ! 1)"

abbreviation IsProofOfWork :: "CBlock \<Rightarrow> bool" where "IsProofOfWork block \<equiv> \<not> IsProofOfStake block"

definition GetProofOfStake :: "CBlock \<Rightarrow> COutPoint \<times> 32 word" where
  "GetProofOfStake block =
     (if IsProofOfStake block
      then (get_prevout (hd (get_vin (get_vtx block ! 1))), get_nTime (get_vtx block ! 1))
      else (COutPoint_null, 0))"

definition GetMaxTransactionTime :: "CBlock \<Rightarrow> int" where
  "GetMaxTransactionTime block = fold (\<lambda>tx t. max t (uint (get_nTime tx))) (get_vtx block) 0"

section \<open>The index entry of a block\<close>

definition new_CBlockIndex :: "32 word \<Rightarrow> 32 word \<Rightarrow> CBlock \<Rightarrow> CBlockIndex" where
  "new_CBlockIndex nFileIn nBlockPosIn block =
     (let pindex = \<lparr> bi_hashBlock = 0, bi_nFile = nFileIn, bi_nBlockPos = nBlockPosIn, bi_nChainTrust = 0, bi_nHeight = 0,
        bi_nMint = 0, bi_nMoneySupply = 0, bi_nStakeModifier = 0, bi_nStakeModifierChecksum = 0,
        bi_prevoutStake = COutPoint_null, bi_nStakeTime = 0, bi_hashProofOfStake = 0, bi_nFlags = 0,
        bi_nVersion = bh_nVersion block, bi_hashPrevBlock = 0, bi_hashMerkleRoot = bh_hashMerkleRoot block, bi_nTime = bh_nTime block,
        bi_nBits = bh_nBits block, bi_nNonce = bh_nNonce block \<rparr> in
      if IsProofOfStake block
      then (SetProofOfStake pindex)\<lparr> bi_prevoutStake := get_prevout (hd (get_vin (get_vtx block ! 1))),
        bi_nStakeTime := get_nTime (get_vtx block ! 1) \<rparr>
      else pindex)"

definition GetBlockHeader :: "chain \<Rightarrow> CBlock" where
  "GetBlockHeader chain =
     (let pindex = hd chain in
      CBlock_SetNull\<lparr> bh_nVersion := bi_nVersion pindex,
        bh_hashPrevBlock := (if tl chain = [] then 0 else bi_hashBlock (hd (tl chain))),
        bh_hashMerkleRoot := bi_hashMerkleRoot pindex, bh_nTime := bi_nTime pindex, bh_nBits := bi_nBits pindex,
        bh_nNonce := bi_nNonce pindex \<rparr>)"

text \<open>
  The entry on disk, with hashes in the place of pointers. \<^verbatim>\<open>pnext\<close> is not part of \<open>chain\<close>: the hash of
  the block that it points to, or zero, is an argument.
\<close>

record CDiskBlockIndex = CBlockIndex +
  dbi_blockHash :: uint256
  dbi_hashPrev :: uint256
  dbi_hashNext :: uint256

definition new_CDiskBlockIndex :: "chain \<Rightarrow> uint256 \<Rightarrow> CDiskBlockIndex" where
  "new_CDiskBlockIndex chain hashNext =
     CBlockIndex.extend (hd chain) (CDiskBlockIndex.fields 0 (if tl chain = [] then 0 else bi_hashBlock (hd (tl chain))) hashNext)"

definition dbi_GetBlockHash :: "'d block_env \<Rightarrow> CDiskBlockIndex \<Rightarrow> uint256 \<times> CDiskBlockIndex" where
  "dbi_GetBlockHash env x =
     (if be_fUseFastIndex env \<and> uint (bi_nTime x) < be_AdjustedTime env - 24 * 60 * 60 \<and> dbi_blockHash x \<noteq> 0
      then (dbi_blockHash x, x)
      else let
        block = CBlock_SetNull\<lparr> bh_nVersion := bi_nVersion x, bh_hashPrevBlock := dbi_hashPrev x,
          bh_hashMerkleRoot := bi_hashMerkleRoot x, bh_nTime := bi_nTime x, bh_nBits := bi_nBits x, bh_nNonce := bi_nNonce x \<rparr>;
        hash = CBlockHeader_GetHash env block
      in (hash, x\<lparr> dbi_blockHash := hash \<rparr>))"

definition Serialize_CDiskBlockIndex :: "CDiskBlockIndex \<Rightarrow> bytes" where
  "Serialize_CDiskBlockIndex x =
     Serialize_word (0 :: 32 word) @ Serialize_word (dbi_hashNext x) @ Serialize_word (bi_nFile x) @
     Serialize_word (bi_nBlockPos x) @ Serialize_word (bi_nHeight x) @ Serialize_word (bi_nMint x) @
     Serialize_word (bi_nMoneySupply x) @ Serialize_word (bi_nFlags x) @ Serialize_word (bi_nStakeModifier x) @
     (if bi_nFlags x AND BLOCK_PROOF_OF_STAKE \<noteq> 0
      then Serialize_COutPoint (bi_prevoutStake x) @ Serialize_word (bi_nStakeTime x) @ Serialize_word (bi_hashProofOfStake x)
      else []) @
     Serialize_word (bi_nVersion x) @ Serialize_word (dbi_hashPrev x) @ Serialize_word (bi_hashMerkleRoot x) @
     Serialize_word (bi_nTime x) @ Serialize_word (bi_nBits x) @ Serialize_word (bi_nNonce x) @ Serialize_word (dbi_blockHash x)"

definition read_stake :: "32 word \<Rightarrow> (COutPoint \<times> 32 word \<times> uint256) reader" where
  "read_stake nFlags =
     (if nFlags AND BLOCK_PROOF_OF_STAKE \<noteq> 0
      then bind_reader Unserialize_COutPoint (\<lambda>p. bind_reader Unserialize_word (\<lambda>t. bind_reader Unserialize_word (\<lambda>h.
        return_reader (p, t, h))))
      else return_reader (COutPoint_null, 0, 0))"

definition Unserialize_CDiskBlockIndex :: "CDiskBlockIndex reader" where
  "Unserialize_CDiskBlockIndex =
     bind_reader (Unserialize_word :: 32 word reader) (\<lambda>_. bind_reader Unserialize_word (\<lambda>next.
     bind_reader Unserialize_word (\<lambda>file. bind_reader Unserialize_word (\<lambda>pos. bind_reader Unserialize_word (\<lambda>height.
     bind_reader Unserialize_word (\<lambda>mint. bind_reader Unserialize_word (\<lambda>supply. bind_reader Unserialize_word (\<lambda>flags.
     bind_reader Unserialize_word (\<lambda>modifier. bind_reader (read_stake flags) (\<lambda>(prevout, time, proof).
     bind_reader Unserialize_word (\<lambda>ver. bind_reader Unserialize_word (\<lambda>prev. bind_reader Unserialize_word (\<lambda>root.
     bind_reader Unserialize_word (\<lambda>btime. bind_reader Unserialize_word (\<lambda>bits. bind_reader Unserialize_word (\<lambda>nonce.
     bind_reader Unserialize_word (\<lambda>hash.
     return_reader \<lparr> bi_hashBlock = 0, bi_nFile = file, bi_nBlockPos = pos, bi_nChainTrust = 0, bi_nHeight = height,
       bi_nMint = mint, bi_nMoneySupply = supply, bi_nStakeModifier = modifier, bi_nStakeModifierChecksum = 0,
       bi_prevoutStake = prevout, bi_nStakeTime = time, bi_hashProofOfStake = proof, bi_nFlags = flags,
       bi_nVersion = ver, bi_hashPrevBlock = 0, bi_hashMerkleRoot = root, bi_nTime = btime, bi_nBits = bits,
       bi_nNonce = nonce, dbi_blockHash = hash, dbi_hashPrev = prev, dbi_hashNext = next \<rparr>)))))))))))))))))"

definition blockindex_key :: "uint256 \<Rightarrow> bytes" where
  "blockindex_key hash = Serialize_bytes (bytes_of_string ''blockindex'') @ Serialize_word hash"

definition WriteBlockIndex :: "'d block_env \<Rightarrow> CDiskBlockIndex \<Rightarrow> 'd CLevelDB \<Rightarrow> (bool \<times> 'd CLevelDB) option" where
  "WriteBlockIndex env x db =
     (let (hash, x) = dbi_GetBlockHash env x in
      db_Write (ne_ldb (be_node env)) (blockindex_key hash) (Serialize_CDiskBlockIndex x) True db)"

section \<open>CheckBlock\<close>

definition PastDrift :: "int \<Rightarrow> int" where
  "PastDrift nTime = nTime - 2 * (60 * 60)"

text \<open>The second output of the coin stake names the key of the signature.\<close>

definition CheckBlockSignature :: "'d block_env \<Rightarrow> CBlock \<Rightarrow> bool option" where
  "CheckBlockSignature env block =
     (if get_vchBlockSig block = [] then Some False
      else if length (get_vtx block) \<le> 1 \<or> length (get_vout (get_vtx block ! 1)) \<le> 1 then None
      else (case Solver (get_scriptPubKey (get_vout (get_vtx block ! 1) ! 1)) of
          (False, _, _) \<Rightarrow> Some False
        | (True, whichType, vSolutions) \<Rightarrow>
            if whichType = TX_PUBKEY
            then let key = CPubKey_Set (hd vSolutions) in
              Some (IsValid key \<and>
                env_Verify (ne_crypto (be_node env)) (pubkey_data key) (CBlockHeader_GetHash env block) (get_vchBlockSig block))
            else Some False))"

text \<open>The loop over the other transactions: the hashes seen so far and the count of signature operations.\<close>

fun check_txs :: "'d block_env \<Rightarrow> CBlock \<Rightarrow> CTransaction list \<Rightarrow> uint256 set \<Rightarrow> 32 word \<Rightarrow> (verdict + uint256 set \<times> 32 word) option" where
  "check_txs env block [] uniqueTx nSigOps = Some (Inr (uniqueTx, nSigOps))"
| "check_txs env block (tx # vtx) uniqueTx nSigOps =
     (if IsCoinBase tx then Some (Inl (DoS 100 False))
      else if IsCoinStake tx then Some (Inl (DoS 100 False))
      else if bh_GetBlockTime block < uint (get_nTime tx) then Some (Inl (DoS 50 False))
      else case CheckTransaction tx of
        None \<Rightarrow> None
      | Some (False, penalty) \<Rightarrow> Some (Inl (DoS penalty False))
      | Some (True, _) \<Rightarrow> do {
          hash \<leftarrow> GetHash (be_node env) tx;
          n \<leftarrow> GetLegacySigOpCount tx;
          check_txs env block vtx (insert hash uniqueTx) (nSigOps + n) })"

text \<open>The part that depends on the kind of the block: the verdict, or the hashes and the count of the coin stake added.\<close>

definition check_stake :: "'d block_env \<Rightarrow> CBlock \<Rightarrow> bool \<Rightarrow> uint256 set \<Rightarrow> 32 word \<Rightarrow> (verdict + uint256 set \<times> 32 word) option" where
  "check_stake env block fCheckSig uniqueTx nSigOps =
     (let coinbase = get_vtx block ! 0; coinstake = get_vtx block ! 1 in
      if bh_nNonce block \<noteq> 0 then Some (Inl (DoS 100 False))
      else if length (get_vout coinbase) \<noteq> 1 \<or> \<not> CTxOut_IsEmpty (hd (get_vout coinbase)) then Some (Inl (DoS 100 False))
      else if bh_GetBlockTime block \<noteq> uint (get_nTime coinstake) then Some (Inl (DoS 50 False))
      else do {
        fSig \<leftarrow> (if fCheckSig then CheckBlockSignature env block else Some True);
        if \<not> fSig then Some (Inl (DoS 100 False))
        else case CheckTransaction coinstake of
          None \<Rightarrow> None
        | Some (False, penalty) \<Rightarrow> Some (Inl (DoS penalty False))
        | Some (True, _) \<Rightarrow> do {
            hash \<leftarrow> GetHash (be_node env) coinstake;
            n \<leftarrow> GetLegacySigOpCount coinstake;
            Some (Inr (insert hash uniqueTx, nSigOps + n)) } })"

definition check_work :: "'d block_env \<Rightarrow> CBlock \<Rightarrow> bool \<Rightarrow> uint256 set \<Rightarrow> 32 word \<Rightarrow> verdict + uint256 set \<times> 32 word" where
  "check_work env block fCheckPOW uniqueTx nSigOps =
     (if fCheckPOW \<and> \<not> CheckProofOfWork (ne_diff (be_node env)) (CBlockHeader_GetHash env block) (bh_nBits block)
      then Inl (DoS 50 False)
      else if bh_GetBlockTime block > FutureDrift (be_AdjustedTime env) then Inl (False, 0)
      else if bh_GetBlockTime block < PastDrift (uint (get_nTime (get_vtx block ! 0))) then Inl (DoS 50 False)
      else Inr (uniqueTx, nSigOps))"

text \<open>The checks after the loop.\<close>

definition check_end :: "'d block_env \<Rightarrow> CBlock \<Rightarrow> bool \<Rightarrow> (verdict + uint256 set \<times> 32 word) \<Rightarrow> verdict option" where
  "check_end env block fCheckMerkleRoot r =
     (case r of
        Inl v \<Rightarrow> Some v
      | Inr (uniqueTx, nSigOps) \<Rightarrow>
          if card uniqueTx \<noteq> length (get_vtx block) then Some (DoS 100 False)
          else if unat nSigOps > MAX_BLOCK_SIGOPS then Some (DoS 100 False)
          else if fCheckMerkleRoot
          then do {
            (root, _) \<leftarrow> BuildMerkleTree (env_Hash (ne_crypto (be_node env))) \<lparr> merkle_vtx = get_vtx block, vMerkleTree = [] \<rparr>;
            if bh_hashMerkleRoot block \<noteq> root then Some (DoS 100 False) else Some (True, 0) }
          else Some (True, 0))"

definition CheckBlock :: "'d block_env \<Rightarrow> CBlock \<Rightarrow> bool \<Rightarrow> bool \<Rightarrow> bool \<Rightarrow> verdict option" where
  "CheckBlock env block fCheckPOW fCheckMerkleRoot fCheckSig =
     (let vtx = get_vtx block in
      if vtx = [] \<or> length vtx > MAX_BLOCK_SIZE then Some (DoS 100 False)
      else case CBlock_size block of
        None \<Rightarrow> None
      | Some nSize \<Rightarrow>
      if nSize > MAX_BLOCK_SIZE then Some (DoS 100 False)
      else if \<not> IsCoinBase (hd vtx) then Some (DoS 100 False)
      else case CheckTransaction (hd vtx) of
        None \<Rightarrow> None
      | Some (False, penalty) \<Rightarrow> Some (DoS penalty False)
      | Some (True, _) \<Rightarrow> do {
          hash \<leftarrow> GetHash (be_node env) (hd vtx);
          n \<leftarrow> GetLegacySigOpCount (hd vtx);
          r \<leftarrow> (if IsProofOfStake block then check_stake env block fCheckSig {hash} n
                 else Some (check_work env block fCheckPOW {hash} n));
          (case r of
             Inl v \<Rightarrow> Some v
           | Inr (uniqueTx, nSigOps) \<Rightarrow> do {
               r \<leftarrow> check_txs env block (drop (if IsProofOfStake block then 2 else 1) vtx) uniqueTx nSigOps;
               check_end env block fCheckMerkleRoot r }) })"

section \<open>Connecting and disconnecting a block\<close>

record block_state =
  bs_mapQueuedChanges :: queued_changes
  bs_nFees :: "64 word"
  bs_nValueIn :: "64 word"
  bs_nValueOut :: "64 word"
  bs_nSigOps :: "32 word"
  bs_nTxPos :: "32 word"
  bs_checks :: "CScriptCheck list"
  bs_cache :: CSignatureCache

definition CHECKLOCKTIMEVERIFY_SWITCH_TIME :: "32 word" where "CHECKLOCKTIMEVERIFY_SWITCH_TIME = 1556668800"

definition block_flags :: "CTransaction \<Rightarrow> 32 word" where
  "block_flags tx =
     (let nFlags = SCRIPT_VERIFY_NOCACHE OR SCRIPT_VERIFY_P2SH in
      if get_nTime tx \<ge> CHECKLOCKTIMEVERIFY_SWITCH_TIME then nFlags OR SCRIPT_VERIFY_CHECKLOCKTIMEVERIFY else nFlags)"

text \<open>The loop body of \<^verbatim>\<open>ConnectBlock\<close> for a transaction that is not a coin base. A verdict ends the loop.\<close>

definition connect_spender ::
  "'d block_env \<Rightarrow> 'd CLevelDB \<Rightarrow> (uint256, CTransaction) std_map \<Rightarrow> chain \<Rightarrow> bool \<Rightarrow> CDiskTxPos \<Rightarrow> CTransaction \<Rightarrow> block_state \<Rightarrow>
    (verdict option \<times> block_state) option" where
  "connect_spender env db pool chain fScriptChecks posThisTx tx st = do {
     f \<leftarrow> FetchInputs (be_node env) db pool tx (bs_mapQueuedChanges st) True False [];
     (case f of
        NoInputs _ _ \<Rightarrow> Some (Some (False, 0), st)
      | Inputs mapInputs \<Rightarrow> do {
          n \<leftarrow> GetP2SHSigOpCount tx mapInputs;
          let st = st\<lparr> bs_nSigOps := bs_nSigOps st + n \<rparr>;
          if unat (bs_nSigOps st) > MAX_BLOCK_SIGOPS then Some (Some (DoS 100 False), st)
          else do {
            nTxValueIn \<leftarrow> GetValueIn tx mapInputs;
            nTxValueOut \<leftarrow> GetValueOut tx;
            let st = st\<lparr> bs_nValueIn := bs_nValueIn st + nTxValueIn, bs_nValueOut := bs_nValueOut st + nTxValueOut,
              bs_nFees := (if \<not> IsCoinStake tx then bs_nFees st + (nTxValueIn - nTxValueOut) else bs_nFees st) \<rparr>;
            (v, cn) \<leftarrow> ConnectInputs (be_node env) db tx mapInputs (bs_mapQueuedChanges st) posThisTx chain True False fScriptChecks
              (block_flags tx) (if be_nScriptCheckThreads env \<noteq> 0 then Some [] else None) (bs_cache st);
            let st = st\<lparr> bs_mapQueuedChanges := cn_mapTestPool cn, bs_cache := cn_cache cn \<rparr>;
            if \<not> fst v then Some (Some (False, 0), st)
            else Some (None, st\<lparr> bs_checks := bs_checks st @ (case cn_checks cn of None \<Rightarrow> [] | Some vChecks \<Rightarrow> vChecks) \<rparr>) } }) }"

definition overwrites :: "CTxIndex db_read \<Rightarrow> bool" where
  "overwrites r \<longleftrightarrow> (case r of ReadTrue txindexOld \<Rightarrow> list_ex CDiskTxPos_IsNull (get_vSpent txindexOld) | _ \<Rightarrow> False)"

definition connect_tx ::
  "'d block_env \<Rightarrow> 'd CLevelDB \<Rightarrow> (uint256, CTransaction) std_map \<Rightarrow> chain \<Rightarrow> bool \<Rightarrow> bool \<Rightarrow> CTransaction \<Rightarrow> block_state \<Rightarrow>
    (verdict option \<times> block_state) option" where
  "connect_tx env db pool chain fJustCheck fScriptChecks tx st = do {
     hashTx \<leftarrow> GetHash (be_node env) tx;
     txindexOld \<leftarrow> ReadTxIndex (ne_ldb (be_node env)) hashTx db;
     if txindexOld = ReadBeyondEnd then None
     else if overwrites txindexOld then Some (Some (False, 0), st)
     else do {
       n \<leftarrow> GetLegacySigOpCount tx;
       let st = st\<lparr> bs_nSigOps := bs_nSigOps st + n \<rparr>;
       if unat (bs_nSigOps st) > MAX_BLOCK_SIGOPS then Some (Some (DoS 100 False), st)
       else do {
         let posThisTx = \<lparr> get_nFile = bi_nFile (hd chain), get_nBlockPos = bi_nBlockPos (hd chain), get_nTxPos = bs_nTxPos st \<rparr>;
         nSize \<leftarrow> (if fJustCheck then Some 0 else tx_size tx);
         let st = st\<lparr> bs_nTxPos := bs_nTxPos st + word_of_nat nSize \<rparr>;
         r \<leftarrow> (if IsCoinBase tx
                then map_option (\<lambda>nOut. (None, st\<lparr> bs_nValueOut := bs_nValueOut st + nOut \<rparr>)) (GetValueOut tx)
                else connect_spender env db pool chain fScriptChecks posThisTx tx st);
         (case r of
            (Some v, st) \<Rightarrow> Some (Some v, st)
          | (None, st) \<Rightarrow> Some (None, st\<lparr> bs_mapQueuedChanges :=
              map_set hashTx (new_CTxIndex posThisTx (length (get_vout tx))) (bs_mapQueuedChanges st) \<rparr>)) } } }"

fun connect_txs ::
  "'d block_env \<Rightarrow> 'd CLevelDB \<Rightarrow> (uint256, CTransaction) std_map \<Rightarrow> chain \<Rightarrow> bool \<Rightarrow> bool \<Rightarrow> CTransaction list \<Rightarrow> block_state \<Rightarrow>
    (verdict option \<times> block_state) option" where
  "connect_txs env db pool chain fJustCheck fScriptChecks [] st = Some (None, st)"
| "connect_txs env db pool chain fJustCheck fScriptChecks (tx # vtx) st =
     (case connect_tx env db pool chain fJustCheck fScriptChecks tx st of
        None \<Rightarrow> None
      | Some (Some v, st) \<Rightarrow> Some (Some v, st)
      | Some (None, st) \<Rightarrow> connect_txs env db pool chain fJustCheck fScriptChecks vtx st)"

text \<open>The queued checks, as one thread runs them; the order of the threads does not matter for the verdict.\<close>

fun run_checks :: "crypto_env \<Rightarrow> CScriptCheck list \<Rightarrow> bool \<Rightarrow> CSignatureCache \<Rightarrow> (bool \<times> CSignatureCache) option" where
  "run_checks env [] fOk cache = Some (fOk, cache)"
| "run_checks env (check # vChecks) fOk cache =
     (if fOk then Option.bind (run_CScriptCheck env cache check) (\<lambda>(fOk, cache). run_checks env vChecks fOk cache)
      else run_checks env vChecks False cache)"

definition first_tx_pos :: "CBlock \<Rightarrow> CBlockIndex \<Rightarrow> 32 word option" where
  "first_tx_pos block pindex =
     map_option (\<lambda>nNull. bi_nBlockPos pindex + word_of_nat nNull - 2 * word_of_nat (GetSizeOfCompactSize 0) +
       word_of_nat (GetSizeOfCompactSize (length (get_vtx block)))) (CBlock_size CBlock_SetNull)"

text \<open>What \<^verbatim>\<open>ConnectBlock\<close> leaves: the verdict, the database, the entry of the block and the signature cache.\<close>

type_synonym 'd connected = "verdict \<times> 'd CLevelDB \<times> CBlockIndex \<times> CSignatureCache"

text \<open>From the amounts on: \<^verbatim>\<open>nMint\<close> goes through an argument of 32 bits.\<close>

definition write_block ::
  "'d block_env \<Rightarrow> 'd CLevelDB \<Rightarrow> chain \<Rightarrow> uint256 \<Rightarrow> bool \<Rightarrow> block_state \<Rightarrow> CSignatureCache \<Rightarrow> 'd connected option" where
  "write_block env db chain hashNext fJustCheck st cache = do {
     let pindex = (hd chain)\<lparr>
       bi_nMint := scast (ucast (bs_nValueOut st - bs_nValueIn st + bs_nFees st) :: 32 word),
       bi_nMoneySupply := (if tl chain = [] then 0 else bi_nMoneySupply (hd (tl chain))) + bs_nValueOut st - bs_nValueIn st \<rparr>;
     (ok, db) \<leftarrow> WriteBlockIndex env (new_CDiskBlockIndex (pindex # tl chain) hashNext) db;
     if \<not> ok then Some ((False, 0), db, pindex, cache)
     else if fJustCheck then Some ((True, 0), db, pindex, cache)
     else do {
       (ok, db) \<leftarrow> write_queued (UpdateTxIndex (ne_ldb (be_node env))) (bs_mapQueuedChanges st) db;
       if \<not> ok then Some ((False, 0), db, pindex, cache)
       else if tl chain = [] then Some ((True, 0), db, pindex, cache)
       else do {
         (ok, db) \<leftarrow> WriteBlockIndex env ((new_CDiskBlockIndex (tl chain) 0)\<lparr> dbi_hashNext := bi_hashBlock pindex \<rparr>) db;
         Some ((ok, 0), db, pindex, cache) } } }"

definition ConnectBlock ::
  "'d block_env \<Rightarrow> 'd CLevelDB \<Rightarrow> (uint256, CTransaction) std_map \<Rightarrow> CBlock \<Rightarrow> chain \<Rightarrow> uint256 \<Rightarrow> bool \<Rightarrow> CSignatureCache \<Rightarrow>
    'd connected option" where
  "ConnectBlock env db pool block chain hashNext fJustCheck cache = do {
     v \<leftarrow> CheckBlock env block (\<not> fJustCheck) (\<not> fJustCheck) False;
     if \<not> fst v then Some (v, db, hd chain, cache)
     else do {
       let fScriptChecks = (sint (bi_nHeight (hd chain)) \<ge> be_TotalBlocksEstimate env);
       nTxPos \<leftarrow> (if fJustCheck then Some 1 else first_tx_pos block (hd chain));
       (r, st) \<leftarrow> connect_txs env db pool chain fJustCheck fScriptChecks (get_vtx block)
         \<lparr> bs_mapQueuedChanges = [], bs_nFees = 0, bs_nValueIn = 0, bs_nValueOut = 0, bs_nSigOps = 0, bs_nTxPos = nTxPos,
           bs_checks = [], bs_cache = cache \<rparr>;
       (case r of
          Some v \<Rightarrow> Some (v, db, hd chain, bs_cache st)
        | None \<Rightarrow> do {
            (fOk, cache) \<leftarrow> run_checks (ne_crypto (be_node env)) (bs_checks st) True (bs_cache st);
            if \<not> fOk then Some (DoS 100 False, db, hd chain, cache)
            else do {
              fExceeded \<leftarrow> (if IsProofOfWork block
                then map_option (\<lambda>nOut. sint nOut > sint (GetProofOfWorkReward (be_nBestHeight env) (bs_nFees st)))
                  (GetValueOut (hd (get_vtx block)))
                else Some False);
              if fExceeded then Some ((False, 0), db, hd chain, cache)
              else write_block env db chain hashNext fJustCheck st cache } }) } }"

fun disconnect_txs :: "'d node_env \<Rightarrow> CTransaction list \<Rightarrow> 'd CLevelDB \<Rightarrow> (bool \<times> 'd CLevelDB) option" where
  "disconnect_txs env [] db = Some (True, db)"
| "disconnect_txs env (tx # vtx) db =
     (case DisconnectInputs env tx db of
        None \<Rightarrow> None
      | Some (False, db) \<Rightarrow> Some (False, db)
      | Some (True, db) \<Rightarrow> disconnect_txs env vtx db)"

definition DisconnectBlock :: "'d block_env \<Rightarrow> CBlock \<Rightarrow> chain \<Rightarrow> 'd CLevelDB \<Rightarrow> (bool \<times> 'd CLevelDB) option" where
  "DisconnectBlock env block chain db = do {
     (ok, db) \<leftarrow> disconnect_txs (be_node env) (rev (get_vtx block)) db;
     if \<not> ok then Some (False, db)
     else if tl chain = [] then Some (True, db)
     else WriteBlockIndex env ((new_CDiskBlockIndex (tl chain) 0)\<lparr> dbi_hashNext := 0 \<rparr>) db }"

text \<open>The coin age of a block in coin-days, at least one. \<open>Some None\<close> is the result false.\<close>

fun sum_coin_age :: "'d node_env \<Rightarrow> 'd CLevelDB \<Rightarrow> CTransaction list \<Rightarrow> 64 word \<Rightarrow> 64 word option option" where
  "sum_coin_age env db [] nCoinAge = Some (Some nCoinAge)"
| "sum_coin_age env db (tx # vtx) nCoinAge =
     (case GetCoinAge env db tx of
        None \<Rightarrow> None
      | Some None \<Rightarrow> Some None
      | Some (Some nTxCoinAge) \<Rightarrow> sum_coin_age env db vtx (nCoinAge + nTxCoinAge))"

definition CBlock_GetCoinAge :: "'d node_env \<Rightarrow> 'd CLevelDB \<Rightarrow> CBlock \<Rightarrow> 64 word option option" where
  "CBlock_GetCoinAge env db block =
     map_option (map_option (\<lambda>nCoinAge. if nCoinAge = 0 then 1 else nCoinAge)) (sum_coin_age env db (get_vtx block) 0)"

end
