(* ===== verification/Block_Check.thy ===== *)
theory Block_Check
  imports Block
begin

text \<open>
  What \<^verbatim>\<open>CheckBlock\<close> decides, against the specification \<open>valid_block\<close>: sizes, sums and roots as numbers and
  lists, with no wrap-around; and the forms of headers, blocks and index entries on the wire and on disk.
\<close>

section \<open>Signature operations as numbers\<close>

definition script_sigops :: "bytes \<Rightarrow> nat" where
  "script_sigops script = sigops False OP_INVALIDOPCODE (ops script)"

definition legacy_sigops :: "CTransaction \<Rightarrow> nat" where
  "legacy_sigops tx =
     (if IsCoinBase tx then 0 else sum_list (map (\<lambda>txin. script_sigops (get_scriptSig txin)) (get_vin tx))) +
     sum_list (map (\<lambda>txout. script_sigops (get_scriptPubKey txout)) (get_vout tx))"

lemma add_sigops_sum: "add_sigops scripts n = Some (n + of_nat (sum_list (map script_sigops scripts)))"
  by (induction scripts arbitrary: n) (simp_all add: GetSigOpCount_ops script_sigops_def)

lemma GetLegacySigOpCount_sum: "GetLegacySigOpCount tx = Some (of_nat (legacy_sigops tx))"
  by (simp add: GetLegacySigOpCount_def add_sigops_sum legacy_sigops_def comp_def)

lemma sum_list_map_le: "(\<And>x. x \<in> set xs \<Longrightarrow> f x \<le> g x) \<Longrightarrow> sum_list (map f xs) \<le> sum_list (map g xs :: nat list)"
  by (induction xs) (auto intro: add_mono)

lemma legacy_sigops_bound: "legacy_sigops tx \<le> 20 * length (tx_body tx)"
proof -
  have i: "script_sigops (get_scriptSig i) \<le> 20 * length (Serialize_CTxIn i)" for i
    using sigops_script_bound [of False OP_INVALIDOPCODE "get_scriptSig i"] by (simp add: script_sigops_def)
  have o: "script_sigops (get_scriptPubKey out) \<le> 20 * length (Serialize_CTxOut out)" for out
    using sigops_script_bound [of False OP_INVALIDOPCODE "get_scriptPubKey out"] by (simp add: script_sigops_def)
  have "sum_list (map (\<lambda>txin. script_sigops (get_scriptSig txin)) (get_vin tx)) \<le>
      20 * sum_list (map (\<lambda>i. length (Serialize_CTxIn i)) (get_vin tx))"
    "sum_list (map (\<lambda>out. script_sigops (get_scriptPubKey out)) (get_vout tx)) \<le>
      20 * sum_list (map (\<lambda>out. length (Serialize_CTxOut out)) (get_vout tx))"
    unfolding sum_list_const_mult [symmetric] by (rule sum_list_map_le, rule i, rule sum_list_map_le, rule o)
  then show ?thesis unfolding legacy_sigops_def length_tx_body by simp
qed

section \<open>Serialised blocks\<close>

lemma serialize_vtx_iff:
  "serialize_vtx vtx = Some b \<longleftrightarrow> (\<forall>tx \<in> set vtx. get_nVersion tx \<in> {1, 2}) \<and> b = concat (map tx_body vtx)"
  by (induction vtx arbitrary: b) (auto simp: CTransaction_Serialize_def split: bind_splits)

lemma length_Serialize_CBlockHeader [simp]: "length (Serialize_CBlockHeader h) = 80"
  by (simp add: Serialize_CBlockHeader_def)

lemma CBlock_size_iff:
  "CBlock_size block = Some n \<longleftrightarrow> (\<forall>tx \<in> set (get_vtx block). get_nVersion tx \<in> {1, 2}) \<and>
     n = 80 + GetSizeOfCompactSize (length (get_vtx block)) + sum_list (map (length \<circ> tx_body) (get_vtx block)) +
       (GetSizeOfCompactSize (length (get_vchBlockSig block)) + length (get_vchBlockSig block))"
proof -
  have "CBlock_size block = Some n \<longleftrightarrow> (\<exists>b. serialize_vtx (get_vtx block) = Some b \<and>
      n = 80 + GetSizeOfCompactSize (length (get_vtx block)) + length b +
        (GetSizeOfCompactSize (length (get_vchBlockSig block)) + length (get_vchBlockSig block)))"
    by (auto simp: CBlock_size_def CBlock_Serialize_def GetSizeOfCompactSize_length)
  then show ?thesis by (auto simp: serialize_vtx_iff length_concat)
qed

lemma block_sigops_bound:
  assumes "CBlock_size block = Some n"
  shows "sum_list (map legacy_sigops (get_vtx block)) \<le> 20 * n"
proof -
  have "sum_list (map legacy_sigops (get_vtx block)) \<le> 20 * sum_list (map (length \<circ> tx_body) (get_vtx block))"
    unfolding sum_list_const_mult [symmetric] by (rule sum_list_map_le) (simp add: legacy_sigops_bound)
  with assms show ?thesis by (simp add: CBlock_size_iff)
qed

interpretation codec_header: codec Serialize_CBlockHeader Unserialize_CBlockHeader "\<lambda>_. True"
proof -
  have iff: "Unserialize_CBlockHeader s = Inr (h, rest) \<longleftrightarrow> True \<and> s = Serialize_CBlockHeader h @ rest" for s h rest
    by (cases h) (auto simp: Unserialize_CBlockHeader_def Serialize_CBlockHeader_def bind_reader_Inr return_reader_def word_reads)
  show "codec Serialize_CBlockHeader Unserialize_CBlockHeader (\<lambda>_. True)"
    by unfold_locales (simp_all add: iff)
qed

interpretation codec_vtx: codec "Serialize_vector tx_body" "Unserialize_vector CTransaction_Unserialize"
    "\<lambda>v. length v \<le> MAX_SIZE \<and> list_all wf_tx v"
  by (rule codec_vector) (rule codec_tx.codec_axioms)

definition wf_block :: "CBlock \<Rightarrow> bool" where
  "wf_block block \<longleftrightarrow> length (get_vtx block) \<le> MAX_SIZE \<and> list_all wf_tx (get_vtx block) \<and> length (get_vchBlockSig block) \<le> MAX_SIZE"

definition block_body :: "CBlock \<Rightarrow> bytes" where
  "block_body block = Serialize_CBlockHeader block @ Serialize_vector tx_body (get_vtx block) @ Serialize_bytes (get_vchBlockSig block)"

interpretation codec_block: codec block_body CBlock_Unserialize wf_block
proof -
  have iff: "CBlock_Unserialize s = Inr (block, rest) \<longleftrightarrow> wf_block block \<and> s = block_body block @ rest" for s block rest
    by (cases block) (auto simp: CBlock_Unserialize_def block_body_def Serialize_CBlockHeader_def wf_block_def bind_reader_Inr return_reader_def
        word_reads codec_vtx.unser_iff)
  show "codec block_body CBlock_Unserialize wf_block" by unfold_locales (simp_all add: iff)
qed

text \<open>An entry of the index on disk: the parts that are not written have their initial values.\<close>

definition wf_disk_index :: "CDiskBlockIndex \<Rightarrow> bool" where
  "wf_disk_index x \<longleftrightarrow> bi_hashBlock x = 0 \<and> bi_hashPrevBlock x = 0 \<and> bi_nChainTrust x = 0 \<and> bi_nStakeModifierChecksum x = 0 \<and>
     (bi_nFlags x AND BLOCK_PROOF_OF_STAKE = 0 \<longrightarrow>
        bi_prevoutStake x = COutPoint_null \<and> bi_nStakeTime x = 0 \<and> bi_hashProofOfStake x = 0)"

lemma read_stake_Inr:
  "read_stake f s = Inr ((p, t, h), rest) \<longleftrightarrow>
     (if f AND BLOCK_PROOF_OF_STAKE \<noteq> 0 then s = Serialize_COutPoint p @ Serialize_word t @ Serialize_word h @ rest
      else (p, t, h) = (COutPoint_null, 0, 0) \<and> s = rest)"
  by (auto simp: read_stake_def bind_reader_Inr return_reader_def codec_outpoint.unser_iff word_reads)

lemma Unserialize_Serialize_CDiskBlockIndex:
  "wf_disk_index x \<Longrightarrow> Unserialize_CDiskBlockIndex (Serialize_CDiskBlockIndex x @ rest) = Inr (x, rest)"
  by (cases x) (auto simp: Unserialize_CDiskBlockIndex_def Serialize_CDiskBlockIndex_def wf_disk_index_def bind_reader_Inr return_reader_def
      word_reads read_stake_Inr split: prod.splits)

lemma CBlock_Serialize_iff:
  "CBlock_Serialize block = (if \<forall>tx \<in> set (get_vtx block). get_nVersion tx \<in> {1, 2} then Some (block_body block) else None)"
proof (cases "\<forall>tx \<in> set (get_vtx block). get_nVersion tx \<in> {1, 2}")
  case True
  then have "serialize_vtx (get_vtx block) = Some (concat (map tx_body (get_vtx block)))" by (simp add: serialize_vtx_iff)
  with True show ?thesis by (simp add: CBlock_Serialize_def block_body_def Serialize_vector_def)
next
  case False
  then have "serialize_vtx (get_vtx block) = None" using serialize_vtx_iff [of "get_vtx block"] by fastforce
  with False show ?thesis by (simp only: CBlock_Serialize_def option.map if_False)
qed

section \<open>The specification of a valid block\<close>

text \<open>A transaction after the coin base and the coin stake.\<close>

definition plain_tx :: "CBlock \<Rightarrow> CTransaction \<Rightarrow> bool" where
  "plain_tx block tx \<longleftrightarrow> \<not> IsCoinBase tx \<and> \<not> IsCoinStake tx \<and> get_nTime tx \<le> bh_nTime block"

definition valid_stake :: "'d block_env \<Rightarrow> CBlock \<Rightarrow> bool \<Rightarrow> bool" where
  "valid_stake env block fCheckSig \<longleftrightarrow>
     bh_nNonce block = 0 \<and> length (get_vout (get_vtx block ! 0)) = 1 \<and> CTxOut_IsEmpty (get_vout (get_vtx block ! 0) ! 0) \<and>
     get_nTime (get_vtx block ! 1) = bh_nTime block \<and> (fCheckSig \<longrightarrow> CheckBlockSignature env block = Some True) \<and>
     (\<forall>tx \<in> set (drop 2 (get_vtx block)). plain_tx block tx)"

definition valid_work :: "'d block_env \<Rightarrow> CBlock \<Rightarrow> bool \<Rightarrow> bool" where
  "valid_work env block fCheckPOW \<longleftrightarrow>
     (fCheckPOW \<longrightarrow> CheckProofOfWork (ne_diff (be_node env)) (CBlockHeader_GetHash env block) (bh_nBits block)) \<and>
     uint (bh_nTime block) \<le> be_AdjustedTime env + 7200 \<and> uint (get_nTime (get_vtx block ! 0)) \<le> uint (bh_nTime block) + 7200 \<and>
     (\<forall>tx \<in> set (drop 1 (get_vtx block)). plain_tx block tx)"

definition valid_block :: "'d block_env \<Rightarrow> CBlock \<Rightarrow> bool \<Rightarrow> bool \<Rightarrow> bool \<Rightarrow> bool" where
  "valid_block env block fCheckPOW fCheckMerkleRoot fCheckSig \<longleftrightarrow>
     get_vtx block \<noteq> [] \<and> length (block_body block) \<le> 1000000 \<and> (\<forall>tx \<in> set (get_vtx block). valid_tx tx) \<and>
     IsCoinBase (get_vtx block ! 0) \<and>
     (if IsProofOfStake block then valid_stake env block fCheckSig else valid_work env block fCheckPOW) \<and>
     (\<exists>hashes. tx_hashes (env_Hash (ne_crypto (be_node env))) (get_vtx block) = Some hashes \<and> distinct hashes \<and>
        (fCheckMerkleRoot \<longrightarrow> bh_hashMerkleRoot block = merkle_root (env_Hash (ne_crypto (be_node env))) hashes)) \<and>
     (\<Sum>tx \<leftarrow> get_vtx block. legacy_sigops tx) \<le> 20000"

lemma CheckTransaction_True_iff: "CheckTransaction tx = Some (True, p) \<longleftrightarrow> p = 0 \<and> valid_tx tx"
proof -
  have "p = 0" if "CheckTransaction tx = Some (True, p)"
    using that by (auto simp: CheckTransaction_def DoS_def check_inputs_def Let_def check_outputs_True split: if_splits option.splits prod.splits bool.splits)
  then show ?thesis using CheckTransaction_iff_valid [of tx] by auto
qed

lemma valid_tx_hash: "valid_tx tx \<Longrightarrow> CTransaction_GetHash H tx = Some (H (tx_body tx))"
  by (auto simp: valid_tx_def CTransaction_GetHash_def CTransaction_Serialize_def)

lemma tx_hashes_valid: "\<forall>tx \<in> set vtx. valid_tx tx \<Longrightarrow> tx_hashes H vtx = Some (map (\<lambda>tx. H (tx_body tx)) vtx)"
  by (induction vtx) (auto simp: valid_tx_hash)

lemma check_txs_Inr:
  "check_txs env block vtx U n = Some (Inr (U', n')) \<longleftrightarrow>
     (\<forall>tx \<in> set vtx. plain_tx block tx \<and> valid_tx tx) \<and>
     U' = U \<union> (\<lambda>tx. env_Hash (ne_crypto (be_node env)) (tx_body tx)) ` set vtx \<and> n' = n + of_nat (\<Sum>tx \<leftarrow> vtx. legacy_sigops tx)"
proof (induction vtx arbitrary: U n)
  case (Cons tx vtx)
  show ?case
  proof (cases "plain_tx block tx \<and> valid_tx tx")
    case True
    then have "check_txs env block (tx # vtx) U n =
        check_txs env block vtx (insert (env_Hash (ne_crypto (be_node env)) (tx_body tx)) U) (n + of_nat (legacy_sigops tx))"
      by (simp add: plain_tx_def bh_GetBlockTime_def word_le_def valid_tx_hash GetLegacySigOpCount_sum CheckTransaction_iff_valid [THEN conjunct1, THEN iffD2])
    with True Cons.IH show ?thesis by (auto simp: add.assoc)
  next
    case False
    then have "\<exists>v. check_txs env block (tx # vtx) U n = Some (Inl v) \<or> check_txs env block (tx # vtx) U n = None"
      using CheckTransaction_True_iff [of tx]
      by (auto simp: plain_tx_def bh_GetBlockTime_def word_le_def split: option.splits prod.splits bool.splits)
    with False show ?thesis by auto
  qed
qed auto

lemma check_stake_Inr:
  assumes "IsProofOfStake block"
  shows "check_stake env block fCheckSig U n = Some (Inr (U', n')) \<longleftrightarrow>
     bh_nNonce block = 0 \<and> length (get_vout (get_vtx block ! 0)) = 1 \<and> CTxOut_IsEmpty (get_vout (get_vtx block ! 0) ! 0) \<and>
     get_nTime (get_vtx block ! 1) = bh_nTime block \<and> (fCheckSig \<longrightarrow> CheckBlockSignature env block = Some True) \<and>
     valid_tx (get_vtx block ! 1) \<and> U' = insert (env_Hash (ne_crypto (be_node env)) (tx_body (get_vtx block ! 1))) U \<and>
     n' = n + of_nat (legacy_sigops (get_vtx block ! 1))"
proof (cases "CheckTransaction (get_vtx block ! 1)")
  case None
  then have "\<not> valid_tx (get_vtx block ! 1)" using CheckTransaction_iff_valid by fastforce
  with None show ?thesis by (auto simp: check_stake_def Let_def split: bind_splits if_splits)
next
  case (Some v)
  obtain ok p where v: "v = (ok, p)" by (cases v)
  have e: "get_vout (get_vtx block ! 0) ! 0 = hd (get_vout (get_vtx block ! 0))" if "length (get_vout (get_vtx block ! 0)) = 1"
    using that by (intro hd_conv_nth [symmetric]) auto
  have ok: "ok \<longleftrightarrow> valid_tx (get_vtx block ! 1)"
    using Some v CheckTransaction_True_iff [of "get_vtx block ! 1" p] CheckTransaction_iff_valid [of "get_vtx block ! 1"] by (cases ok) auto
  have t: "get_nTime (get_vtx block ! 1) = bh_nTime block \<longleftrightarrow> uint (bh_nTime block) = uint (get_nTime (get_vtx block ! 1))"
    by (auto simp: word_uint_eq_iff)
  show ?thesis
    unfolding t using Some v ok e
    by (cases ok; cases "CheckBlockSignature env block"; cases fCheckSig)
      (auto simp: check_stake_def Let_def bh_GetBlockTime_def valid_tx_hash GetLegacySigOpCount_sum)
qed

lemma check_work_Inr:
  "check_work env block fCheckPOW U n = Inr (U', n') \<longleftrightarrow>
     (fCheckPOW \<longrightarrow> CheckProofOfWork (ne_diff (be_node env)) (CBlockHeader_GetHash env block) (bh_nBits block)) \<and>
     uint (bh_nTime block) \<le> be_AdjustedTime env + 7200 \<and> uint (get_nTime (get_vtx block ! 0)) \<le> uint (bh_nTime block) + 7200 \<and>
     U' = U \<and> n' = n"
  by (auto simp: check_work_def bh_GetBlockTime_def FutureDrift_def PastDrift_def)

lemma early_verdicts:
  "check_txs env block vtx U n = Some (Inl v) \<Longrightarrow> \<not> fst v"
  "check_stake env block fCheckSig U n = Some (Inl v) \<Longrightarrow> \<not> fst v"
  "check_work env block fCheckPOW U n = Inl v \<Longrightarrow> \<not> fst v"
proof -
  show "check_txs env block vtx U n = Some (Inl v) \<Longrightarrow> \<not> fst v"
  proof (induction vtx arbitrary: U n)
    case (Cons tx vtx)
    then show ?case by (auto simp: DoS_def split: if_splits option.splits prod.splits bool.splits bind_splits)
  qed simp
  show "check_stake env block fCheckSig U n = Some (Inl v) \<Longrightarrow> \<not> fst v"
    unfolding check_stake_def Let_def DoS_def by (auto split: if_splits option.splits prod.splits bool.splits bind_splits)
  show "check_work env block fCheckPOW U n = Inl v \<Longrightarrow> \<not> fst v"
    by (auto simp: check_work_def DoS_def split: if_splits)
qed

lemma check_end_True:
  assumes "\<forall>tx \<in> set (get_vtx block). valid_tx tx" "length (block_body block) \<le> 1000000"
  shows "check_end env block fCheckMerkleRoot
      (Inr ((\<lambda>tx. env_Hash (ne_crypto (be_node env)) (tx_body tx)) ` set (get_vtx block), of_nat (\<Sum>tx \<leftarrow> get_vtx block. legacy_sigops tx))) =
      Some (True, p) \<longleftrightarrow> p = 0 \<and>
     (\<exists>hashes. tx_hashes (env_Hash (ne_crypto (be_node env))) (get_vtx block) = Some hashes \<and> distinct hashes \<and>
        (fCheckMerkleRoot \<longrightarrow> bh_hashMerkleRoot block = merkle_root (env_Hash (ne_crypto (be_node env))) hashes)) \<and>
     (\<Sum>tx \<leftarrow> get_vtx block. legacy_sigops tx) \<le> 20000"
proof -
  let ?H = "\<lambda>tx. env_Hash (ne_crypto (be_node env)) (tx_body tx)"
  have h: "tx_hashes (env_Hash (ne_crypto (be_node env))) (get_vtx block) = Some (map ?H (get_vtx block))"
    using assms(1) by (rule tx_hashes_valid)
  have d: "card (?H ` set (get_vtx block)) = length (get_vtx block) \<longleftrightarrow> distinct (map ?H (get_vtx block))"
    using distinct_card [of "map ?H (get_vtx block)"] card_distinct [of "map ?H (get_vtx block)"] by auto
  have "CBlock_size block = Some (length (block_body block))"
    using assms(1) by (auto simp: CBlock_size_def CBlock_Serialize_iff valid_tx_def)
  then have "(\<Sum>tx \<leftarrow> get_vtx block. legacy_sigops tx) < 2 ^ 32"
    using block_sigops_bound [of block] assms(2) by fastforce
  then have n: "unat (of_nat (\<Sum>tx \<leftarrow> get_vtx block. legacy_sigops tx) :: 32 word) = (\<Sum>tx \<leftarrow> get_vtx block. legacy_sigops tx)"
    by (simp add: unat_of_nat take_bit_eq_mod)
  show ?thesis
    unfolding check_end_def sum.case prod.case d n
    by (auto simp: BuildMerkleTree_root h DoS_def MAX_BLOCK_SIGOPS_def MAX_BLOCK_SIZE_def)
qed

lemma length_concat_txs: "length vtx \<le> length (concat (map tx_body vtx))"
proof (induction vtx)
  case (Cons tx vtx)
  have "1 \<le> length (tx_body tx)" by (simp add: length_tx_body del: length_tx_parts)
  with Cons show ?case by simp
qed simp

lemma length_vtx_block: "length (get_vtx block) \<le> length (block_body block)"
  using length_concat_txs [of "get_vtx block"] by (simp add: block_body_def Serialize_vector_def)

lemma check_stages:
  assumes "\<And>v. r = Some (Inl v) \<Longrightarrow> \<not> fst v"
  shows "do {
      r \<leftarrow> r;
      (case r of
         Inl v \<Rightarrow> Some v
       | Inr (uniqueTx, nSigOps) \<Rightarrow> do { r \<leftarrow> check_txs env block vtx uniqueTx nSigOps; check_end env block fCheckMerkleRoot r }) } =
      Some (True, p) \<longleftrightarrow>
    (\<exists>U n U' n'. r = Some (Inr (U, n)) \<and> check_txs env block vtx U n = Some (Inr (U', n')) \<and>
      check_end env block fCheckMerkleRoot (Inr (U', n')) = Some (True, p))"
proof -
  have "\<exists>U' n'. t = Inr (U', n')" if "check_txs env block vtx U n = Some t" "check_end env block fCheckMerkleRoot t = Some (True, p)" for U n t
    using that early_verdicts(1) by (cases t) (fastforce simp: check_end_def)+
  then show ?thesis using assms by (auto split: sum.splits bind_splits) fastforce+
qed

lemma CheckBlock_True:
  "CheckBlock env block fCheckPOW fCheckMerkleRoot fCheckSig = Some (True, p) \<longleftrightarrow>
     p = 0 \<and> valid_block env block fCheckPOW fCheckMerkleRoot fCheckSig"
proof (cases "get_vtx block \<noteq> [] \<and> length (block_body block) \<le> 1000000 \<and> (\<forall>tx \<in> set (get_vtx block). get_nVersion tx \<in> {1, 2}) \<and>
    IsCoinBase (hd (get_vtx block)) \<and> valid_tx (hd (get_vtx block))")
  case False
  then have "\<not> valid_block env block fCheckPOW fCheckMerkleRoot fCheckSig"
    by (auto simp: valid_block_def valid_tx_def hd_conv_nth)
  moreover have "CheckBlock env block fCheckPOW fCheckMerkleRoot fCheckSig \<noteq> Some (True, p)"
    using False CheckTransaction_True_iff [of "hd (get_vtx block)"]
    by (auto simp: CheckBlock_def Let_def CBlock_size_def CBlock_Serialize_iff DoS_def MAX_BLOCK_SIZE_def
        split: if_splits option.splits prod.splits bool.splits)
  ultimately show ?thesis by blast
next
  case True
  let ?vtx = "get_vtx block" and ?H = "\<lambda>tx. env_Hash (ne_crypto (be_node env)) (tx_body tx)"
  let ?cb = "hd (get_vtx block)"
  let ?r = "if IsProofOfStake block then check_stake env block fCheckSig {?H ?cb} (of_nat (legacy_sigops ?cb))
             else Some (check_work env block fCheckPOW {?H ?cb} (of_nat (legacy_sigops ?cb)))"
  have size: "CBlock_size block = Some (length (block_body block))" using True by (auto simp: CBlock_size_def CBlock_Serialize_iff)
  have e: "CheckBlock env block fCheckPOW fCheckMerkleRoot fCheckSig = do {
      r \<leftarrow> ?r;
      (case r of
         Inl v \<Rightarrow> Some v
       | Inr (uniqueTx, nSigOps) \<Rightarrow> do {
           r \<leftarrow> check_txs env block (drop (if IsProofOfStake block then 2 else 1) ?vtx) uniqueTx nSigOps;
           check_end env block fCheckMerkleRoot r }) }"
    using True length_vtx_block [of block] size
    by (simp add: CheckBlock_def Let_def CheckTransaction_iff_valid [THEN conjunct1, THEN iffD2] valid_tx_hash GetLegacySigOpCount_sum MAX_BLOCK_SIZE_def)
  have f: "\<not> fst v" if "?r = Some (Inl v)" for v
    using that by (auto dest: early_verdicts(2,3) split: if_splits)
  have cb: "CheckBlock env block fCheckPOW fCheckMerkleRoot fCheckSig = Some (True, p) \<longleftrightarrow> (\<exists>U n U' n'. ?r = Some (Inr (U, n)) \<and>
      check_txs env block (drop (if IsProofOfStake block then 2 else 1) ?vtx) U n = Some (Inr (U', n')) \<and>
      check_end env block fCheckMerkleRoot (Inr (U', n')) = Some (True, p))"
    unfolding e by (rule check_stages, rule f)
  note ends = check_end_True [of block env fCheckMerkleRoot p]
  show ?thesis
  proof (cases "IsProofOfStake block")
    case stake: True
    then obtain cb cs rest where vtx: "?vtx = cb # cs # rest" by (cases ?vtx rule: list.exhaust; cases "tl ?vtx") (auto simp: IsProofOfStake_def)
    have "CheckBlock env block fCheckPOW fCheckMerkleRoot fCheckSig = Some (True, p) \<longleftrightarrow>
        valid_tx cs \<and> (\<forall>tx \<in> set rest. valid_tx tx) \<and> valid_stake env block fCheckSig \<and>
        check_end env block fCheckMerkleRoot (Inr (?H ` set ?vtx, of_nat (\<Sum>tx \<leftarrow> ?vtx. legacy_sigops tx))) = Some (True, p)"
      unfolding cb using stake by (auto simp: check_stake_Inr check_txs_Inr valid_stake_def vtx insert_commute add.assoc)
    with True stake ends show ?thesis by (auto simp: valid_block_def vtx)
  next
    case work: False
    obtain cb rest where vtx: "?vtx = cb # rest" using True by (cases ?vtx) auto
    have "CheckBlock env block fCheckPOW fCheckMerkleRoot fCheckSig = Some (True, p) \<longleftrightarrow>
        (\<forall>tx \<in> set rest. valid_tx tx) \<and> valid_work env block fCheckPOW \<and>
        check_end env block fCheckMerkleRoot (Inr (?H ` set ?vtx, of_nat (\<Sum>tx \<leftarrow> ?vtx. legacy_sigops tx))) = Some (True, p)"
      unfolding cb using work by (auto simp: check_work_Inr check_txs_Inr valid_work_def vtx)
    with True work ends show ?thesis by (auto simp: valid_block_def vtx)
  qed
qed

section \<open>Properties\<close>

text \<open>
  C5. \<^verbatim>\<open>CheckBlock\<close> accepts exactly the valid blocks: not empty, at most a million bytes, every transaction
  valid, no two with the same hash, at most 20000 signature operations counted without overflow, a coin
  base first and only there, a coin stake at most in the second place, with the rules of its kind for
  nonce, time, signature or proof of work, and the root of the tree of the hashes in the header.
\<close>

theorem CheckBlock_valid:
  "CheckBlock env block fCheckPOW fCheckMerkleRoot fCheckSig = Some (True, penalty) \<longleftrightarrow>
     penalty = 0 \<and> valid_block env block fCheckPOW fCheckMerkleRoot fCheckSig"
  by (rule CheckBlock_True)

end
