(* ===== verification/Block_Connect.thy ===== *)
theory Block_Connect
  imports Block_Check
begin

text \<open>
  Connecting a block and disconnecting it again (\<^verbatim>\<open>ConnectBlock\<close> and \<^verbatim>\<open>DisconnectBlock\<close> of
  \<^verbatim>\<open>src/src/block/block.cpp\<close>): what the transactions of a block do, one after another, to the view of the
  index with the queued changes, and that disconnecting in the reverse order gives the index back.
\<close>

section \<open>Marks and fully spent entries\<close>

definition fully_spent :: "(uint256 \<rightharpoonup> CTxIndex) \<Rightarrow> uint256 \<Rightarrow> bool" where
  "fully_spent V h \<longleftrightarrow> (\<forall>x. V h = Some x \<longrightarrow> \<not> list_ex CDiskTxPos_IsNull (get_vSpent x))"

lemma set_marks: "set (marks p h vin spent) \<subseteq> insert p (set spent)"
  by (induction vin arbitrary: spent) (auto dest!: subsetD [OF set_update_subset_insert] split: if_splits; blast)+

lemma spend_marks_keeps:
  assumes "\<not> CDiskTxPos_IsNull p"
  shows "nulls_ok V \<Longrightarrow> nulls_ok (spend_marks p vin V)" "fully_spent V h \<Longrightarrow> fully_spent (spend_marks p vin V) h"
  using assms set_marks [of p _ vin]
  by (fastforce simp: nulls_ok_def fully_spent_def spend_marks_def list_ex_iff)+

lemma spend_marks_wf: "(\<And>h x. V h = Some x \<Longrightarrow> wf_index x) \<Longrightarrow> spend_marks p vin V h = Some x \<Longrightarrow> wf_index x"
  by (fastforce simp: spend_marks_def wf_index_def)

lemma unspent_not_fully_spent: "unspent V txin \<Longrightarrow> \<not> fully_spent V (get_hash (get_prevout txin))"
proof -
  assume "unspent V txin"
  then obtain x where x: "V (get_hash (get_prevout txin)) = Some x" "unat (get_n (get_prevout txin)) < length (get_vSpent x)"
      "get_vSpent x ! unat (get_n (get_prevout txin)) = CDiskTxPos_null" unfolding unspent_def by blast
  have "CDiskTxPos_null \<in> set (get_vSpent x)" using nth_mem [OF x(2)] x(3) by simp
  moreover have "CDiskTxPos_IsNull CDiskTxPos_null" by (simp add: CDiskTxPos_IsNull_def CDiskTxPos_null_def)
  ultimately show ?thesis using x(1) by (auto simp: fully_spent_def list_ex_iff)
qed

lemma unspent_restrict: "unspent (V |` (- S)) txin \<longleftrightarrow> unspent V txin \<and> get_hash (get_prevout txin) \<notin> S"
  by (auto simp: unspent_def restrict_map_def)

lemma spend_marks_restrict: "spend_marks p vin (V |` S) = spend_marks p vin V |` S"
  by (auto simp: spend_marks_def restrict_map_def fun_eq_iff)

section \<open>One transaction\<close>

definition tx_pos :: "chain \<Rightarrow> block_state \<Rightarrow> CDiskTxPos" where
  "tx_pos chain st = \<lparr> get_nFile = bi_nFile (hd chain), get_nBlockPos = bi_nBlockPos (hd chain), get_nTxPos = bs_nTxPos st \<rparr>"

definition block_view :: "('d \<Rightarrow> (bytes \<rightharpoonup> bytes)) \<Rightarrow> 'd CLevelDB \<Rightarrow> block_state \<Rightarrow> uint256 \<rightharpoonup> CTxIndex" where
  "block_view content db st = queued_view (bs_mapQueuedChanges st) (txdb_index content db)"

text \<open>The parts of a successful iteration of the loop.\<close>

lemma connect_txE:
  assumes "connect_tx env db pool chain fJustCheck fScriptChecks tx st = Some (None, st')"
  obtains hash old n nSize st1 where "GetHash (be_node env) tx = Some hash"
    "ReadTxIndex (ne_ldb (be_node env)) hash db = Some old" "\<not> overwrites old"
    "(if IsCoinBase tx
      then map_option (\<lambda>nOut. (None, st\<lparr> bs_nSigOps := n, bs_nTxPos := nSize, bs_nValueOut := bs_nValueOut st + nOut \<rparr>)) (GetValueOut tx)
      else connect_spender env db pool chain fScriptChecks (tx_pos chain st) tx (st\<lparr> bs_nSigOps := n, bs_nTxPos := nSize \<rparr>)) = Some (None, st1)"
    "st' = st1\<lparr> bs_mapQueuedChanges := map_set hash (new_CTxIndex (tx_pos chain st) (length (get_vout tx))) (bs_mapQueuedChanges st1) \<rparr>"
proof -
  from assms obtain hash old where h: "GetHash (be_node env) tx = Some hash"
      "ReadTxIndex (ne_ldb (be_node env)) hash db = Some old" "\<not> overwrites old"
    unfolding connect_tx_def by (auto split: bind_splits if_splits)
  from assms h obtain n0 size where n0: "GetLegacySigOpCount tx = Some n0" "(if fJustCheck then Some 0 else tx_size tx) = Some size"
      "\<not> unat (bs_nSigOps st + n0) > MAX_BLOCK_SIGOPS" "old \<noteq> ReadBeyondEnd"
    unfolding connect_tx_def Let_def by (auto split: bind_splits if_splits)
  define n nSize where n: "n = bs_nSigOps st + n0" "nSize = bs_nTxPos st + word_of_nat size"
  have "connect_tx env db pool chain fJustCheck fScriptChecks tx st =
      Option.bind (if IsCoinBase tx
        then map_option (\<lambda>nOut. (None, st\<lparr> bs_nSigOps := n, bs_nTxPos := nSize, bs_nValueOut := bs_nValueOut st + nOut \<rparr>)) (GetValueOut tx)
        else connect_spender env db pool chain fScriptChecks (tx_pos chain st) tx (st\<lparr> bs_nSigOps := n, bs_nTxPos := nSize \<rparr>))
      (\<lambda>r. case r of
        (Some v, st) \<Rightarrow> Some (Some v, st)
      | (None, st1) \<Rightarrow> Some (None, st1\<lparr> bs_mapQueuedChanges :=
          map_set hash (new_CTxIndex (tx_pos chain st) (length (get_vout tx))) (bs_mapQueuedChanges st1) \<rparr>))"
    using h n0 by (simp add: connect_tx_def tx_pos_def n Let_def cong: option.case_cong)
  from assms [unfolded this] obtain r where r:
    "(if IsCoinBase tx
      then map_option (\<lambda>nOut. (None, st\<lparr> bs_nSigOps := n, bs_nTxPos := nSize, bs_nValueOut := bs_nValueOut st + nOut \<rparr>)) (GetValueOut tx)
      else connect_spender env db pool chain fScriptChecks (tx_pos chain st) tx (st\<lparr> bs_nSigOps := n, bs_nTxPos := nSize \<rparr>)) = Some r"
    "(case r of
        (Some v, st) \<Rightarrow> Some (Some v, st)
      | (None, st1) \<Rightarrow> Some (None, st1\<lparr> bs_mapQueuedChanges :=
          map_set hash (new_CTxIndex (tx_pos chain st) (length (get_vout tx))) (bs_mapQueuedChanges st1) \<rparr>)) = Some (None, st')"
    unfolding bind_eq_Some_conv by blast
  obtain st1 where st1: "r = (None, st1)"
      "st' = st1\<lparr> bs_mapQueuedChanges := map_set hash (new_CTxIndex (tx_pos chain st) (length (get_vout tx))) (bs_mapQueuedChanges st1) \<rparr>"
    using r(2) by (auto split: prod.splits option.splits)
  show ?thesis by (rule that [OF h r(1) [unfolded st1(1)] st1(2)])
qed

lemma connect_spenderE:
  assumes "connect_spender env db pool chain fScriptChecks p tx st = Some (None, st')" 
  obtains inputs n nIn nOut cn penalty where
    "FetchInputs (be_node env) db pool tx (bs_mapQueuedChanges st) True False [] = Some (Inputs inputs)"
    "GetValueIn tx inputs = Some nIn" "GetValueOut tx = Some nOut"
    "ConnectInputs (be_node env) db tx inputs (bs_mapQueuedChanges st) p chain True False fScriptChecks
       (block_flags tx) (if be_nScriptCheckThreads env \<noteq> 0 then Some [] else None) (bs_cache st) = Some ((True, penalty), cn)"
    "st' = st\<lparr> bs_nSigOps := n, bs_nValueIn := bs_nValueIn st + nIn, bs_nValueOut := bs_nValueOut st + nOut,
       bs_nFees := (if IsCoinStake tx then bs_nFees st else bs_nFees st + (nIn - nOut)),
       bs_mapQueuedChanges := cn_mapTestPool cn, bs_cache := cn_cache cn,
       bs_checks := bs_checks st @ (case cn_checks cn of None \<Rightarrow> [] | Some vChecks \<Rightarrow> vChecks) \<rparr>"
proof -
  from assms obtain f where f: "FetchInputs (be_node env) db pool tx (bs_mapQueuedChanges st) True False [] = Some f"
    by (auto simp: connect_spender_def split: bind_splits)
  with assms obtain inputs where i: "f = Inputs inputs" by (cases f) (auto simp: connect_spender_def)
  from assms f i obtain n nIn nOut v cn where
    "GetValueIn tx inputs = Some nIn" "GetValueOut tx = Some nOut"
    "ConnectInputs (be_node env) db tx inputs (bs_mapQueuedChanges st) p chain True False fScriptChecks
       (block_flags tx) (if be_nScriptCheckThreads env \<noteq> 0 then Some [] else None) (bs_cache st) = Some (v, cn)" "fst v"
    "st' = st\<lparr> bs_nSigOps := n, bs_nValueIn := bs_nValueIn st + nIn, bs_nValueOut := bs_nValueOut st + nOut,
       bs_nFees := (if IsCoinStake tx then bs_nFees st else bs_nFees st + (nIn - nOut)),
       bs_mapQueuedChanges := cn_mapTestPool cn, bs_cache := cn_cache cn,
       bs_checks := bs_checks st @ (case cn_checks cn of None \<Rightarrow> [] | Some vChecks \<Rightarrow> vChecks) \<rparr>"
    unfolding connect_spender_def by (auto simp: Let_def split: bind_splits if_splits)
  with f i that show ?thesis by (cases v) auto
qed

text \<open>
  A transaction of the block that is connected: what it spends is unspent before and marked after,
  and its own entry is new.
\<close>

lemma connect_tx_view:
  assumes "connect_tx env db pool chain fJustCheck fScriptChecks tx st = Some (None, st')" "GetHash (be_node env) tx = Some hash"
    and "txdb_ok (ne_ldb (be_node env)) content db" "bi_nFile (hd chain) \<noteq> 0xffffffff" "map_ok (bs_mapQueuedChanges st)"
    and "nulls_ok (block_view content db st)"
  shows "map_ok (bs_mapQueuedChanges st')"
    "block_view content db st' = (spend_marks (tx_pos chain st) (spent_by tx) (block_view content db st))
       (hash \<mapsto> new_CTxIndex (tx_pos chain st) (length (get_vout tx)))"
    "txin \<in> set (spent_by tx) \<Longrightarrow> unspent (block_view content db st) txin"
proof -
  have p: "\<not> CDiskTxPos_IsNull (tx_pos chain st)" using assms(4) by (simp add: tx_pos_def CDiskTxPos_IsNull_def)
  from assms(1) obtain hash' old n nSize st1 where c: "GetHash (be_node env) tx = Some hash'"
      "ReadTxIndex (ne_ldb (be_node env)) hash' db = Some old" "\<not> overwrites old"
      "(if IsCoinBase tx
        then map_option (\<lambda>nOut. (None, st\<lparr> bs_nSigOps := n, bs_nTxPos := nSize, bs_nValueOut := bs_nValueOut st + nOut \<rparr>)) (GetValueOut tx)
        else connect_spender env db pool chain fScriptChecks (tx_pos chain st) tx (st\<lparr> bs_nSigOps := n, bs_nTxPos := nSize \<rparr>)) = Some (None, st1)"
      "st' = st1\<lparr> bs_mapQueuedChanges := map_set hash' (new_CTxIndex (tx_pos chain st) (length (get_vout tx))) (bs_mapQueuedChanges st1) \<rparr>"
    by (rule connect_txE)
  have h: "hash' = hash" using assms(2) c(1) by simp
  have s: "map_ok (bs_mapQueuedChanges st1) \<and> block_view content db st1 = spend_marks (tx_pos chain st) (spent_by tx) (block_view content db st) \<and>
      (\<forall>txin \<in> set (spent_by tx). unspent (block_view content db st) txin)"
  proof (cases "IsCoinBase tx")
    case True
    with c(4) have "bs_mapQueuedChanges st1 = bs_mapQueuedChanges st" by auto
    with True assms(5) show ?thesis by (simp add: spent_by_def block_view_def)
  next
    case False
    with c(4) have "connect_spender env db pool chain fScriptChecks (tx_pos chain st) tx (st\<lparr> bs_nSigOps := n, bs_nTxPos := nSize \<rparr>) = Some (None, st1)"
      by simp
    then obtain inputs cn penalty where f:
        "FetchInputs (be_node env) db pool tx (bs_mapQueuedChanges st) True False [] = Some (Inputs inputs)"
        "ConnectInputs (be_node env) db tx inputs (bs_mapQueuedChanges st) (tx_pos chain st) chain True False fScriptChecks
          (block_flags tx) (if be_nScriptCheckThreads env \<noteq> 0 then Some [] else None) (bs_cache st) = Some ((True, penalty), cn)"
        "bs_mapQueuedChanges st1 = cn_mapTestPool cn"
      by (rule connect_spenderE) simp
    from ConnectInputs_view [OF f(1,2) False assms(3) p assms(5) assms(6) [unfolded block_view_def]] False show ?thesis
      by (simp add: f(3) spent_by_def block_view_def)
  qed
  then show "map_ok (bs_mapQueuedChanges st')"
    "block_view content db st' = (spend_marks (tx_pos chain st) (spent_by tx) (block_view content db st))
       (hash \<mapsto> new_CTxIndex (tx_pos chain st) (length (get_vout tx)))"
    "txin \<in> set (spent_by tx) \<Longrightarrow> unspent (block_view content db st) txin"
    by (auto simp: c(5) h block_view_def)
qed

section \<open>All transactions\<close>

lemma disconnect_txs_append:
  "disconnect_txs env (xs @ ys) db =
     (case disconnect_txs env xs db of Some (True, db) \<Rightarrow> disconnect_txs env ys db | r \<Rightarrow> r)"
  by (induction xs arbitrary: db) (auto split: option.splits bool.splits)

text \<open>The conditions on the view that the transactions of a block keep.\<close>

definition view_ok :: "(uint256 \<rightharpoonup> CTxIndex) \<Rightarrow> bool" where
  "view_ok V \<longleftrightarrow> nulls_ok V \<and> (\<forall>h x. V h = Some x \<longrightarrow> wf_index x)"

lemma view_ok_step:
  assumes "view_ok V" "\<not> CDiskTxPos_IsNull p" "n \<le> MAX_SIZE"
  shows "view_ok ((spend_marks p vin V)(h \<mapsto> new_CTxIndex q n))"
proof -
  have "nulls_ok (spend_marks p vin V)" using assms(1,2) by (auto simp: view_ok_def intro: spend_marks_keeps)
  then have "nulls_ok ((spend_marks p vin V)(h \<mapsto> new_CTxIndex q n))"
    unfolding nulls_ok_def new_CTxIndex_def by auto
  moreover have "wf_index x" if "((spend_marks p vin V)(h \<mapsto> new_CTxIndex q n)) h' = Some x" for h' x
    using that assms(1,3) spend_marks_wf [of V p vin h' x] by (auto simp: view_ok_def wf_index_def new_CTxIndex_def split: if_splits)
  ultimately show ?thesis by (simp add: view_ok_def)
qed

text \<open>Disconnecting from the view after the transactions, without the entries of the later ones.\<close>

definition undoes :: "'d node_env \<Rightarrow> ('d \<Rightarrow> (bytes \<rightharpoonup> bytes)) \<Rightarrow> CTransaction list \<Rightarrow> (uint256 \<rightharpoonup> CTxIndex) \<Rightarrow> (uint256 \<rightharpoonup> CTxIndex) \<Rightarrow> bool" where
  "undoes env content vtx V' V \<longleftrightarrow> (\<forall>db. txdb_ok (ne_ldb env) content db \<and> activeBatch db \<noteq> None \<and> txdb_index content db = V' \<longrightarrow>
     (\<exists>db'. disconnect_txs env vtx db = Some (True, db') \<and> txdb_ok (ne_ldb env) content db' \<and> activeBatch db' \<noteq> None \<and>
        txdb_index content db' = V))"

lemma undoes_append: "undoes env content xs V'' V' \<Longrightarrow> undoes env content ys V' V \<Longrightarrow> undoes env content (xs @ ys) V'' V"
  unfolding undoes_def disconnect_txs_append by fastforce

lemma undoes_one:
  assumes "GetHash env tx = Some hash" "hash \<notin> later" "\<And>txin. txin \<in> set (spent_by tx) \<Longrightarrow> unspent V txin"
    and "\<And>h. h \<in> insert hash later \<Longrightarrow> fully_spent V h"
  shows "undoes env content [tx] ((spend_marks p (spent_by tx) V)(hash \<mapsto> x) |` (- later)) (V |` (- insert hash later))"
  unfolding undoes_def
proof (intro allI impI)
  fix db assume db: "txdb_ok (ne_ldb env) content db \<and> activeBatch db \<noteq> None \<and>
    txdb_index content db = (spend_marks p (spent_by tx) V)(hash \<mapsto> x) |` (- later)"
  have pre: "get_hash (get_prevout txin) \<notin> insert hash later" if "txin \<in> set (spent_by tx)" for txin
    using unspent_not_fully_spent [OF assms(3) [OF that]] assms(4) by blast
  have u: "unspent (V |` (- later)) txin" if "txin \<in> set (spent_by tx)" for txin
    using pre [OF that] assms(3) [OF that] by (simp add: unspent_restrict)
  have i: "txdb_index content db h = spend_marks p (spent_by tx) (V |` (- later)) h"
    if "h \<noteq> hash \<or> h \<in> (\<lambda>txin. get_hash (get_prevout txin)) ` set (spent_by tx)" for h
    unfolding spend_marks_restrict using that pre db by (auto simp: restrict_map_def)
  obtain db' where "DisconnectInputs env tx db = Some (True, db')" "txdb_ok (ne_ldb env) content db'" "activeBatch db' \<noteq> None"
      "txdb_index content db' = (V |` (- later))(hash := None)"
    using db by (auto intro: DisconnectInputs_view [OF _ _ assms(1) u i])
  moreover have "(V |` (- later))(hash := None) = V |` (- insert hash later)" by (auto simp: restrict_map_def fun_eq_iff)
  ultimately show "\<exists>db'. disconnect_txs env [tx] db = Some (True, db') \<and> txdb_ok (ne_ldb env) content db' \<and> activeBatch db' \<noteq> None \<and>
      txdb_index content db' = V |` (- insert hash later)" by auto
qed

lemma connect_txs_undoes:
  assumes "connect_txs env db pool chain fJustCheck fScriptChecks vtx st = Some (None, st')"
    and "tx_hashes (env_Hash (ne_crypto (be_node env))) vtx = Some hashes" "distinct hashes"
    and "txdb_ok (ne_ldb (be_node env)) content db" "bi_nFile (hd chain) \<noteq> 0xffffffff" "map_ok (bs_mapQueuedChanges st)"
    and "view_ok (block_view content db st)" "\<forall>h \<in> set hashes. fully_spent (block_view content db st) h"
    and "\<forall>tx \<in> set vtx. length (get_vout tx) \<le> MAX_SIZE"
  shows "map_ok (bs_mapQueuedChanges st') \<and> view_ok (block_view content db st') \<and>
    set hashes \<union> dom (block_view content db st) \<subseteq> dom (block_view content db st') \<and>
    undoes (be_node env) content (rev vtx) (block_view content db st') (block_view content db st |` (- set hashes))"
  using assms
proof (induction vtx arbitrary: st hashes)
  case Nil
  then show ?case by (auto simp: undoes_def)
next
  case (Cons tx vtx)
  obtain hash hs where hs: "GetHash (be_node env) tx = Some hash" "tx_hashes (env_Hash (ne_crypto (be_node env))) vtx = Some hs" "hashes = hash # hs"
    using Cons.prems(2) by (auto split: bind_splits)
  obtain st1 where st1: "connect_tx env db pool chain fJustCheck fScriptChecks tx st = Some (None, st1)"
      "connect_txs env db pool chain fJustCheck fScriptChecks vtx st1 = Some (None, st')"
    using Cons.prems(1) by (auto split: option.splits prod.splits)
  let ?V = "block_view content db st" and ?V1 = "block_view content db st1" and ?p = "tx_pos chain st"
  have "nulls_ok ?V" using Cons.prems(7) by (simp add: view_ok_def)
  note v = connect_tx_view [OF st1(1) hs(1) Cons.prems(4-6) this]
  have p: "\<not> CDiskTxPos_IsNull ?p" using Cons.prems(5) by (simp add: tx_pos_def CDiskTxPos_IsNull_def)
  have "view_ok ?V1" unfolding v(2) using view_ok_step [OF Cons.prems(7) p] Cons.prems(9) by simp
  moreover have "\<forall>h \<in> set hs. fully_spent ?V1 h"
    using Cons.prems(3,8) spend_marks_keeps(2) [OF p, of ?V _ "spent_by tx"] by (auto simp: hs(3) v(2) fully_spent_def)
  ultimately have ih: "map_ok (bs_mapQueuedChanges st')" "view_ok (block_view content db st')"
      "set hs \<union> dom ?V1 \<subseteq> dom (block_view content db st')"
      "undoes (be_node env) content (rev vtx) (block_view content db st') (?V1 |` (- set hs))"
    using Cons.IH [OF st1(2) hs(2) _ Cons.prems(4,5) v(1)] Cons.prems(3,9) by (auto simp: hs(3))
  have "undoes (be_node env) content [tx] (?V1 |` (- set hs)) (?V |` (- insert hash (set hs)))"
    unfolding v(2) using Cons.prems(3,8) hs v(3) by (intro undoes_one) auto
  moreover have "insert hash (dom ?V) \<subseteq> dom ?V1" unfolding v(2) by (auto simp: spend_marks_def)
  moreover from this ih(3) have "set hashes \<union> dom ?V \<subseteq> dom (block_view content db st')" unfolding hs(3) list.set by blast
  ultimately show ?case using ih(1,2,4) by (auto simp: hs(3) intro: undoes_append)
qed

text \<open>The rule against overwriting (BIP 30).\<close>

lemma connect_txs_fully_spent:
  assumes "connect_txs env db pool chain fJustCheck fScriptChecks vtx st = Some (None, st')"
    and "tx_hashes (env_Hash (ne_crypto (be_node env))) vtx = Some hashes" "txdb_ok (ne_ldb (be_node env)) content db"
  shows "\<forall>h \<in> set hashes. fully_spent (txdb_index content db) h"
  using assms
proof (induction vtx arbitrary: st hashes)
  case (Cons tx vtx)
  obtain hash hs where hs: "GetHash (be_node env) tx = Some hash" "tx_hashes (env_Hash (ne_crypto (be_node env))) vtx = Some hs" "hashes = hash # hs"
    using Cons.prems(2) by (auto split: bind_splits)
  obtain st1 where st1: "connect_tx env db pool chain fJustCheck fScriptChecks tx st = Some (None, st1)"
      "connect_txs env db pool chain fJustCheck fScriptChecks vtx st1 = Some (None, st')"
    using Cons.prems(1) by (auto split: option.splits prod.splits)
  from st1(1) obtain old where "ReadTxIndex (ne_ldb (be_node env)) hash db = Some old" "\<not> overwrites old"
    by (rule connect_txE) (use hs(1) in auto)
  then have "fully_spent (txdb_index content db) hash"
    using txdb.rd_index [OF Cons.prems(3), of hash] by (auto simp: fully_spent_def overwrites_def)
  with Cons.IH [OF st1(2) hs(2) Cons.prems(3)] show ?case by (simp add: hs(3))
qed simp

section \<open>The block\<close>

lemma blockindex_key_neq [simp]: "blockindex_key h \<noteq> tx_key h'"
proof -
  have "length (blockindex_key h) \<noteq> length (tx_key h')" by (simp add: blockindex_key_def tx_key_def bytes_of_string_def GetSizeOfCompactSize_def)
  then show ?thesis by metis
qed

lemma WriteBlockIndex_index:
  assumes "txdb_ok (ne_ldb (be_node env)) content db" "activeBatch db \<noteq> None"
  obtains db' where "WriteBlockIndex env x db = Some (True, db')" "txdb_ok (ne_ldb (be_node env)) content db'" "activeBatch db' \<noteq> None"
    "txdb_index content db' = txdb_index content db"
proof -
  obtain hash y where y: "dbi_GetBlockHash env x = (hash, y)" by fastforce
  have l: "leveldb_law (ne_ldb (be_node env)) content" "\<not> fReadOnly db" "\<not> fSecure db" using assms(1) by (simp_all add: txdb_ok_def)
  obtain b db' where w: "db_Write (ne_ldb (be_node env)) (blockindex_key hash) (Serialize_CDiskBlockIndex y) True db = Some (b, db')"
      "\<not> fReadOnly db'" "\<not> fSecure db'"
      "view content db' = (if b then (view content db)(blockindex_key hash \<mapsto> Serialize_CDiskBlockIndex y) else view content db)"
    using write_view(1) [OF l] by blast
  have b: "b" "activeBatch db' \<noteq> None" using w(1) l assms(2) by (auto simp: db_Write_def WriteNormal_def)
  have "view content db' (tx_key h) = view content db (tx_key h)" for h
    using blockindex_key_neq [of hash h, symmetric] by (simp add: w(4) del: blockindex_key_neq)
  then have "txdb_ok (ne_ldb (be_node env)) content db'" "txdb_index content db' = txdb_index content db"
    using assms(1) w(2,3) by (simp_all add: txdb_ok_def txdb_index_def fun_eq_iff)
  with b w(1) y show ?thesis by (intro that [of db']) (simp_all add: WriteBlockIndex_def)
qed

text \<open>What a successful \<^verbatim>\<open>ConnectBlock\<close> has done, up to the writes.\<close>

lemma connect_txs_verdict:
  "connect_spender env db pool chain fScriptChecks p tx st = Some (Some v, st') \<Longrightarrow> \<not> fst v"
  "connect_tx env db pool chain fJustCheck fScriptChecks tx st = Some (Some v, st') \<Longrightarrow> \<not> fst v"
  "connect_txs env db pool chain fJustCheck fScriptChecks vtx st = Some (Some v, st') \<Longrightarrow> \<not> fst v"
proof -
  have s: "connect_spender env db pool chain fScriptChecks p tx st = Some (Some v, st') \<Longrightarrow> \<not> fst v" for p tx st st'
    unfolding connect_spender_def Let_def by (auto simp: DoS_def split: bind_splits fetched.splits if_splits)
  then show "connect_spender env db pool chain fScriptChecks p tx st = Some (Some v, st') \<Longrightarrow> \<not> fst v" .
  have t: "connect_tx env db pool chain fJustCheck fScriptChecks tx st = Some (Some v, st') \<Longrightarrow> \<not> fst v" for tx st st'
    unfolding connect_tx_def Let_def
    by (auto simp: DoS_def dest!: s split: bind_splits if_splits option.splits prod.splits)
  then show "connect_tx env db pool chain fJustCheck fScriptChecks tx st = Some (Some v, st') \<Longrightarrow> \<not> fst v" .
  show "connect_txs env db pool chain fJustCheck fScriptChecks vtx st = Some (Some v, st') \<Longrightarrow> \<not> fst v"
    by (induction vtx arbitrary: st) (auto dest!: t split: option.splits prod.splits)
qed

lemma ConnectBlock_TrueE:
  assumes "ConnectBlock env db pool block chain hashNext fJustCheck cache = Some ((True, penalty), db', pindex, cache')"
  obtains nTxPos st cache1 where "valid_block env block (\<not> fJustCheck) (\<not> fJustCheck) False"
    "connect_txs env db pool chain fJustCheck (sint (bi_nHeight (hd chain)) \<ge> be_TotalBlocksEstimate env) (get_vtx block)
      \<lparr> bs_mapQueuedChanges = [], bs_nFees = 0, bs_nValueIn = 0, bs_nValueOut = 0, bs_nSigOps = 0, bs_nTxPos = nTxPos,
        bs_checks = [], bs_cache = cache \<rparr> = Some (None, st)"
    "run_checks (ne_crypto (be_node env)) (bs_checks st) True (bs_cache st) = Some (True, cache1)"
    "IsProofOfWork block \<Longrightarrow> \<exists>nOut. GetValueOut (hd (get_vtx block)) = Some nOut \<and>
      sint nOut \<le> sint (GetProofOfWorkReward (be_nBestHeight env) (bs_nFees st))"
    "write_block env db chain hashNext fJustCheck st cache1 = Some ((True, penalty), db', pindex, cache')"
    "(if fJustCheck then Some 1 else first_tx_pos block (hd chain)) = Some nTxPos"
proof -
  obtain ok p where cb: "CheckBlock env block (\<not> fJustCheck) (\<not> fJustCheck) False = Some (ok, p)" "ok"
    using assms unfolding ConnectBlock_def by (auto split: bind_splits if_splits)
  then have v: "valid_block env block (\<not> fJustCheck) (\<not> fJustCheck) False" using CheckBlock_True by metis
  from assms cb obtain nTxPos r st where c:
    "connect_txs env db pool chain fJustCheck (sint (bi_nHeight (hd chain)) \<ge> be_TotalBlocksEstimate env) (get_vtx block)
      \<lparr> bs_mapQueuedChanges = [], bs_nFees = 0, bs_nValueIn = 0, bs_nValueOut = 0, bs_nSigOps = 0, bs_nTxPos = nTxPos,
        bs_checks = [], bs_cache = cache \<rparr> = Some (r, st)"
    "(case r of
          Some v \<Rightarrow> Some (v, db, hd chain, bs_cache st)
        | None \<Rightarrow> do {
            (fOk, cache) \<leftarrow> run_checks (ne_crypto (be_node env)) (bs_checks st) True (bs_cache st);
            if \<not> fOk then Some (DoS 100 False, db, hd chain, cache)
            else do {
              fExceeded \<leftarrow> (if IsProofOfWork block
                then map_option (\<lambda>nOut. sint nOut > sint (GetProofOfWorkReward (be_nBestHeight env) (bs_nFees st)))
                  (GetValueOut (hd (get_vtx block)))
                else Some False);
              if fExceeded then Some ((False, 0), db, hd chain, cache)
              else write_block env db chain hashNext fJustCheck st cache } }) = Some ((True, penalty), db', pindex, cache')"
    "(if fJustCheck then Some 1 else first_tx_pos block (hd chain)) = Some nTxPos"
    unfolding ConnectBlock_def Let_def by (auto split: bind_splits if_splits prod.splits)
  have r: "r = None" using c(1,2) connect_txs_verdict(3) by (cases r) fastforce+
  from c(2) obtain cache1 where "run_checks (ne_crypto (be_node env)) (bs_checks st) True (bs_cache st) = Some (True, cache1)"
      "IsProofOfWork block \<Longrightarrow> \<exists>nOut. GetValueOut (hd (get_vtx block)) = Some nOut \<and>
        sint nOut \<le> sint (GetProofOfWorkReward (be_nBestHeight env) (bs_nFees st))"
      "write_block env db chain hashNext fJustCheck st cache1 = Some ((True, penalty), db', pindex, cache')"
    unfolding r by (auto simp: DoS_def split: bind_splits if_splits)
  with v c(1) [unfolded r] c(3) that show ?thesis by blast
qed

lemma write_block_index:
  assumes "txdb_ok (ne_ldb (be_node env)) content db" "activeBatch db \<noteq> None" "map_ok (bs_mapQueuedChanges st)"
    and "view_ok (block_view content db st)"
  obtains db' pindex where "write_block env db chain hashNext False st cache = Some ((True, 0), db', pindex, cache)"
    "txdb_ok (ne_ldb (be_node env)) content db'" "activeBatch db' \<noteq> None" "txdb_index content db' = block_view content db st"
proof -
  define pin where "pin = (hd chain)\<lparr>
       bi_nMint := scast (ucast (bs_nValueOut st - bs_nValueIn st + bs_nFees st) :: 32 word),
       bi_nMoneySupply := (if tl chain = [] then 0 else bi_nMoneySupply (hd (tl chain))) + bs_nValueOut st - bs_nValueIn st \<rparr>"
  obtain db0 where d0: "WriteBlockIndex env (new_CDiskBlockIndex (pin # tl chain) hashNext) db = Some (True, db0)"
      "txdb_ok (ne_ldb (be_node env)) content db0" "activeBatch db0 \<noteq> None" "txdb_index content db0 = txdb_index content db"
    by (rule WriteBlockIndex_index [OF assms(1,2)])
  have "wf_index x" if "queued_view (bs_mapQueuedChanges st) (txdb_index content db0) h = Some x" for h x
    using that assms(4) by (simp add: d0(4) view_ok_def block_view_def)
  then obtain db1 where d1: "write_queued (UpdateTxIndex (ne_ldb (be_node env))) (bs_mapQueuedChanges st) db0 = Some (True, db1)"
      "txdb_ok (ne_ldb (be_node env)) content db1" "activeBatch db1 \<noteq> None" "txdb_index content db1 = block_view content db st"
    using write_queued_view [OF d0(2,3) assms(3)] unfolding d0(4) block_view_def by blast
  obtain db2 where d2: "WriteBlockIndex env ((new_CDiskBlockIndex (tl chain) 0)\<lparr> dbi_hashNext := bi_hashBlock pin \<rparr>) db1 = Some (True, db2)"
      "txdb_ok (ne_ldb (be_node env)) content db2" "activeBatch db2 \<noteq> None" "txdb_index content db2 = block_view content db st"
    using WriteBlockIndex_index [OF d1(2,3)] d1(4) by metis
  have "write_block env db chain hashNext False st cache = Some ((True, 0), if tl chain = [] then db1 else db2, pin, cache)"
    using d0(1) d1(1) d2(1) by (simp add: write_block_def Let_def pin_def [symmetric])
  with d1 d2 show ?thesis by (intro that [of "if tl chain = [] then db1 else db2" pin]) simp_all
qed

lemma valid_tx_outputs: "valid_tx tx \<Longrightarrow> length (get_vout tx) \<le> MAX_SIZE"
proof -
  assume v: "valid_tx tx"
  have "length (get_vout tx) \<le> sum_list (map (\<lambda>out. length (Serialize_CTxOut out)) (get_vout tx))"
    using sum_list_map_le [of "get_vout tx" "\<lambda>_. 1" "\<lambda>out. length (Serialize_CTxOut out)"] by (simp add: sum_list_triv)
  also have "\<dots> \<le> length (tx_body tx)" by (simp add: length_tx_body del: length_tx_parts)
  also have "\<dots> \<le> MAX_SIZE" using v by (simp add: valid_tx_def MAX_SIZE_def)
  finally show ?thesis .
qed

section \<open>Properties\<close>

text \<open>
  C3. Disconnecting a block undoes connecting it. In a database transaction, after \<^verbatim>\<open>ConnectBlock\<close> has
  accepted a block, the index has an entry for each of its transactions, and \<^verbatim>\<open>DisconnectBlock\<close> succeeds and
  gives back the index as it was, less the entries of the hashes of the block, which were fully spent
  before if there were any: no spend of any earlier or later transaction of the block leaves a trace.
\<close>

theorem DisconnectBlock_undoes:
  assumes "ConnectBlock env db pool block chain hashNext False cache = Some ((True, penalty), db1, pindex, cache')"
    and "txdb_ok (ne_ldb (be_node env)) content db" "activeBatch db \<noteq> None" "nulls_ok (txdb_index content db)"
    and "bi_nFile (hd chain) \<noteq> 0xffffffff"
  shows "\<exists>hashes db2. tx_hashes (env_Hash (ne_crypto (be_node env))) (get_vtx block) = Some hashes \<and>
    set hashes \<subseteq> dom (txdb_index content db1) \<and> (\<forall>h \<in> set hashes. fully_spent (txdb_index content db) h) \<and>
    DisconnectBlock env block (pindex # tl chain) db1 = Some (True, db2) \<and>
    txdb_index content db2 = txdb_index content db |` (- set hashes)"
proof -
  obtain nTxPos st cache1 where c: "valid_block env block True True False"
    "connect_txs env db pool chain False (sint (bi_nHeight (hd chain)) \<ge> be_TotalBlocksEstimate env) (get_vtx block)
      \<lparr> bs_mapQueuedChanges = [], bs_nFees = 0, bs_nValueIn = 0, bs_nValueOut = 0, bs_nSigOps = 0, bs_nTxPos = nTxPos,
        bs_checks = [], bs_cache = cache \<rparr> = Some (None, st)"
    "write_block env db chain hashNext False st cache1 = Some ((True, penalty), db1, pindex, cache')"
    using ConnectBlock_TrueE [OF assms(1)] by (metis (full_types))
  let ?st = "\<lparr> bs_mapQueuedChanges = [], bs_nFees = 0, bs_nValueIn = 0, bs_nValueOut = 0, bs_nSigOps = 0, bs_nTxPos = nTxPos,
        bs_checks = [], bs_cache = cache \<rparr>"
  have V: "block_view content db ?st = txdb_index content db" by (simp add: block_view_def)
  obtain hashes where h: "tx_hashes (env_Hash (ne_crypto (be_node env))) (get_vtx block) = Some hashes" "distinct hashes"
    using c(1) by (auto simp: valid_block_def)
  have fs: "\<forall>h \<in> set hashes. fully_spent (txdb_index content db) h"
    using connect_txs_fully_spent [OF c(2) h(1) assms(2)] .
  have "view_ok (block_view content db ?st)" unfolding V using assms(4) txdb.wf_index [OF assms(2)] by (auto simp: view_ok_def)
  moreover have "\<forall>tx \<in> set (get_vtx block). length (get_vout tx) \<le> MAX_SIZE"
    using c(1) valid_tx_outputs by (auto simp: valid_block_def)
  ultimately have u: "map_ok (bs_mapQueuedChanges st)" "view_ok (block_view content db st)"
      "set hashes \<subseteq> dom (block_view content db st)"
      "undoes (be_node env) content (rev (get_vtx block)) (block_view content db st) (txdb_index content db |` (- set hashes))"
    using connect_txs_undoes [OF c(2) h assms(2,5)] fs unfolding V by auto
  have w: "txdb_ok (ne_ldb (be_node env)) content db1" "activeBatch db1 \<noteq> None" "txdb_index content db1 = block_view content db st"
    by (rule write_block_index [OF assms(2,3) u(1,2), of chain hashNext cache1]; use c(3) in simp)+
  obtain db3 where d: "disconnect_txs (be_node env) (rev (get_vtx block)) db1 = Some (True, db3)"
      "txdb_ok (ne_ldb (be_node env)) content db3" "activeBatch db3 \<noteq> None" "txdb_index content db3 = txdb_index content db |` (- set hashes)"
    using u(4) w unfolding undoes_def by blast
  obtain db4 where "WriteBlockIndex env ((new_CDiskBlockIndex (tl chain) 0)\<lparr> dbi_hashNext := 0 \<rparr>) db3 = Some (True, db4)"
      "txdb_index content db4 = txdb_index content db |` (- set hashes)"
    using WriteBlockIndex_index [OF d(2,3)] d(4) by metis
  with d have "\<exists>db2. DisconnectBlock env block (pindex # tl chain) db1 = Some (True, db2) \<and>
      txdb_index content db2 = txdb_index content db |` (- set hashes)"
    by (cases "tl chain = []") (auto simp: DisconnectBlock_def)
  with h(1) u(3) w(3) fs show ?thesis by auto
qed

section \<open>A block\<close>

text \<open>A coin base and a spend, in a block with the next entry of a chain; a hash is the length of what is hashed.\<close>

definition demo_coinbase :: CTransaction where
  "demo_coinbase = \<lparr> get_nVersion = 1, get_nTime = 20,
     get_vin = [\<lparr> get_prevout = COutPoint_null, get_scriptSig = [1, 1], get_nSequence = 0, get_scriptWitness = [] \<rparr>],
     get_vout = [\<lparr> get_nValue = 1010000, get_scriptPubKey = [] \<rparr>], get_nLockTime = 0 \<rparr>"

definition demo_block :: CBlock where
  "demo_block = \<lparr> bh_nVersion = 6, bh_hashPrevBlock = 7, bh_hashMerkleRoot = 64, bh_nTime = 30, bh_nBits = GetCompact mpi_env 256,
     bh_nNonce = 1, get_vtx = [demo_coinbase, spend_tx], get_vchBlockSig = [] \<rparr>"

definition demo_env :: "(bytes \<times> bytes) list block_env" where
  "demo_env = \<lparr> be_node = spend_env\<lparr> ne_crypto := sample_env\<lparr> env_Hash := \<lambda>b. word_of_nat (length b) \<rparr> \<rparr>, be_scrypt = (\<lambda>_. 0),
     be_AdjustedTime = 30, be_nBestHeight = 1, be_TotalBlocksEstimate = 0, be_nScriptCheckThreads = 0, be_fUseFastIndex = False \<rparr>"

definition demo_chain :: chain where
  "demo_chain = [sample_index\<lparr> bi_hashBlock := 0, bi_nHeight := 1 \<rparr>, sample_index]"

lemma demo_env_simps [simp]:
  "ne_ldb (be_node demo_env) = list_db" "ne_files (be_node demo_env) = ne_files spend_env" "ne_diff (be_node demo_env) = main_net"
  "env_Hash (ne_crypto (be_node demo_env)) = (\<lambda>b. word_of_nat (length b))" "be_scrypt demo_env = (\<lambda>_. 0)"
  "be_AdjustedTime demo_env = 30" "be_nBestHeight demo_env = 1" "be_TotalBlocksEstimate demo_env = 0" "be_nScriptCheckThreads demo_env = 0"
  by (simp_all add: demo_env_def spend_env_def)

lemma demo_lengths: "length (tx_body demo_coinbase) = 66" "length (tx_body spend_tx) = 70"
  by (simp_all add: length_tx_body demo_coinbase_def spend_tx_def push_vector_def GetSizeOfCompactSize_def)

lemma valid_demo_txs: "valid_tx demo_coinbase" "valid_tx spend_tx"
proof -
  show "valid_tx demo_coinbase"
    unfolding valid_tx_def demo_lengths by (simp add: demo_coinbase_def IsCoinBase_def COutPoint_IsNull_def COutPoint_null_def)
  show "valid_tx spend_tx" using CheckTransaction_spend CheckTransaction_iff_valid [of spend_tx] by simp
qed

lemma demo_kinds: "IsCoinBase demo_coinbase" "\<not> IsCoinBase spend_tx" "\<not> IsCoinStake spend_tx" "\<not> IsProofOfStake demo_block"
  using spend_side_conditions
  by (simp_all add: IsProofOfStake_def demo_block_def) (simp add: demo_coinbase_def IsCoinBase_def COutPoint_IsNull_def COutPoint_null_def)

lemma demo_work: "CheckProofOfWork main_net 0 (GetCompact mpi_env 256)"
proof -
  have l: "bn_law (de_bn main_net)" using bn_law_mpi_env by (simp add: main_net_def)
  have "\<not> k * 2 ^ 15 \<le> 256" if "1 \<le> k" for k :: int using that by simp
  from this [of "256 ^ (unat (drop_bit 24 (GetCompact mpi_env 256)) - 3)"]
  have "SetCompact mpi_env (GetCompact mpi_env 256) = 256"
    using Set_Get_Compact_truncates [OF bn_law_mpi_env, of 256] by auto
  then show ?thesis unfolding CheckProofOfWork_iff [OF l] limits_value [OF l] by (simp add: main_net_def)
qed

lemma demo_hashes: "tx_hashes (\<lambda>b. word_of_nat (length b)) (get_vtx demo_block) = Some [66, 70]"
  using valid_demo_txs by (simp add: demo_block_def valid_tx_hash demo_lengths)

lemma demo_sigops: "legacy_sigops demo_coinbase \<le> 1320" "legacy_sigops spend_tx \<le> 1400"
  using legacy_sigops_bound [of demo_coinbase] legacy_sigops_bound [of spend_tx] by (simp_all add: demo_lengths)

lemma demo_valid: "valid_block demo_env demo_block True True False"
proof -
  have "length (block_body demo_block) = 218"
    by (simp add: block_body_def demo_block_def length_Serialize_vector GetSizeOfCompactSize_def demo_lengths)
  moreover have "valid_work demo_env demo_block True"
    using demo_work demo_kinds
    by (simp add: valid_work_def demo_block_def CBlockHeader_GetHash_def plain_tx_def demo_coinbase_def spend_tx_def)
  moreover have "merkle_root (\<lambda>b. word_of_nat (length b)) [66, 70] = bh_hashMerkleRoot demo_block"
    by (simp add: merkle_root.simps Hash_pair_def demo_block_def)
  moreover have "(\<Sum>tx \<leftarrow> get_vtx demo_block. legacy_sigops tx) \<le> 20000"
    using demo_sigops by (simp add: demo_block_def)
  moreover have "\<forall>tx \<in> set (get_vtx demo_block). valid_tx tx" "IsCoinBase (get_vtx demo_block ! 0)" "get_vtx demo_block \<noteq> []"
    using valid_demo_txs demo_kinds by (simp_all add: demo_block_def)
  ultimately show ?thesis using demo_kinds(4) demo_hashes by (simp add: valid_block_def)
qed

lemma demo_reads:
  assumes "h \<noteq> 9"
  shows "txdb_index map_of spend_db h = None" "ReadTxIndex list_db h spend_db = Some ReadFalse"
proof -
  show i: "txdb_index map_of spend_db h = None" using assms by (simp add: txdb_index_def view_def spend_db_def)
  show "ReadTxIndex list_db h spend_db = Some ReadFalse"
    using txdb.rd_index [OF spend_db_ok, of h] i by (simp add: spend_env_def)
qed

lemma demo_connect_txs:
  "\<exists>st'. connect_txs demo_env spend_db [] demo_chain False fScriptChecks (get_vtx demo_block)
      \<lparr> bs_mapQueuedChanges = [], bs_nFees = 0, bs_nValueIn = 0, bs_nValueOut = 0, bs_nSigOps = 0, bs_nTxPos = nTxPos,
        bs_checks = [], bs_cache = cache \<rparr> = Some (None, st') \<and> bs_checks st' = [] \<and> bs_nFees st' = 30000"
proof -
  have u: "unat (of_nat (legacy_sigops demo_coinbase) :: 32 word) = legacy_sigops demo_coinbase"
      "unat (of_nat (legacy_sigops demo_coinbase) + of_nat (legacy_sigops spend_tx) :: 32 word) = legacy_sigops demo_coinbase + legacy_sigops spend_tx"
    using demo_sigops unfolding of_nat_add [symmetric] by (simp_all add: unat_of_nat take_bit_eq_mod del: of_nat_add)
  have m: "legacy_sigops demo_coinbase \<le> MAX_BLOCK_SIGOPS" "legacy_sigops demo_coinbase + legacy_sigops spend_tx \<le> MAX_BLOCK_SIGOPS"
    using demo_sigops by (simp_all add: MAX_BLOCK_SIGOPS_def MAX_BLOCK_SIZE_def)
  have h: "CTransaction_GetHash (\<lambda>b. word_of_nat (length b)) demo_coinbase = Some 66" "CTransaction_GetHash (\<lambda>b. word_of_nat (length b)) spend_tx = Some 70"
      "tx_size demo_coinbase = Some 66" "tx_size spend_tx = Some 70"
    using valid_demo_txs by (auto simp: valid_tx_hash demo_lengths tx_size_def CTransaction_Serialize_def valid_tx_def)
  have v: "GetValueOut demo_coinbase = Some 1010000" "GetP2SHSigOpCount spend_tx spend_inputs = Some 0"
    using demo_kinds(2)
    by (simp_all add: GetValueOut_def GetP2SHSigOpCount_def)
       (simp_all add: demo_coinbase_def spend_tx_def MoneyRange_def MAX_MONEY_def COIN_def GetOutputFor_def spend_inputs_def prev_tx_def
         map_find_Cons IsPayToScriptHash_def)
  have f: "FetchInputs (be_node demo_env) spend_db [] spend_tx [(66, x)] True False [] = Some (Inputs spend_inputs)" for x
    by (rule fetch_spend_any) (simp_all add: map_find_Cons)
  show ?thesis
    by (simp add: demo_block_def connect_tx_def connect_spender_def Let_def h v f spend_tx_checks demo_reads overwrites_def GetLegacySigOpCount_sum u m
        demo_kinds connect_spend_any not_less)
qed

lemma demo_nulls: "nulls_ok (txdb_index map_of spend_db)"
  by (auto simp: nulls_ok_def txdb_index_def view_def spend_db_def Unserialize_Serialize_CTxIndex wf_index_def MAX_SIZE_def new_CTxIndex_def
      split: if_splits)

lemma demo_ConnectBlock:
  "\<exists>db1 pindex cache'. ConnectBlock demo_env spend_db [] demo_block demo_chain 0 False empty_cache = Some ((True, 0), db1, pindex, cache')"
proof -
  have ok: "txdb_ok (ne_ldb (be_node demo_env)) map_of spend_db" using spend_db_ok by (simp add: spend_env_def)
  obtain nTxPos where p: "first_tx_pos demo_block (hd demo_chain) = Some nTxPos"
    by (simp add: first_tx_pos_def CBlock_size_def CBlock_Serialize_def CBlock_SetNull_def)
  let ?st = "\<lparr> bs_mapQueuedChanges = [], bs_nFees = 0, bs_nValueIn = 0, bs_nValueOut = 0, bs_nSigOps = 0, bs_nTxPos = nTxPos,
        bs_checks = [], bs_cache = empty_cache \<rparr>"
  obtain st where st: "connect_txs demo_env spend_db [] demo_chain False (sint (bi_nHeight (hd demo_chain)) \<ge> 0) (get_vtx demo_block) ?st = Some (None, st)"
      "bs_checks st = []" "bs_nFees st = 30000" using demo_connect_txs by blast
  have V: "block_view map_of spend_db ?st = txdb_index map_of spend_db" by (simp add: block_view_def)
  have "view_ok (block_view map_of spend_db ?st)" unfolding V using demo_nulls txdb.wf_index [OF ok] by (auto simp: view_ok_def)
  moreover have "\<forall>h \<in> set [66, 70]. fully_spent (block_view map_of spend_db ?st) h" unfolding V by (simp add: fully_spent_def demo_reads)
  moreover have "\<forall>tx \<in> set (get_vtx demo_block). length (get_vout tx) \<le> MAX_SIZE"
    using valid_demo_txs valid_tx_outputs by (simp add: demo_block_def)
  ultimately have "map_ok (bs_mapQueuedChanges st)" "view_ok (block_view map_of spend_db st)"
    using connect_txs_undoes [OF st(1) _ _ ok, of "[66, 70]"] demo_hashes by (simp_all add: demo_chain_def sample_index_def)
  then obtain db' pindex where w: "write_block demo_env spend_db demo_chain 0 False st (bs_cache st) = Some ((True, 0), db', pindex, bs_cache st)"
    by (rule write_block_index [OF ok spend_side_conditions(7)])
  have "CheckBlock demo_env demo_block True True False = Some (True, 0)" using demo_valid CheckBlock_True by blast
  moreover have "GetValueOut (hd (get_vtx demo_block)) = Some 1010000" "\<not> sint (1010000 :: 64 word) > sint (GetProofOfWorkReward 1 30000)"
    by (simp_all add: demo_block_def demo_coinbase_def GetValueOut_def MoneyRange_def MAX_MONEY_def COIN_def GetProofOfWorkReward_def POW_REWARD_BLOCK_def)
  ultimately show ?thesis
    using p st w demo_kinds(4) by (simp add: ConnectBlock_def)
qed

theorem DisconnectBlock_undoes_witness:
  "\<exists>db1 db2 pindex cache'. ConnectBlock demo_env spend_db [] demo_block demo_chain 0 False empty_cache = Some ((True, 0), db1, pindex, cache') \<and>
     {66, 70} \<subseteq> dom (txdb_index map_of db1) \<and>
     DisconnectBlock demo_env demo_block (pindex # tl demo_chain) db1 = Some (True, db2) \<and>
     txdb_index map_of db2 = txdb_index map_of spend_db |` (- {66, 70})"
proof -
  obtain db1 pindex cache' where c: "ConnectBlock demo_env spend_db [] demo_block demo_chain 0 False empty_cache = Some ((True, 0), db1, pindex, cache')"
    using demo_ConnectBlock by blast
  have ok: "txdb_ok (ne_ldb (be_node demo_env)) map_of spend_db" using spend_db_ok by (simp add: spend_env_def)
  from DisconnectBlock_undoes [OF c ok spend_side_conditions(7) demo_nulls] demo_hashes c show ?thesis
    by (simp add: demo_chain_def sample_index_def)
qed

end
