(* ===== verification/Block_Supply.thy ===== *)
theory Block_Supply
  imports Block_Connect
begin

text \<open>
  The money that a block creates: the sums that \<^verbatim>\<open>ConnectBlock\<close> keeps in 64-bit integers are those of the
  numbers, and a proof-of-work block creates at most the subsidy at the height of the best chain that the node
  knows when it connects the block.
\<close>

section \<open>Sums\<close>

definition spent_sum :: "CTransaction \<Rightarrow> MapPrevTx \<Rightarrow> int" where
  "spent_sum tx inputs = (\<Sum>txin \<leftarrow> get_vin tx. spent_value inputs txin)"

definition out_sum :: "CTransaction \<Rightarrow> int" where
  "out_sum tx = (\<Sum>txout \<leftarrow> get_vout tx. sint (get_nValue txout))"

text \<open>What is fetched for a transaction of the block: all that it spends, and at least what it pays.\<close>

definition pays :: "'d node_env \<Rightarrow> 'd CLevelDB \<Rightarrow> (uint256, CTransaction) std_map \<Rightarrow> CTransaction \<Rightarrow> MapPrevTx \<Rightarrow> bool" where
  "pays env db pool tx inputs \<longleftrightarrow>
     (\<exists>m. FetchInputs env db pool tx m True False [] = Some (Inputs inputs)) \<and>
     (\<forall>txin \<in> set (get_vin tx). prevout_in_range inputs (get_prevout txin)) \<and>
     out_sum tx \<le> spent_sum tx inputs \<and> spent_sum tx inputs \<le> MAX_MONEY"

lemma connect_spender_sums:
  assumes "connect_spender env db pool chain fScriptChecks p tx st = Some (None, st')" "\<not> IsCoinBase tx" "\<not> IsCoinStake tx" "valid_tx tx"
  obtains inputs where "pays (be_node env) db pool tx inputs"
    "bs_nFees st' = bs_nFees st + word_of_int (spent_sum tx inputs - out_sum tx)"
    "bs_nValueIn st' = bs_nValueIn st + word_of_int (spent_sum tx inputs)"
    "bs_nValueOut st' = bs_nValueOut st + word_of_int (out_sum tx)"
proof -
  from assms(1) obtain inputs n nIn nOut cn penalty where c:
    "FetchInputs (be_node env) db pool tx (bs_mapQueuedChanges st) True False [] = Some (Inputs inputs)"
    "GetValueIn tx inputs = Some nIn" "GetValueOut tx = Some nOut"
    "ConnectInputs (be_node env) db tx inputs (bs_mapQueuedChanges st) p chain True False fScriptChecks
       (block_flags tx) (if be_nScriptCheckThreads env \<noteq> 0 then Some [] else None) (bs_cache st) = Some ((True, penalty), cn)"
    "st' = st\<lparr> bs_nSigOps := n, bs_nValueIn := bs_nValueIn st + nIn, bs_nValueOut := bs_nValueOut st + nOut,
       bs_nFees := (if IsCoinStake tx then bs_nFees st else bs_nFees st + (nIn - nOut)),
       bs_mapQueuedChanges := cn_mapTestPool cn, bs_cache := cn_cache cn,
       bs_checks := bs_checks st @ (case cn_checks cn of None \<Rightarrow> [] | Some vChecks \<Rightarrow> vChecks) \<rparr>"
    by (rule connect_spenderE)
  from c(4) assms(2) obtain nValueIn where v: "connect_values (be_node env) tx inputs chain (get_vin tx) 0 = Some (Inr nValueIn)"
      "connect_amounts (be_node env) db tx chain nValueIn = Some (True, penalty)"
    by (rule ConnectInputs_TrueE)
  have i: "nIn = nValueIn" using connect_values_value_in [OF v(1)] c(2) assms(2) by (simp add: GetValueIn_def)
  have s: "\<forall>txin \<in> set (get_vin tx). prevout_in_range inputs (get_prevout txin)" "MoneyRange nIn" "sint nIn = spent_sum tx inputs"
    using connect_values_sum [OF v(1)] by (simp_all add: i spent_sum_def)
  have o: "sint nOut = out_sum tx" using CheckTransaction_iff_valid [of tx] assms(4) c(3) by (auto simp: out_sum_def)
  have "sint nOut \<le> sint nIn"
    using v(2) assms(3) c(3) by (auto simp: connect_amounts_def DoS_def i split: if_splits)
  then have "pays (be_node env) db pool tx inputs" using c(1) s o unfolding pays_def by (auto simp: MoneyRange_def)
  moreover have "word_of_int (spent_sum tx inputs) = nIn" "word_of_int (out_sum tx) = nOut"
    unfolding s(3) [symmetric] o [symmetric] by simp_all
  ultimately show ?thesis using assms(3) by (intro that [of inputs]) (simp_all add: c(5))
qed

lemma connect_txs_sums:
  assumes "connect_txs env db pool chain fJustCheck fScriptChecks vtx st = Some (None, st')"
    and "\<forall>tx \<in> set vtx. \<not> IsCoinBase tx \<and> \<not> IsCoinStake tx \<and> valid_tx tx"
  shows "\<exists>inputs. list_all2 (pays (be_node env) db pool) vtx inputs \<and>
    bs_nFees st' = bs_nFees st + word_of_int (sum_list (map2 spent_sum vtx inputs) - (\<Sum>tx \<leftarrow> vtx. out_sum tx)) \<and>
    bs_nValueIn st' = bs_nValueIn st + word_of_int (sum_list (map2 spent_sum vtx inputs)) \<and>
    bs_nValueOut st' = bs_nValueOut st + word_of_int (\<Sum>tx \<leftarrow> vtx. out_sum tx)"
  using assms
proof (induction vtx arbitrary: st)
  case (Cons tx vtx)
  obtain st2 where st2: "connect_tx env db pool chain fJustCheck fScriptChecks tx st = Some (None, st2)"
      "connect_txs env db pool chain fJustCheck fScriptChecks vtx st2 = Some (None, st')"
    using Cons.prems(1) by (auto split: option.splits prod.splits)
  have t: "\<not> IsCoinBase tx" "\<not> IsCoinStake tx" "valid_tx tx" using Cons.prems(2) by auto
  from st2(1) obtain n nSize st1 hash where c:
      "connect_spender env db pool chain fScriptChecks (tx_pos chain st) tx (st\<lparr> bs_nSigOps := n, bs_nTxPos := nSize \<rparr>) = Some (None, st1)"
      "st2 = st1\<lparr> bs_mapQueuedChanges := map_set hash (new_CTxIndex (tx_pos chain st) (length (get_vout tx))) (bs_mapQueuedChanges st1) \<rparr>"
    by (rule connect_txE) (use t(1) in auto)
  obtain i where i: "pays (be_node env) db pool tx i"
      "bs_nFees st2 = bs_nFees st + word_of_int (spent_sum tx i - out_sum tx)"
      "bs_nValueIn st2 = bs_nValueIn st + word_of_int (spent_sum tx i)"
      "bs_nValueOut st2 = bs_nValueOut st + word_of_int (out_sum tx)"
    by (rule connect_spender_sums [OF c(1) t]) (auto simp: c(2))
  from Cons.IH [OF st2(2)] Cons.prems(2) obtain inputs where ih: "list_all2 (pays (be_node env) db pool) vtx inputs"
    "bs_nFees st' = bs_nFees st2 + word_of_int (sum_list (map2 spent_sum vtx inputs) - (\<Sum>tx \<leftarrow> vtx. out_sum tx))"
    "bs_nValueIn st' = bs_nValueIn st2 + word_of_int (sum_list (map2 spent_sum vtx inputs))"
    "bs_nValueOut st' = bs_nValueOut st2 + word_of_int (\<Sum>tx \<leftarrow> vtx. out_sum tx)" by auto
  show ?case
    by (rule exI [of _ "i # inputs"]) (simp add: i ih algebra_simps)
qed simp

lemma pays_bounds:
  assumes "list_all2 (pays env db pool) vtx inputs"
  shows "0 \<le> sum_list (map2 spent_sum vtx inputs) - (\<Sum>tx \<leftarrow> vtx. out_sum tx)"
    "(\<forall>tx \<in> set vtx. valid_tx tx) \<Longrightarrow> sum_list (map2 spent_sum vtx inputs) - (\<Sum>tx \<leftarrow> vtx. out_sum tx) \<le> int (length vtx) * MAX_MONEY"
proof -
  show "0 \<le> sum_list (map2 spent_sum vtx inputs) - (\<Sum>tx \<leftarrow> vtx. out_sum tx)"
    using assms by (induction rule: list_all2_induct) (auto simp: pays_def)
  have o: "0 \<le> out_sum tx" if "valid_tx tx" for tx
    using that unfolding out_sum_def by (intro sum_list_nonneg) (auto simp: valid_tx_def)
  show "(\<forall>tx \<in> set vtx. valid_tx tx) \<Longrightarrow> sum_list (map2 spent_sum vtx inputs) - (\<Sum>tx \<leftarrow> vtx. out_sum tx) \<le> int (length vtx) * MAX_MONEY"
    using assms
  proof (induction rule: list_all2_induct)
    case (Cons tx vtx i inputs)
    then show ?case using o [of tx] by (auto simp: pays_def algebra_simps)
  qed simp
qed

section \<open>The subsidy\<close>

definition subsidy :: "int \<Rightarrow> int" where
  "subsidy nBestHeight = (if nBestHeight = 0 then 860000 * COIN else reward_loop POW_REWARD_BLOCK nBestHeight (10 * COIN))"

lemma reward_loop_mem: "reward_loop data x r \<in> insert r (snd ` set data)"
  by (induction data x r rule: reward_loop.induct) auto

lemma subsidy_bounds: "0 \<le> subsidy h" "subsidy h \<le> 860000 * COIN"
  using reward_loop_mem [of POW_REWARD_BLOCK h "10 * COIN"] by (auto simp: subsidy_def POW_REWARD_BLOCK_def COIN_def)

section \<open>Properties\<close>

text \<open>
  C4. A proof-of-work block that \<^verbatim>\<open>ConnectBlock\<close> accepts creates at most the subsidy at \<^verbatim>\<open>nBestHeight\<close>, the height
  of the best chain of the node at that moment, which is what \<^verbatim>\<open>GetProofOfWorkReward\<close> reads. This is not the height of
  the block: for a block on top of the best chain it is the height of the block before, and for the blocks that a
  reorganisation connects it is the height of the tip that is given up. Every
  transaction after the coin base spends outputs worth at least what it pays; the difference between
  all outputs and all spent outputs of the block, as numbers, is at most that subsidy, and it is what
  the money supply recorded in the index entry grows by.
\<close>

theorem ConnectBlock_supply:
  assumes "ConnectBlock env db pool block chain hashNext False cache = Some ((True, penalty), db1, pindex, cache')" "IsProofOfWork block"
  shows "\<exists>inputs. list_all2 (pays (be_node env) db pool) (tl (get_vtx block)) inputs \<and>
    (let minted = (\<Sum>tx \<leftarrow> get_vtx block. out_sum tx) - sum_list (map2 spent_sum (tl (get_vtx block)) inputs) in
       minted \<le> subsidy (be_nBestHeight env) \<and>
       bi_nMoneySupply pindex = (if tl chain = [] then 0 else bi_nMoneySupply (hd (tl chain))) + word_of_int minted)"
proof -
  obtain nTxPos st cache1 where c: "valid_block env block True True False"
    "connect_txs env db pool chain False (sint (bi_nHeight (hd chain)) \<ge> be_TotalBlocksEstimate env) (get_vtx block)
      \<lparr> bs_mapQueuedChanges = [], bs_nFees = 0, bs_nValueIn = 0, bs_nValueOut = 0, bs_nSigOps = 0, bs_nTxPos = nTxPos,
        bs_checks = [], bs_cache = cache \<rparr> = Some (None, st)"
    "\<exists>nOut. GetValueOut (hd (get_vtx block)) = Some nOut \<and> sint nOut \<le> sint (GetProofOfWorkReward (be_nBestHeight env) (bs_nFees st))"
    "write_block env db chain hashNext False st cache1 = Some ((True, penalty), db1, pindex, cache')"
    using ConnectBlock_TrueE [OF assms(1)] assms(2) by (metis (full_types))
  obtain cb vtx where vtx: "get_vtx block = cb # vtx" using c(1) by (cases "get_vtx block") (auto simp: valid_block_def)
  have t: "IsCoinBase cb" "valid_tx cb" "\<forall>tx \<in> set vtx. \<not> IsCoinBase tx \<and> \<not> IsCoinStake tx \<and> valid_tx tx" "length (get_vtx block) \<le> 1000000"
    using c(1) assms(2) length_vtx_block [of block] by (auto simp: valid_block_def valid_work_def plain_tx_def vtx)
  obtain nOut where o: "GetValueOut cb = Some nOut" "sint nOut = out_sum cb" "sint nOut \<le> sint (GetProofOfWorkReward (be_nBestHeight env) (bs_nFees st))"
    using CheckTransaction_iff_valid [of cb] t(2) c(3) by (auto simp: vtx out_sum_def)
  obtain st1 where st1: "connect_txs env db pool chain False (sint (bi_nHeight (hd chain)) \<ge> be_TotalBlocksEstimate env) vtx st1 = Some (None, st)"
      "bs_nFees st1 = 0" "bs_nValueIn st1 = 0" "bs_nValueOut st1 = nOut"
  proof -
    from c(2) obtain st1 where s: "connect_tx env db pool chain False (sint (bi_nHeight (hd chain)) \<ge> be_TotalBlocksEstimate env) cb
      \<lparr> bs_mapQueuedChanges = [], bs_nFees = 0, bs_nValueIn = 0, bs_nValueOut = 0, bs_nSigOps = 0, bs_nTxPos = nTxPos,
        bs_checks = [], bs_cache = cache \<rparr> = Some (None, st1)"
      "connect_txs env db pool chain False (sint (bi_nHeight (hd chain)) \<ge> be_TotalBlocksEstimate env) vtx st1 = Some (None, st)"
      by (auto simp: vtx split: option.splits prod.splits)
    from s(1) have "bs_nFees st1 = 0" "bs_nValueIn st1 = 0" "bs_nValueOut st1 = nOut"
      by (rule connect_txE, use t(1) o(1) in auto)+
    with s(2) that show ?thesis by blast
  qed
  from connect_txs_sums [OF st1(1) t(3)] obtain inputs where i: "list_all2 (pays (be_node env) db pool) vtx inputs"
    "bs_nFees st = word_of_int (sum_list (map2 spent_sum vtx inputs) - (\<Sum>tx \<leftarrow> vtx. out_sum tx))"
    "bs_nValueIn st = word_of_int (sum_list (map2 spent_sum vtx inputs))"
    "bs_nValueOut st = nOut + word_of_int (\<Sum>tx \<leftarrow> vtx. out_sum tx)" by (auto simp: st1)
  define fees where "fees = sum_list (map2 spent_sum vtx inputs) - (\<Sum>tx \<leftarrow> vtx. out_sum tx)"
  have f: "0 \<le> fees" "fees \<le> 1000000 * MAX_MONEY"
    using pays_bounds [OF i(1)] t(3,4) by (auto simp: fees_def vtx MAX_MONEY_def COIN_def)
  have "GetProofOfWorkReward (be_nBestHeight env) (bs_nFees st) = word_of_int (subsidy (be_nBestHeight env) + fees)"
    by (simp add: GetProofOfWorkReward_def subsidy_def i(2) fees_def Let_def)
  moreover have "sint (word_of_int (subsidy (be_nBestHeight env) + fees) :: 64 word) = subsidy (be_nBestHeight env) + fees"
    using f subsidy_bounds [of "be_nBestHeight env"]
    unfolding sint_sbintrunc' MAX_MONEY_def COIN_def by (intro signed_take_bit_int_eq_self) auto
  ultimately have m: "out_sum cb \<le> subsidy (be_nBestHeight env) + fees" using o by simp
  have "bi_nMoneySupply pindex = (if tl chain = [] then 0 else bi_nMoneySupply (hd (tl chain))) + bs_nValueOut st - bs_nValueIn st"
    using c(4) by (auto simp: write_block_def Let_def split: bind_splits if_splits)
  moreover have "nOut = word_of_int (out_sum cb)" using o(2) [symmetric] by simp
  ultimately have "bi_nMoneySupply pindex = (if tl chain = [] then 0 else bi_nMoneySupply (hd (tl chain))) +
      word_of_int ((\<Sum>tx \<leftarrow> get_vtx block. out_sum tx) - sum_list (map2 spent_sum vtx inputs))"
    by (simp add: i vtx algebra_simps)
  with i(1) m show ?thesis by (intro exI [of _ inputs]) (simp add: Let_def vtx fees_def)
qed

theorem ConnectBlock_supply_witness:
  "\<exists>db1 pindex cache' inputs. ConnectBlock demo_env spend_db [] demo_block demo_chain 0 False empty_cache = Some ((True, 0), db1, pindex, cache') \<and>
     list_all2 (pays (be_node demo_env) spend_db []) [spend_tx] inputs \<and>
     1030000 - sum_list (map2 spent_sum [spend_tx] inputs) \<le> 1000000 \<and>
     bi_nMoneySupply pindex = word_of_int (1030000 - sum_list (map2 spent_sum [spend_tx] inputs))"
proof -
  obtain db1 pindex cache' where c: "ConnectBlock demo_env spend_db [] demo_block demo_chain 0 False empty_cache = Some ((True, 0), db1, pindex, cache')"
    using demo_ConnectBlock by blast
  have "(\<Sum>tx \<leftarrow> get_vtx demo_block. out_sum tx) = 1030000" "tl (get_vtx demo_block) = [spend_tx]"
    by (simp_all add: demo_block_def) (simp add: out_sum_def demo_coinbase_def spend_tx_def)
  moreover have "subsidy (be_nBestHeight demo_env) = 1000000" by (simp add: subsidy_def POW_REWARD_BLOCK_def COIN_def)
  moreover have "bi_nMoneySupply (hd (tl demo_chain)) = 0" by (simp add: demo_chain_def sample_index_def)
  ultimately show ?thesis
    using ConnectBlock_supply [OF c demo_kinds(4)] c by (auto simp: Let_def)
qed

end
