(* ===== verification/Block_Tree.thy ===== *)
theory Block_Tree
  imports Difficulty Std_Map
begin

text \<open>
  The tree of blocks in memory: the entries of \<^verbatim>\<open>mapBlockIndex\<close> with their links (\<^verbatim>\<open>CBlockIndex\<close> of
  \<^verbatim>\<open>src/src/block/block.h\<close>), the trust of a block (\<^verbatim>\<open>GetBlockTrust\<close> of \<^verbatim>\<open>src/src/block/block.cpp\<close>), the search
  for the fork of two branches and the change of the links (\<^verbatim>\<open>Reorganize\<close> of
  \<^verbatim>\<open>src/src/block/block_check.cpp\<close>), and block locators (\<^verbatim>\<open>src/src/block/block_locator.cpp\<close>).
  \<open>None\<close> is the use of a null pointer.
\<close>

section \<open>The tree\<close>

text \<open>An entry of \<^verbatim>\<open>mapBlockIndex\<close>. A pointer to an entry is its hash, so that changes are seen everywhere.\<close>

record block_node =
  bn_index :: CBlockIndex
  bn_pprev :: "uint256 option"
  bn_pnext :: "uint256 option"

type_synonym block_map = "(uint256, block_node) std_map"

text \<open>
  The blocks from a block back to the genesis block. The number of entries bounds the length, as the
  heights along \<^verbatim>\<open>pprev\<close> decrease.
\<close>

fun walk_back :: "block_map \<Rightarrow> nat \<Rightarrow> uint256 option \<Rightarrow> chain" where
  "walk_back m 0 p = []"
| "walk_back m (Suc n) None = []"
| "walk_back m (Suc n) (Some h) =
     (case map_find h m of None \<Rightarrow> [] | Some node \<Rightarrow> bn_index node # walk_back m n (bn_pprev node))"

definition chain_at :: "block_map \<Rightarrow> uint256 option \<Rightarrow> chain" where
  "chain_at m p = walk_back m (length m) p"

abbreviation hashes :: "chain \<Rightarrow> uint256 list" where "hashes c \<equiv> map bi_hashBlock c"

abbreviation branch :: "block_map \<Rightarrow> uint256 option \<Rightarrow> uint256 list" where "branch m p \<equiv> hashes (chain_at m p)"

definition set_node :: "uint256 \<Rightarrow> (block_node \<Rightarrow> block_node) \<Rightarrow> block_map \<Rightarrow> block_map" where
  "set_node h f m = (case map_find h m of None \<Rightarrow> m | Some node \<Rightarrow> map_set h (f node) m)"

definition pprev_of :: "uint256 \<Rightarrow> block_map \<Rightarrow> uint256 option" where
  "pprev_of h m = Option.bind (map_find h m) bn_pprev"

definition pnext_of :: "uint256 \<Rightarrow> block_map \<Rightarrow> uint256 option" where
  "pnext_of h m = Option.bind (map_find h m) bn_pnext"

definition IsInMainChain :: "uint256 \<Rightarrow> uint256 option \<Rightarrow> block_map \<Rightarrow> bool" where
  "IsInMainChain h pindexBest m \<longleftrightarrow> pnext_of h m \<noteq> None \<or> Some h = pindexBest"

section \<open>Trust\<close>

definition nPoWBase :: uint256 where
  "nPoWBase = 0x00000000ffff0000000000000000000000000000000000000000000000000000"

text \<open>The loop over the last 12 blocks; \<open>None\<close> where the chain ends before.\<close>

fun count_kind :: "(CBlockIndex \<Rightarrow> bool) \<Rightarrow> int \<Rightarrow> chain \<Rightarrow> nat \<Rightarrow> nat option" where
  "count_kind P nHeight [] n = None"
| "count_kind P nHeight (currentIndex # chain) n =
     (if nHeight - sint (bi_nHeight currentIndex) < 12 then count_kind P nHeight chain (if P currentIndex then n + 1 else n)
      else Some n)"

definition stake_trust :: "bn_env \<Rightarrow> int \<Rightarrow> chain \<Rightarrow> uint256 option" where
  "stake_trust bn bnTarget prevs =
     (let bnNewTrust = 2 ^ 256 div (bnTarget + 1) in
      if bi_IsProofOfStake (hd prevs) then Some (getuint256 bn (bnNewTrust div 3))
      else map_option (\<lambda>nPoWCount. if nPoWCount < 3 then getuint256 bn (bnNewTrust div 3) else getuint256 bn bnNewTrust)
        (count_kind (\<lambda>p. \<not> bi_IsProofOfStake p) (sint (bi_nHeight (hd prevs))) prevs 0))"

definition work_trust :: "bn_env \<Rightarrow> int \<Rightarrow> chain \<Rightarrow> uint256 option" where
  "work_trust bn bnTarget prevs =
     (case prevs of
        pprev # pprev2 # _ \<Rightarrow>
          (let
             bnPoWTrust = setuint256 bn nPoWBase div (bnTarget + 1);
             bnPoWTrust = (if bnPoWTrust < 1 then 1 else bnPoWTrust);
             bnLastBlockTrust = setuint256 bn (bi_nChainTrust pprev - bi_nChainTrust pprev2);
             twothirds = getuint256 bn (bnPoWTrust + 2 * bnLastBlockTrust div 3)
           in
           if \<not> (bi_IsProofOfStake pprev \<and> bi_IsProofOfStake pprev2) then Some twothirds
           else map_option (\<lambda>nPoSCount.
               if nPoSCount < 7 then twothirds
               else let bnTarget = SetCompact bn (bi_nBits pprev) in
                 if bnTarget \<le> 0 then 0 else getuint256 bn (bnPoWTrust + 2 ^ 256 div (bnTarget + 1)))
             (count_kind bi_IsProofOfStake (sint (bi_nHeight pprev)) prevs 0))
      | _ \<Rightarrow> None)"

definition GetBlockTrust :: "bn_env \<Rightarrow> chain \<Rightarrow> uint256 option" where
  "GetBlockTrust bn chain =
     (let bnTarget = SetCompact bn (bi_nBits (hd chain)); prevs = tl chain in
      if bnTarget \<le> 0 then Some 0
      else if prevs = [] \<or> sint (bi_nHeight (hd prevs)) < 12 then Some 1
      else if bi_IsProofOfStake (hd chain) then stake_trust bn bnTarget prevs
      else work_trust bn bnTarget prevs)"

section \<open>The fork of two branches\<close>

text \<open>The search for the fork; \<open>None\<close> is the result false. The pointers are the chains behind them.\<close>

definition same_block :: "chain \<Rightarrow> chain \<Rightarrow> bool" where
  "same_block c d \<longleftrightarrow> hashes (take 1 c) = hashes (take 1 d)"

fun skip_higher :: "int \<Rightarrow> chain \<Rightarrow> chain" where
  "skip_higher nHeight [] = []"
| "skip_higher nHeight (plonger # chain) = (if sint (bi_nHeight plonger) > nHeight then skip_higher nHeight chain else plonger # chain)"

fun find_fork :: "chain \<Rightarrow> chain \<Rightarrow> chain option" where
  "find_fork [] plonger = None"
| "find_fork (p # pfork) plonger =
     (if same_block (p # pfork) plonger then Some (p # pfork)
      else let plonger = skip_higher (sint (bi_nHeight p)) plonger in
        if plonger = [] then None
        else if same_block (p # pfork) plonger then Some (p # pfork)
        else find_fork pfork plonger)"

text \<open>The list of what to disconnect or connect.\<close>

definition path_to :: "chain \<Rightarrow> chain \<Rightarrow> uint256 list" where
  "path_to pfork chain = takeWhile (\<lambda>h. h \<noteq> bi_hashBlock (hd pfork)) (hashes chain)"

definition set_pnext :: "uint256 option \<Rightarrow> uint256 option \<Rightarrow> block_map \<Rightarrow> block_map" where
  "set_pnext p next m = (case p of None \<Rightarrow> m | Some h \<Rightarrow> set_node h (\<lambda>node. node\<lparr> bn_pnext := next \<rparr>) m)"

definition relink :: "uint256 list \<Rightarrow> uint256 list \<Rightarrow> block_map \<Rightarrow> block_map" where
  "relink vDisconnect vConnect m =
     fold (\<lambda>pindex m. set_pnext (pprev_of pindex m) (Some pindex) m) vConnect
       (fold (\<lambda>pindex m. set_pnext (pprev_of pindex m) None m) vDisconnect m)"

section \<open>Locators\<close>

text \<open>\<^verbatim>\<open>Set\<close>: ten single steps back, then steps that double, and the hash of the genesis block.\<close>

fun locator_from :: "chain \<Rightarrow> nat \<Rightarrow> nat \<Rightarrow> uint256 list" where
  "locator_from [] nStep n = []"
| "locator_from (pindex # chain) nStep n =
     bi_hashBlock pindex # locator_from (drop (nStep - 1) chain) (if n + 1 > 10 then nStep * 2 else nStep) (n + 1)"

definition CBlockLocator_Set :: "uint256 \<Rightarrow> chain \<Rightarrow> uint256 list" where
  "CBlockLocator_Set hashGenesisBlock chain = locator_from chain 1 0 @ [hashGenesisBlock]"

text \<open>The first block of the list that is in the main chain.\<close>

fun find_main :: "uint256 option \<Rightarrow> block_map \<Rightarrow> uint256 list \<Rightarrow> uint256 option" where
  "find_main pindexBest m [] = None"
| "find_main pindexBest m (hash # vHave) =
     (if map_find hash m \<noteq> None \<and> IsInMainChain hash pindexBest m then Some hash else find_main pindexBest m vHave)"

definition CBlockLocator_GetBlockIndex :: "uint256 option \<Rightarrow> uint256 option \<Rightarrow> block_map \<Rightarrow> uint256 list \<Rightarrow> uint256 option" where
  "CBlockLocator_GetBlockIndex pindexGenesisBlock pindexBest m vHave =
     (case find_main pindexBest m vHave of Some h \<Rightarrow> Some h | None \<Rightarrow> pindexGenesisBlock)"

definition CBlockLocator_GetBlockHash :: "uint256 \<Rightarrow> uint256 option \<Rightarrow> block_map \<Rightarrow> uint256 list \<Rightarrow> uint256" where
  "CBlockLocator_GetBlockHash hashGenesisBlock pindexBest m vHave =
     (case find_main pindexBest m vHave of Some h \<Rightarrow> h | None \<Rightarrow> hashGenesisBlock)"

definition CBlockLocator_GetHeight :: "uint256 option \<Rightarrow> uint256 option \<Rightarrow> block_map \<Rightarrow> uint256 list \<Rightarrow> int" where
  "CBlockLocator_GetHeight pindexGenesisBlock pindexBest m vHave =
     (case Option.bind (CBlockLocator_GetBlockIndex pindexGenesisBlock pindexBest m vHave) (\<lambda>h. map_find h m) of
        None \<Rightarrow> 0
      | Some node \<Rightarrow> sint (bi_nHeight (bn_index node)))"

text \<open>The distance, as far as it fits into 31 bits; \<open>None\<close> is the overflow.\<close>

fun distance_back :: "uint256 option \<Rightarrow> block_map \<Rightarrow> uint256 list \<Rightarrow> int \<Rightarrow> int \<Rightarrow> int option" where
  "distance_back pindexBest m [] nDistance nStep = Some nDistance"
| "distance_back pindexBest m (hash # vHave) nDistance nStep =
     (if map_find hash m \<noteq> None \<and> IsInMainChain hash pindexBest m then Some nDistance
      else let nDistance = nDistance + nStep; nStep = (if nDistance > 10 then nStep * 2 else nStep) in
        if nDistance \<ge> 2 ^ 31 \<or> nStep \<ge> 2 ^ 31 then None else distance_back pindexBest m vHave nDistance nStep)"

definition GetDistanceBack :: "uint256 option \<Rightarrow> block_map \<Rightarrow> uint256 list \<Rightarrow> int option" where
  "GetDistanceBack pindexBest m vHave = distance_back pindexBest m vHave 0 1"

section \<open>Well-formed trees\<close>

definition bn_height :: "block_node \<Rightarrow> int" where
  "bn_height node = sint (bi_nHeight (bn_index node))"

text \<open>
  The invariant of the tree: an entry stands under its hash, the previous block is an entry of the map one
  below it, and only blocks of height zero have none.
\<close>

definition node_ok :: "block_map \<Rightarrow> uint256 \<Rightarrow> block_node \<Rightarrow> bool" where
  "node_ok m h node \<longleftrightarrow> bi_hashBlock (bn_index node) = h \<and> bn_height node \<ge> 0 \<and>
     (case bn_pprev node of
        None \<Rightarrow> bn_height node = 0
      | Some p \<Rightarrow> (case map_find p m of None \<Rightarrow> False | Some prev \<Rightarrow> bn_height node = bn_height prev + 1))"

definition tree_ok :: "block_map \<Rightarrow> bool" where
  "tree_ok m \<longleftrightarrow> map_ok m \<and> list_all (\<lambda>(h, node). node_ok m h node) m"

lemma tree_okD: "tree_ok m \<Longrightarrow> map_find h m = Some node \<Longrightarrow> node_ok m h node"
  by (auto simp: tree_ok_def list_all_iff map_find_eq_Some)

lemma tree_ok_map: "tree_ok m \<Longrightarrow> map_ok m"
  by (simp add: tree_ok_def)

lemma tree_okI: "map_ok m \<Longrightarrow> (\<And>h node. map_find h m = Some node \<Longrightarrow> node_ok m h node) \<Longrightarrow> tree_ok m"
  by (auto simp: tree_ok_def list_all_iff map_find_eq_Some)

lemma tree_node:
  assumes "tree_ok m" "map_find h m = Some node"
  shows "bi_hashBlock (bn_index node) = h" "bn_height node \<ge> 0" "bn_pprev node = None \<longleftrightarrow> bn_height node = 0"
    "bn_pprev node = Some p \<Longrightarrow> \<exists>prev. map_find p m = Some prev \<and> bn_height node = bn_height prev + 1"
proof -
  have ok: "node_ok m h node" using assms by (rule tree_okD)
  then show "bi_hashBlock (bn_index node) = h" "bn_height node \<ge> 0" by (simp_all add: node_ok_def)
  show prev: "\<exists>prev. map_find p m = Some prev \<and> bn_height node = bn_height prev + 1" if "bn_pprev node = Some p" for p
    using ok that by (auto simp: node_ok_def split: option.splits)
  have "bn_height prev \<ge> 0" if "map_find p m = Some prev" for p prev
    using tree_okD [OF assms(1) that] by (simp add: node_ok_def)
  then show "bn_pprev node = None \<longleftrightarrow> bn_height node = 0"
    using ok prev by (cases "bn_pprev node") (fastforce simp: node_ok_def)+
qed

lemma walk_back_None [simp]: "walk_back m n None = []"
  by (cases n) simp_all

lemma walk_back_fuel:
  assumes "tree_ok m"
  shows "map_find h m = Some node \<Longrightarrow> nat (bn_height node) < n \<Longrightarrow>
    walk_back m n (Some h) = walk_back m (Suc (nat (bn_height node))) (Some h)"
proof (induction n arbitrary: h node)
  case (Suc n)
  show ?case
  proof (cases "bn_pprev node")
    case None
    with Suc.prems show ?thesis by simp
  next
    case (Some p)
    from tree_node(4) [OF assms Suc.prems(1) Some] obtain prev
      where p: "map_find p m = Some prev" "bn_height node = bn_height prev + 1" by blast
    have "nat (bn_height node) = Suc (nat (bn_height prev))" using tree_node(2) [OF assms p(1)] p(2) by simp
    with Suc.IH [OF p(1)] Suc.prems Some show ?thesis by simp
  qed
qed simp

lemma walk_back_facts:
  assumes "tree_ok m"
  shows "map_find h m = Some node \<Longrightarrow> bn_height node = int k \<Longrightarrow>
    map (\<lambda>x. sint (bi_nHeight x)) (walk_back m (Suc k) (Some h)) = rev (map int [0..<Suc k]) \<and>
    (\<forall>x \<in> set (walk_back m (Suc k) (Some h)). map_option bn_index (map_find (bi_hashBlock x) m) = Some x)"
proof (induction k arbitrary: h node)
  case 0
  then have "bn_pprev node = None" using tree_node(3) [OF assms 0(1)] by simp
  with 0 tree_node(1) [OF assms 0(1)] show ?case by (simp add: bn_height_def)
next
  case (Suc k)
  then obtain p where Some: "bn_pprev node = Some p" using tree_node(3) [OF assms Suc.prems(1)] by (cases "bn_pprev node") auto
  from tree_node(4) [OF assms Suc.prems(1) Some] obtain prev
    where p: "map_find p m = Some prev" "bn_height node = bn_height prev + 1" by blast
  from Suc.IH [OF p(1)] p(2) Suc.prems Some tree_node(1) [OF assms Suc.prems(1)] show ?case by (simp add: bn_height_def)
qed

text \<open>A chain: the heights count down to zero, and the entries are those of the map.\<close>

definition chain_ok :: "block_map \<Rightarrow> chain \<Rightarrow> bool" where
  "chain_ok m c \<longleftrightarrow> map (\<lambda>x. sint (bi_nHeight x)) c = rev (map int [0..<length c]) \<and>
     (\<forall>x \<in> set c. map_option bn_index (map_find (bi_hashBlock x) m) = Some x)"

lemma chain_ok_distinct:
  assumes "chain_ok m c"
  shows "distinct (hashes c)"
proof -
  have "map (\<lambda>x. sint (bi_nHeight x)) c = map (\<lambda>h. bn_height (the (map_find h m))) (hashes c)"
    unfolding map_map using assms by (intro map_cong) (auto simp: chain_ok_def bn_height_def)
  moreover have "distinct (map (\<lambda>x. sint (bi_nHeight x)) c)"
    using assms by (simp add: chain_ok_def distinct_map)
  ultimately show ?thesis by (simp only: distinct_map [of _ "hashes c"])
qed

lemma chain_ok_length:
  assumes "chain_ok m c"
  shows "length c \<le> length m"
proof -
  have "set (hashes c) \<subseteq> fst ` set m"
    using assms by (force simp: chain_ok_def map_find_def dest: map_of_SomeD)
  then have "card (set (hashes c)) \<le> card (fst ` set m)" by (intro card_mono) auto
  also have "\<dots> \<le> length m" by (rule order_trans [OF card_image_le]) (auto simp: card_length)
  finally show ?thesis using distinct_card [OF chain_ok_distinct [OF assms]] by simp
qed

lemma chain_at_walk:
  assumes "tree_ok m" "map_find h m = Some node"
  shows "chain_at m (Some h) = walk_back m (Suc (nat (bn_height node))) (Some h)" "chain_ok m (chain_at m (Some h))"
    "length (chain_at m (Some h)) = Suc (nat (bn_height node))"
proof -
  define k where k: "k = nat (bn_height node)"
  have hk: "bn_height node = int k" using tree_node(2) [OF assms] k by simp
  note facts = walk_back_facts [OF assms(1,2) hk]
  have len: "length (walk_back m (Suc k) (Some h)) = Suc k"
    using arg_cong [OF conjunct1 [OF facts], of length] by simp
  have ok: "chain_ok m (walk_back m (Suc k) (Some h))" unfolding chain_ok_def len using facts by blast
  from chain_ok_length [OF ok] len have "k < length m" by simp
  then show *: "chain_at m (Some h) = walk_back m (Suc (nat (bn_height node))) (Some h)"
    unfolding chain_at_def k by (rule walk_back_fuel [OF assms])
  show "chain_ok m (chain_at m (Some h))" "length (chain_at m (Some h)) = Suc (nat (bn_height node))"
    unfolding * using ok len k by simp_all
qed

lemma chain_at_None [simp]: "chain_at m None = []"
  by (simp add: chain_at_def)

lemma chain_at_missing: "map_find h m = None \<Longrightarrow> chain_at m (Some h) = []"
  by (cases "length m") (simp_all add: chain_at_def)

lemma chain_at_step:
  assumes "tree_ok m" "map_find h m = Some node"
  shows "chain_at m (Some h) = bn_index node # chain_at m (bn_pprev node)"
proof (cases "bn_pprev node")
  case None
  then show ?thesis using chain_at_walk(1) [OF assms] assms(2) by simp
next
  case (Some p)
  from tree_node(4) [OF assms Some] obtain prev
    where p: "map_find p m = Some prev" "bn_height node = bn_height prev + 1" by blast
  have "nat (bn_height node) = Suc (nat (bn_height prev))" using tree_node(2) [OF assms(1) p(1)] p(2) by simp
  then show ?thesis using chain_at_walk(1) [OF assms] chain_at_walk(1) [OF assms(1) p(1)] assms(2) Some by simp
qed

lemma chain_at_ok: "tree_ok m \<Longrightarrow> chain_ok m (chain_at m p)"
  by (cases p; cases "map_find (the p) m") (auto simp: chain_at_missing intro: chain_at_walk(2) simp: chain_ok_def [of m "[]"])

lemma chain_at_suffix:
  assumes "tree_ok m"
  shows "chain_at m p = xs @ x # ys \<Longrightarrow> chain_at m (Some (bi_hashBlock x)) = x # ys"
proof (induction xs arbitrary: p)
  case Nil
  then obtain h node where h: "p = Some h" "map_find h m = Some node"
    by (cases p; cases "map_find (the p) m") (auto simp: chain_at_missing)
  with chain_at_step [OF assms h(2)] tree_node(1) [OF assms h(2)] Nil show ?case by simp
next
  case (Cons y xs)
  then obtain h node where h: "p = Some h" "map_find h m = Some node"
    by (cases p; cases "map_find (the p) m") (auto simp: chain_at_missing)
  with chain_at_step [OF assms h(2)] Cons show ?case by auto
qed

lemma chain_ok_nth:
  assumes "chain_ok m c" "i < length c"
  shows "sint (bi_nHeight (c ! i)) = int (length c) - 1 - int i"
proof -
  have "sint (bi_nHeight (c ! i)) = map (\<lambda>x. sint (bi_nHeight x)) c ! i" using assms(2) by simp
  also have "\<dots> = rev (map int [0..<length c]) ! i" using assms(1) by (simp add: chain_ok_def)
  finally show ?thesis using assms(2) by (simp add: rev_nth)
qed

lemma chain_ok_unique:
  assumes "chain_ok m c" "x \<in> set c" "y \<in> set c" "bi_nHeight x = bi_nHeight y"
  shows "x = y"
proof -
  have "distinct (map (\<lambda>x. sint (bi_nHeight x)) c)" using assms(1) by (simp add: chain_ok_def distinct_map)
  then have "inj_on (\<lambda>x. sint (bi_nHeight x)) (set c)" by (simp add: distinct_map)
  from inj_onD [OF this] assms(2-4) show ?thesis by simp
qed

lemma chain_ok_find:
  assumes "chain_ok m c" "i < length c"
  shows "find (\<lambda>x. sint (bi_nHeight x) = int (length c) - 1 - int i) c = Some (c ! i)"
  using assms chain_ok_nth [OF assms(1)] by (intro find_Some_iff [THEN iffD2] exI [of _ i]) auto

section \<open>The fork is the last common block\<close>

lemma chain_ok_Cons: "chain_ok m (x # c) \<longleftrightarrow>
    sint (bi_nHeight x) = int (length c) \<and> map_option bn_index (map_find (bi_hashBlock x) m) = Some x \<and> chain_ok m c"
  by (auto simp: chain_ok_def)

lemma chain_ok_append: "chain_ok m (xs @ c) \<Longrightarrow> chain_ok m c"
  by (induction xs) (auto simp: chain_ok_Cons)

lemma chain_ok_heights: "chain_ok m (xs @ c) \<Longrightarrow> x \<in> set xs \<Longrightarrow> sint (bi_nHeight x) \<ge> int (length c)"
  by (induction xs) (auto simp: chain_ok_Cons)

lemma chain_ok_below: "chain_ok m c \<Longrightarrow> x \<in> set c \<Longrightarrow> sint (bi_nHeight x) < int (length c)"
  by (induction c) (auto simp: chain_ok_Cons)

lemma chain_ok_same: "chain_ok m c \<Longrightarrow> chain_ok m d \<Longrightarrow> x \<in> set c \<Longrightarrow> y \<in> set d \<Longrightarrow> bi_hashBlock x = bi_hashBlock y \<Longrightarrow> x = y"
  unfolding chain_ok_def by (metis option.inject)

text \<open>A part of the tree that is closed under the previous block.\<close>

definition tree_chain :: "block_map \<Rightarrow> chain \<Rightarrow> bool" where
  "tree_chain m c \<longleftrightarrow> chain_ok m c \<and> c \<noteq> [] \<and> chain_at m (Some (bi_hashBlock (hd c))) = c"

lemma tree_chain_suffix: "tree_ok m \<Longrightarrow> tree_chain m (xs @ c) \<Longrightarrow> c \<noteq> [] \<Longrightarrow> tree_chain m c"
  unfolding tree_chain_def by (cases c) (auto intro: chain_ok_append chain_at_suffix)

lemma tree_chain_at: "tree_ok m \<Longrightarrow> map_find h m = Some node \<Longrightarrow> tree_chain m (chain_at m (Some h))"
  unfolding tree_chain_def using chain_at_walk [of m h node] chain_at_step [of m h node] tree_node(1) [of m h node] by auto

lemma skip_higher_drop: "chain_ok m c \<Longrightarrow> skip_higher (int n) c = drop (length c - Suc n) c"
proof (induction c)
  case (Cons x c)
  have IH: "skip_higher (int n) c = drop (length c - Suc n) c" using Cons by (simp add: chain_ok_Cons)
  have h: "sint (bi_nHeight x) = int (length c)" using Cons.prems by (simp add: chain_ok_Cons)
  show ?case
  proof (cases "length c > n")
    case True
    then have "length (x # c) - Suc n = Suc (length c - Suc n)" by simp
    with True IH h show ?thesis by simp
  qed (simp add: h)
qed simp

text \<open>The walk back from a block to the height of another one tells whether it is an ancestor.\<close>

lemma ancestor_at:
  assumes "tree_ok m" "map_find a m = Some node" "map_find h m = Some node'" "bn_height node \<le> bn_height node'"
  obtains x c where "skip_higher (bn_height node) (chain_at m (Some h)) = x # c" "sint (bi_nHeight x) = bn_height node"
    "bi_hashBlock x = a \<longleftrightarrow> a \<in> set (branch m (Some h))" "x \<in> set (chain_at m (Some h))"
proof -
  let ?c = "chain_at m (Some h)"
  note ok = chain_at_walk(2) [OF assms(1,3)]
  have len: "int (length ?c) = bn_height node' + 1" using chain_at_walk(3) [OF assms(1,3)] tree_node(2) [OF assms(1,3)] by simp
  define i where "i = nat (bn_height node' - bn_height node)"
  have i: "i < length ?c" "int (length ?c) - 1 - int i = bn_height node" using len assms(4) tree_node(2) [OF assms(1,2)] by (auto simp: i_def)
  then have i_drop: "length ?c - Suc (nat (bn_height node)) = i" using len tree_node(2) [OF assms(1,2)] by simp
  have "skip_higher (bn_height node) ?c = ?c ! i # drop (Suc i) ?c"
    using skip_higher_drop [OF ok, of "nat (bn_height node)"] i tree_node(2) [OF assms(1,2)] by (simp add: Cons_nth_drop_Suc i_drop)
  moreover have h: "sint (bi_nHeight (?c ! i)) = bn_height node" using chain_ok_nth [OF ok i(1)] i(2) by simp
  moreover have "bi_hashBlock (?c ! i) = a" if "a \<in> set (hashes ?c)"
  proof -
    from that obtain x where x: "x \<in> set ?c" "bi_hashBlock x = a" by auto
    then have "bn_index node = x" using ok assms(2) by (auto simp: chain_ok_def)
    then have "sint (bi_nHeight x) = sint (bi_nHeight (?c ! i))" using h by (simp add: bn_height_def)
    then have "bi_nHeight x = bi_nHeight (?c ! i)" by (rule signed_word_eqI)
    then have "x = ?c ! i" using x(1) i(1) by (intro chain_ok_unique [OF ok]) simp_all
    with x show ?thesis by simp
  qed
  moreover have "bi_hashBlock (?c ! i) \<in> set (hashes ?c)" using i(1) by simp
  ultimately show ?thesis using that [of "?c ! i" "drop (Suc i) ?c"] nth_mem [OF i(1)] by metis
qed

lemma same_block_eq: "tree_chain m c \<Longrightarrow> tree_chain m d \<Longrightarrow> same_block c d \<longleftrightarrow> c = d"
proof -
  assume c: "tree_chain m c" and d: "tree_chain m d"
  then have "same_block c d \<longleftrightarrow> bi_hashBlock (hd c) = bi_hashBlock (hd d)"
    unfolding tree_chain_def same_block_def by (cases c; cases d) simp_all
  also have "\<dots> \<longleftrightarrow> c = d" using c d unfolding tree_chain_def by metis
  finally show ?thesis .
qed

lemma find_fork_spec:
  assumes "tree_ok m"
  shows "tree_chain m c \<Longrightarrow> tree_chain m d \<Longrightarrow> last c = last d \<Longrightarrow>
    \<exists>pfork xs ys. find_fork c d = Some pfork \<and> pfork \<noteq> [] \<and> c = xs @ pfork \<and> d = ys @ pfork \<and> set (hashes xs) \<inter> set (hashes ys) = {}"
proof (induction c arbitrary: d)
  case Nil
  then show ?case by (simp add: tree_chain_def)
next
  case (Cons p pf)
  define d' where d': "d' = skip_higher (sint (bi_nHeight p)) d"
  have ok: "chain_ok m (p # pf)" "chain_ok m d" "d \<noteq> []" using Cons.prems by (simp_all add: tree_chain_def)
  have hp: "sint (bi_nHeight p) = int (length pf)" using ok(1) by (simp add: chain_ok_Cons)
  have d'_drop: "d' = drop (length d - Suc (length pf)) d" unfolding d' hp by (rule skip_higher_drop [OF ok(2)])
  then obtain zs where zs: "d = zs @ d'" by (metis append_take_drop_id)
  have ne: "d' \<noteq> []" using d'_drop ok(3) by (cases d) auto
  have td': "tree_chain m d'" using tree_chain_suffix [OF assms] Cons.prems(2) ne zs by blast
  have eq: "find_fork (p # pf) d = (if p # pf = d then Some (p # pf) else if p # pf = d' then Some (p # pf) else find_fork pf d')"
    using same_block_eq [OF Cons.prems(1,2)] same_block_eq [OF Cons.prems(1) td'] ne by (simp add: d' [symmetric] Let_def)
  show ?case
  proof (cases "p # pf = d \<or> p # pf = d'")
    case True
    then have "find_fork (p # pf) d = Some (p # pf)" unfolding eq by auto
    moreover from True obtain ys where "d = ys @ p # pf" using zs by (metis append_Nil)
    ultimately show ?thesis by (intro exI [of _ "p # pf"] exI [of _ "[]"] exI [of _ ys]) simp
  next
    case False
    have len: "length d' \<le> Suc (length pf)" unfolding d'_drop by simp
    have last: "last (p # pf) = last d'" using Cons.prems(3) zs ne by simp
    have pf: "pf \<noteq> []"
    proof
      assume "pf = []"
      then have "d' = [p]" using len ne last by (cases d') auto
      with False \<open>pf = []\<close> show False by simp
    qed
    have tpf: "tree_chain m pf" using tree_chain_suffix [OF assms, of "[p]" pf] Cons.prems(1) pf by simp
    from Cons.IH [OF tpf td'] last pf obtain f xs ys where IH: "find_fork pf d' = Some f" "f \<noteq> []" "pf = xs @ f" "d' = ys @ f"
        "set (hashes xs) \<inter> set (hashes ys) = {}" by auto
    have okd': "chain_ok m (zs @ d')" using ok(2) zs by simp
    have zs_high: "sint (bi_nHeight z) > int (length pf)" if "z \<in> set zs" for z
    proof -
      have "length d' = min (length d) (Suc (length pf))" unfolding d'_drop by simp
      moreover have "zs \<noteq> []" using that by auto
      ultimately have "length d' = Suc (length pf)" using zs by (cases zs) (auto simp: min_def split: if_splits)
      then show ?thesis using chain_ok_heights [OF okd' that] by simp
    qed
    have low: "sint (bi_nHeight x) \<le> int (length pf)" if "x \<in> set (p # pf)" for x
      using chain_ok_below [OF ok(1) that] by simp
    have "bi_hashBlock x \<noteq> bi_hashBlock z" if "x \<in> set (p # pf)" "z \<in> set zs" for x z
      using chain_ok_same [OF ok(1,2) that(1), of z] that zs low [OF that(1)] zs_high [OF that(2)] by auto
    moreover have "bi_hashBlock p \<noteq> bi_hashBlock y" if "y \<in> set ys" for y
    proof
      assume "bi_hashBlock p = bi_hashBlock y"
      then have py: "p = y" using chain_ok_same [OF ok(1,2), of p y] that zs IH(4) by auto
      obtain y0 yr where d'c: "d' = y0 # yr" using ne by (cases d') auto
      have "y0 = p"
      proof (rule ccontr)
        assume "y0 \<noteq> p"
        then have "p \<in> set yr" using that py IH(4) d'c by (metis append_is_Nil_conv Un_iff set_append set_ConsD)
        then have "sint (bi_nHeight p) < int (length yr)"
          using chain_ok_below [of m yr p] chain_ok_append [OF okd'] by (simp add: d'c chain_ok_Cons)
        then show False using len hp d'c by simp
      qed
      then have "p # pf = d'" using Cons.prems(1) td' d'c by (simp add: tree_chain_def)
      with False show False by simp
    qed
    ultimately have "set (hashes (p # xs)) \<inter> set (hashes (zs @ ys)) = {}" using IH(3,5) by auto
    then show ?thesis using eq False IH zs by (intro exI [of _ f] exI [of _ "p # xs"] exI [of _ "zs @ ys"]) auto
  qed
qed

lemma path_to_append:
  assumes "chain_ok m (xs @ pfork)" "pfork \<noteq> []"
  shows "path_to pfork (xs @ pfork) = hashes xs"
proof -
  obtain x ys where pfork: "pfork = x # ys" using assms(2) by (cases pfork) auto
  have "h \<noteq> bi_hashBlock x" if "h \<in> set (hashes xs)" for h
    using chain_ok_distinct [OF assms(1)] that by (auto simp: pfork image_iff)
  then have "takeWhile (\<lambda>h. h \<noteq> bi_hashBlock x) (hashes xs @ bi_hashBlock x # hashes ys) = hashes xs"
    using takeWhile_append2 [of "hashes xs" "\<lambda>h. h \<noteq> bi_hashBlock x" "bi_hashBlock x # hashes ys"] by simp
  then show ?thesis unfolding path_to_def pfork by simp
qed

section \<open>The links to the next block\<close>

text \<open>What the shape of the tree depends on.\<close>

definition tree_shape :: "block_map \<Rightarrow> uint256 \<Rightarrow> (uint256 \<times> 32 word \<times> uint256 option) option" where
  "tree_shape m h = map_option (\<lambda>node. (bi_hashBlock (bn_index node), bi_nHeight (bn_index node), bn_pprev node)) (map_find h m)"

lemma tree_shape_find: "tree_shape m = tree_shape m' \<Longrightarrow> map_find h m = Some node \<Longrightarrow>
    \<exists>node'. map_find h m' = Some node' \<and> bi_hashBlock (bn_index node') = bi_hashBlock (bn_index node) \<and>
      bi_nHeight (bn_index node') = bi_nHeight (bn_index node) \<and> bn_pprev node' = bn_pprev node"
  by (drule fun_cong [of _ _ h]) (cases "map_find h m'"; auto simp: tree_shape_def)

lemma tree_shape_None: "tree_shape m = tree_shape m' \<Longrightarrow> map_find h m = None \<longleftrightarrow> map_find h m' = None"
  by (drule fun_cong [of _ _ h]) (auto simp: tree_shape_def)

lemma map_ok_length: "map_ok m \<Longrightarrow> length m = card {h. map_find h m \<noteq> None}"
proof -
  assume "map_ok m"
  have "{h. map_find h m \<noteq> None} = fst ` set m" by (auto simp: map_find_def map_of_eq_None_iff)
  then show ?thesis using distinct_card [OF map_ok_distinct [OF \<open>map_ok m\<close>]] by simp
qed

lemma tree_shape_pprev: "tree_shape m = tree_shape m' \<Longrightarrow> pprev_of h m = pprev_of h m'"
  by (drule fun_cong [of _ _ h]; cases "map_find h m"; cases "map_find h m'") (auto simp: tree_shape_def pprev_of_def)

lemma tree_shape_branch:
  assumes "tree_shape m = tree_shape m'" "map_ok m" "map_ok m'"
  shows "branch m p = branch m' p"
proof -
  have "length m = length m'" using assms by (simp add: map_ok_length tree_shape_None [OF assms(1)])
  moreover have "hashes (walk_back m n p) = hashes (walk_back m' n p)" for n
  proof (induction n arbitrary: p)
    case (Suc n)
    show ?case
    proof (cases p)
      case (Some h)
      show ?thesis
        using Suc.IH tree_shape_find [OF assms(1), of h] tree_shape_None [OF assms(1), of h] Some
        by (cases "map_find h m") auto
    qed simp
  qed simp
  ultimately show ?thesis by (simp add: chain_at_def)
qed

lemma tree_shape_ok:
  assumes "tree_shape m = tree_shape m'" "map_ok m'" "tree_ok m"
  shows "tree_ok m'"
proof (rule tree_okI [OF assms(2)])
  fix h node'
  assume h: "map_find h m' = Some node'"
  from tree_shape_find [OF assms(1) [symmetric] h] obtain node where node: "map_find h m = Some node"
    "bi_hashBlock (bn_index node) = bi_hashBlock (bn_index node')" "bi_nHeight (bn_index node) = bi_nHeight (bn_index node')"
    "bn_pprev node = bn_pprev node'" by blast
  have prev: "\<exists>q'. map_find p m' = Some q' \<and> bn_height q' = bn_height q" if "map_find p m = Some q" for p q
    using tree_shape_find [OF assms(1) that] by (auto simp: bn_height_def)
  show "node_ok m' h node'"
    using tree_okD [OF assms(3) node(1)] prev node(2-4) unfolding node_ok_def bn_height_def
    by (fastforce split: option.splits)
qed

lemma map_ok_set_node [simp]: "map_ok m \<Longrightarrow> map_ok (set_node h f m)"
  by (simp add: set_node_def split: option.split)

lemma map_find_set_node: "map_ok m \<Longrightarrow> map_find h (set_node k f m) = (if h = k then map_option f (map_find h m) else map_find h m)"
  by (simp add: set_node_def split: option.split)

lemma tree_shape_set_node:
  assumes "map_ok m" "\<And>node. map_find h m = Some node \<Longrightarrow> bi_hashBlock (bn_index (f node)) = bi_hashBlock (bn_index node) \<and>
      bi_nHeight (bn_index (f node)) = bi_nHeight (bn_index node) \<and> bn_pprev (f node) = bn_pprev node"
  shows "tree_shape (set_node h f m) = tree_shape m"
  using assms by (auto simp: tree_shape_def map_find_set_node fun_eq_iff option.map_comp o_def intro!: map_option_cong)

lemma set_pnext_facts:
  assumes "map_ok m"
  shows "map_ok (set_pnext p q m)" "tree_shape (set_pnext p q m) = tree_shape m"
    "pnext_of h (set_pnext p q m) = (if p = Some h \<and> map_find h m \<noteq> None then q else pnext_of h m)"
  using assms
  by (auto simp: set_pnext_def tree_shape_set_node pnext_of_def map_find_set_node split: option.splits)

text \<open>Both loops of the relinking: the last block with the given previous block decides.\<close>

lemma fold_set_pnext:
  assumes "map_ok m"
  shows "map_ok (fold (\<lambda>k m. set_pnext (pprev_of k m) (g k) m) ks m) \<and>
    tree_shape (fold (\<lambda>k m. set_pnext (pprev_of k m) (g k) m) ks m) = tree_shape m \<and>
    (map_find h m \<noteq> None \<longrightarrow> pnext_of h (fold (\<lambda>k m. set_pnext (pprev_of k m) (g k) m) ks m) =
      (case find (\<lambda>k. pprev_of k m = Some h) (rev ks) of Some k \<Rightarrow> g k | None \<Rightarrow> pnext_of h m))"
proof (induction ks rule: rev_induct)
  case (snoc k ks)
  define m' where "m' = fold (\<lambda>k m. set_pnext (pprev_of k m) (g k) m) ks m"
  have IH: "map_ok m'" "tree_shape m' = tree_shape m"
    "map_find h m \<noteq> None \<Longrightarrow> pnext_of h m' = (case find (\<lambda>k. pprev_of k m = Some h) (rev ks) of Some k \<Rightarrow> g k | None \<Rightarrow> pnext_of h m)"
    using snoc.IH by (simp_all add: m'_def)
  show ?case
    using set_pnext_facts [OF IH(1), where p = "pprev_of k m'" and q = "g k"] IH(2,3) tree_shape_pprev [OF IH(2), of k] tree_shape_None [OF IH(2), of h]
    by (simp add: m'_def [symmetric])
qed (simp add: assms)

lemma relink_facts:
  assumes "map_ok m"
  shows "map_ok (relink xs ys m)" "tree_shape (relink xs ys m) = tree_shape m"
    "map_find h m \<noteq> None \<Longrightarrow> pnext_of h (relink xs ys m) =
      (case find (\<lambda>k. pprev_of k m = Some h) (rev ys) of Some k \<Rightarrow> Some k
       | None \<Rightarrow> (case find (\<lambda>k. pprev_of k m = Some h) (rev xs) of Some k \<Rightarrow> None | None \<Rightarrow> pnext_of h m))"
proof -
  define m' where "m' = fold (\<lambda>pindex m. set_pnext (pprev_of pindex m) None m) xs m"
  note 1 = fold_set_pnext [OF assms, of "\<lambda>_. None" xs, folded m'_def]
  have ok: "map_ok m'" and sh: "tree_shape m' = tree_shape m" using 1 by blast+
  note 2 = fold_set_pnext [OF ok, of Some ys]
  have r: "relink xs ys m = fold (\<lambda>pindex m. set_pnext (pprev_of pindex m) (Some pindex) m) ys m'"
    by (simp add: relink_def m'_def)
  show "map_ok (relink xs ys m)" unfolding r using 2 by blast
  show "tree_shape (relink xs ys m) = tree_shape m" unfolding r using 2 sh by simp
  show "pnext_of h (relink xs ys m) =
      (case find (\<lambda>k. pprev_of k m = Some h) (rev ys) of Some k \<Rightarrow> Some k
       | None \<Rightarrow> (case find (\<lambda>k. pprev_of k m = Some h) (rev xs) of Some k \<Rightarrow> None | None \<Rightarrow> pnext_of h m))"
    if "map_find h m \<noteq> None"
    unfolding r using 1 [of h] 2 [of h] that tree_shape_None [OF sh, of h]
    by (simp add: tree_shape_pprev [OF sh] split: option.split)
qed

text \<open>The links follow the best chain: a block points to its successor there, every other block to none.\<close>

definition links_ok :: "block_map \<Rightarrow> uint256 option \<Rightarrow> bool" where
  "links_ok m pindexBest \<longleftrightarrow> list_all (\<lambda>(h, node). bn_pnext node = find (\<lambda>k. pprev_of k m = Some h) (branch m pindexBest)) m"

lemma links_ok_iff:
  assumes "map_ok m"
  shows "links_ok m p \<longleftrightarrow> (\<forall>h. map_find h m \<noteq> None \<longrightarrow> pnext_of h m = find (\<lambda>k. pprev_of k m = Some h) (branch m p))"
  using assms unfolding links_ok_def list_all_iff pnext_of_def by (force simp: map_find_eq_Some [symmetric])

lemma find_append: "find P (xs @ ys) = (case find P xs of Some x \<Rightarrow> Some x | None \<Rightarrow> find P ys)"
  by (induction xs) auto

lemma branch_unique:
  assumes "tree_ok m" "j \<in> set (branch m p)" "k \<in> set (branch m p)" "pprev_of j m = Some h" "pprev_of k m = Some h"
  shows "j = k"
proof -
  have ok: "chain_ok m (chain_at m p)" using assms(1) by (rule chain_at_ok)
  from assms(2,3) obtain x y where x: "x \<in> set (chain_at m p)" "j = bi_hashBlock x" and y: "y \<in> set (chain_at m p)" "k = bi_hashBlock y"
    by auto
  have height: "bn_height node = bn_height prev + 1" if "map_find i m = Some node" "pprev_of i m = Some h" "map_find h m = Some prev" for i node prev
    using tree_node(4) [OF assms(1) that(1), of h] that by (auto simp: pprev_of_def)
  obtain nx ny where n: "map_find j m = Some nx" "map_find k m = Some ny" "bn_index nx = x" "bn_index ny = y"
    using ok x y unfolding chain_ok_def by (metis (no_types, lifting) map_option_eq_Some)
  obtain prev where prev: "map_find h m = Some prev"
    using tree_node(4) [OF assms(1) n(1), of h] assms(4) n(1) by (auto simp: pprev_of_def)
  have "sint (bi_nHeight x) = sint (bi_nHeight y)"
    using height [OF n(1) assms(4) prev] height [OF n(2) assms(5) prev] n(3,4) by (simp add: bn_height_def)
  moreover have "inj_on (\<lambda>x. sint (bi_nHeight x)) (set (chain_at m p))"
    using ok by (simp add: chain_ok_def distinct_map flip: distinct_map [of "\<lambda>x. sint (bi_nHeight x)"]) (metis distinct_map distinct_rev distinct_upt inj_on_of_nat)
  ultimately have "x = y" using x(1) y(1) by (auto dest: inj_onD)
  then show ?thesis using x(2) y(2) by simp
qed

theorem relink_links:
  assumes "tree_ok m" "links_ok m best" "branch m best = xs @ pfork" "branch m new = ys @ pfork"
  shows "links_ok (relink xs (rev ys) m) new"
proof -
  note ok = tree_ok_map [OF assms(1)]
  note r = relink_facts [OF ok, where xs = xs and ys = "rev ys"]
  have "pnext_of h (relink xs (rev ys) m) = find (\<lambda>k. pprev_of k m = Some h) (branch m new)" if h: "map_find h m \<noteq> None" for h
  proof (cases "find (\<lambda>k. pprev_of k m = Some h) ys")
    case None
    have old: "pnext_of h m = find (\<lambda>k. pprev_of k m = Some h) (xs @ pfork)"
      using assms(2,3) h by (simp add: links_ok_iff [OF ok])
    have dist: "distinct (xs @ pfork)" using chain_ok_distinct [OF chain_at_ok [OF assms(1)], of best] assms(3) by simp
    show ?thesis
    proof (cases "\<exists>k \<in> set xs. pprev_of k m = Some h")
      case True
      then obtain k where k: "k \<in> set xs" "pprev_of k m = Some h" by blast
      have "pprev_of j m \<noteq> Some h" if "j \<in> set pfork" for j
        using branch_unique [OF assms(1), of j best k h] that k dist assms(3) by auto
      then have "find (\<lambda>k. pprev_of k m = Some h) pfork = None" by (simp add: find_None_iff)
      moreover obtain i where "find (\<lambda>k. pprev_of k m = Some h) (rev xs) = Some i"
        using k by (cases "find (\<lambda>k. pprev_of k m = Some h) (rev xs)") (auto simp: find_None_iff)
      ultimately show ?thesis using r(3) [OF h] None assms(4) by (simp add: find_append)
    next
      case False
      then have "find (\<lambda>k. pprev_of k m = Some h) (rev xs) = None" "find (\<lambda>k. pprev_of k m = Some h) xs = None"
        by (simp_all add: find_None_iff)
      then show ?thesis using r(3) [OF h] None assms(4) old by (simp add: find_append)
    qed
  qed (use r(3) [OF h] assms(4) in \<open>simp add: find_append\<close>)
  then show ?thesis
    unfolding links_ok_iff [OF r(1)]
    by (simp add: tree_shape_pprev [OF r(2)] tree_shape_branch [OF r(2) r(1) ok] tree_shape_None [OF r(2)])
qed

section \<open>The main chain\<close>

lemma pprev_in_branch:
  assumes "tree_ok m" "k \<in> set (branch m p)" "pprev_of k m = Some h"
  shows "h \<in> set (branch m p)"
proof -
  from assms(2) obtain x where x: "x \<in> set (chain_at m p)" "k = bi_hashBlock x" by auto
  then obtain xs ys where c: "chain_at m p = xs @ x # ys" by (meson split_list)
  from assms(3) obtain node where node: "map_find k m = Some node" "bn_pprev node = Some h" by (auto simp: pprev_of_def bind_eq_Some_conv)
  obtain prev where prev: "map_find h m = Some prev" using tree_node(4) [OF assms(1) node] by blast
  have "x # ys = bn_index node # chain_at m (Some h)"
    using chain_at_suffix [OF assms(1) c] chain_at_step [OF assms(1) node(1)] x(2) node(2) by simp
  also have "chain_at m (Some h) = bn_index prev # chain_at m (bn_pprev prev)" by (rule chain_at_step [OF assms(1) prev])
  finally show ?thesis using c tree_node(1) [OF assms(1) prev] by force
qed

lemma branch_next:
  assumes "tree_ok m" "h \<in> set (branch m (Some b))" "h \<noteq> b"
  shows "\<exists>k \<in> set (branch m (Some b)). pprev_of k m = Some h"
proof -
  from assms(2) obtain x where x: "x \<in> set (chain_at m (Some b))" "h = bi_hashBlock x" by auto
  then obtain xs ys where c: "chain_at m (Some b) = xs @ x # ys" by (meson split_list)
  obtain node where b: "map_find b m = Some node" using c by (cases "map_find b m") (simp_all add: chain_at_missing)
  have "xs \<noteq> []" using c chain_at_step [OF assms(1) b] tree_node(1) [OF assms(1) b] x(2) assms(3) by auto
  then obtain xs' y where xs: "xs = xs' @ [y]" by (metis rev_exhaust)
  have sy: "chain_at m (Some (bi_hashBlock y)) = y # x # ys" using chain_at_suffix [OF assms(1), of "Some b" xs' y] c xs by simp
  then obtain ny where ny: "map_find (bi_hashBlock y) m = Some ny"
    by (cases "map_find (bi_hashBlock y) m") (simp_all add: chain_at_missing)
  have cp: "chain_at m (bn_pprev ny) = x # ys" using chain_at_step [OF assms(1) ny] sy by simp
  then obtain p where p: "bn_pprev ny = Some p" by (cases "bn_pprev ny") simp_all
  obtain np where np: "map_find p m = Some np" using cp p by (cases "map_find p m") (simp_all add: chain_at_missing)
  have "p = h" using cp p chain_at_step [OF assms(1) np] tree_node(1) [OF assms(1) np] x(2) by simp
  then have "pprev_of (bi_hashBlock y) m = Some h" using ny p by (simp add: pprev_of_def)
  then show ?thesis using c xs by force
qed

lemma IsInMainChain_iff:
  assumes "tree_ok m" "links_ok m (Some b)" "map_find b m \<noteq> None" "map_find h m \<noteq> None"
  shows "IsInMainChain h (Some b) m \<longleftrightarrow> h \<in> set (branch m (Some b))"
proof -
  obtain node where b: "map_find b m = Some node" using assms(3) by blast
  have tip: "b \<in> set (branch m (Some b))" using chain_at_step [OF assms(1) b] tree_node(1) [OF assms(1) b] by simp
  have "pnext_of h m = find (\<lambda>k. pprev_of k m = Some h) (branch m (Some b))"
    using assms(2,4) by (simp add: links_ok_iff [OF tree_ok_map [OF assms(1)]])
  then have "pnext_of h m \<noteq> None \<longleftrightarrow> (\<exists>k \<in> set (branch m (Some b)). pprev_of k m = Some h)"
    by (metis (mono_tags, lifting) find_None_iff)
  then show ?thesis
    unfolding IsInMainChain_def using tip pprev_in_branch [OF assms(1)] branch_next [OF assms(1)] by blast
qed

lemma locator_from_subset: "set (locator_from c nStep n) \<subseteq> set (hashes c)"
proof (induction c nStep n rule: locator_from.induct)
  case (2 pindex chain nStep n)
  have "set (hashes (drop (nStep - 1) chain)) \<subseteq> set (hashes chain)" by (auto dest: in_set_dropD)
  with 2 show ?case by (auto simp only: locator_from.simps list.set list.map)
qed simp

lemma find_main_Some: "find_main b m v = Some k \<Longrightarrow> k \<in> set v \<and> map_find k m \<noteq> None \<and> IsInMainChain k b m"
  by (induction v) (auto split: if_splits)

lemma find_main_None: "find_main b m v = None \<Longrightarrow> k \<in> set v \<Longrightarrow> map_find k m \<noteq> None \<Longrightarrow> \<not> IsInMainChain k b m"
  by (induction v) (auto split: if_splits)

text \<open>
  A locator that one node makes of one of its blocks leads another node, which has that block, to a block that
  is both an ancestor of it and in the main chain of the second node: to the block itself if that is in the main chain.
\<close>

theorem locator_common:
  assumes "tree_ok m" "links_ok m (Some b)" "map_find b m \<noteq> None" "map_find h m \<noteq> None"
    "last (branch m (Some h)) = hashGenesisBlock" "last (branch m (Some b)) = hashGenesisBlock"
  shows "\<exists>k. CBlockLocator_GetBlockIndex pindexGenesisBlock (Some b) m (CBlockLocator_Set hashGenesisBlock (chain_at m (Some h))) = Some k \<and>
    k \<in> set (branch m (Some h)) \<and> k \<in> set (branch m (Some b)) \<and> (k = h \<longleftrightarrow> h \<in> set (branch m (Some b)))"
proof -
  let ?v = "CBlockLocator_Set hashGenesisBlock (chain_at m (Some h))"
  obtain nh where nh: "map_find h m = Some nh" using assms(4) by blast
  obtain nb where nb: "map_find b m = Some nb" using assms(3) by blast
  have ch: "chain_at m (Some h) = bn_index nh # chain_at m (bn_pprev nh)" "bi_hashBlock (bn_index nh) = h"
    using chain_at_step [OF assms(1) nh] tree_node(1) [OF assms(1) nh] by simp_all
  have ne: "branch m (Some b) \<noteq> []" using chain_at_step [OF assms(1) nb] by simp
  have gb: "hashGenesisBlock \<in> set (branch m (Some b))" using last_in_set [OF ne] assms(6) by simp
  have in_tree: "map_find k m \<noteq> None" if "k \<in> set (branch m p)" for k p
    using that chain_at_ok [OF assms(1), of p] by (auto simp: chain_ok_def)
  have gh: "hashGenesisBlock \<in> set (branch m (Some h))" using assms(5) ch(1) by (metis last_in_set list.simps(3) list.map_disc_iff)
  have sub: "set ?v \<subseteq> set (branch m (Some h))"
    unfolding CBlockLocator_Set_def using locator_from_subset [of "chain_at m (Some h)" 1 0] gh by auto
  have main: "IsInMainChain k (Some b) m \<longleftrightarrow> k \<in> set (branch m (Some b))" if "map_find k m \<noteq> None" for k
    by (rule IsInMainChain_iff [OF assms(1-3) that])
  obtain k where k: "find_main (Some b) m ?v = Some k"
    using find_main_None [of "Some b" m ?v hashGenesisBlock] main [of hashGenesisBlock] gb in_tree [OF gb]
    by (cases "find_main (Some b) m ?v") (auto simp: CBlockLocator_Set_def)
  note kf = find_main_Some [OF k]
  have "find_main (Some b) m ?v = Some h" if "h \<in> set (branch m (Some b))"
    using that main [OF assms(4)] assms(4) by (simp add: CBlockLocator_Set_def ch)
  then show ?thesis using k kf sub main [of k] by (auto simp: CBlockLocator_GetBlockIndex_def)
qed

text \<open>
  Fork. For two blocks of a tree with the same first block, the search of \<^verbatim>\<open>Reorganize\<close> ends with the last
  block that their chains share: both chains end with the chain of that block, and the lists of what to
  disconnect and what to connect are exactly the blocks above it, which have no block in common.
\<close>

theorem find_fork_last_common:
  assumes "tree_ok m" "map_find b m \<noteq> None" "map_find n m \<noteq> None" "last (chain_at m (Some b)) = last (chain_at m (Some n))"
  shows "\<exists>pfork. find_fork (chain_at m (Some b)) (chain_at m (Some n)) = Some pfork \<and> pfork \<noteq> [] \<and>
    branch m (Some b) = path_to pfork (chain_at m (Some b)) @ hashes pfork \<and>
    branch m (Some n) = path_to pfork (chain_at m (Some n)) @ hashes pfork \<and>
    set (path_to pfork (chain_at m (Some b))) \<inter> set (path_to pfork (chain_at m (Some n))) = {}"
proof -
  have t: "tree_chain m (chain_at m (Some b))" "tree_chain m (chain_at m (Some n))"
    using assms(2,3) tree_chain_at [OF assms(1)] by blast+
  from find_fork_spec [OF assms(1) t assms(4)] obtain pfork xs ys where f: "find_fork (chain_at m (Some b)) (chain_at m (Some n)) = Some pfork"
    "pfork \<noteq> []" "chain_at m (Some b) = xs @ pfork" "chain_at m (Some n) = ys @ pfork" "set (hashes xs) \<inter> set (hashes ys) = {}" by blast
  have "path_to pfork (chain_at m (Some b)) = hashes xs" "path_to pfork (chain_at m (Some n)) = hashes ys"
    unfolding f(3,4) using t path_to_append [OF _ f(2), of m] by (simp_all add: tree_chain_def f(3,4))
  then show ?thesis using f by (intro exI [of _ pfork]) simp
qed

definition fork_block :: "uint256 \<Rightarrow> 32 word \<Rightarrow> CBlockIndex" where
  "fork_block h nHeight = sample_index\<lparr> bi_hashBlock := h, bi_nHeight := nHeight \<rparr>"

definition fork_tree :: block_map where
  "fork_tree =
     [(1, \<lparr> bn_index = fork_block 1 0, bn_pprev = None, bn_pnext = Some 2 \<rparr>),
      (2, \<lparr> bn_index = fork_block 2 1, bn_pprev = Some 1, bn_pnext = Some 3 \<rparr>),
      (3, \<lparr> bn_index = fork_block 3 2, bn_pprev = Some 2, bn_pnext = None \<rparr>),
      (4, \<lparr> bn_index = fork_block 4 2, bn_pprev = Some 2, bn_pnext = None \<rparr>),
      (5, \<lparr> bn_index = fork_block 5 3, bn_pprev = Some 4, bn_pnext = None \<rparr>)]"

lemma fork_tree_ok: "tree_ok fork_tree"
  by (simp add: tree_ok_def map_ok_def node_ok_def bn_height_def fork_tree_def fork_block_def map_find_Cons)

lemma fork_tree_find: "map_find 3 fork_tree \<noteq> None" "map_find 5 fork_tree \<noteq> None"
  by (simp_all add: fork_tree_def map_find_Cons)

lemma fork_chains: "chain_at fork_tree (Some 3) = [fork_block 3 2, fork_block 2 1, fork_block 1 0]"
    "chain_at fork_tree (Some 5) = [fork_block 5 3, fork_block 4 2, fork_block 2 1, fork_block 1 0]"
  by (simp_all add: chain_at_def fork_tree_def map_find_Cons)

theorem find_fork_last_common_witness:
  "\<exists>pfork. find_fork (chain_at fork_tree (Some 3)) (chain_at fork_tree (Some 5)) = Some pfork \<and>
    [3, 2, 1] = path_to pfork (chain_at fork_tree (Some 3)) @ hashes pfork \<and>
    [5, 4, 2, 1] = path_to pfork (chain_at fork_tree (Some 5)) @ hashes pfork"
  using find_fork_last_common [OF fork_tree_ok fork_tree_find] by (auto simp: fork_chains fork_block_def)

end
