(* ===== verification/Kernel.thy ===== *)
theory Kernel
  imports Block_Tree Block "HOL-Library.Product_Lexorder"
begin

text \<open>
  The proof-of-stake kernel (\<^verbatim>\<open>src/src/kernel.cpp\<close>, \<^verbatim>\<open>src/src/kernel.h\<close>, \<^verbatim>\<open>src/src/kernel_worker.cpp\<close>, and the search of
  the miner over its coins in \<^verbatim>\<open>src/src/miner.cpp\<close>): the stake modifier that every block fixes, the check of a
  kernel against its target, and the search for a kernel. \<open>None\<close> is the result false unless a definition
  says otherwise; times are unbounded integers, which the 32-bit times of blocks do not leave.
\<close>

section \<open>The stake modifier\<close>

definition nModifierInterval :: "diff_env \<Rightarrow> int" where
  "nModifierInterval env = (if fTestNet env then 3 * 60 else 10 * 60)"

definition nStakeMaxAge :: int where "nStakeMaxAge = 90 * (24 * 60 * 60)"

definition GENESIS_TIME_STAMP :: int where "GENESIS_TIME_STAMP = 1533549600"

definition IsFixedModifierInterval :: "32 word \<Rightarrow> bool" where
  "IsFixedModifierInterval nTimeBlock \<longleftrightarrow> uint nTimeBlock \<ge> GENESIS_TIME_STAMP"

fun last_generated :: "chain \<Rightarrow> CBlockIndex option" where
  "last_generated [] = None"
| "last_generated [pindex] = Some pindex"
| "last_generated (pindex # pprev # chain) = (if GeneratedStakeModifier pindex then Some pindex else last_generated (pprev # chain))"

definition GetLastStakeModifier :: "chain \<Rightarrow> (64 word \<times> int) option" where
  "GetLastStakeModifier chain =
     (case last_generated chain of
        None \<Rightarrow> None
      | Some pindex \<Rightarrow>
          if GeneratedStakeModifier pindex then Some (bi_nStakeModifier pindex, GetBlockTime pindex) else None)"

text \<open>The assertion is that \<open>nSection\<close> is less than 64.\<close>

definition GetStakeModifierSelectionIntervalSection :: "diff_env \<Rightarrow> nat \<Rightarrow> int" where
  "GetStakeModifierSelectionIntervalSection env nSection =
     nModifierInterval env * 63 div (63 + (63 - int nSection) * (3 - 1))"

definition GetStakeModifierSelectionInterval :: "diff_env \<Rightarrow> int" where
  "GetStakeModifierSelectionInterval env =
     fold (\<lambda>nSection nSelectionInterval. nSelectionInterval + GetStakeModifierSelectionIntervalSection env nSection) [0..<64] 0"

definition selection_hash :: "(bytes \<Rightarrow> uint256) \<Rightarrow> 64 word \<Rightarrow> CBlockIndex \<Rightarrow> uint256" where
  "selection_hash Hash nStakeModifierPrev pindex =
     (let
        hashProof = (if bi_IsProofOfStake pindex then bi_hashProofOfStake pindex else bi_hashBlock pindex);
        hashSelection = Hash (Serialize_word hashProof @ Serialize_word nStakeModifierPrev)
      in if bi_IsProofOfStake pindex then drop_bit 32 hashSelection else hashSelection)"

text \<open>The loop over the candidates, with the best hash and its block once one is selected.\<close>

fun select_loop ::
  "(bytes \<Rightarrow> uint256) \<Rightarrow> block_map \<Rightarrow> uint256 list \<Rightarrow> int \<Rightarrow> 64 word \<Rightarrow> (int \<times> uint256) list \<Rightarrow> (uint256 \<times> CBlockIndex) option \<Rightarrow> CBlockIndex option" where
  "select_loop Hash m selected nStop nPrev [] best = map_option snd best"
| "select_loop Hash m selected nStop nPrev (item # vSorted) best =
     (case map_find (snd item) m of
        None \<Rightarrow> None
      | Some node \<Rightarrow>
          (let pindex = bn_index node in
           if best \<noteq> None \<and> GetBlockTime pindex > nStop then map_option snd best
           else if bi_hashBlock pindex \<in> set selected then select_loop Hash m selected nStop nPrev vSorted best
           else let hashSelection = selection_hash Hash nPrev pindex in
             select_loop Hash m selected nStop nPrev vSorted
               (case best of
                  None \<Rightarrow> Some (hashSelection, pindex)
                | Some (hashBest, _) \<Rightarrow> if hashSelection < hashBest then Some (hashSelection, pindex) else best)))"

definition SelectBlockFromCandidates ::
  "(bytes \<Rightarrow> uint256) \<Rightarrow> block_map \<Rightarrow> (int \<times> uint256) list \<Rightarrow> uint256 list \<Rightarrow> int \<Rightarrow> 64 word \<Rightarrow> CBlockIndex option" where
  "SelectBlockFromCandidates Hash m vSortedByTimestamp selected nSelectionIntervalStop nStakeModifierPrev =
     select_loop Hash m selected nSelectionIntervalStop nStakeModifierPrev vSortedByTimestamp None"

text \<open>The loop over the rounds, with the hashes of the blocks selected so far.\<close>

fun select_rounds ::
  "(bytes \<Rightarrow> uint256) \<Rightarrow> diff_env \<Rightarrow> block_map \<Rightarrow> (int \<times> uint256) list \<Rightarrow> 64 word \<Rightarrow> nat list \<Rightarrow> int \<Rightarrow> uint256 list \<Rightarrow> 64 word \<Rightarrow> 64 word option" where
  "select_rounds Hash env m vSorted nStakeModifier [] nStop selected nStakeModifierNew = Some nStakeModifierNew"
| "select_rounds Hash env m vSorted nStakeModifier (nRound # rounds) nStop selected nStakeModifierNew =
     (let nStop = nStop + GetStakeModifierSelectionIntervalSection env nRound in
      case SelectBlockFromCandidates Hash m vSorted selected nStop nStakeModifier of
        None \<Rightarrow> None
      | Some pindex \<Rightarrow> select_rounds Hash env m vSorted nStakeModifier rounds nStop (bi_hashBlock pindex # selected)
          (nStakeModifierNew OR push_bit nRound (ucast (GetStakeEntropyBit pindex))))"

definition selection_start :: "diff_env \<Rightarrow> CBlockIndex \<Rightarrow> int" where
  "selection_start env pindexPrev =
     GetBlockTime pindexPrev div nModifierInterval env * nModifierInterval env - GetStakeModifierSelectionInterval env"

definition candidates :: "diff_env \<Rightarrow> chain \<Rightarrow> (int \<times> uint256) list" where
  "candidates env prevs =
     sort (rev (map (\<lambda>pindex. (GetBlockTime pindex, bi_hashBlock pindex))
       (takeWhile (\<lambda>pindex. GetBlockTime pindex \<ge> selection_start env (hd prevs)) prevs)))"

text \<open>The modifier of the first block of the chain and whether it is new.\<close>

definition ComputeNextStakeModifier :: "(bytes \<Rightarrow> uint256) \<Rightarrow> diff_env \<Rightarrow> block_map \<Rightarrow> chain \<Rightarrow> (64 word \<times> bool) option" where
  "ComputeNextStakeModifier Hash env m chain =
     (let pindexCurrent = hd chain; prevs = tl chain in
      if prevs = [] then Some (0, True)
      else case GetLastStakeModifier prevs of
        None \<Rightarrow> None
      | Some (nStakeModifier, nModifierTime) \<Rightarrow>
          if nModifierTime div nModifierInterval env \<ge> GetBlockTime (hd prevs) div nModifierInterval env then Some (nStakeModifier, False)
          else if nModifierTime div nModifierInterval env \<ge> GetBlockTime pindexCurrent div nModifierInterval env \<and>
            IsFixedModifierInterval (bi_nTime pindexCurrent) then Some (nStakeModifier, False)
          else
            (let vSortedByTimestamp = candidates env prevs in
             map_option (\<lambda>nStakeModifierNew. (nStakeModifierNew, True))
               (select_rounds Hash env m vSortedByTimestamp nStakeModifier [0..<min 64 (length vSortedByTimestamp)]
                 (selection_start env (hd prevs)) [] 0)))"

text \<open>The previous block is null only for the genesis block; \<open>None\<close> is the failed assertion.\<close>

definition GetStakeModifierChecksum :: "(bytes \<Rightarrow> uint256) \<Rightarrow> uint256 \<Rightarrow> chain \<Rightarrow> 32 word option" where
  "GetStakeModifierChecksum Hash hashGenesisBlock chain =
     (let pindex = hd chain in
      if tl chain = [] \<and> bi_hashBlock pindex \<noteq> hashGenesisBlock then None
      else Some (ucast (drop_bit (256 - 32) (Hash
        ((if tl chain = [] then [] else Serialize_word (bi_nStakeModifierChecksum (hd (tl chain)))) @
         Serialize_word (bi_nFlags pindex) @ Serialize_word (bi_hashProofOfStake pindex) @ Serialize_word (bi_nStakeModifier pindex))))))"

definition mapStakeModifierCheckpoints :: "bool \<Rightarrow> (int \<times> 32 word) list" where
  "mapStakeModifierCheckpoints testNet =
     (if testNet then [(0, 0xfd11f4e7)]
      else [(0, 0xe00670b), (377262, 0x10e0e614), (426387, 0xdf71ab5f), (434550, 0x2511363f)])"

definition CheckStakeModifierCheckpoints :: "bool \<Rightarrow> int \<Rightarrow> 32 word \<Rightarrow> bool" where
  "CheckStakeModifierCheckpoints testNet nHeight nStakeModifierChecksum \<longleftrightarrow>
     (case map_of (mapStakeModifierCheckpoints testNet) nHeight of None \<Rightarrow> True | Some c \<Rightarrow> nStakeModifierChecksum = c)"

section \<open>The modifier of a kernel\<close>

text \<open>
  The walk along \<^verbatim>\<open>pnext\<close> until the modifier is a selection interval later. \<open>Some None\<close> is the result false;
  \<open>None\<close> is the end of the fuel, the number of blocks.
\<close>

fun kernel_walk :: "block_map \<Rightarrow> int \<Rightarrow> nat \<Rightarrow> uint256 \<Rightarrow> int \<Rightarrow> int \<Rightarrow> (64 word \<times> int \<times> int) option option" where
  "kernel_walk m nUntil n h nHeight nTime =
     (case map_find h m of
        None \<Rightarrow> None
      | Some node \<Rightarrow>
          if nTime < nUntil
          then (case (n, bn_pnext node) of
              (_, None) \<Rightarrow> Some None
            | (0, Some _) \<Rightarrow> None
            | (Suc n, Some next) \<Rightarrow>
                (case map_find next m of
                   None \<Rightarrow> None
                 | Some node' \<Rightarrow>
                     if GeneratedStakeModifier (bn_index node')
                     then kernel_walk m nUntil n next (bn_height node') (GetBlockTime (bn_index node'))
                     else kernel_walk m nUntil n next nHeight nTime))
          else Some (Some (bi_nStakeModifier (bn_index node), nHeight, nTime)))"

declare kernel_walk.simps [simp del]

definition GetKernelStakeModifier :: "diff_env \<Rightarrow> block_map \<Rightarrow> uint256 \<Rightarrow> (64 word \<times> int \<times> int) option option" where
  "GetKernelStakeModifier env m hashBlockFrom =
     (case map_find hashBlockFrom m of
        None \<Rightarrow> Some None
      | Some pindexFrom \<Rightarrow>
          kernel_walk m (GetBlockTime (bn_index pindexFrom) + GetStakeModifierSelectionInterval env) (length m) hashBlockFrom
            (bn_height pindexFrom) (GetBlockTime (bn_index pindexFrom)))"

section \<open>The target of a kernel\<close>

definition GetWeight :: "'d node_env \<Rightarrow> int \<Rightarrow> int \<Rightarrow> int" where
  "GetWeight env nIntervalBeginning nIntervalEnd = min (nIntervalEnd - nIntervalBeginning - nStakeMinAge env) nStakeMaxAge"

text \<open>\<^verbatim>\<open>bnCoinDayWeight * bnTargetPerCoinDay\<close>; the division of big numbers rounds towards zero.\<close>

definition kernel_target :: "'d node_env \<Rightarrow> 32 word \<Rightarrow> int \<Rightarrow> 32 word \<Rightarrow> 32 word \<Rightarrow> int" where
  "kernel_target env nBits nValueIn nInputTxTime nTimeTx =
     (nValueIn * GetWeight env (uint nInputTxTime) (uint nTimeTx)) sdiv COIN sdiv (24 * 60 * 60) * SetCompact (de_bn (ne_diff env)) nBits"

text \<open>The static part of the kernel, which the miner builds as well.\<close>

definition kernel_static :: "64 word \<Rightarrow> 32 word \<Rightarrow> 32 word \<Rightarrow> 32 word \<Rightarrow> 32 word \<Rightarrow> bytes" where
  "kernel_static nStakeModifier nTimeBlockFrom nTxPrevOffset nTimeTxPrev nPrevout =
     Serialize_word nStakeModifier @ Serialize_word nTimeBlockFrom @ Serialize_word nTxPrevOffset @ Serialize_word nTimeTxPrev @
     Serialize_word nPrevout"

text \<open>
  The verdict with the hash and the target that are set. \<open>None\<close> is an output that the previous transaction
  does not have, or the end of the fuel of the walk.
\<close>

definition CheckStakeKernelHash ::
  "'d block_env \<Rightarrow> block_map \<Rightarrow> 32 word \<Rightarrow> 'a CBlockHeader_scheme \<Rightarrow> 32 word \<Rightarrow> CTransaction \<Rightarrow> COutPoint \<Rightarrow> 32 word \<Rightarrow>
    (bool \<times> uint256 \<times> uint256) option" where
  "CheckStakeKernelHash env m nBits blockFrom nTxPrevOffset txPrev prevout nTimeTx =
     (if nTimeTx < get_nTime txPrev then Some (False, 0, 0)
      else if bh_nTime blockFrom + word_of_int (nStakeMinAge (be_node env)) > nTimeTx then Some (False, 0, 0)
      else if unat (get_n prevout) \<ge> length (get_vout txPrev) then None
      else
        (let
           bn = de_bn (ne_diff (be_node env));
           nValueIn = setint64 bn (get_nValue (get_vout txPrev ! unat (get_n prevout)));
           bnTarget = kernel_target (be_node env) nBits nValueIn (get_nTime txPrev) nTimeTx;
           targetProofOfStake = getuint256 bn bnTarget
         in
         case GetKernelStakeModifier (ne_diff (be_node env)) m (CBlockHeader_GetHash env blockFrom) of
           None \<Rightarrow> None
         | Some None \<Rightarrow> Some (False, 0, targetProofOfStake)
         | Some (Some (nStakeModifier, _, _)) \<Rightarrow>
             (let hashProofOfStake = env_Hash (ne_crypto (be_node env))
                (kernel_static nStakeModifier (bh_nTime blockFrom) nTxPrevOffset (get_nTime txPrev) (get_n prevout) @ Serialize_word nTimeTx)
              in Some (\<not> setuint256 bn hashProofOfStake > bnTarget, hashProofOfStake, targetProofOfStake))))"

text \<open>
  The check of a coin stake. The file gives the block, whose header alone is used. \<open>None\<close> is as above, or a
  failure of the database or the script.
\<close>

definition CheckProofOfStake ::
  "'d block_env \<Rightarrow> (32 word \<Rightarrow> 32 word \<Rightarrow> CBlock option) \<Rightarrow> block_map \<Rightarrow> 'd CLevelDB \<Rightarrow> CTransaction \<Rightarrow> 32 word \<Rightarrow> CSignatureCache \<Rightarrow>
    (verdict \<times> uint256 \<times> uint256 \<times> CSignatureCache) option" where
  "CheckProofOfStake env files m txdb tx nBits cache =
     (if \<not> IsCoinStake tx then Some ((False, 0), 0, 0, cache)
      else let prevout = get_prevout (hd (get_vin tx)) in
        case ReadFromDisk (be_node env) txdb prevout of
          None \<Rightarrow> None
        | Some None \<Rightarrow> Some (DoS 1 False, 0, 0, cache)
        | Some (Some (txPrev, txindex)) \<Rightarrow> do {
            (fSig, cache) \<leftarrow> VerifySignature (ne_crypto (be_node env)) cache txPrev tx 0 MANDATORY_SCRIPT_VERIFY_FLAGS 0;
            if \<not> fSig then Some (DoS 100 False, 0, 0, cache)
            else case files (get_nFile (get_pos txindex)) (get_nBlockPos (get_pos txindex)) of
              None \<Rightarrow> Some ((False, 0), 0, 0, cache)
            | Some block \<Rightarrow> do {
                (ok, hashProofOfStake, targetProofOfStake) \<leftarrow> CheckStakeKernelHash env m nBits block
                  (get_nTxPos (get_pos txindex) - get_nBlockPos (get_pos txindex)) txPrev prevout (get_nTime tx);
                Some (if ok then (True, 0) else DoS 1 False, hashProofOfStake, targetProofOfStake, cache) } })"

section \<open>The search for a kernel\<close>

text \<open>
  \<^verbatim>\<open>SHA256_Init\<close>, \<^verbatim>\<open>Update\<close> and \<^verbatim>\<open>Final\<close> of OpenSSL give the hash of the bytes written, and a saved context
  starts from the bytes written before.
\<close>

definition uint256_of :: "bytes \<Rightarrow> uint256" where
  "uint256_of b = word_of_nat (le_nat b)"

definition scan_hash :: "crypto_env \<Rightarrow> bytes \<Rightarrow> 32 word \<Rightarrow> uint256" where
  "scan_hash env kern nTimeTx = uint256_of (env_SHA256 env (env_SHA256 env (take 24 kern @ Serialize_word nTimeTx)))"

definition max_target :: "'d node_env \<Rightarrow> 32 word \<Rightarrow> int \<Rightarrow> int" where
  "max_target env nBits bnValueIn =
     (SetCompact (de_bn (ne_diff env)) nBits * bnValueIn * nStakeMaxAge) sdiv COIN sdiv (24 * 60 * 60)"

lemma unat_before: "unat (t - 1) < unat t" if "e < t" for t :: "32 word"
proof -
  have "t \<noteq> 0" using that by auto
  then show ?thesis using unat_minus_one [of t] by (simp add: unat_gt_0)
qed

lemma unat_after: "unat (t + 1) = unat t + 1" if "t < e" for t :: "32 word"
  using that unsigned_less [of e, where 'a = nat] by (simp add: word_less_nat_alt unat_word_ariths)

text \<open>The search backwards in time; \<open>fShutdown\<close> is the flag as it is read at each time.\<close>

function scan_backward ::
  "'d node_env \<Rightarrow> bytes \<Rightarrow> 32 word \<Rightarrow> 32 word \<Rightarrow> int \<Rightarrow> (32 word \<Rightarrow> bool) \<Rightarrow> 32 word \<Rightarrow> 32 word \<Rightarrow> (uint256 \<times> 32 word) option" where
  "scan_backward env kern nBits nInputTxTime bnValueIn fShutdown nEnd nTimeTx =
     (if nTimeTx > nEnd \<and> \<not> fShutdown nTimeTx
      then
        (let bn = de_bn (ne_diff env); hashProofOfStake = scan_hash (ne_crypto env) kern nTimeTx in
         if hashProofOfStake > getuint256 bn (max_target env nBits bnValueIn)
         then scan_backward env kern nBits nInputTxTime bnValueIn fShutdown nEnd (nTimeTx - 1)
         else if kernel_target env nBits bnValueIn nInputTxTime nTimeTx \<ge> setuint256 bn hashProofOfStake
         then Some (hashProofOfStake, nTimeTx)
         else scan_backward env kern nBits nInputTxTime bnValueIn fShutdown nEnd (nTimeTx - 1))
      else None)"
  by pat_completeness auto
termination
  by (relation "measure (\<lambda>(_, _, _, _, _, _, _, nTimeTx). unat nTimeTx)") (auto intro: unat_before)

definition ScanKernelBackward ::
  "'d node_env \<Rightarrow> bytes \<Rightarrow> 32 word \<Rightarrow> 32 word \<Rightarrow> 64 word \<Rightarrow> (32 word \<Rightarrow> bool) \<Rightarrow> 32 word \<times> 32 word \<Rightarrow> (uint256 \<times> 32 word) option" where
  "ScanKernelBackward env kern nBits nInputTxTime nValueIn fShutdown SearchInterval =
     scan_backward env kern nBits nInputTxTime (setint64 (de_bn (ne_diff env)) nValueIn) fShutdown (snd SearchInterval) (fst SearchInterval)"

text \<open>
  The search forward in time of a worker. Its first assertion, of a negated string, is always false.
  \<open>None\<close> is a failed assertion.
\<close>

record KernelWorker =
  kw_kernel :: bytes
  kw_nBits :: "32 word"
  kw_nInputTxTime :: "32 word"
  kw_bnValueIn :: int
  kw_nIntervalBegin :: "32 word"
  kw_nIntervalEnd :: "32 word"
  kw_solutions :: "(uint256 \<times> 32 word) list"

definition debug_assertion :: bool where "debug_assertion \<longleftrightarrow> \<not> True"

text \<open>The hash is computed with both libraries, \<open>sha256C\<close> being the class of the program.\<close>

function do_loop ::
  "'d node_env \<Rightarrow> (bytes \<Rightarrow> bytes) \<Rightarrow> (32 word \<Rightarrow> bool) \<Rightarrow> 32 word \<Rightarrow> KernelWorker \<Rightarrow> KernelWorker option" where
  "do_loop env sha256C fShutdown nTimeTx w =
     (if nTimeTx < kw_nIntervalEnd w \<and> \<not> fShutdown nTimeTx
      then
        (let
           bn = de_bn (ne_diff env);
           written = take 24 (kw_kernel w) @ Serialize_word nTimeTx;
           hashC = sha256C written;
           hash1 = env_SHA256 (ne_crypto env) written;
           hashProofOfStake = uint256_of (env_SHA256 (ne_crypto env) hash1);
           nMaxTarget = getuint256 bn (max_target env (kw_nBits w) (kw_bnValueIn w))
         in
         if \<not> debug_assertion then None
         else if hashC \<noteq> hash1 then None
         else if hashProofOfStake \<noteq> uint256_of (sha256C hashC) then None
         else if drop_bit 224 hashProofOfStake > drop_bit 224 nMaxTarget then do_loop env sha256C fShutdown (nTimeTx + 1) w
         else if kernel_target env (kw_nBits w) (kw_bnValueIn w) (kw_nInputTxTime w) nTimeTx \<ge> setuint256 bn hashProofOfStake
         then do_loop env sha256C fShutdown (nTimeTx + 1) (w\<lparr> kw_solutions := kw_solutions w @ [(hashProofOfStake, nTimeTx)] \<rparr>)
         else do_loop env sha256C fShutdown (nTimeTx + 1) w)
      else Some w)"
  by pat_completeness auto
termination
  by (relation "measure (\<lambda>(_, _, _, nTimeTx, w). unat (kw_nIntervalEnd w) - unat nTimeTx)")
    (auto simp: unat_after word_less_nat_alt)

definition Do_generic :: "'d node_env \<Rightarrow> (bytes \<Rightarrow> bytes) \<Rightarrow> (32 word \<Rightarrow> bool) \<Rightarrow> KernelWorker \<Rightarrow> KernelWorker option" where
  "Do_generic env sha256C fShutdown w = do_loop env sha256C fShutdown (kw_nIntervalBegin w) w"

fun run_workers :: "(KernelWorker \<Rightarrow> KernelWorker option) \<Rightarrow> KernelWorker list \<Rightarrow> (uint256 \<times> 32 word) list option" where
  "run_workers work [] = Some []"
| "run_workers work (w # ws) = do { w' \<leftarrow> work w; rest \<leftarrow> run_workers work ws; Some (kw_solutions w' @ rest) }"

text \<open>One worker for each of the parts of the interval; \<open>nThreads\<close> is the number of processors.\<close>

definition ScanKernelForward ::
  "'d node_env \<Rightarrow> (bytes \<Rightarrow> bytes) \<Rightarrow> (32 word \<Rightarrow> bool) \<Rightarrow> 32 word \<Rightarrow> bytes \<Rightarrow> 32 word \<Rightarrow> 32 word \<Rightarrow> 64 word \<Rightarrow> 32 word \<times> 32 word \<Rightarrow>
    (bool \<times> (uint256 \<times> 32 word) list) option" where
  "ScanKernelForward env sha256C fShutdown nThreads kern nBits nInputTxTime nValueIn SearchInterval =
     (let
        nThreads = (if nThreads = 0 then 1 else nThreads);
        nPart = (snd SearchInterval - fst SearchInterval) div nThreads;
        workers = map (\<lambda>i. \<lparr> kw_kernel = kern, kw_nBits = nBits, kw_nInputTxTime = nInputTxTime,
          kw_bnValueIn = setint64 (de_bn (ne_diff env)) nValueIn,
          kw_nIntervalBegin = fst SearchInterval + nPart * word_of_nat i,
          kw_nIntervalEnd = fst SearchInterval + nPart * word_of_nat (i + 1), kw_solutions = [] \<rparr>) [0..<unat nThreads]
      in map_option (\<lambda>solutions. (solutions \<noteq> [], solutions)) (run_workers (Do_generic env sha256C fShutdown) workers))"

text \<open>
  The search of the miner over the coins of its map: the coin and the solution, and the time up to which it
  has searched. The map gives the static part of the kernel, the time and the amount of each coin.
\<close>

type_synonym stake_inputs = "((uint256 \<times> 32 word) \<times> bytes \<times> 32 word \<times> 64 word) list"

fun scan_inputs ::
  "'d node_env \<Rightarrow> (32 word \<Rightarrow> bool) \<Rightarrow> 32 word \<Rightarrow> 32 word \<times> 32 word \<Rightarrow> stake_inputs \<Rightarrow> ((uint256 \<times> 32 word) \<times> uint256 \<times> 32 word) option" where
  "scan_inputs env fShutdown nBits interval [] = None"
| "scan_inputs env fShutdown nBits interval ((coin, kern, nTime, nAmount) # inputsMap) =
     (case ScanKernelBackward env kern nBits nTime nAmount fShutdown interval of
        Some solution \<Rightarrow> Some (coin, solution)
      | None \<Rightarrow> scan_inputs env fShutdown nBits interval inputsMap)"

definition nMaxStakeSearchInterval :: "32 word" where "nMaxStakeSearchInterval = 60"

definition ScanMap ::
  "'d node_env \<Rightarrow> (32 word \<Rightarrow> bool) \<Rightarrow> 32 word \<Rightarrow> 32 word \<Rightarrow> stake_inputs \<Rightarrow> 32 word \<Rightarrow>
    ((uint256 \<times> 32 word) \<times> uint256 \<times> 32 word) option \<times> 32 word" where
  "ScanMap env fShutdown nSearchTime nBits inputsMap nLastCoinStakeSearchTime =
     (if inputsMap \<noteq> [] \<and> nSearchTime > nLastCoinStakeSearchTime
      then
        (case scan_inputs env fShutdown nBits
            (nSearchTime, nSearchTime - min (nSearchTime - nLastCoinStakeSearchTime) nMaxStakeSearchInterval) inputsMap of
           Some r \<Rightarrow> (Some r, nLastCoinStakeSearchTime)
         | None \<Rightarrow> (None, nSearchTime))
      else (None, nLastCoinStakeSearchTime))"

section \<open>The walk to the modifier ends\<close>

lemma kernel_walk_fuel:
  assumes "tree_ok m" "links_ok m best"
  shows "map_find h m = Some node \<Longrightarrow> int (length m) \<le> bn_height node + int n \<Longrightarrow> kernel_walk m nUntil n h nHeight nTime \<noteq> None"
proof (induction n arbitrary: h node nHeight nTime)
  case 0
  then have "length (chain_at m (Some h)) \<le> length m" by (intro chain_ok_length chain_at_ok assms(1))
  with chain_at_walk(3) [OF assms(1) 0(1)] 0 show ?case using tree_node(2) [OF assms(1) 0(1)] by simp
next
  case (Suc n)
  show ?case
  proof (cases "bn_pnext node")
    case None
    then show ?thesis using Suc.prems(1) by (subst kernel_walk.simps) simp
  next
    case (Some k)
    have "pnext_of h m = find (\<lambda>j. pprev_of j m = Some h) (branch m best)"
      using assms(2) Suc.prems(1) by (simp add: links_ok_iff [OF tree_ok_map [OF assms(1)]])
    then have "pprev_of k m = Some h" using Some Suc.prems(1) by (auto simp: pnext_of_def find_Some_iff2)
    then obtain node' where n': "map_find k m = Some node'" "bn_pprev node' = Some h" by (auto simp: pprev_of_def bind_eq_Some_conv)
    have "bn_height node' = bn_height node + 1" using tree_node(4) [OF assms(1) n'] Suc.prems(1) by auto
    with Suc.IH [OF n'(1)] Suc.prems n'(1) Some show ?thesis by (subst kernel_walk.simps) simp
  qed
qed

text \<open>On a tree whose links follow a chain the walk ends, so that the fuel is enough.\<close>

lemma GetKernelStakeModifier_returns: "tree_ok m \<Longrightarrow> links_ok m best \<Longrightarrow> GetKernelStakeModifier env m h \<noteq> None"
  using kernel_walk_fuel [of m best h] tree_node(2) [of m h] by (auto simp: GetKernelStakeModifier_def split: option.split)

section \<open>The selection of blocks\<close>

text \<open>What the lists of candidates satisfy: sorted by time, without repetitions, and the blocks are in the map.\<close>

definition cand_ok :: "block_map \<Rightarrow> (int \<times> uint256) list \<Rightarrow> bool" where
  "cand_ok m vSorted \<longleftrightarrow> sorted (map fst vSorted) \<and>
     (\<forall>(t, h) \<in> set vSorted. \<exists>node. map_find h m = Some node \<and> GetBlockTime (bn_index node) = t \<and> bi_hashBlock (bn_index node) = h)"

definition block_of :: "block_map \<Rightarrow> uint256 \<Rightarrow> CBlockIndex" where
  "block_of m h = bn_index (the (map_find h m))"

text \<open>The block that a round takes: no hash of a block up to the time is smaller than its own.\<close>

definition takes ::
  "(bytes \<Rightarrow> uint256) \<Rightarrow> block_map \<Rightarrow> 64 word \<Rightarrow> (int \<times> uint256) list \<Rightarrow> uint256 set \<Rightarrow> int \<Rightarrow> CBlockIndex \<Rightarrow> bool" where
  "takes Hash m nPrev vSorted selected nStop pindex \<longleftrightarrow>
     (GetBlockTime pindex, bi_hashBlock pindex) \<in> set vSorted \<and> pindex = block_of m (bi_hashBlock pindex) \<and> bi_hashBlock pindex \<notin> selected \<and>
     (\<forall>(t, h) \<in> set vSorted. h \<notin> selected \<and> t \<le> nStop \<longrightarrow> selection_hash Hash nPrev pindex \<le> selection_hash Hash nPrev (block_of m h))"

lemma cand_ok_Cons:
  assumes "cand_ok m ((t, h) # v)"
  obtains node where "map_find h m = Some node" "GetBlockTime (bn_index node) = t" "bi_hashBlock (bn_index node) = h"
    "block_of m h = bn_index node" "cand_ok m v" "\<forall>(t', h') \<in> set v. t \<le> t'"
  using assms that unfolding cand_ok_def block_of_def by fastforce

lemma select_loop_best:
  "cand_ok m v \<Longrightarrow> hb = selection_hash Hash nPrev pb \<Longrightarrow>
    \<exists>p. select_loop Hash m selected nStop nPrev v (Some (hb, pb)) = Some p \<and>
      (p = pb \<or> (GetBlockTime p, bi_hashBlock p) \<in> set v \<and> p = block_of m (bi_hashBlock p) \<and> bi_hashBlock p \<notin> set selected) \<and>
      selection_hash Hash nPrev p \<le> hb \<and>
      (\<forall>(t, h) \<in> set v. h \<notin> set selected \<and> t \<le> nStop \<longrightarrow> selection_hash Hash nPrev p \<le> selection_hash Hash nPrev (block_of m h))"
proof (induction v arbitrary: hb pb)
  case (Cons x v)
  obtain t h where x: "x = (t, h)" by (cases x)
  from Cons.prems(1) [unfolded x] obtain node where node: "map_find h m = Some node" "GetBlockTime (bn_index node) = t"
      "bi_hashBlock (bn_index node) = h" "block_of m h = bn_index node" "cand_ok m v" "\<forall>(t', h') \<in> set v. t \<le> t'"
    by (rule cand_ok_Cons)
  show ?case
  proof (cases "t > nStop")
    case True
    then have "\<not> t' \<le> nStop" if "(t', h') \<in> set (x # v)" for t' h'
      using that node(6) x by fastforce
    then show ?thesis using True node(1,2) Cons.prems(2) x by (intro exI [of _ pb]) auto
  next
    case False
    show ?thesis
    proof (cases "h \<in> set selected \<or> \<not> selection_hash Hash nPrev (bn_index node) < hb")
      case True
      with False node(1-3) x have eq: "select_loop Hash m selected nStop nPrev (x # v) (Some (hb, pb)) =
          select_loop Hash m selected nStop nPrev v (Some (hb, pb))" by (auto simp: Let_def)
      from Cons.IH [OF node(5) Cons.prems(2)] obtain p where p: "select_loop Hash m selected nStop nPrev v (Some (hb, pb)) = Some p"
        "p = pb \<or> (GetBlockTime p, bi_hashBlock p) \<in> set v \<and> p = block_of m (bi_hashBlock p) \<and> bi_hashBlock p \<notin> set selected"
        "selection_hash Hash nPrev p \<le> hb"
        "\<forall>(t, h) \<in> set v. h \<notin> set selected \<and> t \<le> nStop \<longrightarrow> selection_hash Hash nPrev p \<le> selection_hash Hash nPrev (block_of m h)"
        by blast
      show ?thesis unfolding eq using p True x node(4) by (intro exI [of _ p]) auto
    next
      case less: False
      define hb' where "hb' = selection_hash Hash nPrev (bn_index node)"
      with False less node(1-3) x have eq: "select_loop Hash m selected nStop nPrev (x # v) (Some (hb, pb)) =
          select_loop Hash m selected nStop nPrev v (Some (hb', bn_index node))" by (auto simp: Let_def)
      from Cons.IH [OF node(5) hb'_def] obtain p where p: "select_loop Hash m selected nStop nPrev v (Some (hb', bn_index node)) = Some p"
        "p = bn_index node \<or> (GetBlockTime p, bi_hashBlock p) \<in> set v \<and> p = block_of m (bi_hashBlock p) \<and> bi_hashBlock p \<notin> set selected"
        "selection_hash Hash nPrev p \<le> hb'"
        "\<forall>(t, h) \<in> set v. h \<notin> set selected \<and> t \<le> nStop \<longrightarrow> selection_hash Hash nPrev p \<le> selection_hash Hash nPrev (block_of m h)"
        by blast
      have "hb' \<le> hb" using less by (simp add: hb'_def order.strict_implies_order)
      then show ?thesis unfolding eq using p less x node(2-4) by (intro exI [of _ p]) (auto simp: hb'_def)
    qed
  qed
qed simp

lemma SelectBlockFromCandidates_takes:
  "cand_ok m v \<Longrightarrow> \<exists>(t, h) \<in> set v. h \<notin> set selected \<Longrightarrow>
    \<exists>p. SelectBlockFromCandidates Hash m v selected nStop nPrev = Some p \<and> takes Hash m nPrev v (set selected) nStop p"
  unfolding SelectBlockFromCandidates_def takes_def
proof (induction v)
  case (Cons x v)
  obtain t h where x: "x = (t, h)" by (cases x)
  from Cons.prems(1) [unfolded x] obtain node where node: "map_find h m = Some node" "GetBlockTime (bn_index node) = t"
      "bi_hashBlock (bn_index node) = h" "block_of m h = bn_index node" "cand_ok m v" "\<forall>(t', h') \<in> set v. t \<le> t'"
    by (rule cand_ok_Cons)
  show ?case
  proof (cases "h \<in> set selected")
    case True
    with node x have eq: "select_loop Hash m selected nStop nPrev (x # v) None = select_loop Hash m selected nStop nPrev v None" by (auto simp: Let_def)
    from Cons.IH [OF node(5)] Cons.prems(2) True x show ?thesis unfolding eq by fastforce
  next
    case False
    define hb where "hb = selection_hash Hash nPrev (bn_index node)"
    with False node x have eq: "select_loop Hash m selected nStop nPrev (x # v) None =
        select_loop Hash m selected nStop nPrev v (Some (hb, bn_index node))" by (auto simp: Let_def)
    from select_loop_best [OF node(5) hb_def, of selected nStop] False node x show ?thesis unfolding eq by (fastforce simp: hb_def)
  qed
qed simp

section \<open>The modifier is made of selected blocks\<close>

definition selects ::
  "(bytes \<Rightarrow> uint256) \<Rightarrow> diff_env \<Rightarrow> block_map \<Rightarrow> 64 word \<Rightarrow> (int \<times> uint256) list \<Rightarrow> int \<Rightarrow> CBlockIndex list \<Rightarrow> bool" where
  "selects Hash env m nPrev v start sel \<longleftrightarrow>
     (\<forall>n < length sel. takes Hash m nPrev v (bi_hashBlock ` set (take n sel))
       (start + (\<Sum>i \<le> n. GetStakeModifierSelectionIntervalSection env i)) (sel ! n))"

definition modifier_bits :: "CBlockIndex list \<Rightarrow> 64 word \<Rightarrow> bool" where
  "modifier_bits sel nStakeModifier \<longleftrightarrow>
     (\<forall>n. bit nStakeModifier n \<longleftrightarrow> n < length sel \<and> GetStakeEntropyBit (sel ! n) \<noteq> 0)"

lemma GetStakeEntropyBit_of_bool: "GetStakeEntropyBit pindex = of_bool (GetStakeEntropyBit pindex \<noteq> 0)"
proof -
  have "GetStakeEntropyBit pindex = drop_bit 1 (bi_nFlags pindex) AND 1"
    unfolding GetStakeEntropyBit_def by (simp add: drop_bit_and)
  also have "\<dots> = of_bool (odd (drop_bit 1 (bi_nFlags pindex)))" by (simp add: and_one_eq odd_iff_mod_2_eq_one)
  finally show ?thesis by simp
qed

lemma bit_entropy:
  assumes "k < 64"
  shows "bit (push_bit k (ucast (GetStakeEntropyBit pindex)) :: 64 word) n \<longleftrightarrow> n = k \<and> GetStakeEntropyBit pindex \<noteq> 0"
  using assms by (subst GetStakeEntropyBit_of_bool, cases "GetStakeEntropyBit pindex = 0") (auto simp: bit_push_bit_iff bit_1_iff bit_exp_iff)

lemma modifier_bits_snoc:
  assumes "modifier_bits sel w" "length sel < 64"
  shows "modifier_bits (sel @ [pindex]) (w OR push_bit (length sel) (ucast (GetStakeEntropyBit pindex)))"
  unfolding modifier_bits_def bit_or_iff bit_entropy [OF assms(2)]
proof
  fix n
  have "bit w n \<longleftrightarrow> n < length sel \<and> GetStakeEntropyBit (sel ! n) \<noteq> 0" using assms(1) by (simp only: modifier_bits_def)
  then show "(bit w n \<or> n = length sel \<and> GetStakeEntropyBit pindex \<noteq> 0) \<longleftrightarrow>
      n < length (sel @ [pindex]) \<and> GetStakeEntropyBit ((sel @ [pindex]) ! n) \<noteq> 0"
    by (cases "n = length sel"; cases "n < length sel") (simp_all add: nth_append)
qed

lemma selects_snoc:
  assumes "selects Hash env m nPrev v start sel"
    "takes Hash m nPrev v (bi_hashBlock ` set sel) (start + (\<Sum>i \<le> length sel. GetStakeModifierSelectionIntervalSection env i)) pindex"
  shows "selects Hash env m nPrev v start (sel @ [pindex])"
  using assms unfolding selects_def by (auto simp: nth_append less_Suc_eq)

lemma selects_distinct: "selects Hash env m nPrev v start sel \<Longrightarrow> distinct (hashes sel)"
proof (induction sel rule: rev_induct)
  case (snoc p sel)
  have "selects Hash env m nPrev v start sel" unfolding selects_def
  proof (intro allI impI)
    fix n assume "n < length sel"
    then show "takes Hash m nPrev v (bi_hashBlock ` set (take n sel))
        (start + (\<Sum>i \<le> n. GetStakeModifierSelectionIntervalSection env i)) (sel ! n)"
      using snoc.prems [unfolded selects_def, rule_format, of n] by (simp add: nth_append)
  qed
  moreover have "bi_hashBlock p \<notin> bi_hashBlock ` set sel"
    using snoc.prems [unfolded selects_def, rule_format, of "length sel"] by (simp add: takes_def)
  ultimately show ?case using snoc.IH by simp
qed simp

lemma select_rounds_selects:
  assumes "cand_ok m v" "distinct (map snd v)" "N \<le> length v" "N \<le> 64"
  shows "selects Hash env m nPrev v start sel \<Longrightarrow> modifier_bits sel w \<Longrightarrow> length sel = k \<Longrightarrow> k \<le> N \<Longrightarrow>
    \<exists>sel' w'. select_rounds Hash env m v nPrev [k..<N] (start + (\<Sum>i < k. GetStakeModifierSelectionIntervalSection env i))
        (rev (hashes sel)) w = Some w' \<and> length sel' = N \<and> selects Hash env m nPrev v start sel' \<and> modifier_bits sel' w'"
proof (induction "N - k" arbitrary: k sel w)
  case 0
  then show ?case by (intro exI [of _ sel] exI [of _ w]) simp
next
  case (Suc n)
  then have k: "k < N" by simp
  have "\<exists>(t, h) \<in> set v. h \<notin> set (rev (hashes sel))"
  proof (rule ccontr)
    assume "\<not> ?thesis"
    then have "set (map snd v) \<subseteq> set (hashes sel)" by fastforce
    then have "card (set (map snd v)) \<le> card (set (hashes sel))" by (intro card_mono) auto
    also have "\<dots> \<le> length sel" by (metis card_length length_map)
    finally show False using distinct_card [OF assms(2)] assms(3) Suc.prems(3) k by simp
  qed
  from SelectBlockFromCandidates_takes [OF assms(1) this, of Hash "start + (\<Sum>i \<le> k. GetStakeModifierSelectionIntervalSection env i)" nPrev]
  obtain p where p: "SelectBlockFromCandidates Hash m v (rev (hashes sel)) (start + (\<Sum>i \<le> k. GetStakeModifierSelectionIntervalSection env i)) nPrev = Some p"
    "takes Hash m nPrev v (bi_hashBlock ` set sel) (start + (\<Sum>i \<le> k. GetStakeModifierSelectionIntervalSection env i)) p" by auto
  have stop: "start + (\<Sum>i < k. GetStakeModifierSelectionIntervalSection env i) + GetStakeModifierSelectionIntervalSection env k =
      start + (\<Sum>i \<le> k. GetStakeModifierSelectionIntervalSection env i)" by (simp add: lessThan_Suc_atMost [symmetric])
  have step: "select_rounds Hash env m v nPrev [k..<N] (start + (\<Sum>i < k. GetStakeModifierSelectionIntervalSection env i)) (rev (hashes sel)) w =
      select_rounds Hash env m v nPrev [Suc k..<N] (start + (\<Sum>i < Suc k. GetStakeModifierSelectionIntervalSection env i)) (rev (hashes (sel @ [p])))
        (w OR push_bit k (ucast (GetStakeEntropyBit p)))"
    using p(1) by (simp add: upt_rec [of k] k stop lessThan_Suc_atMost del: sum.lessThan_Suc)
  show ?case unfolding step
    using Suc.prems Suc.hyps(2) p(2) k assms(4) by (intro Suc.hyps(1)) (auto intro: selects_snoc modifier_bits_snoc)
qed

lemma sorted_fst: "sorted (xs :: (int \<times> uint256) list) \<Longrightarrow> sorted (map fst xs)"
  unfolding sorted_map by (rule sorted_wrt_mono_rel) (auto simp: less_eq_prod_def)

lemma candidates_ok:
  assumes "tree_ok m" "map_find h0 m = Some node"
  shows "cand_ok m (candidates env (chain_at m (Some h0)))" "distinct (map snd (candidates env (chain_at m (Some h0))))"
proof -
  let ?w = "takeWhile (\<lambda>pindex. GetBlockTime pindex \<ge> selection_start env (hd (chain_at m (Some h0)))) (chain_at m (Some h0))"
  have ok: "chain_ok m (chain_at m (Some h0))" by (rule chain_at_ok [OF assms(1)])
  have "\<exists>node. map_find h m = Some node \<and> GetBlockTime (bn_index node) = t \<and> bi_hashBlock (bn_index node) = h"
    if "(t, h) \<in> set (candidates env (chain_at m (Some h0)))" for t h
  proof -
    from that obtain x where "x \<in> set (chain_at m (Some h0))" "t = GetBlockTime x" "h = bi_hashBlock x"
      unfolding candidates_def by (auto dest: set_takeWhileD)
    then show ?thesis using ok by (auto simp: chain_ok_def)
  qed
  then show "cand_ok m (candidates env (chain_at m (Some h0)))"
    unfolding cand_ok_def using sorted_fst [of "candidates env (chain_at m (Some h0))"] by (auto simp: candidates_def)
  have "mset (map snd (candidates env (chain_at m (Some h0)))) = mset (hashes ?w)"
    unfolding candidates_def by (simp add: image_mset.compositionality o_def)
  moreover have "distinct (hashes ?w)"
    using chain_ok_distinct [OF ok] by (metis distinct_append map_append takeWhile_dropWhile_id)
  ultimately show "distinct (map snd (candidates env (chain_at m (Some h0))))"
    by (metis mset_eq_imp_distinct_iff)
qed

lemma GetLastStakeModifier_some: "c \<noteq> [] \<Longrightarrow> GeneratedStakeModifier (last c) \<Longrightarrow> \<exists>r. GetLastStakeModifier c = Some r"
proof -
  have "c \<noteq> [] \<Longrightarrow> GeneratedStakeModifier (last c) \<Longrightarrow> \<exists>p. last_generated c = Some p \<and> GeneratedStakeModifier p"
    by (induction c rule: last_generated.induct) auto
  then show "c \<noteq> [] \<Longrightarrow> GeneratedStakeModifier (last c) \<Longrightarrow> ?thesis" by (fastforce simp: GetLastStakeModifier_def)
qed

text \<open>
  C24. Stake modifier. On a well-formed tree whose genesis block has a modifier, every block gets one: the
  function returns no error. A new modifier is made of the entropy bits of different blocks, one for each of the
  64 rounds as far as there are candidates (the blocks of the selection interval): the block of round n has the
  smallest selection hash of all candidates not taken in earlier rounds up to the end of section n.
\<close>

theorem ComputeNextStakeModifier_selects:
  assumes "tree_ok m" "map_find h m = Some node" "GeneratedStakeModifier (last (chain_at m (Some h)))"
  shows "\<exists>nStakeModifier fGenerated. ComputeNextStakeModifier Hash env m (pindex # chain_at m (Some h)) = Some (nStakeModifier, fGenerated) \<and>
    (fGenerated \<longrightarrow> (\<exists>nPrev t sel. GetLastStakeModifier (chain_at m (Some h)) = Some (nPrev, t) \<and>
       length sel = min 64 (length (candidates env (chain_at m (Some h)))) \<and> distinct (hashes sel) \<and>
       selects Hash env m nPrev (candidates env (chain_at m (Some h))) (selection_start env (bn_index node)) sel \<and>
       modifier_bits sel nStakeModifier))"
proof -
  let ?c = "chain_at m (Some h)"
  have c: "?c = bn_index node # chain_at m (bn_pprev node)" by (rule chain_at_step [OF assms(1,2)])
  then have ne: "?c \<noteq> []" and hd: "hd ?c = bn_index node" by simp_all
  obtain nPrev t where last: "GetLastStakeModifier ?c = Some (nPrev, t)"
    using GetLastStakeModifier_some [OF ne assms(3)] by auto
  let ?v = "candidates env ?c" and ?s = "selection_start env (bn_index node)"
  let ?N = "min 64 (length ?v)"
  have "selects Hash env m nPrev ?v ?s []" "modifier_bits [] 0" by (simp_all add: selects_def modifier_bits_def)
  from select_rounds_selects [OF candidates_ok [OF assms(1,2)] _ _ this, of ?N]
  obtain sel w where sel: "select_rounds Hash env m ?v nPrev [0..<?N] ?s [] 0 = Some w" "length sel = ?N"
    "selects Hash env m nPrev ?v ?s sel" "modifier_bits sel w" by auto
  show ?thesis
  proof (cases "t div nModifierInterval env \<ge> GetBlockTime (bn_index node) div nModifierInterval env \<or>
      (t div nModifierInterval env \<ge> GetBlockTime pindex div nModifierInterval env \<and> IsFixedModifierInterval (bi_nTime pindex))")
    case True
    then have "ComputeNextStakeModifier Hash env m (pindex # ?c) = Some (nPrev, False)"
      unfolding ComputeNextStakeModifier_def using ne last hd by (auto simp: Let_def)
    then show ?thesis by blast
  next
    case False
    then have "ComputeNextStakeModifier Hash env m (pindex # ?c) = Some (w, True)"
      unfolding ComputeNextStakeModifier_def using ne last hd sel(1) by (auto simp: Let_def)
    then show ?thesis using last sel(2-4) selects_distinct [OF sel(3)] by blast
  qed
qed

definition stake_block :: "uint256 \<Rightarrow> 32 word \<Rightarrow> 32 word \<Rightarrow> 32 word \<Rightarrow> CBlockIndex" where
  "stake_block h nHeight nTime nFlags = sample_index\<lparr> bi_hashBlock := h, bi_nHeight := nHeight, bi_nTime := nTime, bi_nFlags := nFlags \<rparr>"

definition stake_tree :: block_map where
  "stake_tree =
     [(1, \<lparr> bn_index = stake_block 1 0 0 6, bn_pprev = None, bn_pnext = Some 2 \<rparr>),
      (2, \<lparr> bn_index = stake_block 2 1 1200 2, bn_pprev = Some 1, bn_pnext = Some 3 \<rparr>),
      (3, \<lparr> bn_index = stake_block 3 2 200000 4, bn_pprev = Some 2, bn_pnext = None \<rparr>)]"

lemmas stake_tree_simps = stake_tree_def stake_block_def map_find_Cons

lemma stake_tree_ok: "tree_ok stake_tree"
  by (simp add: tree_ok_def map_ok_def node_ok_def bn_height_def stake_tree_simps)

lemma stake_chain: "chain_at stake_tree (Some 2) = [stake_block 2 1 1200 2, stake_block 1 0 0 6]"
  by (simp add: chain_at_def stake_tree_def map_find_Cons numeral_eq_Suc)

lemma stake_interval: "nModifierInterval main_net = 600" "GetStakeModifierSelectionInterval main_net = 21135"
  by (simp_all add: GetStakeModifierSelectionInterval_def GetStakeModifierSelectionIntervalSection_def nModifierInterval_def main_net_def upt_rec)

lemma stake_candidates: "length (candidates main_net (chain_at stake_tree (Some 2))) = 2"
  by (simp add: stake_chain candidates_def selection_start_def stake_interval stake_block_def GetBlockTime_def)

theorem ComputeNextStakeModifier_selects_witness:
  "\<exists>nStakeModifier sel nPrev. ComputeNextStakeModifier (\<lambda>_. 0) main_net stake_tree (stake_block 3 2 200000 4 # chain_at stake_tree (Some 2)) =
      Some (nStakeModifier, True) \<and> length sel = 2 \<and> distinct (hashes sel) \<and>
    selects (\<lambda>_. 0) main_net stake_tree nPrev (candidates main_net (chain_at stake_tree (Some 2)))
      (selection_start main_net (stake_block 2 1 1200 2)) sel \<and> modifier_bits sel nStakeModifier"
proof -
  have find: "map_find 2 stake_tree = Some \<lparr> bn_index = stake_block 2 1 1200 2, bn_pprev = Some 1, bn_pnext = Some 3 \<rparr>"
    by (simp add: stake_tree_def map_find_Cons)
  have gen: "GeneratedStakeModifier (last (chain_at stake_tree (Some 2)))"
    by (simp add: stake_chain stake_block_def GeneratedStakeModifier_def)
  obtain r where r: "ComputeNextStakeModifier (\<lambda>_. 0) main_net stake_tree (stake_block 3 2 200000 4 # chain_at stake_tree (Some 2)) = map_option (\<lambda>w. (w, True)) r"
    by (auto simp: stake_chain ComputeNextStakeModifier_def GetLastStakeModifier_def GeneratedStakeModifier_def stake_block_def GetBlockTime_def stake_interval Let_def)
  show ?thesis
    using ComputeNextStakeModifier_selects [OF stake_tree_ok find gen, of "\<lambda>_. 0" main_net "stake_block 3 2 200000 4"]
    unfolding r by (cases r) (auto simp: stake_candidates)
qed

section \<open>The search finds what the check accepts\<close>

lemma sdiv_nonneg: "0 \<le> a \<Longrightarrow> 0 < k \<Longrightarrow> a sdiv k = a div (k :: int)"
  by (simp add: signed_divide_int_def sgn_if zdiv_eq_0_iff)

lemma sdiv_nonpos: "a \<le> 0 \<Longrightarrow> 0 < k \<Longrightarrow> a sdiv k \<le> (0 :: int)"
  by (auto simp: signed_divide_int_def sgn_if pos_imp_zdiv_nonneg_iff)

lemma kernel_target_le:
  assumes "0 \<le> v" "0 \<le> SetCompact (de_bn (ne_diff env)) nBits"
  shows "kernel_target env nBits v a b \<le> max_target env nBits v" "0 \<le> max_target env nBits v"
proof -
  let ?t = "SetCompact (de_bn (ne_diff env)) nBits" and ?w = "GetWeight env (uint a) (uint b)"
  have COIN: "0 < COIN" by (simp add: COIN_def)
  have M: "?w \<le> nStakeMaxAge" "0 \<le> nStakeMaxAge" by (simp_all add: GetWeight_def nStakeMaxAge_def)
  have max: "max_target env nBits v = ?t * v * nStakeMaxAge div (COIN * (24 * 60 * 60))" and nonneg: "0 \<le> ?t * v * nStakeMaxAge"
    using assms M(2) COIN by (simp_all add: max_target_def sdiv_nonneg zdiv_zmult2_eq pos_imp_zdiv_nonneg_iff)
  show pos: "0 \<le> max_target env nBits v" unfolding max using nonneg COIN by (simp add: pos_imp_zdiv_nonneg_iff)
  show "kernel_target env nBits v a b \<le> max_target env nBits v"
  proof (cases "?w \<ge> 0")
    case True
    let ?k = "COIN * (24 * 60 * 60)"
    have "kernel_target env nBits v a b = v * ?w div ?k * ?t"
      using assms True COIN by (simp add: kernel_target_def sdiv_nonneg zdiv_zmult2_eq pos_imp_zdiv_nonneg_iff)
    also have "\<dots> = v * ?w div ?k * ?t * ?k div ?k" using COIN by simp
    also have "\<dots> \<le> ?t * v * nStakeMaxAge div ?k"
    proof (rule zdiv_mono1)
      have "v * ?w div ?k * ?k \<le> v * ?w" using COIN by (simp add: minus_mod_eq_div_mult [symmetric])
      also have "\<dots> \<le> v * nStakeMaxAge" using M assms(1) by (intro mult_left_mono)
      finally have "v * ?w div ?k * ?k * ?t \<le> v * nStakeMaxAge * ?t" using assms(2) by (intro mult_right_mono)
      then show "v * ?w div ?k * ?t * ?k \<le> ?t * v * nStakeMaxAge" by (simp add: mult_ac)
    qed (use COIN in simp)
    finally show ?thesis by (simp add: max)
  next
    case False
    then have "(v * ?w) sdiv COIN sdiv (24 * 60 * 60) \<le> 0"
      using assms(1) COIN by (intro sdiv_nonpos) (simp_all add: mult_nonneg_nonpos)
    then have "kernel_target env nBits v a b \<le> 0" unfolding kernel_target_def using assms(2) by (simp add: mult_nonpos_nonneg)
    then show ?thesis using pos by simp
  qed
qed

definition kernel_meets :: "'d node_env \<Rightarrow> bytes \<Rightarrow> 32 word \<Rightarrow> 32 word \<Rightarrow> int \<Rightarrow> 32 word \<Rightarrow> bool" where
  "kernel_meets env kern nBits nInputTxTime bnValueIn nTimeTx \<longleftrightarrow>
     uint (scan_hash (ne_crypto env) kern nTimeTx) \<le> kernel_target env nBits bnValueIn nInputTxTime nTimeTx"

lemma word_le_before: "e < t \<Longrightarrow> t' \<le> t \<longleftrightarrow> t' = t \<or> t' \<le> t - 1" for t :: "32 word"
proof -
  assume "e < t"
  then have "t \<noteq> 0" by auto
  then have "unat (t - 1) = unat t - 1" "unat t > 0" by (simp_all add: unat_minus_one unat_gt_0)
  then show ?thesis by (auto simp: word_le_nat_alt word_unat_eq_iff)
qed

lemma scan_backward_some:
  assumes "bn_law (de_bn (ne_diff env))" "0 \<le> v" "0 \<le> SetCompact (de_bn (ne_diff env)) nBits" "max_target env nBits v < 2 ^ 256"
  shows "scan_backward env kern nBits nInputTxTime v (\<lambda>_. False) nEnd t = Some (h, s) \<longleftrightarrow>
    nEnd < s \<and> s \<le> t \<and> kernel_meets env kern nBits nInputTxTime v s \<and> h = scan_hash (ne_crypto env) kern s \<and>
    (\<forall>t'. s < t' \<and> t' \<le> t \<longrightarrow> \<not> kernel_meets env kern nBits nInputTxTime v t')"
proof (induction t rule: measure_induct_rule [of unat])
  case (less t)
  note big = conversions [OF assms(1)]
  define rec where "rec = scan_backward env kern nBits nInputTxTime v (\<lambda>_. False) nEnd (t - 1)"
  have filter: "\<not> scan_hash (ne_crypto env) kern t > getuint256 (de_bn (ne_diff env)) (max_target env nBits v)"
    if "kernel_meets env kern nBits nInputTxTime v t"
  proof -
    have "uint (scan_hash (ne_crypto env) kern t) \<le> max_target env nBits v"
      using that kernel_target_le(1) [OF assms(2,3)] unfolding kernel_meets_def by (rule order_trans)
    moreover have "uint (word_of_int \<bar>max_target env nBits v\<bar> :: uint256) = max_target env nBits v"
      using kernel_target_le(2) [OF assms(2,3)] assms(4) by (simp add: uint_word_of_int)
    ultimately show ?thesis by (simp add: big word_less_def)
  qed
  have eq: "scan_backward env kern nBits nInputTxTime v (\<lambda>_. False) nEnd t =
      (if t > nEnd then if kernel_meets env kern nBits nInputTxTime v t then Some (scan_hash (ne_crypto env) kern t, t) else rec else None)"
    using filter by (subst scan_backward.simps) (auto simp: rec_def Let_def kernel_meets_def big)
  show ?case
  proof (cases "t > nEnd")
    case True
    show ?thesis
    proof (cases "kernel_meets env kern nBits nInputTxTime v t")
      case meets: True
      then show ?thesis unfolding eq using True by (auto simp: order.order_iff_strict)
    next
      case False
      have "rec = Some (h, s) \<longleftrightarrow> nEnd < s \<and> s \<le> t - 1 \<and> kernel_meets env kern nBits nInputTxTime v s \<and>
          h = scan_hash (ne_crypto env) kern s \<and> (\<forall>t'. s < t' \<and> t' \<le> t - 1 \<longrightarrow> \<not> kernel_meets env kern nBits nInputTxTime v t')"
        unfolding rec_def by (rule less.IH [OF unat_before [OF True]])
      then show ?thesis unfolding eq using True False word_le_before [OF True] by auto
    qed
  next
    case False
    then show ?thesis unfolding eq by auto
  qed
qed

text \<open>
  C23. Minting. The search of the miner over a coin finds exactly what the check of other nodes accepts: it returns
  the latest time of the interval, and the hash, at which \<^verbatim>\<open>CheckStakeKernelHash\<close> accepts the coin, and nothing
  exactly if there is none. The filter by the largest possible target never skips an acceptable time. Assumed are
  the laws of OpenSSL, that the hash function is the double hash of OpenSSL, an interval after the minimum age of the coin, a
  target that is not negative and a largest target of at most 256 bits.
\<close>

theorem ScanKernelBackward_accepts:
  assumes "bn_law (de_bn (ne_diff (be_node env)))"
    "\<And>b. env_Hash (ne_crypto (be_node env)) b = uint256_of (env_SHA256 (ne_crypto (be_node env)) (env_SHA256 (ne_crypto (be_node env)) b))"
    "GetKernelStakeModifier (ne_diff (be_node env)) m (CBlockHeader_GetHash env blockFrom) = Some (Some (nStakeModifier, nHeight, nTime))"
    "unat (get_n prevout) < length (get_vout txPrev)"
    "nValueIn = get_nValue (get_vout txPrev ! unat (get_n prevout))" "0 \<le> sint nValueIn"
    "0 \<le> SetCompact (de_bn (ne_diff (be_node env))) nBits" "max_target (be_node env) nBits (sint nValueIn) < 2 ^ 256"
    "get_nTime txPrev \<le> nEnd" "bh_nTime blockFrom + word_of_int (nStakeMinAge (be_node env)) \<le> nEnd"
  shows "ScanKernelBackward (be_node env) (kernel_static nStakeModifier (bh_nTime blockFrom) nTxPrevOffset (get_nTime txPrev) (get_n prevout))
      nBits (get_nTime txPrev) nValueIn (\<lambda>_. False) (nBegin, nEnd) = Some (hashProofOfStake, nTimeTx) \<longleftrightarrow>
    nEnd < nTimeTx \<and> nTimeTx \<le> nBegin \<and>
    (\<exists>target. CheckStakeKernelHash env m nBits blockFrom nTxPrevOffset txPrev prevout nTimeTx = Some (True, hashProofOfStake, target)) \<and>
    (\<nexists>t h target. nTimeTx < t \<and> t \<le> nBegin \<and>
       CheckStakeKernelHash env m nBits blockFrom nTxPrevOffset txPrev prevout t = Some (True, h, target))"
proof -
  let ?k = "kernel_static nStakeModifier (bh_nTime blockFrom) nTxPrevOffset (get_nTime txPrev) (get_n prevout)"
  note big = conversions [OF assms(1)]
  have len: "take 24 ?k = ?k" by (simp add: kernel_static_def)
  have check: "CheckStakeKernelHash env m nBits blockFrom nTxPrevOffset txPrev prevout t = Some (True, h, target) \<longleftrightarrow>
      kernel_meets (be_node env) ?k nBits (get_nTime txPrev) (sint nValueIn) t \<and> h = scan_hash (ne_crypto (be_node env)) ?k t \<and>
      target = getuint256 (de_bn (ne_diff (be_node env))) (kernel_target (be_node env) nBits (sint nValueIn) (get_nTime txPrev) t)"
    if "nEnd < t" for t h target
  proof -
    have "\<not> t < get_nTime txPrev" "\<not> bh_nTime blockFrom + word_of_int (nStakeMinAge (be_node env)) > t"
      using that assms(9,10) by auto
    then show ?thesis
      unfolding CheckStakeKernelHash_def
      using assms(3,4) by (auto simp: Let_def assms(2) assms(5) [symmetric] big kernel_meets_def scan_hash_def len linorder_not_less)
  qed
  have one: "(\<exists>target. CheckStakeKernelHash env m nBits blockFrom nTxPrevOffset txPrev prevout t = Some (True, h, target)) \<longleftrightarrow>
      kernel_meets (be_node env) ?k nBits (get_nTime txPrev) (sint nValueIn) t \<and> h = scan_hash (ne_crypto (be_node env)) ?k t"
    if "nEnd < t" for t h
    unfolding check [OF that] by blast
  have any: "(\<exists>h target. CheckStakeKernelHash env m nBits blockFrom nTxPrevOffset txPrev prevout t = Some (True, h, target)) \<longleftrightarrow>
      kernel_meets (be_node env) ?k nBits (get_nTime txPrev) (sint nValueIn) t" if "nEnd < nTimeTx" "nTimeTx < t" for t
    unfolding one [OF order.strict_trans [OF that]] by blast
  show ?thesis
    unfolding ScanKernelBackward_def fst_conv snd_conv big scan_backward_some [OF assms(1,6,7,8)]
    using one [of nTimeTx hashProofOfStake] any by blast
qed

definition stake_env :: "(bytes \<times> bytes) list block_env" where
  "stake_env = \<lparr> be_node = spend_env\<lparr> ne_crypto := sample_env\<lparr> env_Hash := \<lambda>_. 5, env_SHA256 := \<lambda>_. [5] \<rparr> \<rparr>, be_scrypt = (\<lambda>_. 1),
     be_AdjustedTime = 30, be_nBestHeight = 1, be_TotalBlocksEstimate = 0, be_nScriptCheckThreads = 0, be_fUseFastIndex = False \<rparr>"

lemma compact_256: "SetCompact mpi_env (GetCompact mpi_env 256) = 256"
proof -
  have "\<not> k * 2 ^ 15 \<le> 256" if "1 \<le> k" for k :: int using that by simp
  from this [of "256 ^ (unat (drop_bit 24 (GetCompact mpi_env 256)) - 3)"] show ?thesis
    using Set_Get_Compact_truncates [OF bn_law_mpi_env, of 256] by auto
qed

definition stake_tx :: CTransaction where
  "stake_tx = prev_tx\<lparr> get_vout := [\<lparr> get_nValue = 500000000, get_scriptPubKey = [] \<rparr>] \<rparr>"

theorem ScanKernelBackward_accepts_witness:
  "ScanKernelBackward (be_node stake_env) (kernel_static (bi_nStakeModifier sample_index) 0 7 0 0) (GetCompact mpi_env 256) 0 500000000 (\<lambda>_. False) (200001, 200000) =
     Some (5, 200001)"
proof -
  have env: "de_bn main_net = mpi_env" "ne_diff (be_node stake_env) = main_net"
    by (simp_all add: stake_env_def spend_env_def main_net_def)
  have fTestNet: "\<not> fTestNet main_net" by (simp add: main_net_def)
  have modifier: "GetKernelStakeModifier main_net stake_tree (CBlockHeader_GetHash stake_env CBlock_SetNull) =
      Some (Some (bi_nStakeModifier sample_index, 2, 200000))"
  proof -
    note defs = stake_tree_simps GeneratedStakeModifier_def bn_height_def GetBlockTime_def
    have "kernel_walk stake_tree 21135 (Suc n) 1 0 0 = kernel_walk stake_tree 21135 n 2 0 0" for n
      by (subst kernel_walk.simps) (simp add: defs)
    moreover have "kernel_walk stake_tree 21135 (Suc n) 2 0 0 = kernel_walk stake_tree 21135 n 3 2 200000" for n
      by (subst kernel_walk.simps) (simp add: defs)
    moreover have "kernel_walk stake_tree 21135 n 3 2 200000 = Some (Some (bi_nStakeModifier sample_index, 2, 200000))" for n
      by (subst kernel_walk.simps) (simp add: defs)
    moreover have "length stake_tree = Suc (Suc (Suc 0))" by (simp add: stake_tree_def)
    moreover have "map_find 1 stake_tree = Some \<lparr> bn_index = stake_block 1 0 0 6, bn_pprev = None, bn_pnext = Some 2 \<rparr>"
      by (simp add: stake_tree_simps)
    ultimately show ?thesis
      by (simp add: GetKernelStakeModifier_def stake_interval CBlockHeader_GetHash_def stake_env_def stake_block_def GetBlockTime_def bn_height_def)
  qed
  have compact: "SetCompact mpi_env (GetCompact mpi_env 256) = 256" by (rule compact_256)
  have max: "max_target (be_node stake_env) (GetCompact mpi_env 256) (sint (500000000 :: 64 word)) = 11520000"
    by (simp add: max_target_def env compact nStakeMaxAge_def COIN_def sdiv_nonneg)
  have hash: "env_Hash (ne_crypto (be_node stake_env)) b = 5" for b by (simp add: stake_env_def)
  have check: "\<exists>target. CheckStakeKernelHash stake_env stake_tree (GetCompact mpi_env 256) CBlock_SetNull 7 stake_tx \<lparr> get_hash = 9, get_n = 0 \<rparr> 200001 =
      Some (True, 5, target)"
    using modifier compact bn_law_mpi_env
    by (simp add: CheckStakeKernelHash_def env stake_tx_def prev_tx_def CBlock_SetNull_def nStakeMinAge_def fTestNet Let_def conversions kernel_target_def
        GetWeight_def nStakeMaxAge_def COIN_def sdiv_nonneg hash)
  have "env_Hash (ne_crypto (be_node stake_env)) b =
      uint256_of (env_SHA256 (ne_crypto (be_node stake_env)) (env_SHA256 (ne_crypto (be_node stake_env)) b))" for b
    by (simp add: stake_env_def uint256_of_def)
  note Hash = this
  have law: "bn_law (de_bn (ne_diff (be_node stake_env)))" using bn_law_mpi_env by (simp add: env)
  have tx: "unat (get_n \<lparr> get_hash = 9, get_n = 0 \<rparr>) < length (get_vout stake_tx)" "get_nTime stake_tx = 0"
    "500000000 = get_nValue (get_vout stake_tx ! unat (get_n \<lparr> get_hash = 9, get_n = 0 \<rparr>))" by (simp_all add: stake_tx_def prev_tx_def)
  have target: "0 \<le> SetCompact (de_bn (ne_diff (be_node stake_env))) (GetCompact mpi_env 256)"
    "max_target (be_node stake_env) (GetCompact mpi_env 256) (sint (500000000 :: 64 word)) < 2 ^ 256" using compact max by (simp_all add: env)
  have age: "get_nTime stake_tx \<le> 200000" "bh_nTime CBlock_SetNull = 0"
    "bh_nTime CBlock_SetNull + word_of_int (nStakeMinAge (be_node stake_env)) \<le> 200000"
    by (simp_all add: tx(2) CBlock_SetNull_def nStakeMinAge_def env fTestNet)
  note iff = ScanKernelBackward_accepts [OF law Hash modifier [folded env(2)] tx(1) tx(3) _ target age(1) age(3), of 7 200001 5 200001]
  then show ?thesis using check by (simp add: tx(2) age(2) linorder_not_less)
qed

text \<open>
  C25. Forward search. The assertion \<^verbatim>\<open>assert(!"debug hashC == hash1")\<close> always fails: the search forward over an interval with
  at least one second for every thread ends the program at once, although the scan backwards finds the kernels.
\<close>

theorem ScanKernelForward_aborts:
  assumes "nThreads \<noteq> 0" "uint nThreads \<le> uint (nEnd - nBegin)" "nBegin \<le> nEnd" "\<not> fShutdown nBegin"
  shows "ScanKernelForward env sha256C fShutdown nThreads kern nBits nInputTxTime nValueIn (nBegin, nEnd) = None"
proof -
  define nPart where "nPart = (nEnd - nBegin) div nThreads"
  have n: "0 < unat nThreads" "unat nThreads \<le> unat (nEnd - nBegin)" "unat (nEnd - nBegin) = unat nEnd - unat nBegin"
  proof -
    show "0 < unat nThreads" using assms(1) by (simp add: unat_gt_0)
    show "unat nThreads \<le> unat (nEnd - nBegin)" using assms(2) by (simp only: word_le_nat_alt [symmetric] word_le_def)
    show "unat (nEnd - nBegin) = unat nEnd - unat nBegin" by (rule unat_sub [OF assms(3)])
  qed
  have part: "0 < unat nPart" "unat nPart \<le> unat nEnd - unat nBegin"
    unfolding nPart_def unat_div n(3) [symmetric] using n(1,2) by (simp_all add: div_greater_zero_iff)
  have "nBegin < nBegin + nPart"
    using part unsigned_less [of nEnd, where 'a = nat] by (simp add: word_less_nat_alt unat_word_ariths)
  moreover obtain n where "unat nThreads = Suc n" using assms(1) by (cases "unat nThreads") (auto simp: unat_eq_0)
  ultimately show ?thesis
    using assms(1,4)
    by (simp add: ScanKernelForward_def Let_def nPart_def [symmetric] upt_rec [of 0] Do_generic_def do_loop.simps [of _ _ _ nBegin] debug_assertion_def)
qed

theorem ScanKernelForward_aborts_witness:
  "ScanKernelForward spend_env (\<lambda>_. []) (\<lambda>_. False) 4 [] 0 0 0 (100, 110) = None"
  by (rule ScanKernelForward_aborts) simp_all

end
