(* ===== verification/Chain.thy ===== *)
theory Chain
  imports Block_Supply Kernel
begin

text \<open>
  The best chain (\<^verbatim>\<open>SetBestChain\<close> and \<^verbatim>\<open>AddToBlockIndex\<close> of \<^verbatim>\<open>src/src/block/block.cpp\<close>, \<^verbatim>\<open>Reorganize\<close> and
  \<^verbatim>\<open>InvalidChainFound\<close> of \<^verbatim>\<open>src/src/block/block_check.cpp\<close>): the switch to another branch of the tree in one
  database transaction, and what follows for the links of the tree and the memory pool. \<open>None\<close> is a failed
  assertion, an exception or the use of a null pointer.
\<close>

section \<open>The state\<close>

text \<open>The state of \<^verbatim>\<open>block_info\<close>, the database, and the memory pool with the signature cache.\<close>

record ('d, 'f) chain_state =
  ch_mapBlockIndex :: block_map
  ch_pindexGenesisBlock :: "uint256 option"
  ch_pindexBest :: "uint256 option"
  ch_hashBestChain :: uint256
  ch_nBestHeight :: int
  ch_nBestChainTrust :: uint256
  ch_nBestInvalidTrust :: uint256
  ch_setStakeSeen :: "(COutPoint \<times> 32 word) set"
  ch_txdb :: "'d CLevelDB"
  ch_pool :: "'f accept_state"

text \<open>
  What the functions read besides: the surroundings of a block and of the pool, the blocks in the files,
  the hash of the genesis block, and the proofs of stake that were checked.
\<close>

record ('d, 'f) chain_env =
  ce_block :: "'d block_env"
  ce_pool :: "('d, 'f) pool_env"
  ce_files :: "32 word \<Rightarrow> 32 word \<Rightarrow> CBlock option"
  ce_hashGenesisBlock :: uint256
  ce_mapProofOfStake :: "(uint256, uint256) std_map"

abbreviation ce_ldb :: "('d, 'f) chain_env \<Rightarrow> 'd leveldb" where "ce_ldb env \<equiv> ne_ldb (be_node (ce_block env))"
abbreviation ce_Hash :: "('d, 'f) chain_env \<Rightarrow> bytes \<Rightarrow> uint256" where "ce_Hash env \<equiv> env_Hash (ne_crypto (be_node (ce_block env)))"
abbreviation ce_diff :: "('d, 'f) chain_env \<Rightarrow> diff_env" where "ce_diff env \<equiv> ne_diff (be_node (ce_block env))"

text \<open>The height of the best chain is part of what a block reads.\<close>

definition block_env_at :: "('d, 'f) chain_env \<Rightarrow> ('d, 'f) chain_state \<Rightarrow> 'd block_env" where
  "block_env_at env st = (ce_block env)\<lparr> be_nBestHeight := ch_nBestHeight st \<rparr>"

definition hashNext_of :: "uint256 \<Rightarrow> ('d, 'f) chain_state \<Rightarrow> uint256" where
  "hashNext_of h st = (case pnext_of h (ch_mapBlockIndex st) of None \<Rightarrow> 0 | Some p \<Rightarrow> p)"

definition set_index :: "uint256 \<Rightarrow> CBlockIndex \<Rightarrow> ('d, 'f) chain_state \<Rightarrow> ('d, 'f) chain_state" where
  "set_index h index st = st\<lparr> ch_mapBlockIndex := set_node h (\<lambda>node. node\<lparr> bn_index := index \<rparr>) (ch_mapBlockIndex st) \<rparr>"

text \<open>The two functions \<^verbatim>\<open>ReadFromDisk\<close> of a block.\<close>

definition ReadBlock :: "('d, 'f) chain_env \<Rightarrow> 32 word \<Rightarrow> 32 word \<Rightarrow> CBlock option" where
  "ReadBlock env nFile nBlockPos =
     (case ce_files env nFile nBlockPos of
        None \<Rightarrow> None
      | Some block \<Rightarrow>
          if IsProofOfWork block \<and> \<not> CheckProofOfWork (ce_diff env) (CBlockHeader_GetHash (ce_block env) block) (bh_nBits block)
          then None else Some block)"

definition ReadBlockAt :: "('d, 'f) chain_env \<Rightarrow> CBlockIndex \<Rightarrow> CBlock option" where
  "ReadBlockAt env pindex =
     (case ReadBlock env (bi_nFile pindex) (bi_nBlockPos pindex) of
        None \<Rightarrow> None
      | Some block \<Rightarrow> if CBlockHeader_GetHash (ce_block env) block \<noteq> bi_hashBlock pindex then None else Some block)"

section \<open>Reorganize\<close>

text \<open>The loops that disconnect and connect the branches in the open transaction. \<open>Inl\<close> is the result false.\<close>

fun disconnect_branch ::
  "('d, 'f) chain_env \<Rightarrow> uint256 list \<Rightarrow> CTransaction list \<Rightarrow> ('d, 'f) chain_state \<Rightarrow> ((bool \<times> CTransaction list) \<times> ('d, 'f) chain_state) option" where
  "disconnect_branch env [] vResurrect st = Some ((True, vResurrect), st)"
| "disconnect_branch env (pindex # vDisconnect) vResurrect st =
     (let chain = chain_at (ch_mapBlockIndex st) (Some pindex) in
      case ReadBlockAt env (hd chain) of
        None \<Rightarrow> Some ((False, vResurrect), st)
      | Some block \<Rightarrow> do {
          (ok, db) \<leftarrow> DisconnectBlock (block_env_at env st) block chain (ch_txdb st);
          let st = st\<lparr> ch_txdb := db \<rparr>;
          if \<not> ok then Some ((False, vResurrect), st)
          else disconnect_branch env vDisconnect (vResurrect @ filter (\<lambda>tx. \<not> (IsCoinBase tx \<or> IsCoinStake tx)) (get_vtx block)) st })"

text \<open>\<^verbatim>\<open>ConnectBlock\<close> on the state: the entry of the block is changed in memory whether or not it succeeds.\<close>

definition connect_at :: "('d, 'f) chain_env \<Rightarrow> CBlock \<Rightarrow> uint256 \<Rightarrow> ('d, 'f) chain_state \<Rightarrow> (bool \<times> ('d, 'f) chain_state) option" where
  "connect_at env block pindex st = do {
     (v, db, index, cache) \<leftarrow> ConnectBlock (block_env_at env st) (ch_txdb st) (mapTx (as_pool (ch_pool st))) block
       (chain_at (ch_mapBlockIndex st) (Some pindex)) (hashNext_of pindex st) False (as_cache (ch_pool st));
     Some (fst v, (set_index pindex index st)\<lparr> ch_txdb := db, ch_pool := (ch_pool st)\<lparr> as_cache := cache \<rparr> \<rparr>) }"

fun connect_branch ::
  "('d, 'f) chain_env \<Rightarrow> uint256 list \<Rightarrow> CTransaction list \<Rightarrow> ('d, 'f) chain_state \<Rightarrow> ((bool \<times> CTransaction list) \<times> ('d, 'f) chain_state) option" where
  "connect_branch env [] vDelete st = Some ((True, vDelete), st)"
| "connect_branch env (pindex # vConnect) vDelete st =
     (case ReadBlockAt env (hd (chain_at (ch_mapBlockIndex st) (Some pindex))) of
        None \<Rightarrow> Some ((False, vDelete), st)
      | Some block \<Rightarrow> do {
          (ok, st) \<leftarrow> connect_at env block pindex st;
          if \<not> ok then Some ((False, vDelete), st)
          else connect_branch env vConnect (vDelete @ get_vtx block) st })"

fun resurrect :: "('d, 'f) pool_env \<Rightarrow> chain \<Rightarrow> 'd CLevelDB \<Rightarrow> CTransaction list \<Rightarrow> 'f accept_state \<Rightarrow> 'f accept_state option" where
  "resurrect env pindexBest txdb [] pool = Some pool"
| "resurrect env pindexBest txdb (tx # vResurrect) pool =
     Option.bind (accept env pindexBest txdb tx False pool) (\<lambda>(_, pool). resurrect env pindexBest txdb vResurrect pool)"

fun remove_all :: "(bytes \<Rightarrow> uint256) \<Rightarrow> CTransaction list \<Rightarrow> 'f accept_state \<Rightarrow> 'f accept_state option" where
  "remove_all Hash [] pool = Some pool"
| "remove_all Hash (tx # vDelete) pool =
     Option.bind (pool_remove Hash tx (as_pool pool)) (\<lambda>(_, p). remove_all Hash vDelete (pool\<lparr> as_pool := p \<rparr>))"

definition Reorganize :: "('d, 'f) chain_env \<Rightarrow> uint256 \<Rightarrow> ('d, 'f) chain_state \<Rightarrow> (bool \<times> ('d, 'f) chain_state) option" where
  "Reorganize env pindexNew st =
     (let best = chain_at (ch_mapBlockIndex st) (ch_pindexBest st); new = chain_at (ch_mapBlockIndex st) (Some pindexNew) in
      if best = [] \<or> new = [] then None
      else case find_fork best new of
        None \<Rightarrow> Some (False, st)
      | Some pfork \<Rightarrow> do {
          let vDisconnect = path_to pfork best;
          let vConnect = rev (path_to pfork new);
          ((ok, vResurrect), st) \<leftarrow> disconnect_branch env vDisconnect [] st;
          if \<not> ok then Some (False, st)
          else do {
            ((ok, vDelete), st) \<leftarrow> connect_branch env vConnect [] st;
            if \<not> ok then Some (False, st)
            else do {
              (ok, db) \<leftarrow> WriteHashBestChain (ce_ldb env) pindexNew (ch_txdb st);
              let st = st\<lparr> ch_txdb := db \<rparr>;
              if \<not> ok then Some (False, st)
              else do {
                (ok, db) \<leftarrow> TxnCommit (ce_ldb env) (ch_txdb st);
                let st = st\<lparr> ch_txdb := db \<rparr>;
                if \<not> ok then Some (False, st)
                else do {
                  let st = st\<lparr> ch_mapBlockIndex := relink vDisconnect vConnect (ch_mapBlockIndex st) \<rparr>;
                  pool \<leftarrow> resurrect (ce_pool env) (chain_at (ch_mapBlockIndex st) (ch_pindexBest st)) (ch_txdb st) vResurrect (ch_pool st);
                  pool \<leftarrow> remove_all (ce_Hash env) vDelete pool;
                  Some (True, st\<lparr> ch_pool := pool \<rparr>) } } } } })"

section \<open>SetBestChain\<close>

definition invalid_trust_key :: bytes where
  "invalid_trust_key = Serialize_bytes (bytes_of_string ''bnBestInvalidTrust'')"

definition WriteBestInvalidTrust :: "'d leveldb \<Rightarrow> bn_env \<Rightarrow> int \<Rightarrow> 'd CLevelDB \<Rightarrow> (bool \<times> 'd CLevelDB) option" where
  "WriteBestInvalidTrust env bn bnBestInvalidTrust db = db_Write env invalid_trust_key (Serialize_bytes (getvch bn bnBestInvalidTrust)) True db"

definition ReadBestInvalidTrust :: "'d leveldb \<Rightarrow> bn_env \<Rightarrow> 'd CLevelDB \<Rightarrow> int db_read option" where
  "ReadBestInvalidTrust env bn db =
     db_Read env (bind_reader Unserialize_bytes (\<lambda>vch. return_reader (setvch bn vch))) invalid_trust_key db"

text \<open>
  The trust of a block over the one before it, which the messages read; \<open>None\<close> is the null pointer.
\<close>

definition block_trust :: "block_map \<Rightarrow> uint256 option \<Rightarrow> uint256 option" where
  "block_trust m p = do {
     node \<leftarrow> Option.bind p (\<lambda>h. map_find h m);
     prev \<leftarrow> Option.bind (bn_pprev node) (\<lambda>h. map_find h m);
     Some (bi_nChainTrust (bn_index node) - bi_nChainTrust (bn_index prev)) }"

definition best_trust :: "block_map \<Rightarrow> uint256 option \<Rightarrow> uint256 option" where
  "best_trust m p = do {
     node \<leftarrow> Option.bind p (\<lambda>h. map_find h m);
     if bn_height node \<noteq> 0 then block_trust m p else Some (bi_nChainTrust (bn_index node)) }"

text \<open>
  \<^verbatim>\<open>InvalidChainFound\<close> writes through a database object of its own, so outside of any transaction of the caller,
  which has none open at the calls.
\<close>

definition InvalidChainFound :: "('d, 'f) chain_env \<Rightarrow> uint256 \<Rightarrow> ('d, 'f) chain_state \<Rightarrow> ('d, 'f) chain_state option" where
  "InvalidChainFound env pindexNew st = do {
     node \<leftarrow> map_find pindexNew (ch_mapBlockIndex st);
     st \<leftarrow> (if bi_nChainTrust (bn_index node) > ch_nBestInvalidTrust st
       then (let
           st = st\<lparr> ch_nBestInvalidTrust := bi_nChainTrust (bn_index node) \<rparr>;
           bn = de_bn (ce_diff env)
         in map_option (\<lambda>(_, db). st\<lparr> ch_txdb := (ch_txdb st)\<lparr> pdb := pdb db \<rparr> \<rparr>)
           (WriteBestInvalidTrust (ce_ldb env) bn (setuint256 bn (ch_nBestInvalidTrust st)) ((ch_txdb st)\<lparr> activeBatch := None \<rparr>)))
       else Some st);
     _ \<leftarrow> block_trust (ch_mapBlockIndex st) (Some pindexNew);
     _ \<leftarrow> best_trust (ch_mapBlockIndex st) (ch_pindexBest st);
     Some st }"

definition abort_invalid :: "('d, 'f) chain_env \<Rightarrow> uint256 \<Rightarrow> ('d, 'f) chain_state \<Rightarrow> (bool \<times> ('d, 'f) chain_state) option" where
  "abort_invalid env pindexNew st = do {
     (_, db) \<leftarrow> TxnAbort (ch_txdb st);
     st \<leftarrow> InvalidChainFound env pindexNew (st\<lparr> ch_txdb := db \<rparr>);
     Some (False, st) }"

definition SetBestChainInner :: "('d, 'f) chain_env \<Rightarrow> CBlock \<Rightarrow> uint256 \<Rightarrow> ('d, 'f) chain_state \<Rightarrow> (bool \<times> ('d, 'f) chain_state) option" where
  "SetBestChainInner env block pindexNew st = do {
     let hash = CBlockHeader_GetHash (ce_block env) block;
     (ok, st) \<leftarrow> connect_at env block pindexNew st;
     (ok, db) \<leftarrow> (if ok then WriteHashBestChain (ce_ldb env) hash (ch_txdb st) else Some (False, ch_txdb st));
     let st = st\<lparr> ch_txdb := db \<rparr>;
     if \<not> ok then abort_invalid env pindexNew st
     else do {
       (ok, db) \<leftarrow> TxnCommit (ce_ldb env) (ch_txdb st);
       let st = st\<lparr> ch_txdb := db \<rparr>;
       if \<not> ok then Some (False, st)
       else do {
         pprev \<leftarrow> pprev_of pindexNew (ch_mapBlockIndex st);
         let st = st\<lparr> ch_mapBlockIndex := set_pnext (Some pprev) (Some pindexNew) (ch_mapBlockIndex st) \<rparr>;
         pool \<leftarrow> remove_all (ce_Hash env) (get_vtx block) (ch_pool st);
         Some (True, st\<lparr> ch_pool := pool \<rparr>) } } }"

text \<open>The blocks that are connected one by one after the reorganisation, the last one first, and where it stops.\<close>

fun postponed :: "uint256 \<Rightarrow> chain \<Rightarrow> uint256 list \<times> chain" where
  "postponed nBestTrust (pindex # pprev # chain) =
     (if bi_nChainTrust pprev > nBestTrust
      then (case postponed nBestTrust (pprev # chain) of (vpindexSecondary, pindexIntermediate) \<Rightarrow>
        (bi_hashBlock pindex # vpindexSecondary, pindexIntermediate))
      else ([], pindex # pprev # chain))"
| "postponed nBestTrust chain = ([], chain)"

text \<open>The loop over them: it stops at the first one that fails, without an error.\<close>

fun connect_postponed :: "('d, 'f) chain_env \<Rightarrow> uint256 list \<Rightarrow> ('d, 'f) chain_state \<Rightarrow> ('d, 'f) chain_state option" where
  "connect_postponed env [] st = Some st"
| "connect_postponed env (pindex # rest) st =
     (case ReadBlockAt env (hd (chain_at (ch_mapBlockIndex st) (Some pindex))) of
        None \<Rightarrow> Some st
      | Some block \<Rightarrow> do {
          (ok, db) \<leftarrow> TxnBegin (ch_txdb st);
          let st = st\<lparr> ch_txdb := db \<rparr>;
          if \<not> ok then Some st
          else do {
            (ok, st) \<leftarrow> SetBestChainInner env block pindex st;
            if \<not> ok then Some st else connect_postponed env rest st } })"

definition switch_branch :: "('d, 'f) chain_env \<Rightarrow> uint256 \<Rightarrow> ('d, 'f) chain_state \<Rightarrow> (bool \<times> ('d, 'f) chain_state) option" where
  "switch_branch env pindexNew st = do {
     best \<leftarrow> Option.bind (ch_pindexBest st) (\<lambda>h. map_find h (ch_mapBlockIndex st));
     let (vpindexSecondary, pindexIntermediate) =
       postponed (bi_nChainTrust (bn_index best)) (chain_at (ch_mapBlockIndex st) (Some pindexNew));
     if pindexIntermediate = [] then None
     else do {
       (ok, st) \<leftarrow> Reorganize env (bi_hashBlock (hd pindexIntermediate)) st;
       if \<not> ok then abort_invalid env pindexNew st
       else map_option (Pair True) (connect_postponed env (rev vpindexSecondary) st) } }"

definition set_best :: "uint256 \<Rightarrow> uint256 \<Rightarrow> ('d, 'f) chain_state \<Rightarrow> ('d, 'f) chain_state option" where
  "set_best hash pindexNew st = do {
     node \<leftarrow> map_find pindexNew (ch_mapBlockIndex st);
     _ \<leftarrow> best_trust (ch_mapBlockIndex st) (Some pindexNew);
     Some (st\<lparr> ch_hashBestChain := hash, ch_pindexBest := Some pindexNew,
       ch_nBestHeight := bn_height node, ch_nBestChainTrust := bi_nChainTrust (bn_index node) \<rparr>) }"

definition SetBestChain :: "('d, 'f) chain_env \<Rightarrow> CBlock \<Rightarrow> uint256 \<Rightarrow> ('d, 'f) chain_state \<Rightarrow> (bool \<times> ('d, 'f) chain_state) option" where
  "SetBestChain env block pindexNew st = do {
     let hash = CBlockHeader_GetHash (ce_block env) block;
     (ok, db) \<leftarrow> TxnBegin (ch_txdb st);
     let st = st\<lparr> ch_txdb := db \<rparr>;
     if \<not> ok then Some (False, st)
     else do {
       (ok, st) \<leftarrow> (if ch_pindexGenesisBlock st = None \<and> hash = ce_hashGenesisBlock env
          then do {
            (_, db) \<leftarrow> WriteHashBestChain (ce_ldb env) hash (ch_txdb st);
            (ok, db) \<leftarrow> TxnCommit (ce_ldb env) db;
            let st = st\<lparr> ch_txdb := db \<rparr>;
            Some (if ok then (True, st\<lparr> ch_pindexGenesisBlock := Some pindexNew \<rparr>) else (False, st)) }
          else if bh_hashPrevBlock block = ch_hashBestChain st then SetBestChainInner env block pindexNew st
          else switch_branch env pindexNew st);
       if \<not> ok then Some (False, st) else map_option (Pair True) (set_best hash pindexNew st) } }"

section \<open>AddToBlockIndex\<close>

definition AddToBlockIndex :: "('d, 'f) chain_env \<Rightarrow> CBlock \<Rightarrow> 32 word \<Rightarrow> 32 word \<Rightarrow> ('d, 'f) chain_state \<Rightarrow> (bool \<times> ('d, 'f) chain_state) option" where
  "AddToBlockIndex env block nFile nBlockPos st =
     (let
        hash = CBlockHeader_GetHash (ce_block env) block;
        m = ch_mapBlockIndex st
      in
      if map_find hash m \<noteq> None then Some (False, st)
      else do {
        let prev = (if map_find (bh_hashPrevBlock block) m = None then None else Some (bh_hashPrevBlock block));
        let prevs = chain_at m prev;
        let pindex = (new_CBlockIndex nFile nBlockPos block)\<lparr> bi_hashBlock := hash \<rparr>;
        let pindex = (if prevs = [] then pindex else pindex\<lparr> bi_nHeight := bi_nHeight (hd prevs) + 1 \<rparr>);
        trust \<leftarrow> GetBlockTrust (de_bn (ce_diff env)) (pindex # prevs);
        let pindex = pindex\<lparr> bi_nChainTrust := (if prevs = [] then 0 else bi_nChainTrust (hd prevs)) + trust \<rparr>;
        let (ok, pindex) = SetStakeEntropyBit pindex (CBlock_GetStakeEntropyBit (ce_block env) block);
        if \<not> ok then Some (False, st)
        else if bi_IsProofOfStake pindex \<and> map_find hash (ce_mapProofOfStake env) = None then Some (False, st)
        else do {
          let pindex = (case (bi_IsProofOfStake pindex, map_find hash (ce_mapProofOfStake env)) of
              (True, Some proof) \<Rightarrow> pindex\<lparr> bi_hashProofOfStake := proof \<rparr>
            | _ \<Rightarrow> pindex);
          (case ComputeNextStakeModifier (ce_Hash env) (ce_diff env) m (pindex # prevs) of
             None \<Rightarrow> Some (False, st)
           | Some (nStakeModifier, fGenerated) \<Rightarrow> do {
               let pindex = SetStakeModifier pindex nStakeModifier fGenerated;
               checksum \<leftarrow> GetStakeModifierChecksum (ce_Hash env) (ce_hashGenesisBlock env) (pindex # prevs);
               let pindex = pindex\<lparr> bi_nStakeModifierChecksum := checksum \<rparr>;
               if \<not> CheckStakeModifierCheckpoints (fTestNet (ce_diff env)) (sint (bi_nHeight pindex)) (bi_nStakeModifierChecksum pindex) then Some (False, st)
               else do {
                 let st = st\<lparr> ch_mapBlockIndex := map_set hash \<lparr> bn_index = pindex, bn_pprev = prev, bn_pnext = None \<rparr> m \<rparr>;
                 let st = (if bi_IsProofOfStake pindex
                   then st\<lparr> ch_setStakeSeen := insert (bi_prevoutStake pindex, bi_nStakeTime pindex) (ch_setStakeSeen st) \<rparr> else st);
                 (ok, db) \<leftarrow> TxnBegin (ch_txdb st);
                 if \<not> ok then Some (False, st\<lparr> ch_txdb := db \<rparr>)
                 else do {
                   (_, db) \<leftarrow> WriteBlockIndex (ce_block env) (new_CDiskBlockIndex (pindex # prevs) 0) db;
                   (ok, db) \<leftarrow> TxnCommit (ce_ldb env) db;
                   let st = st\<lparr> ch_txdb := db \<rparr>;
                   if \<not> ok then Some (False, st)
                   else if bi_nChainTrust pindex > ch_nBestChainTrust st then SetBestChain env block hash st
                   else Some (True, st) } } }) } })"

section \<open>What a failure leaves alone\<close>

text \<open>Inside an open transaction: nothing reaches the disk.\<close>

definition in_txn :: "'d CLevelDB \<Rightarrow> 'd CLevelDB \<Rightarrow> bool" where
  "in_txn db db' \<longleftrightarrow> pdb db' = pdb db \<and> activeBatch db' \<noteq> None \<and> fSecure db' = fSecure db \<and> fReadOnly db' = fReadOnly db"

named_theorems txn_frames \<open>operations on the database keep the transaction open\<close>

lemma in_txn_refl: "activeBatch db \<noteq> None \<Longrightarrow> in_txn db db"
  by (simp add: in_txn_def)

lemma db_Write_in_txn [txn_frames]: "db_Write ldb k v True db = Some (ok, db') \<Longrightarrow> in_txn d db \<Longrightarrow> in_txn d db'"
  by (auto simp: db_Write_def WriteNormal_def WriteSecure_def in_txn_def split: if_splits option.splits)

lemma db_Erase_in_txn [txn_frames]: "db_Erase ldb k db = Some (ok, db') \<Longrightarrow> in_txn d db \<Longrightarrow> in_txn d db'"
  by (auto simp: db_Erase_def EraseNormal_def EraseSecure_def in_txn_def split: if_splits option.splits)

lemma UpdateTxIndex_in_txn [txn_frames]: "UpdateTxIndex ldb h x db = Some (ok, db') \<Longrightarrow> in_txn d db \<Longrightarrow> in_txn d db'"
  unfolding UpdateTxIndex_def by (rule db_Write_in_txn)

lemma WriteBlockIndex_in_txn [txn_frames]: "WriteBlockIndex env x db = Some (ok, db') \<Longrightarrow> in_txn d db \<Longrightarrow> in_txn d db'"
  unfolding WriteBlockIndex_def by (auto split: prod.splits dest: db_Write_in_txn)

lemma WriteHashBestChain_in_txn [txn_frames]: "WriteHashBestChain ldb h db = Some (ok, db') \<Longrightarrow> in_txn d db \<Longrightarrow> in_txn d db'"
  unfolding WriteHashBestChain_def by (rule db_Write_in_txn)

lemma write_queued_in_txn [txn_frames]:
  "write_queued (UpdateTxIndex ldb) m db = Some (ok, db') \<Longrightarrow> in_txn d db \<Longrightarrow> in_txn d db'"
proof (induction m arbitrary: db)
  case (Cons x m)
  obtain h txindex where x: "x = (h, txindex)" by (cases x)
  from Cons.prems(1) obtain ok1 db1 where u: "UpdateTxIndex ldb h txindex db = Some (ok1, db1)"
    by (auto simp: x split: option.splits)
  have "in_txn d db1" using UpdateTxIndex_in_txn [OF u Cons.prems(2)] .
  then show ?case using Cons.IH [of db1] Cons.prems(1) by (auto simp: x u split: bool.splits)
qed simp

lemma disconnect_loop_in_txn [txn_frames]:
  "disconnect_loop rd (UpdateTxIndex ldb) vin db = Some (ok, db') \<Longrightarrow> in_txn d db \<Longrightarrow> in_txn d db'"
proof (induction vin arbitrary: db)
  case (Cons txin vin)
  then show ?case
    by (auto simp: Let_def split: option.splits db_read.splits if_splits bool.splits dest: UpdateTxIndex_in_txn)
qed simp

lemma DisconnectInputs_in_txn [txn_frames]: "DisconnectInputs env tx db = Some (ok, db') \<Longrightarrow> in_txn d db \<Longrightarrow> in_txn d db'"
  unfolding DisconnectInputs_def EraseTxIndex_def
  by (auto split: option.splits if_splits bool.splits bind_splits; blast intro: db_Erase_in_txn disconnect_loop_in_txn)

lemma disconnect_txs_in_txn [txn_frames]: "disconnect_txs env vtx db = Some (ok, db') \<Longrightarrow> in_txn d db \<Longrightarrow> in_txn d db'"
  by (induction env vtx db rule: disconnect_txs.induct)
    (auto split: option.splits bool.splits; blast intro: DisconnectInputs_in_txn)+

lemma DisconnectBlock_in_txn [txn_frames]: "DisconnectBlock env block chain db = Some (ok, db') \<Longrightarrow> in_txn d db \<Longrightarrow> in_txn d db'"
  unfolding DisconnectBlock_def
  by (auto split: bind_splits if_splits; blast intro: disconnect_txs_in_txn WriteBlockIndex_in_txn)

lemma write_block_in_txn:
  "write_block env db chain hashNext fJustCheck st cache = Some (v, db', index, cache') \<Longrightarrow> in_txn d db \<Longrightarrow>
    in_txn d db' \<and> bi_hashBlock index = bi_hashBlock (hd chain) \<and> bi_nHeight index = bi_nHeight (hd chain)"
  unfolding write_block_def Let_def
  by (auto split: bind_splits if_splits; blast intro: WriteBlockIndex_in_txn write_queued_in_txn)

lemma ConnectBlock_in_txn:
  "ConnectBlock env db pool block chain hashNext fJustCheck cache = Some (v, db', index, cache') \<Longrightarrow> in_txn d db \<Longrightarrow>
    in_txn d db' \<and> bi_hashBlock index = bi_hashBlock (hd chain) \<and> bi_nHeight index = bi_nHeight (hd chain)"
  unfolding ConnectBlock_def Let_def
  by (auto split: bind_splits if_splits option.splits; blast dest: write_block_in_txn)

text \<open>The memory that a failure leaves as it was: entries may have new amounts, but the tree is the same.\<close>

definition kept :: "('d, 'f) chain_state \<Rightarrow> ('d, 'f) chain_state \<Rightarrow> bool" where
  "kept st st' \<longleftrightarrow> ch_pindexGenesisBlock st' = ch_pindexGenesisBlock st \<and> ch_pindexBest st' = ch_pindexBest st \<and>
     ch_hashBestChain st' = ch_hashBestChain st \<and> ch_nBestHeight st' = ch_nBestHeight st \<and>
     ch_nBestChainTrust st' = ch_nBestChainTrust st \<and> ch_setStakeSeen st' = ch_setStakeSeen st \<and>
     as_pool (ch_pool st') = as_pool (ch_pool st) \<and> map_ok (ch_mapBlockIndex st') \<and>
     tree_shape (ch_mapBlockIndex st') = tree_shape (ch_mapBlockIndex st) \<and>
     (\<forall>h. pnext_of h (ch_mapBlockIndex st') = pnext_of h (ch_mapBlockIndex st))"

lemma kept_refl: "map_ok (ch_mapBlockIndex st) \<Longrightarrow> kept st st"
  by (simp add: kept_def)

lemma kept_trans: "kept st st' \<Longrightarrow> kept st' st'' \<Longrightarrow> kept st st''"
  by (simp add: kept_def)

lemma kept_txdb [simp]: "kept st (st'\<lparr> ch_txdb := db \<rparr>) \<longleftrightarrow> kept st st'" "kept (st\<lparr> ch_txdb := db \<rparr>) st' \<longleftrightarrow> kept st st'"
    "kept st (st'\<lparr> ch_nBestInvalidTrust := t \<rparr>) \<longleftrightarrow> kept st st'"
  by (simp_all add: kept_def)

lemma chain_at_hd: "map_find h m = Some node \<Longrightarrow> hd (chain_at m (Some h)) = bn_index node"
  by (cases m) (simp_all add: chain_at_def)

lemma connect_at_keeps:
  assumes "connect_at env block pindex st = Some (ok, st')" "in_txn d (ch_txdb st)" "map_ok (ch_mapBlockIndex st)"
  shows "kept st st' \<and> in_txn d (ch_txdb st')"
proof -
  from assms(1) obtain v db index cache where c: "ConnectBlock (block_env_at env st) (ch_txdb st) (mapTx (as_pool (ch_pool st))) block
       (chain_at (ch_mapBlockIndex st) (Some pindex)) (hashNext_of pindex st) False (as_cache (ch_pool st)) = Some (v, db, index, cache)"
    "st' = (set_index pindex index st)\<lparr> ch_txdb := db, ch_pool := (ch_pool st)\<lparr> as_cache := cache \<rparr> \<rparr>"
    unfolding connect_at_def by (auto split: bind_splits)
  note f = ConnectBlock_in_txn [OF c(1) assms(2)]
  have "tree_shape (set_node pindex (\<lambda>node. node\<lparr> bn_index := index \<rparr>) (ch_mapBlockIndex st)) = tree_shape (ch_mapBlockIndex st)"
    using f chain_at_hd by (intro tree_shape_set_node [OF assms(3)]) auto
  then show ?thesis using f assms(3) c(2)
    by (auto simp: kept_def set_index_def pnext_of_def map_find_set_node bind_map_option o_def)
qed

lemma disconnect_branch_keeps:
  "disconnect_branch env v vResurrect st = Some ((ok, r), st') \<Longrightarrow> in_txn d (ch_txdb st) \<Longrightarrow> map_ok (ch_mapBlockIndex st) \<Longrightarrow>
    kept st st' \<and> in_txn d (ch_txdb st') \<and> ch_mapBlockIndex st' = ch_mapBlockIndex st"
proof (induction v arbitrary: vResurrect st)
  case (Cons pindex v)
  show ?case
  proof (cases "ReadBlockAt env (hd (chain_at (ch_mapBlockIndex st) (Some pindex)))")
    case None
    then show ?thesis using Cons.prems by (auto simp: kept_refl Let_def)
  next
    case (Some block)
    from Cons.prems(1) Some obtain ok1 db where
      d: "DisconnectBlock (block_env_at env st) block (chain_at (ch_mapBlockIndex st) (Some pindex)) (ch_txdb st) = Some (ok1, db)"
      by (auto simp: Let_def split: bind_splits)
    note t = DisconnectBlock_in_txn [OF d Cons.prems(2)]
    show ?thesis
    proof (cases ok1)
      case True
      then obtain r1 where "disconnect_branch env v r1 (st\<lparr> ch_txdb := db \<rparr>) = Some ((ok, r), st')"
        using Cons.prems(1) Some d by (auto simp: Let_def)
      from Cons.IH [OF this] t Cons.prems(3) show ?thesis by simp
    qed (use Cons.prems Some d t in \<open>auto simp: Let_def kept_refl\<close>)
  qed
qed (auto simp: kept_refl)

lemma connect_branch_keeps:
  "connect_branch env v vDelete st = Some ((ok, r), st') \<Longrightarrow> in_txn d (ch_txdb st) \<Longrightarrow> map_ok (ch_mapBlockIndex st) \<Longrightarrow>
    kept st st' \<and> in_txn d (ch_txdb st')"
proof (induction v arbitrary: vDelete st)
  case (Cons pindex v)
  show ?case
  proof (cases "ReadBlockAt env (hd (chain_at (ch_mapBlockIndex st) (Some pindex)))")
    case None
    then show ?thesis using Cons.prems by (auto simp: kept_refl)
  next
    case (Some block)
    from Cons.prems(1) Some obtain ok1 st1 where c: "connect_at env block pindex st = Some (ok1, st1)"
      by (auto split: bind_splits)
    note k = connect_at_keeps [OF c Cons.prems(2,3)]
    then have m1: "map_ok (ch_mapBlockIndex st1)" by (simp add: kept_def)
    show ?thesis
    proof (cases ok1)
      case True
      then have "connect_branch env v (vDelete @ get_vtx block) st1 = Some ((ok, r), st')" using Cons.prems(1) Some c by simp
      from Cons.IH [OF this conjunct2 [OF k] m1] k show ?thesis by (blast intro: kept_trans)
    qed (use Cons.prems(1) Some c k in auto)
  qed
qed (auto simp: kept_refl)

text \<open>The same tree has the same chains of hashes.\<close>

lemma kept_tree:
  assumes "kept st st'" "tree_ok (ch_mapBlockIndex st)"
  shows "tree_ok (ch_mapBlockIndex st')" "branch (ch_mapBlockIndex st') p = branch (ch_mapBlockIndex st) p"
    "links_ok (ch_mapBlockIndex st') p \<longleftrightarrow> links_ok (ch_mapBlockIndex st) p"
proof -
  have k: "tree_shape (ch_mapBlockIndex st) = tree_shape (ch_mapBlockIndex st')" "map_ok (ch_mapBlockIndex st')"
    "map_ok (ch_mapBlockIndex st)" "\<And>h. pnext_of h (ch_mapBlockIndex st') = pnext_of h (ch_mapBlockIndex st)"
    using assms by (simp_all add: kept_def tree_ok_map)
  show "tree_ok (ch_mapBlockIndex st')" by (rule tree_shape_ok [OF k(1,2) assms(2)])
  show b: "branch (ch_mapBlockIndex st') p = branch (ch_mapBlockIndex st) p" for p by (rule tree_shape_branch [OF k(1,3,2), symmetric])
  show "links_ok (ch_mapBlockIndex st') p \<longleftrightarrow> links_ok (ch_mapBlockIndex st) p"
    unfolding links_ok_iff [OF k(2)] links_ok_iff [OF k(3)] b k(4) tree_shape_pprev [OF k(1)] tree_shape_None [OF k(1)] ..
qed

section \<open>A successful reorganisation\<close>

definition bestchain_key :: bytes where
  "bestchain_key = Serialize_bytes (bytes_of_string ''hashBestChain'')"

lemma commit_write:
  assumes "leveldb_law ldb content" "db_Write ldb k v True db = Some (True, db1)" "in_txn d db" "TxnCommit ldb db1 = Some (True, db2)"
  shows "content (pdb db2) k = Some v"
proof -
  from assms(3) obtain b where b: "activeBatch db = Some b" by (auto simp: in_txn_def)
  from assms(4) have sec: "\<not> fSecure db1" by (auto simp: TxnCommit_def split: if_splits)
  moreover have "fSecure db1 = fSecure db"
    using assms(2) b by (auto simp: db_Write_def WriteSecure_def WriteNormal_def split: if_splits)
  ultimately have db1: "activeBatch db1 = Some (b @ [BatchPut k v])"
    using assms(2) b by (auto simp: db_Write_def WriteNormal_def split: if_splits)
  from assms(4) sec db1 obtain d2 where "ldb_Write ldb (pdb db1) (b @ [BatchPut k v]) = (True, d2)" "pdb db2 = d2"
    by (auto simp: TxnCommit_def split: prod.splits)
  from leveldb_lawD(4) [OF assms(1) this(1)] this(2) show ?thesis by (simp add: apply_batch_append)
qed

lemma commit_best:
  assumes "leveldb_law ldb content" "WriteHashBestChain ldb h db = Some (True, db1)" "in_txn d db" "TxnCommit ldb db1 = Some (True, db2)"
  shows "content (pdb db2) bestchain_key = Some (Serialize_word h)"
  using commit_write [OF assms(1) assms(2) [unfolded WriteHashBestChain_def] assms(3,4)] by (simp add: bestchain_key_def)

text \<open>
  C7. Reorganisation. When \<^verbatim>\<open>Reorganize\<close> succeeds on a well-formed tree whose links follow the best chain, the tree is still
  well-formed, the links follow the chain of the new block, so that exactly its blocks are in the main chain,
  and the disk names the new block as the tip of the best chain.
\<close>

theorem Reorganize_relinks:
  assumes "Reorganize env pindexNew st = Some (True, st')" "leveldb_law (ce_ldb env) content" "activeBatch (ch_txdb st) \<noteq> None"
    "tree_ok (ch_mapBlockIndex st)" "links_ok (ch_mapBlockIndex st) (Some b)" "ch_pindexBest st = Some b"
    "last (chain_at (ch_mapBlockIndex st) (Some b)) = last (chain_at (ch_mapBlockIndex st) (Some pindexNew))"
  shows "tree_ok (ch_mapBlockIndex st') \<and> links_ok (ch_mapBlockIndex st') (Some pindexNew) \<and>
    branch (ch_mapBlockIndex st') (Some pindexNew) = branch (ch_mapBlockIndex st) (Some pindexNew) \<and>
    content (pdb (ch_txdb st')) bestchain_key = Some (Serialize_word pindexNew)"
proof -
  let ?m = "ch_mapBlockIndex st"
  let ?best = "chain_at ?m (Some b)" and ?new = "chain_at ?m (Some pindexNew)"
  have ne: "?best \<noteq> []" "?new \<noteq> []" using assms(1) unfolding Reorganize_def assms(6) Let_def by (auto split: if_splits)
  then have found: "map_find b ?m \<noteq> None" "map_find pindexNew ?m \<noteq> None" using chain_at_missing by blast+
  have t: "tree_chain ?m ?best" "tree_chain ?m ?new" using found tree_chain_at [OF assms(4)] by blast+
  from find_fork_spec [OF assms(4) t assms(7)] obtain pfork xs ys where f: "find_fork ?best ?new = Some pfork" "pfork \<noteq> []"
    "?best = xs @ pfork" "?new = ys @ pfork" by blast
  have path: "path_to pfork ?best = hashes xs" "path_to pfork ?new = hashes ys"
    unfolding f(3,4) using t path_to_append [OF _ f(2), of ?m] by (simp_all add: tree_chain_def f(3,4))
  from assms(1) obtain r st1 where s1: "disconnect_branch env (hashes xs) [] st = Some ((True, r), st1)"
    unfolding Reorganize_def assms(6) Let_def by (auto simp: ne f(1) path split: bind_splits if_splits)
  with assms(1) obtain r2 st2 where s2: "connect_branch env (rev (hashes ys)) [] st1 = Some ((True, r2), st2)"
    unfolding Reorganize_def assms(6) Let_def by (auto simp: ne f(1) path split: bind_splits if_splits)
  with assms(1) s1 obtain db where s3: "WriteHashBestChain (ce_ldb env) pindexNew (ch_txdb st2) = Some (True, db)"
    unfolding Reorganize_def assms(6) Let_def by (auto simp: ne f(1) path split: bind_splits if_splits)
  with assms(1) s1 s2 obtain db' where s4: "TxnCommit (ce_ldb env) db = Some (True, db')"
    unfolding Reorganize_def assms(6) Let_def by (auto simp: ne f(1) path split: bind_splits if_splits)
  from assms(1) s1 s2 s3 s4 have st': "ch_mapBlockIndex st' = relink (hashes xs) (rev (hashes ys)) (ch_mapBlockIndex st2)" "ch_txdb st' = db'"
    unfolding Reorganize_def assms(6) Let_def by (auto simp: ne f(1) path split: bind_splits if_splits)
  note ok = tree_ok_map [OF assms(4)]
  note k1 = disconnect_branch_keeps [OF s1 in_txn_refl [OF assms(3)] ok]
  then have ok1: "map_ok (ch_mapBlockIndex st1)" using ok by simp
  note k2 = connect_branch_keeps [OF s2 _ ok1, of "ch_txdb st"]
  have k: "kept st st2" "in_txn (ch_txdb st) (ch_txdb st2)" using k1 k2 by (auto intro: kept_trans)
  note T = kept_tree [OF k(1) assms(4)]
  have "links_ok (relink (hashes xs) (rev (hashes ys)) (ch_mapBlockIndex st2)) (Some pindexNew)"
    using relink_links [OF T(1), of "Some b" "hashes xs" "hashes pfork" "Some pindexNew" "hashes ys"] T(2,3) assms(5) f(3,4) by simp
  moreover note r = relink_facts [OF tree_ok_map [OF T(1)], where xs = "hashes xs" and ys = "rev (hashes ys)"]
  ultimately show ?thesis
    unfolding st' using commit_best [OF assms(2) s3 k(2) s4] tree_shape_ok [OF r(2) [symmetric] r(1) T(1)]
      tree_shape_branch [OF r(2) r(1) tree_ok_map [OF T(1)]] T(2) by simp
qed

definition demo_chain_env :: "((bytes \<times> bytes) list, nat) chain_env" where
  "demo_chain_env = \<lparr> ce_block = demo_env, ce_pool = test_env, ce_files = (\<lambda>_ _. Some demo_block), ce_hashGenesisBlock = 7, ce_mapProofOfStake = [] \<rparr>"

definition demo_tree :: block_map where
  "demo_tree = [(0, \<lparr> bn_index = sample_index\<lparr> bi_hashBlock := 0, bi_nHeight := 1 \<rparr>, bn_pprev = Some 7, bn_pnext = None \<rparr>),
     (7, \<lparr> bn_index = sample_index, bn_pprev = None, bn_pnext = None \<rparr>)]"

definition demo_state :: "((bytes \<times> bytes) list, nat) chain_state" where
  "demo_state = \<lparr> ch_mapBlockIndex = demo_tree, ch_pindexGenesisBlock = Some 7, ch_pindexBest = Some 7, ch_hashBestChain = 7, ch_nBestHeight = 1,
     ch_nBestChainTrust = 1, ch_nBestInvalidTrust = 0, ch_setStakeSeen = {}, ch_txdb = spend_db, ch_pool = start_state \<rparr>"

lemma demo_tree_ok: "tree_ok demo_tree"
  by (simp add: tree_ok_def map_ok_def node_ok_def bn_height_def demo_tree_def map_find_Cons sample_index_def)

lemma demo_tree_chains: "chain_at demo_tree (Some 7) = [sample_index]" "chain_at demo_tree (Some 0) = demo_chain"
  by (simp_all add: chain_at_def demo_tree_def map_find_Cons demo_chain_def)

lemma demo_links: "links_ok demo_tree (Some 7)"
  unfolding links_ok_def demo_tree_chains by (simp add: demo_tree_def pprev_of_def map_find_Cons sample_index_def)

lemma demo_block_env: "block_env_at demo_chain_env demo_state = demo_env"
  by (simp add: block_env_at_def demo_chain_env_def demo_state_def demo_env_def)

lemma demo_read: "ReadBlockAt demo_chain_env (hd demo_chain) = Some demo_block"
  using demo_work by (simp add: ReadBlockAt_def ReadBlock_def demo_chain_env_def CBlockHeader_GetHash_def demo_chain_def demo_block_def)

lemma demo_Reorganize: "\<exists>st'. Reorganize demo_chain_env 0 demo_state = Some (True, st')"
proof -
  obtain db1 pindex cache' where c: "ConnectBlock demo_env spend_db [] demo_block demo_chain 0 False empty_cache = Some ((True, 0), db1, pindex, cache')"
    using demo_ConnectBlock by blast
  have "in_txn spend_db db1" using ConnectBlock_in_txn [OF c in_txn_refl] spend_side_conditions(7) by blast
  then have t: "activeBatch db1 \<noteq> None" "\<not> fSecure db1" "\<not> fReadOnly db1" by (simp_all add: in_txn_def spend_db_def)
  then obtain db2 where w: "WriteHashBestChain list_db 0 db1 = Some (True, db2)" "activeBatch db2 \<noteq> None" "\<not> fSecure db2"
    by (auto simp: WriteHashBestChain_def db_Write_def WriteNormal_def)
  then obtain db3 where w3: "TxnCommit list_db db2 = Some (True, db3)" by (auto simp: TxnCommit_def list_db_def)
  define st1 where "st1 = (set_index 0 pindex demo_state)\<lparr> ch_txdb := db1, ch_pool := (ch_pool demo_state)\<lparr> as_cache := cache' \<rparr> \<rparr>"
  have at: "connect_at demo_chain_env demo_block 0 demo_state = Some (True, st1)"
    using c unfolding connect_at_def demo_block_env st1_def
    by (simp add: demo_state_def demo_tree_chains hashNext_of_def start_state_def empty_pool_def)
       (simp add: demo_tree_def pnext_of_def map_find_Cons)
  have h: "CTransaction_GetHash (\<lambda>b. word_of_nat (length b)) demo_coinbase = Some 66" "CTransaction_GetHash (\<lambda>b. word_of_nat (length b)) spend_tx = Some 70"
    using valid_demo_txs by (simp_all add: valid_tx_hash demo_lengths)
  have fork: "find_fork [sample_index] demo_chain = Some [sample_index]"
    by (simp add: demo_chain_def same_block_def sample_index_def)
  have paths: "path_to [sample_index] [sample_index] = []" "path_to [sample_index] demo_chain = [0]"
    by (simp_all add: path_to_def demo_chain_def sample_index_def)
  have st: "ch_mapBlockIndex demo_state = demo_tree" "ch_pindexBest demo_state = Some 7" by (simp_all add: demo_state_def)
  have pool: "as_pool (ch_pool st1) = empty_pool" by (simp add: st1_def demo_state_def start_state_def)
  have "\<exists>p. remove_all (\<lambda>b. word_of_nat (length b)) [demo_coinbase, spend_tx] (ch_pool st1) = Some p"
    by (simp add: pool pool_remove_def h empty_pool_def)
  then obtain p where p: "remove_all (\<lambda>b. word_of_nat (length b)) [demo_coinbase, spend_tx] (ch_pool st1) = Some p" by blast
  have db1: "ch_txdb st1 = db1" by (simp add: st1_def)
  have env: "ce_ldb demo_chain_env = list_db" "ce_Hash demo_chain_env = (\<lambda>b. word_of_nat (length b))" by (simp_all add: demo_chain_env_def)
  have ne: "demo_chain \<noteq> []" and vtx: "get_vtx demo_block = [demo_coinbase, spend_tx]" by (simp_all add: demo_chain_def demo_block_def)
  show ?thesis
    unfolding Reorganize_def st demo_tree_chains Let_def env
    by (simp add: ne fork paths st demo_tree_chains demo_read at w(1) w3 db1 p vtx del: find_fork.simps remove_all.simps)
qed

theorem Reorganize_relinks_witness:
  "\<exists>st'. Reorganize demo_chain_env 0 demo_state = Some (True, st') \<and> links_ok (ch_mapBlockIndex st') (Some 0) \<and>
     branch (ch_mapBlockIndex st') (Some 0) = [0, 7] \<and> map_of (pdb (ch_txdb st')) bestchain_key = Some (Serialize_word (0 :: uint256))"
proof -
  obtain st' where r: "Reorganize demo_chain_env 0 demo_state = Some (True, st')" using demo_Reorganize by blast
  have "ce_ldb demo_chain_env = list_db" by (simp add: demo_chain_env_def)
  with Reorganize_relinks [OF r, of map_of 7] leveldb_law_list demo_tree_ok demo_links spend_side_conditions(7) show ?thesis
    using r by (simp add: demo_state_def demo_tree_chains demo_chain_def sample_index_def)
qed

section \<open>A failed change of the best chain\<close>

text \<open>After a failure: the memory is as before, no transaction is open, and on disk at most the trust of the invalid chain is new.\<close>

definition restored :: "('d \<Rightarrow> (bytes \<rightharpoonup> bytes)) \<Rightarrow> ('d, 'f) chain_state \<Rightarrow> ('d, 'f) chain_state \<Rightarrow> bool" where
  "restored content st st' \<longleftrightarrow> kept st st' \<and> activeBatch (ch_txdb st') = None \<and>
     content (pdb (ch_txdb st')) |` (- {invalid_trust_key}) = content (pdb (ch_txdb st)) |` (- {invalid_trust_key})"

lemma InvalidChainFound_restored:
  assumes "InvalidChainFound env pindexNew st = Some st'" "leveldb_law (ce_ldb env) content" "kept st0 st"
    "activeBatch (ch_txdb st) = None" "pdb (ch_txdb st) = pdb (ch_txdb st0)"
  shows "restored content st0 st'"
proof -
  from assms(1) obtain node st1 where n: "map_find pindexNew (ch_mapBlockIndex st) = Some node"
    "(if bi_nChainTrust (bn_index node) > ch_nBestInvalidTrust st
       then (let st = st\<lparr> ch_nBestInvalidTrust := bi_nChainTrust (bn_index node) \<rparr>; bn = de_bn (ce_diff env)
         in map_option (\<lambda>(_, db). st\<lparr> ch_txdb := (ch_txdb st)\<lparr> pdb := pdb db \<rparr> \<rparr>)
           (WriteBestInvalidTrust (ce_ldb env) bn (setuint256 bn (ch_nBestInvalidTrust st)) ((ch_txdb st)\<lparr> activeBatch := None \<rparr>)))
       else Some st) = Some st1" "st' = st1"
    unfolding InvalidChainFound_def by (auto split: bind_splits)
  show ?thesis
  proof (cases "bi_nChainTrust (bn_index node) > ch_nBestInvalidTrust st")
    case True
    with n(2) obtain ok db v where w: "db_Write (ce_ldb env) invalid_trust_key v True ((ch_txdb st)\<lparr> activeBatch := None \<rparr>) = Some (ok, db)"
      "st1 = st\<lparr> ch_nBestInvalidTrust := bi_nChainTrust (bn_index node), ch_txdb := (ch_txdb st)\<lparr> pdb := pdb db \<rparr> \<rparr>"
      by (auto simp: Let_def WriteBestInvalidTrust_def)
    from w(1) obtain s d where "ldb_Put (ce_ldb env) (pdb (ch_txdb st)) invalid_trust_key v = (s, d)" "pdb db = d"
      by (auto simp: db_Write_def WriteNormal_def WriteSecure_def split: if_splits prod.splits)
    then have "content (pdb db) |` (- {invalid_trust_key}) = content (pdb (ch_txdb st)) |` (- {invalid_trust_key})"
      using leveldb_lawD(2) [OF assms(2)] by (auto simp: restrict_map_def fun_eq_iff)
    then show ?thesis using w(2) n(3) assms(3-5) by (simp add: restored_def kept_def)
  qed (use n assms(3-5) in \<open>simp add: restored_def\<close>)
qed

lemma abort_invalid_restored:
  assumes "abort_invalid env pindexNew st = Some (ok, st')" "leveldb_law (ce_ldb env) content" "kept st0 st"
    "pdb (ch_txdb st) = pdb (ch_txdb st0)"
  shows "restored content st0 st'"
proof -
  from assms(1) obtain db where db: "TxnAbort (ch_txdb st) = Some (True, db)" "InvalidChainFound env pindexNew (st\<lparr> ch_txdb := db \<rparr>) = Some st'"
    unfolding abort_invalid_def by (auto simp: TxnAbort_def split: bind_splits if_splits)
  from db(1) have "activeBatch db = None" "pdb db = pdb (ch_txdb st)" by (auto simp: TxnAbort_def split: if_splits)
  with InvalidChainFound_restored [OF db(2) assms(2), of st0] assms(3,4) show ?thesis by simp
qed

lemma TxnCommit_failed:
  assumes "TxnCommit ldb db = Some (False, db')" "leveldb_law ldb content"
  shows "activeBatch db' = None" "content (pdb db') = content (pdb db)"
  using assms leveldb_lawD(4) [OF assms(2)] by (auto simp: TxnCommit_def split: if_splits option.splits prod.splits)

lemma TxnBegin_in_txn: "TxnBegin db = Some (ok, db') \<Longrightarrow> ok \<and> in_txn db db'"
  by (auto simp: TxnBegin_def in_txn_def split: if_splits)

lemma SetBestChainInner_restored:
  assumes "SetBestChainInner env block pindexNew st = Some (False, st')" "leveldb_law (ce_ldb env) content"
    "in_txn (ch_txdb st0) (ch_txdb st)" "kept st0 st"
  shows "restored content st0 st'"
proof -
  from assms(1) obtain ok st1 where c: "connect_at env block pindexNew st = Some (ok, st1)"
    unfolding SetBestChainInner_def Let_def by (auto split: bind_splits)
  have "map_ok (ch_mapBlockIndex st)" using assms(4) by (simp add: kept_def)
  note k = connect_at_keeps [OF c assms(3) this]
  from assms(1) c obtain ok2 db where w: "(if ok then WriteHashBestChain (ce_ldb env) (CBlockHeader_GetHash (ce_block env) block) (ch_txdb st1)
      else Some (False, ch_txdb st1)) = Some (ok2, db)"
    unfolding SetBestChainInner_def Let_def by (auto split: bind_splits)
  have t: "in_txn (ch_txdb st0) db" using w k WriteHashBestChain_in_txn by (auto split: if_splits)
  have k1: "kept st0 st1" using k assms(4) by (blast intro: kept_trans)
  show ?thesis
  proof (cases ok2)
    case False
    then have "abort_invalid env pindexNew (st1\<lparr> ch_txdb := db \<rparr>) = Some (False, st')"
      using assms(1) c w unfolding SetBestChainInner_def Let_def by auto
    from abort_invalid_restored [OF this assms(2), of st0] t k1 show ?thesis by (simp add: in_txn_def)
  next
    case True
    then obtain db2 where "TxnCommit (ce_ldb env) db = Some (False, db2)" "st' = st1\<lparr> ch_txdb := db2 \<rparr>"
      using assms(1) c w unfolding SetBestChainInner_def Let_def by (auto split: bind_splits if_splits)
    then show ?thesis using TxnCommit_failed [OF _ assms(2)] t k1 by (auto simp: restored_def in_txn_def)
  qed
qed

lemma Reorganize_failed:
  assumes "Reorganize env pindexNew st = Some (False, st')" "leveldb_law (ce_ldb env) content"
    "in_txn (ch_txdb st0) (ch_txdb st)" "kept st0 st"
  shows "kept st0 st' \<and> content (pdb (ch_txdb st')) = content (pdb (ch_txdb st0))"
proof -
  let ?best = "chain_at (ch_mapBlockIndex st) (ch_pindexBest st)" and ?new = "chain_at (ch_mapBlockIndex st) (Some pindexNew)"
  have ne: "?best \<noteq> []" "?new \<noteq> []" using assms(1) unfolding Reorganize_def Let_def by (auto split: if_splits)
  have ok: "map_ok (ch_mapBlockIndex st)" and d0: "pdb (ch_txdb st) = pdb (ch_txdb st0)" using assms(3,4) by (simp_all add: kept_def in_txn_def)
  show ?thesis
  proof (cases "find_fork ?best ?new")
    case None
    then show ?thesis using assms(1,4) d0 ne unfolding Reorganize_def Let_def by auto
  next
    case (Some pfork)
    with assms(1) ne obtain ok1 r1 st1 where s1: "disconnect_branch env (path_to pfork ?best) [] st = Some ((ok1, r1), st1)"
      unfolding Reorganize_def Let_def by (auto split: bind_splits)
    note k1 = disconnect_branch_keeps [OF s1 assms(3) ok]
    show ?thesis
    proof (cases ok1)
      case False
      then have "st' = st1" using assms(1) ne Some s1 unfolding Reorganize_def Let_def by auto
      then show ?thesis using k1 assms(4) by (auto simp: in_txn_def intro: kept_trans)
    next
      case True
      with assms(1) ne Some s1 obtain ok2 r2 st2 where s2: "connect_branch env (rev (path_to pfork ?new)) [] st1 = Some ((ok2, r2), st2)"
        unfolding Reorganize_def Let_def by (auto split: bind_splits)
      have "map_ok (ch_mapBlockIndex st1)" using k1 ok by simp
      note k2 = connect_branch_keeps [OF s2 _ this, of "ch_txdb st0"]
      have k: "kept st0 st2" "in_txn (ch_txdb st0) (ch_txdb st2)" using k1 k2 assms(4) by (blast intro: kept_trans)+
      show ?thesis
      proof (cases ok2)
        case False
        then have "st' = st2" using assms(1) ne Some s1 True s2 unfolding Reorganize_def Let_def by auto
        then show ?thesis using k by (auto simp: in_txn_def)
      next
        case ok2: True
        with assms(1) ne Some s1 True s2 obtain ok3 db where s3: "WriteHashBestChain (ce_ldb env) pindexNew (ch_txdb st2) = Some (ok3, db)"
          unfolding Reorganize_def Let_def by (auto split: bind_splits)
        note t = WriteHashBestChain_in_txn [OF s3 k(2)]
        show ?thesis
        proof (cases ok3)
          case False
          then have "st' = st2\<lparr> ch_txdb := db \<rparr>" using assms(1) ne Some s1 True s2 ok2 s3 unfolding Reorganize_def Let_def by auto
          then show ?thesis using k t by (auto simp: in_txn_def)
        next
          case ok3: True
          with assms(1) ne Some s1 True s2 ok2 s3 obtain db' where s4: "TxnCommit (ce_ldb env) db = Some (False, db')"
            "st' = st2\<lparr> ch_txdb := db' \<rparr>"
            unfolding Reorganize_def Let_def by (auto split: bind_splits if_splits)
          then show ?thesis using TxnCommit_failed [OF s4(1) assms(2)] k t by (auto simp: in_txn_def)
        qed
      qed
    qed
  qed
qed

text \<open>
  C6. Atomic change of the best chain. When \<^verbatim>\<open>SetBestChain\<close> fails, whether a block of the new branch is invalid, cannot be read or
  the transaction cannot be committed, everything is as before: the tip and its trust, the tree and its links, the
  transactions of the memory pool, and the disk but for the trust of the best invalid chain; no transaction is
  left open. Nothing of a partly connected branch remains.
\<close>

theorem SetBestChain_failure:
  assumes "SetBestChain env block pindexNew st = Some (False, st')" "leveldb_law (ce_ldb env) content" "map_ok (ch_mapBlockIndex st)"
  shows "restored content st st'"
proof -
  define hash where "hash = CBlockHeader_GetHash (ce_block env) block"
  from assms(1) obtain db where b: "TxnBegin (ch_txdb st) = Some (True, db)"
    unfolding SetBestChain_def Let_def by (auto split: bind_splits dest: TxnBegin_in_txn)
  define st1 where "st1 = st\<lparr> ch_txdb := db \<rparr>"
  have t: "in_txn (ch_txdb st) (ch_txdb st1)" "kept st st1" using TxnBegin_in_txn [OF b] kept_refl [OF assms(3)] by (simp_all add: st1_def)
  have same: "ch_hashBestChain st1 = ch_hashBestChain st" "ch_pindexGenesisBlock st1 = ch_pindexGenesisBlock st" by (simp_all add: st1_def)
  consider (genesis) "ch_pindexGenesisBlock st = None \<and> hash = ce_hashGenesisBlock env"
    | (inner) "\<not> (ch_pindexGenesisBlock st = None \<and> hash = ce_hashGenesisBlock env)" "bh_hashPrevBlock block = ch_hashBestChain st"
    | (switch) "\<not> (ch_pindexGenesisBlock st = None \<and> hash = ce_hashGenesisBlock env)" "bh_hashPrevBlock block \<noteq> ch_hashBestChain st"
    by blast
  then show ?thesis
  proof cases
    case genesis
    with assms(1) b obtain ok0 db1 db2 where w: "WriteHashBestChain (ce_ldb env) hash (ch_txdb st1) = Some (ok0, db1)"
      "TxnCommit (ce_ldb env) db1 = Some (False, db2)" "st' = st1\<lparr> ch_txdb := db2 \<rparr>"
      unfolding SetBestChain_def Let_def by (auto simp: same st1_def [symmetric] hash_def split: bind_splits if_splits)
    note WriteHashBestChain_in_txn [OF w(1) t(1)]
    then show ?thesis using TxnCommit_failed [OF w(2) assms(2)] w(3) t(2) by (auto simp: restored_def in_txn_def)
  next
    case inner
    with assms(1) b have "SetBestChainInner env block pindexNew st1 = Some (False, st')"
      unfolding SetBestChain_def Let_def by (auto simp: same st1_def [symmetric] hash_def split: bind_splits if_splits)
    then show ?thesis using assms(2) t by (rule SetBestChainInner_restored)
  next
    case switch
    with assms(1) b have "switch_branch env pindexNew st1 = Some (False, st')"
      unfolding SetBestChain_def Let_def by (auto simp: same st1_def [symmetric] hash_def split: bind_splits if_splits)
    then obtain p st2 where r: "Reorganize env p st1 = Some (False, st2)" "abort_invalid env pindexNew st2 = Some (False, st')"
      unfolding switch_branch_def Let_def by (auto split: bind_splits if_splits prod.splits)
    note k = Reorganize_failed [OF r(1) assms(2) t]
    from k abort_invalid_restored [OF r(2) assms(2), of "st\<lparr> ch_txdb := ch_txdb st2 \<rparr>"] show ?thesis
      by (simp add: restored_def)
  qed
qed

definition failing_state :: "((bytes \<times> bytes) list, nat) chain_state" where
  "failing_state = demo_state\<lparr> ch_hashBestChain := 0, ch_txdb := spend_db\<lparr> activeBatch := None \<rparr> \<rparr>"

text \<open>A block without transactions is refused when it is connected.\<close>

theorem SetBestChain_failure_witness:
  "\<exists>st'. SetBestChain demo_chain_env CBlock_SetNull 0 failing_state = Some (False, st') \<and> restored map_of failing_state st'"
proof -
  have check: "\<exists>v. CheckBlock env CBlock_SetNull True True False = Some v \<and> \<not> fst v" for env :: "(bytes \<times> bytes) list block_env"
    by (simp add: CheckBlock_def CBlock_SetNull_def DoS_def)
  define db where "db = spend_db\<lparr> activeBatch := Some [] \<rparr>"
  have "\<exists>v cache. ConnectBlock env db [] CBlock_SetNull demo_chain 0 False cache' = Some (v, db, hd demo_chain, cache) \<and> \<not> fst v" for env cache'
    using check [of env] by (auto simp: ConnectBlock_def)
  then obtain v cache where c: "ConnectBlock demo_env db [] CBlock_SetNull demo_chain 0 False empty_cache = Some (v, db, hd demo_chain, cache)" "\<not> fst v"
    by blast
  let ?st = "failing_state\<lparr> ch_txdb := db \<rparr>"
  have started: "TxnBegin (ch_txdb failing_state) = Some (True, db)" by (simp add: failing_state_def TxnBegin_def db_def spend_db_def)
  have "set_node 0 (\<lambda>node. node\<lparr> bn_index := hd demo_chain \<rparr>) demo_tree = demo_tree"
    by (simp add: set_node_def demo_tree_def map_find_Cons demo_chain_def)
  then have index: "set_index 0 (hd demo_chain) ?st = ?st" by (simp add: set_index_def failing_state_def demo_state_def)
  have "block_env_at demo_chain_env ?st = demo_env" using demo_block_env by (simp add: block_env_at_def failing_state_def)
  then have at: "connect_at demo_chain_env CBlock_SetNull 0 ?st = Some (False, ?st\<lparr> ch_pool := (ch_pool ?st)\<lparr> as_cache := cache \<rparr> \<rparr>)"
    using c index unfolding connect_at_def
    by (simp add: failing_state_def demo_state_def demo_tree_chains hashNext_of_def start_state_def empty_pool_def)
       (simp add: demo_tree_def pnext_of_def map_find_Cons)
  have inner: "\<exists>st'. SetBestChainInner demo_chain_env CBlock_SetNull 0 ?st = Some (False, st')"
    unfolding SetBestChainInner_def Let_def at
    by (simp add: abort_invalid_def TxnAbort_def db_def spend_db_def InvalidChainFound_def failing_state_def demo_state_def demo_tree_def
        map_find_Cons WriteBestInvalidTrust_def db_Write_def WriteNormal_def demo_chain_env_def list_db_def block_trust_def best_trust_def
        bn_height_def sample_index_def Let_def)
  have "\<exists>st'. SetBestChain demo_chain_env CBlock_SetNull 0 failing_state = Some (False, st')"
  proof -
    have "ch_pindexGenesisBlock failing_state = Some 7" "bh_hashPrevBlock CBlock_SetNull = ch_hashBestChain failing_state"
      by (simp_all add: failing_state_def demo_state_def CBlock_SetNull_def)
    with inner show ?thesis unfolding SetBestChain_def Let_def started by auto
  qed
  then obtain st' where r: "SetBestChain demo_chain_env CBlock_SetNull 0 failing_state = Some (False, st')" by blast
  have "ce_ldb demo_chain_env = list_db" by (simp add: demo_chain_env_def)
  with SetBestChain_failure [OF r, of map_of] r leveldb_law_list tree_ok_map [OF demo_tree_ok] show ?thesis
    by (auto simp: failing_state_def demo_state_def)
qed

end
