(* ===== verification/Checkpoints.thy ===== *)
theory Checkpoints
  imports Chain
begin

text \<open>
  The checkpoints (\<^verbatim>\<open>src/src/checkpoints.cpp\<close>): the hashes that are compiled in, and the synchronised checkpoint
  that the holder of the master key sends and to which the node then restricts its chain. \<open>None\<close> is a failed
  assertion, an exception or the use of a null pointer. The messages to peers are not modelled.
\<close>

section \<open>Compiled-in checkpoints\<close>

definition hashGenesisBlock :: uint256 where
  "hashGenesisBlock = 0x0000030d0ed5a5492e703714059aead5e3800d02de651c1f4079b8d55e6963c7"

definition hashGenesisBlockTestNet :: uint256 where
  "hashGenesisBlockTestNet = 0x00002f6601da66030580c89a4652b44cf330102c42e2b4e06d97958df7738478"

definition mapCheckpoints :: "(int, uint256) std_map" where
  "mapCheckpoints =
    [(0, hashGenesisBlock),
     (1275, 0x000000dd7de58fad01cfa1799b5809df4c1d9c164fc49da39eb2954531e1a36c),
     (4930, 0x000000153d5cf5fed61add322826c8ec6f32ffe5f99a714fcbf5ac53aee09b14),
     (6624, 0x5130b59e93325dd0a2332f99edb763cdb4189a4e6b0cc481023d1a21fe2327c5),
     (18370, 0x00000000f02a6a28449fbec9b50f7eb9e1ccd283ee7130e3ef159111aee803e9),
     (26720, 0x00000001edb4be82456835ed10942e0c49e2820021b01753872787738f556562),
     (46092, 0x000000003f7e00cee468b4f8ba08cdf804480b8f31315295fa1db223d4183718),
     (60880, 0x0000000032ecb49115ca08061cdc29ca7bc9036549d81ecb8f47fd6630cd584e),
     (71270, 0x000000001ff29e42c75e57fde60b0fd624c2522bd782a792016fa89f4f0a40c7),
     (155369, 0x000000065f542624a28575f960ba5d049f8a9be17996767c0911b20cf508177e),
     (239007, 0x0000000000ea3dad03ca3273aa758085933d6e01ea7fc0a560b81c8c137e21c3),
     (351634, 0x00000000000084b537f65746dbd28a0abc87adadad97231c7b8bb054027a31f6),
     (434550, 0x0000000000060688d53e999a30ad6165fe2d18262820b597aab2f68eaea91359)]"

definition mapCheckpointsTestnet :: "(int, uint256) std_map" where
  "mapCheckpointsTestnet =
    [(0, hashGenesisBlockTestNet),
     (5330, 0x000011410a666bec2c474fe25c847ea903279f96d47422ebe4dda1fd44450406)]"

definition checkpoints_of :: "diff_env \<Rightarrow> (int, uint256) std_map" where
  "checkpoints_of env = (if fTestNet env then mapCheckpointsTestnet else mapCheckpoints)"

definition listBanned :: "uint256 list" where "listBanned = []"

definition CheckHardened :: "diff_env \<Rightarrow> int \<Rightarrow> uint256 \<Rightarrow> bool" where
  "CheckHardened env nHeight hash =
     (case map_find nHeight (checkpoints_of env) of None \<Rightarrow> True | Some h \<Rightarrow> hash = h)"

definition CheckBanned :: "diff_env \<Rightarrow> uint256 \<Rightarrow> bool" where
  "CheckBanned env nHash \<longleftrightarrow> (if fTestNet env then True else nHash \<notin> set listBanned)"

definition GetTotalBlocksEstimate :: "diff_env \<Rightarrow> int" where
  "GetTotalBlocksEstimate env = fst (last (checkpoints_of env))"

definition GetLastCheckpointTime :: "diff_env \<Rightarrow> int" where
  "GetLastCheckpointTime env = (if fTestNet env then 1533660799 else 1609580025)"

definition GetLastCheckpoint :: "diff_env \<Rightarrow> block_map \<Rightarrow> uint256 option" where
  "GetLastCheckpoint env m = find (\<lambda>hash. map_find hash m \<noteq> None) (map snd (rev (checkpoints_of env)))"

section \<open>The synchronised checkpoint\<close>

text \<open>The message. \<^verbatim>\<open>SetNull\<close> leaves the hash, which the constructor sets to zero.\<close>

record CSyncCheckpoint =
  cp_nVersion :: "32 word"
  cp_hashCheckpoint :: uint256
  cp_vchMsg :: bytes
  cp_vchSig :: bytes

definition new_CSyncCheckpoint :: CSyncCheckpoint where
  "new_CSyncCheckpoint = \<lparr> cp_nVersion = 1, cp_hashCheckpoint = 0, cp_vchMsg = [], cp_vchSig = [] \<rparr>"

definition CSyncCheckpoint_SetNull :: "CSyncCheckpoint \<Rightarrow> CSyncCheckpoint" where
  "CSyncCheckpoint_SetNull c = c\<lparr> cp_vchMsg := [], cp_vchSig := [] \<rparr>"

definition CSyncCheckpoint_IsNull :: "CSyncCheckpoint \<Rightarrow> bool" where
  "CSyncCheckpoint_IsNull c \<longleftrightarrow> cp_hashCheckpoint c = 0"

datatype CPMode = STRICT | ADVISORY | PERMISSIVE

record ('d, 'f) cp_state =
  cs_chain :: "('d, 'f) chain_state"
  hashSyncCheckpoint :: uint256
  hashInvalidCheckpoint :: uint256
  hashPendingCheckpoint :: uint256
  checkpointMessage :: CSyncCheckpoint
  checkpointMessagePending :: CSyncCheckpoint

abbreviation cs_map :: "('d, 'f) cp_state \<Rightarrow> block_map" where "cs_map st \<equiv> ch_mapBlockIndex (cs_chain st)"

definition GetLastSyncCheckpoint :: "('d, 'f) cp_state \<Rightarrow> uint256 option" where
  "GetLastSyncCheckpoint st = (if map_find (hashSyncCheckpoint st) (cs_map st) = None then None else Some (hashSyncCheckpoint st))"

text \<open>The blocks behind one are walked back to a height; the empty chain is the null pointer.\<close>

definition ValidateSyncCheckpoint :: "uint256 \<Rightarrow> ('d, 'f) cp_state \<Rightarrow> bool \<times> ('d, 'f) cp_state" where
  "ValidateSyncCheckpoint hashCheckpoint st =
     (case (map_find (hashSyncCheckpoint st) (cs_map st), map_find hashCheckpoint (cs_map st)) of
        (Some pindexSync, Some pindexRecv) \<Rightarrow>
          if bn_height pindexRecv \<le> bn_height pindexSync
          then (case skip_higher (bn_height pindexRecv) (chain_at (cs_map st) (Some (hashSyncCheckpoint st))) of
              [] \<Rightarrow> (False, st)
            | pindex # _ \<Rightarrow>
                if bi_hashBlock pindex \<noteq> hashCheckpoint then (False, st\<lparr> hashInvalidCheckpoint := hashCheckpoint \<rparr>)
                else (False, st))
          else (case skip_higher (bn_height pindexSync) (chain_at (cs_map st) (Some hashCheckpoint)) of
              [] \<Rightarrow> (False, st)
            | pindex # _ \<Rightarrow>
                if bi_hashBlock pindex \<noteq> hashSyncCheckpoint st then (False, st\<lparr> hashInvalidCheckpoint := hashCheckpoint \<rparr>)
                else (True, st))
      | _ \<Rightarrow> (False, st))"

text \<open>A database object of its own, so with no transaction open.\<close>

definition cp_WriteSyncCheckpoint :: "'d leveldb \<Rightarrow> uint256 \<Rightarrow> ('d, 'f) cp_state \<Rightarrow> (bool \<times> ('d, 'f) cp_state) option" where
  "cp_WriteSyncCheckpoint ldb hashCheckpoint st = do {
     (_, db) \<leftarrow> TxnBegin (ch_txdb (cs_chain st));
     (ok, db) \<leftarrow> WriteSyncCheckpoint ldb hashCheckpoint db;
     if \<not> ok then do {
       (_, db) \<leftarrow> TxnAbort db;
       Some (False, st\<lparr> cs_chain := (cs_chain st)\<lparr> ch_txdb := db \<rparr> \<rparr>) }
     else do {
       (ok, db) \<leftarrow> TxnCommit ldb db;
       let st = st\<lparr> cs_chain := (cs_chain st)\<lparr> ch_txdb := db \<rparr> \<rparr>;
       Some (if ok then (True, st\<lparr> hashSyncCheckpoint := hashCheckpoint \<rparr>) else (False, st)) } }"

text \<open>The block of a checkpoint becomes the best chain unless it is in it. A failure of \<^verbatim>\<open>SetBestChain\<close> is told apart.\<close>

datatype switch_result = Switched | Unreadable | NotConnected

definition switch_to :: "('d, 'f) chain_env \<Rightarrow> uint256 \<Rightarrow> ('d, 'f) cp_state \<Rightarrow> (switch_result \<times> ('d, 'f) cp_state) option" where
  "switch_to env hash st =
     (if IsInMainChain hash (ch_pindexBest (cs_chain st)) (cs_map st) then Some (Switched, st)
      else do {
        node \<leftarrow> map_find hash (cs_map st);
        case ReadBlockAt env (bn_index node) of
          None \<Rightarrow> Some (Unreadable, st)
        | Some block \<Rightarrow> do {
            (ok, chain) \<leftarrow> SetBestChain env block hash (cs_chain st);
            Some (if ok then Switched else NotConnected, st\<lparr> cs_chain := chain \<rparr>) } })"

definition AcceptPendingSyncCheckpoint :: "('d, 'f) chain_env \<Rightarrow> ('d, 'f) cp_state \<Rightarrow> (bool \<times> ('d, 'f) cp_state) option" where
  "AcceptPendingSyncCheckpoint env st =
     (if hashPendingCheckpoint st \<noteq> 0 \<and> map_find (hashPendingCheckpoint st) (cs_map st) \<noteq> None
      then let (ok, st) = ValidateSyncCheckpoint (hashPendingCheckpoint st) st in
        if \<not> ok
        then Some (False, st\<lparr> hashPendingCheckpoint := 0, checkpointMessagePending := CSyncCheckpoint_SetNull (checkpointMessagePending st) \<rparr>)
        else do {
          (r, st) \<leftarrow> switch_to env (hashPendingCheckpoint st) st;
          case r of
            Unreadable \<Rightarrow> Some (False, st)
          | NotConnected \<Rightarrow> Some (False, st\<lparr> hashInvalidCheckpoint := hashPendingCheckpoint st \<rparr>)
          | Switched \<Rightarrow> do {
              (ok, st) \<leftarrow> cp_WriteSyncCheckpoint (ce_ldb env) (hashPendingCheckpoint st) st;
              if \<not> ok then Some (False, st)
              else Some (True, st\<lparr> hashPendingCheckpoint := 0, checkpointMessage := checkpointMessagePending st,
                checkpointMessagePending := CSyncCheckpoint_SetNull (checkpointMessagePending st) \<rparr>) } }
      else Some (False, st))"

text \<open>The walk stops at the first block, and earlier at one an hour and eight blocks behind the tip.\<close>

fun select_back :: "int \<Rightarrow> int \<Rightarrow> chain \<Rightarrow> chain" where
  "select_back nTimeBest nBestHeight (pindex # pprev # chain) =
     (if GetBlockTime pindex + 60 * 60 > nTimeBest \<or> sint (bi_nHeight pindex) + 8 > nBestHeight
      then select_back nTimeBest nBestHeight (pprev # chain) else pindex # pprev # chain)"
| "select_back nTimeBest nBestHeight chain = chain"

definition AutoSelectSyncCheckpoint :: "('d, 'f) cp_state \<Rightarrow> uint256 option" where
  "AutoSelectSyncCheckpoint st =
     (case chain_at (cs_map st) (ch_pindexBest (cs_chain st)) of
        [] \<Rightarrow> None
      | best # chain \<Rightarrow> Some (bi_hashBlock (hd (select_back (GetBlockTime best) (sint (bi_nHeight best)) (best # chain)))))"

definition CheckSync :: "diff_env \<Rightarrow> uint256 \<Rightarrow> uint256 \<Rightarrow> ('d, 'f) cp_state \<Rightarrow> bool option" where
  "CheckSync env hashBlock pindexPrev st =
     (if fTestNet env then Some True
      else do {
        prev \<leftarrow> map_find pindexPrev (cs_map st);
        let nHeight = bn_height prev + 1;
        pindexSync \<leftarrow> map_find (hashSyncCheckpoint st) (cs_map st);
        let pindex = skip_higher (bn_height pindexSync) (chain_at (cs_map st) (Some pindexPrev));
        Some (if nHeight > bn_height pindexSync \<and> pindex = [] then False
          else if nHeight > bn_height pindexSync \<and>
            (sint (bi_nHeight (hd pindex)) < bn_height pindexSync \<or> bi_hashBlock (hd pindex) \<noteq> hashSyncCheckpoint st) then False
          else if nHeight = bn_height pindexSync \<and> hashBlock \<noteq> hashSyncCheckpoint st then False
          else if nHeight < bn_height pindexSync \<and> map_find hashBlock (cs_map st) = None then False
          else True) })"

text \<open>The first checkpoint of the list that is in the main chain is written.\<close>

fun reset_to :: "'d leveldb \<Rightarrow> uint256 list \<Rightarrow> ('d, 'f) cp_state \<Rightarrow> (bool \<times> ('d, 'f) cp_state) option" where
  "reset_to ldb [] st = Some (False, st)"
| "reset_to ldb (hash # rest) st =
     (if map_find hash (cs_map st) \<noteq> None \<and> IsInMainChain hash (ch_pindexBest (cs_chain st)) (cs_map st)
      then cp_WriteSyncCheckpoint ldb hash st
      else reset_to ldb rest st)"

definition ResetSyncCheckpoint :: "('d, 'f) chain_env \<Rightarrow> ('d, 'f) cp_state \<Rightarrow> (bool \<times> ('d, 'f) cp_state) option" where
  "ResetSyncCheckpoint env st = do {
     let hash = snd (last mapCheckpoints);
     (r, st) \<leftarrow> (if map_find hash (cs_map st) \<noteq> None then switch_to env hash st
       else Some (Switched, st\<lparr> hashPendingCheckpoint := hash, checkpointMessagePending := CSyncCheckpoint_SetNull (checkpointMessagePending st) \<rparr>));
     if r \<noteq> Switched then Some (False, st)
     else reset_to (ce_ldb env) (map snd (rev mapCheckpoints)) st }"

definition IsMatureSyncCheckpoint :: "'d block_env \<Rightarrow> ('d, 'f) cp_state \<Rightarrow> bool option" where
  "IsMatureSyncCheckpoint env st = do {
     pindexSync \<leftarrow> map_find (hashSyncCheckpoint st) (cs_map st);
     Some (ch_nBestHeight (cs_chain st) \<ge> bn_height pindexSync + nCoinbaseMaturity (be_node env) \<or>
       GetBlockTime (bn_index pindexSync) + nStakeMinAge (be_node env) < be_AdjustedTime env) }"

section \<open>The message of the master\<close>

text \<open>The bytes that \<^verbatim>\<open>ParseHex\<close> makes of the key in the source.\<close>

definition strMasterPubKey :: bytes where
  "strMasterPubKey =
    [0x04, 0xfe, 0x7e, 0x62, 0x73, 0x22, 0xf8, 0x12, 0x86, 0xbe, 0x11, 0x1d, 0xd5, 0x28, 0x0f, 0x32,
     0x82, 0x79, 0x11, 0x12, 0x8d, 0x20, 0xd1, 0xf5, 0x4c, 0x50, 0x78, 0xa9, 0xbc, 0xbb, 0x31, 0xe4,
     0x1d, 0x94, 0xe6, 0x25, 0xb9, 0x62, 0x3d, 0xca, 0x5e, 0x38, 0x79, 0xed, 0xb9, 0x26, 0x8a, 0x20,
     0x37, 0x95, 0x4a, 0x61, 0xd7, 0x8d, 0x53, 0x9b, 0x3d, 0x23, 0x55, 0xf1, 0x16, 0x0f, 0x1c, 0x87,
     0xeb]"

definition Unserialize_CUnsignedSyncCheckpoint :: "(32 word \<times> uint256) reader" where
  "Unserialize_CUnsignedSyncCheckpoint =
     bind_reader Unserialize_word (\<lambda>nVersion. bind_reader Unserialize_word (\<lambda>hash. return_reader (nVersion, hash)))"

definition Serialize_CUnsignedSyncCheckpoint :: "32 word \<times> uint256 \<Rightarrow> bytes" where
  "Serialize_CUnsignedSyncCheckpoint x = Serialize_word (fst x) @ Serialize_word (snd x)"

text \<open>The result false leaves the message as it is; a message that is too short throws.\<close>

definition cp_CheckSignature :: "crypto_env \<Rightarrow> CSyncCheckpoint \<Rightarrow> (bool \<times> CSyncCheckpoint) option" where
  "cp_CheckSignature env c =
     (if \<not> env_Verify env (pubkey_data (CPubKey_Set strMasterPubKey)) (env_Hash env (cp_vchMsg c)) (cp_vchSig c) then Some (False, c)
      else case Unserialize_CUnsignedSyncCheckpoint (cp_vchMsg c) of
        Inl _ \<Rightarrow> None
      | Inr ((nVersion, hash), _) \<Rightarrow> Some (True, c\<lparr> cp_nVersion := nVersion, cp_hashCheckpoint := hash \<rparr>))"

definition ProcessSyncCheckpoint :: "('d, 'f) chain_env \<Rightarrow> CSyncCheckpoint \<Rightarrow> ('d, 'f) cp_state \<Rightarrow> (bool \<times> ('d, 'f) cp_state) option" where
  "ProcessSyncCheckpoint env c st = do {
     (ok, c) \<leftarrow> cp_CheckSignature (ne_crypto (be_node (ce_block env))) c;
     let hash = cp_hashCheckpoint c;
     if \<not> ok then Some (False, st)
     else if map_find hash (cs_map st) = None
     then Some (False, st\<lparr> hashPendingCheckpoint := hash, checkpointMessagePending := c \<rparr>)
     else let (ok, st) = ValidateSyncCheckpoint hash st in
       if \<not> ok then Some (False, st)
       else do {
         (r, st) \<leftarrow> switch_to env hash st;
         case r of
           Unreadable \<Rightarrow> Some (False, st)
         | NotConnected \<Rightarrow> Some (False, st\<lparr> hashInvalidCheckpoint := hash \<rparr>)
         | Switched \<Rightarrow> do {
             (ok, st) \<leftarrow> cp_WriteSyncCheckpoint (ce_ldb env) hash st;
             if \<not> ok then Some (False, st)
             else Some (True, st\<lparr> checkpointMessage := c, hashPendingCheckpoint := 0,
               checkpointMessagePending := CSyncCheckpoint_SetNull (checkpointMessagePending st) \<rparr>) } } }"

section \<open>Descendants of the checkpoint\<close>

text \<open>What \<^verbatim>\<open>CheckSync\<close> asks of the block \<open>h\<close> on top of \<open>p\<close>, with the checkpoint \<open>sync\<close>.\<close>

definition agrees_with_sync :: "('d, 'f) cp_state \<Rightarrow> uint256 \<Rightarrow> uint256 \<Rightarrow> block_node \<Rightarrow> block_node \<Rightarrow> bool" where
  "agrees_with_sync st h p prev sync \<longleftrightarrow>
     (if bn_height sync \<le> bn_height prev then hashSyncCheckpoint st \<in> set (branch (cs_map st) (Some p))
      else if bn_height sync = bn_height prev + 1 then h = hashSyncCheckpoint st
      else map_find h (cs_map st) \<noteq> None)"

lemma CheckSync_decides:
  assumes "tree_ok (cs_map st)" "map_find p (cs_map st) = Some prev"
  shows "CheckSync env h p st =
    (if fTestNet env then Some True
     else map_option (agrees_with_sync st h p prev) (map_find (hashSyncCheckpoint st) (cs_map st)))"
proof (cases "map_find (hashSyncCheckpoint st) (cs_map st)")
  case (Some sync)
  show ?thesis
  proof (cases "bn_height sync \<le> bn_height prev")
    case True
    from ancestor_at [OF assms(1) Some assms(2) True] obtain x c where x: "skip_higher (bn_height sync) (chain_at (cs_map st) (Some p)) = x # c"
      "sint (bi_nHeight x) = bn_height sync" "bi_hashBlock x = hashSyncCheckpoint st \<longleftrightarrow> hashSyncCheckpoint st \<in> set (branch (cs_map st) (Some p))" by metis
    with True Some assms(2) show ?thesis by (simp add: CheckSync_def agrees_with_sync_def Let_def)
  qed (use Some assms(2) in \<open>auto simp: CheckSync_def agrees_with_sync_def Let_def\<close>)
qed (use assms(2) in \<open>simp add: CheckSync_def Let_def\<close>)

text \<open>
  C12. Blocks and the checkpoint. On the test network \<^verbatim>\<open>CheckSync\<close> admits every block. On the main network its assertion
  asks that the synchronised checkpoint is a known block, and it admits exactly the blocks that agree with
  it: above it only its descendants, at its height only the checkpoint itself, and below it only blocks that are known.
\<close>

theorem CheckSync_iff:
  assumes "tree_ok (cs_map st)" "map_find p (cs_map st) = Some prev"
  shows "CheckSync env h p st =
    (if fTestNet env then Some True
     else case map_find (hashSyncCheckpoint st) (cs_map st) of
       None \<Rightarrow> None
     | Some sync \<Rightarrow> Some
         (if bn_height sync \<le> bn_height prev then hashSyncCheckpoint st \<in> set (branch (cs_map st) (Some p))
          else if bn_height sync = bn_height prev + 1 then h = hashSyncCheckpoint st
          else map_find h (cs_map st) \<noteq> None))"
  unfolding CheckSync_decides [OF assms] by (simp add: agrees_with_sync_def split: option.split)

text \<open>An ancestor stands lower, unless it is the block itself.\<close>

lemma ancestor_lower:
  assumes "tree_ok m" "a \<in> set (branch m (Some b))" "map_find a m = Some na" "map_find b m = Some nb"
  shows "bn_height na \<le> bn_height nb" "bn_height nb \<le> bn_height na \<Longrightarrow> a = b"
proof -
  note ok = chain_at_walk [OF assms(1,4)]
  from assms(2) obtain i where i: "i < length (chain_at m (Some b))" "bi_hashBlock (chain_at m (Some b) ! i) = a" by (auto simp: in_set_conv_nth)
  then have "bn_index na = chain_at m (Some b) ! i" using ok(2) assms(3) by (auto simp: chain_ok_def dest!: nth_mem [of i])
  then have h: "bn_height na = bn_height nb - int i" using chain_ok_nth [OF ok(2) i(1)] ok(3) tree_node(2) [OF assms(1,4)] by (simp add: bn_height_def)
  then show "bn_height na \<le> bn_height nb" by simp
  assume "bn_height nb \<le> bn_height na"
  with h have "i = 0" by simp
  with i(2) show "a = b" using chain_at_step [OF assms(1,4)] tree_node(1) [OF assms(1,4)] by simp
qed

text \<open>
  A new checkpoint. \<^verbatim>\<open>ValidateSyncCheckpoint\<close> accepts exactly the proper descendants of the checkpoint that it knows, and
  remembers a block as an invalid checkpoint exactly when neither of the two is an ancestor of the other.
\<close>

theorem ValidateSyncCheckpoint_iff:
  assumes "tree_ok (cs_map st)" "map_find (hashSyncCheckpoint st) (cs_map st) = Some sync" "map_find h (cs_map st) = Some recv"
  shows "ValidateSyncCheckpoint h st =
    (hashSyncCheckpoint st \<in> set (branch (cs_map st) (Some h)) \<and> h \<noteq> hashSyncCheckpoint st,
     if hashSyncCheckpoint st \<in> set (branch (cs_map st) (Some h)) \<or> h \<in> set (branch (cs_map st) (Some (hashSyncCheckpoint st)))
     then st else st\<lparr> hashInvalidCheckpoint := h \<rparr>)"
proof -
  let ?m = "cs_map st" and ?s = "hashSyncCheckpoint st"
  have self: "h \<in> set (branch ?m (Some h))" using chain_at_step [OF assms(1,3)] tree_node(1) [OF assms(1,3)] by simp
  show ?thesis
  proof (cases "bn_height recv \<le> bn_height sync")
    case True
    from ancestor_at [OF assms(1,3,2) True] obtain x c where x: "skip_higher (bn_height recv) (chain_at ?m (Some ?s)) = x # c"
      "bi_hashBlock x = h \<longleftrightarrow> h \<in> set (branch ?m (Some ?s))" by metis
    have "?s \<in> set (branch ?m (Some h)) \<Longrightarrow> ?s = h" using ancestor_lower(2) [OF assms(1) _ assms(2,3)] True by blast
    with True x assms(2,3) self show ?thesis by (auto simp: ValidateSyncCheckpoint_def)
  next
    case False
    then have le: "bn_height sync \<le> bn_height recv" by simp
    from ancestor_at [OF assms(1,2,3) le] obtain x c where x: "skip_higher (bn_height sync) (chain_at ?m (Some h)) = x # c"
      "bi_hashBlock x = ?s \<longleftrightarrow> ?s \<in> set (branch ?m (Some h))" by metis
    have "h \<in> set (branch ?m (Some ?s)) \<Longrightarrow> h = ?s" using ancestor_lower(2) [OF assms(1) _ assms(3,2)] le by blast
    moreover have "h \<noteq> ?s" using False assms(2,3) by auto
    ultimately show ?thesis using False x assms(2,3) by (auto simp: ValidateSyncCheckpoint_def)
  qed
qed

section \<open>A checkpoint that is accepted\<close>

definition sync_key :: bytes where
  "sync_key = Serialize_bytes (bytes_of_string ''hashSyncCheckpoint'')"

lemma cp_WriteSyncCheckpoint_writes:
  assumes "cp_WriteSyncCheckpoint ldb h st = Some (True, st')" "leveldb_law ldb content"
  shows "\<exists>db. st' = st\<lparr> cs_chain := (cs_chain st)\<lparr> ch_txdb := db \<rparr>, hashSyncCheckpoint := h \<rparr> \<and> content (pdb db) sync_key = Some (Serialize_word h)"
proof -
  from assms(1) obtain ok0 db0 db1 db where w: "TxnBegin (ch_txdb (cs_chain st)) = Some (ok0, db0)" "WriteSyncCheckpoint ldb h db0 = Some (True, db1)"
    "TxnCommit ldb db1 = Some (True, db)" "st' = st\<lparr> cs_chain := (cs_chain st)\<lparr> ch_txdb := db \<rparr>, hashSyncCheckpoint := h \<rparr>"
    unfolding cp_WriteSyncCheckpoint_def Let_def by (auto split: bind_splits if_splits)
  have "in_txn db0 db0" using w(1) by (auto simp: TxnBegin_def in_txn_def split: if_splits)
  from commit_write [OF assms(2) w(2) [unfolded WriteSyncCheckpoint_def] this w(3)] w(4) show ?thesis by (auto simp: sync_key_def)
qed

lemma SetBestChain_best: "SetBestChain env block h st = Some (True, st') \<Longrightarrow> ch_pindexBest st' = Some h"
  unfolding SetBestChain_def set_best_def Let_def by (auto split: bind_splits if_splits)

lemma switch_to_main:
  assumes "switch_to env h st = Some (Switched, st')"
  shows "IsInMainChain h (ch_pindexBest (cs_chain st')) (cs_map st')" "\<exists>chain. st' = st\<lparr> cs_chain := chain \<rparr>"
proof -
  show "IsInMainChain h (ch_pindexBest (cs_chain st')) (cs_map st')"
  proof (cases "IsInMainChain h (ch_pindexBest (cs_chain st)) (cs_map st)")
    case False
    then obtain block chain where "SetBestChain env block h (cs_chain st) = Some (True, chain)" "st' = st\<lparr> cs_chain := chain \<rparr>"
      using assms unfolding switch_to_def by (auto split: bind_splits if_splits option.splits)
    then show ?thesis using SetBestChain_best by (fastforce simp: IsInMainChain_def)
  qed (use assms in \<open>simp add: switch_to_def\<close>)
  show "\<exists>chain. st' = st\<lparr> cs_chain := chain \<rparr>"
    using assms unfolding switch_to_def
    by (auto split: bind_splits if_splits option.splits intro: exI [of _ "cs_chain st"])
qed

text \<open>
  C11. Acceptance of a checkpoint. When \<^verbatim>\<open>ProcessSyncCheckpoint\<close> succeeds, the message carries a valid signature of the master key
  and names a block that is a proper descendant of the checkpoint so far; that block is then the checkpoint,
  in memory and on the disk, it is in the main chain, and no checkpoint is pending.
\<close>

theorem ProcessSyncCheckpoint_accepts:
  assumes "ProcessSyncCheckpoint env c st = Some (True, st')" "leveldb_law (ce_ldb env) content" "tree_ok (cs_map st)"
  shows "env_Verify (ne_crypto (be_node (ce_block env))) (pubkey_data (CPubKey_Set strMasterPubKey))
      (ce_Hash env (cp_vchMsg c)) (cp_vchSig c) \<and>
    (\<exists>ver rest. Unserialize_CUnsignedSyncCheckpoint (cp_vchMsg c) = Inr ((ver, hashSyncCheckpoint st'), rest)) \<and>
    hashSyncCheckpoint st \<in> set (branch (cs_map st) (Some (hashSyncCheckpoint st'))) \<and> hashSyncCheckpoint st' \<noteq> hashSyncCheckpoint st \<and>
    content (pdb (ch_txdb (cs_chain st'))) sync_key = Some (Serialize_word (hashSyncCheckpoint st')) \<and>
    IsInMainChain (hashSyncCheckpoint st') (ch_pindexBest (cs_chain st')) (cs_map st') \<and> hashPendingCheckpoint st' = 0"
proof -
  from assms(1) obtain ver h rest c' st1 st2 st3 where
    sig: "env_Verify (ne_crypto (be_node (ce_block env))) (pubkey_data (CPubKey_Set strMasterPubKey)) (ce_Hash env (cp_vchMsg c)) (cp_vchSig c)"
      "Unserialize_CUnsignedSyncCheckpoint (cp_vchMsg c) = Inr ((ver, h), rest)"
    and found: "map_find h (cs_map st) \<noteq> None" and v: "ValidateSyncCheckpoint h st = (True, st1)"
    and sw: "switch_to env h st1 = Some (Switched, st2)" and w: "cp_WriteSyncCheckpoint (ce_ldb env) h st2 = Some (True, st3)"
    and st': "st' = st3\<lparr> checkpointMessage := c', hashPendingCheckpoint := 0, checkpointMessagePending := CSyncCheckpoint_SetNull (checkpointMessagePending st3) \<rparr>"
    unfolding ProcessSyncCheckpoint_def cp_CheckSignature_def Let_def
    by (auto split: bind_splits if_splits sum.splits prod.splits switch_result.splits)
  obtain recv where recv: "map_find h (cs_map st) = Some recv" using found by blast
  obtain sync where sync: "map_find (hashSyncCheckpoint st) (cs_map st) = Some sync"
    using v by (cases "map_find (hashSyncCheckpoint st) (cs_map st)") (auto simp: ValidateSyncCheckpoint_def)
  from ValidateSyncCheckpoint_iff [OF assms(3) sync recv] v
  have anc: "hashSyncCheckpoint st \<in> set (branch (cs_map st) (Some h))" "h \<noteq> hashSyncCheckpoint st" by auto
  from cp_WriteSyncCheckpoint_writes [OF w assms(2)] obtain db where db: "st3 = st2\<lparr> cs_chain := (cs_chain st2)\<lparr> ch_txdb := db \<rparr>, hashSyncCheckpoint := h \<rparr>"
    "content (pdb db) sync_key = Some (Serialize_word h)" by blast
  from sig anc db switch_to_main(1) [OF sw] show ?thesis unfolding st' by simp
qed

section \<open>A small tree with checkpoints\<close>

definition cp_demo :: "uint256 \<Rightarrow> ((bytes \<times> bytes) list, nat) cp_state" where
  "cp_demo h = \<lparr> cs_chain = failing_state\<lparr> ch_mapBlockIndex := fork_tree, ch_pindexBest := Some 3 \<rparr>, hashSyncCheckpoint = h,
     hashInvalidCheckpoint = 0, hashPendingCheckpoint = 0, checkpointMessage = new_CSyncCheckpoint, checkpointMessagePending = new_CSyncCheckpoint \<rparr>"

lemma cp_demo_facts: "cs_map (cp_demo h) = fork_tree" "hashSyncCheckpoint (cp_demo h) = h"
  by (simp_all add: cp_demo_def)

lemma fork_branches: "branch fork_tree (Some 5) = [5, 4, 2, 1]" "branch fork_tree (Some 3) = [3, 2, 1]" "branch fork_tree (Some 2) = [2, 1]"
  by (simp_all add: fork_chains, simp_all add: chain_at_def fork_tree_def fork_block_def map_find_Cons)

lemma fork_heights:
  "\<exists>n. map_find 2 fork_tree = Some n \<and> bn_height n = 1" "\<exists>n. map_find 3 fork_tree = Some n \<and> bn_height n = 2"
  "\<exists>n. map_find 5 fork_tree = Some n \<and> bn_height n = 3" "\<exists>n. map_find 1 fork_tree = Some n \<and> bn_height n = 0"
  by (simp_all add: fork_tree_def map_find_Cons bn_height_def fork_block_def)

text \<open>A block on top of 5 descends from 2 and not from 3.\<close>

theorem CheckSync_iff_witness:
  "CheckSync main_net 77 5 (cp_demo 2) = Some True \<and> CheckSync main_net 77 5 (cp_demo 3) = Some False"
proof -
  have net: "\<not> fTestNet main_net" by (simp add: main_net_def)
  obtain n2 n3 n5 where n: "map_find 2 fork_tree = Some n2" "bn_height n2 = 1" "map_find 3 fork_tree = Some n3" "bn_height n3 = 2"
    "map_find 5 fork_tree = Some n5" "bn_height n5 = 3" using fork_heights by metis
  have t: "tree_ok (cs_map (cp_demo h))" for h using fork_tree_ok by (simp add: cp_demo_facts)
  have "CheckSync main_net 77 5 (cp_demo 2) = Some True"
    using CheckSync_iff [OF t, of 5 2 n5 main_net 77] n net fork_branches by (simp add: cp_demo_facts)
  moreover have "CheckSync main_net 77 5 (cp_demo 3) = Some False"
    using CheckSync_iff [OF t, of 5 3 n5 main_net 77] n net fork_branches by (simp add: cp_demo_facts)
  ultimately show ?thesis ..
qed

theorem ValidateSyncCheckpoint_iff_witness:
  "ValidateSyncCheckpoint 5 (cp_demo 2) = (True, cp_demo 2) \<and>
   ValidateSyncCheckpoint 5 (cp_demo 3) = (False, (cp_demo 3)\<lparr> hashInvalidCheckpoint := 5 \<rparr>)"
proof -
  obtain n2 n3 n5 where n: "map_find 2 fork_tree = Some n2" "map_find 3 fork_tree = Some n3" "map_find 5 fork_tree = Some n5"
    using fork_heights by metis
  have t: "tree_ok (cs_map (cp_demo h))" for h using fork_tree_ok by (simp add: cp_demo_facts)
  have "ValidateSyncCheckpoint 5 (cp_demo 2) = (True, cp_demo 2)"
    using ValidateSyncCheckpoint_iff [OF t, of 2 n2 5 n5] n fork_branches by (simp add: cp_demo_facts)
  moreover have "ValidateSyncCheckpoint 5 (cp_demo 3) = (False, (cp_demo 3)\<lparr> hashInvalidCheckpoint := 5 \<rparr>)"
    using ValidateSyncCheckpoint_iff [OF t, of 3 n3 5 n5] n fork_branches by (simp add: cp_demo_facts)
  ultimately show ?thesis ..
qed

definition cp_env :: "((bytes \<times> bytes) list, nat) chain_env" where
  "cp_env = demo_chain_env\<lparr> ce_block := demo_env\<lparr> be_node := spend_env \<rparr> \<rparr>"

definition cp_message :: CSyncCheckpoint where
  "cp_message = \<lparr> cp_nVersion = 1, cp_hashCheckpoint = 0, cp_vchMsg = Serialize_CUnsignedSyncCheckpoint (1, 2), cp_vchSig = [7] \<rparr>"

theorem ProcessSyncCheckpoint_accepts_witness:
  "\<exists>st'. ProcessSyncCheckpoint cp_env cp_message (cp_demo 1) = Some (True, st') \<and> hashSyncCheckpoint st' = 2 \<and>
     map_of (pdb (ch_txdb (cs_chain st'))) sync_key = Some (Serialize_word (2 :: uint256))"
proof -
  have msg: "Unserialize_CUnsignedSyncCheckpoint (cp_vchMsg cp_message) = Inr ((1, 2), [])"
    using codec_uint32.read_back [of 1] codec_uint256.read_back [of 2 "[]"]
    by (simp add: Unserialize_CUnsignedSyncCheckpoint_def Serialize_CUnsignedSyncCheckpoint_def cp_message_def bind_reader_def return_reader_def)
  have sig: "env_Verify sample_env k 5 (cp_vchSig cp_message)" for k by (simp add: sample_env_def cp_message_def)
  have env: "ne_crypto (be_node (ce_block cp_env)) = sample_env" "ce_ldb cp_env = list_db" "env_Hash sample_env x = 5" for x
    by (simp_all add: cp_env_def demo_chain_env_def demo_env_def spend_env_def sample_env_def)
  obtain n1 n2 where n: "map_find 1 fork_tree = Some n1" "map_find 2 fork_tree = Some n2" using fork_heights by metis
  have t: "tree_ok (cs_map (cp_demo 1))" using fork_tree_ok by (simp add: cp_demo_facts)
  have v: "ValidateSyncCheckpoint 2 (cp_demo 1) = (True, cp_demo 1)"
    using ValidateSyncCheckpoint_iff [OF t, of n1 2 n2] n fork_branches by (simp add: cp_demo_facts)
  have main: "switch_to cp_env 2 (cp_demo 1) = Some (Switched, cp_demo 1)"
    by (simp add: switch_to_def IsInMainChain_def cp_demo_def pnext_of_def fork_tree_def map_find_Cons)
  have w: "\<exists>st'. cp_WriteSyncCheckpoint list_db 2 (cp_demo 1) = Some (True, st')"
    by (simp add: cp_WriteSyncCheckpoint_def cp_demo_def failing_state_def demo_state_def spend_db_def TxnBegin_def WriteSyncCheckpoint_def
        db_Write_def WriteNormal_def TxnCommit_def list_db_def)
  have found: "map_find 2 (cs_map (cp_demo 1)) \<noteq> None" using n by (simp add: cp_demo_facts)
  obtain st' where p: "ProcessSyncCheckpoint cp_env cp_message (cp_demo 1) = Some (True, st')"
    using msg sig v main w found by (auto simp: ProcessSyncCheckpoint_def cp_CheckSignature_def env)
  from ProcessSyncCheckpoint_accepts [OF p _ t, of map_of] leveldb_law_list msg have "hashSyncCheckpoint st' = 2"
    "map_of (pdb (ch_txdb (cs_chain st'))) sync_key = Some (Serialize_word (2 :: uint256))" by (auto simp: env)
  with p show ?thesis by blast
qed

end
