(* ===== verification/Block_Index.thy ===== *)
theory Block_Index
  imports Checkpoints
begin

text \<open>
  The index keeps what is in it: whatever the operations of the best chain and of the checkpoints do, and whether
  or not they succeed, a block that has an entry in \<^verbatim>\<open>mapBlockIndex\<close> keeps it, and the entry keeps the
  position of the block in the files. \<^verbatim>\<open>AddToBlockIndex\<close> puts the block under its hash with the position it was given.
\<close>

section \<open>Entries and their positions\<close>

definition indexed_at :: "uint256 \<Rightarrow> 32 word \<Rightarrow> 32 word \<Rightarrow> block_map \<Rightarrow> bool" where
  "indexed_at h nFile nBlockPos m \<longleftrightarrow>
     (\<exists>node. map_find h m = Some node \<and> bi_nFile (bn_index node) = nFile \<and> bi_nBlockPos (bn_index node) = nBlockPos)"

definition index_keeps :: "block_map \<Rightarrow> block_map \<Rightarrow> bool" where
  "index_keeps m m' \<longleftrightarrow> (map_ok m \<longrightarrow> map_ok m' \<and> (\<forall>h n p. indexed_at h n p m \<longrightarrow> indexed_at h n p m'))"

lemma index_keeps_refl [simp]: "index_keeps m m"
  by (simp add: index_keeps_def)

lemma index_keeps_trans: "index_keeps m m' \<Longrightarrow> index_keeps m' m'' \<Longrightarrow> index_keeps m m''"
  by (simp add: index_keeps_def)

lemma set_node_indexed:
  assumes "map_ok m" "\<And>node. map_find k m = Some node \<Longrightarrow> bi_nFile (bn_index (f node)) = bi_nFile (bn_index node) \<and>
      bi_nBlockPos (bn_index (f node)) = bi_nBlockPos (bn_index node)"
  shows "indexed_at h n p (set_node k f m) \<longleftrightarrow> indexed_at h n p m"
  using assms by (auto simp: indexed_at_def map_find_set_node)

lemma set_pnext_indexed: "map_ok m \<Longrightarrow> map_ok (set_pnext q next m) \<and> (indexed_at h n p (set_pnext q next m) \<longleftrightarrow> indexed_at h n p m)"
  by (cases q) (simp_all add: set_pnext_def set_node_indexed)

lemma links_indexed:
  "map_ok m \<Longrightarrow> map_ok (fold (\<lambda>k m. set_pnext (pprev_of k m) (f k) m) ks m) \<and>
     (indexed_at h n p (fold (\<lambda>k m. set_pnext (pprev_of k m) (f k) m) ks m) \<longleftrightarrow> indexed_at h n p m)"
proof (induction ks arbitrary: m)
  case (Cons k ks)
  note s = set_pnext_indexed [OF Cons.prems, of "pprev_of k m" "f k"]
  then have "map_ok (set_pnext (pprev_of k m) (f k) m)" by blast
  from Cons.IH [OF this] s show ?case by simp
qed simp

lemma relink_indexed: "map_ok m \<Longrightarrow> map_ok (relink xs ys m) \<and> (indexed_at h n p (relink xs ys m) \<longleftrightarrow> indexed_at h n p m)"
  using links_indexed [of m "\<lambda>_. None" xs] links_indexed [of _ Some ys] unfolding relink_def by blast

section \<open>The best chain\<close>

lemma ConnectBlock_position:
  "ConnectBlock env db pool block chain hashNext fJustCheck cache = Some (v, db', index, cache') \<Longrightarrow>
    bi_nFile index = bi_nFile (hd chain) \<and> bi_nBlockPos index = bi_nBlockPos (hd chain)"
  unfolding ConnectBlock_def write_block_def Let_def by (auto split: bind_splits if_splits option.splits)

lemma connect_at_index: "connect_at env block pindex st = Some (ok, st') \<Longrightarrow> index_keeps (ch_mapBlockIndex st) (ch_mapBlockIndex st')"
proof -
  assume "connect_at env block pindex st = Some (ok, st')"
  then obtain v db index cache where c: "ConnectBlock (block_env_at env st) (ch_txdb st) (mapTx (as_pool (ch_pool st))) block
       (chain_at (ch_mapBlockIndex st) (Some pindex)) (hashNext_of pindex st) False (as_cache (ch_pool st)) = Some (v, db, index, cache)"
    "st' = (set_index pindex index st)\<lparr> ch_txdb := db, ch_pool := (ch_pool st)\<lparr> as_cache := cache \<rparr> \<rparr>"
    unfolding connect_at_def by (auto split: bind_splits)
  have "map_ok (ch_mapBlockIndex st) \<Longrightarrow> indexed_at h n p (set_node pindex (\<lambda>node. node\<lparr> bn_index := index \<rparr>) (ch_mapBlockIndex st)) \<longleftrightarrow>
      indexed_at h n p (ch_mapBlockIndex st)" for h n p
    by (rule set_node_indexed) (use ConnectBlock_position [OF c(1)] chain_at_hd in auto)
  then show ?thesis by (simp add: c(2) index_keeps_def set_index_def)
qed

lemma disconnect_branch_index: "disconnect_branch env v r st = Some (x, st') \<Longrightarrow> index_keeps (ch_mapBlockIndex st) (ch_mapBlockIndex st')"
  by (induction v arbitrary: r st) (fastforce simp: Let_def split: option.splits bind_splits if_splits)+

lemma connect_branch_index: "connect_branch env v r st = Some (x, st') \<Longrightarrow> index_keeps (ch_mapBlockIndex st) (ch_mapBlockIndex st')"
proof (induction v arbitrary: r st)
  case (Cons pindex v)
  then show ?case
    by (auto split: option.splits bind_splits if_splits dest!: connect_at_index; blast intro: index_keeps_trans)
qed simp

lemma relinked_index: "index_keeps m m' \<Longrightarrow> index_keeps m (relink xs ys m')" "index_keeps m m' \<Longrightarrow> index_keeps m (set_pnext a b m')"
  using relink_indexed set_pnext_indexed by (simp_all add: index_keeps_def)

lemma Reorganize_index: "Reorganize env pindexNew st = Some (ok, st') \<Longrightarrow> index_keeps (ch_mapBlockIndex st) (ch_mapBlockIndex st')"
  unfolding Reorganize_def Let_def
  by (auto split: option.splits bind_splits if_splits dest!: disconnect_branch_index connect_branch_index; blast intro: index_keeps_trans relinked_index)

lemma InvalidChainFound_index: "InvalidChainFound env pindexNew st = Some st' \<Longrightarrow> index_keeps (ch_mapBlockIndex st) (ch_mapBlockIndex st')"
  unfolding InvalidChainFound_def Let_def by (auto split: option.splits bind_splits if_splits)

lemma abort_invalid_index: "abort_invalid env pindexNew st = Some (ok, st') \<Longrightarrow> index_keeps (ch_mapBlockIndex st) (ch_mapBlockIndex st')"
  unfolding abort_invalid_def by (auto split: bind_splits dest!: InvalidChainFound_index)

lemma SetBestChainInner_index: "SetBestChainInner env block pindexNew st = Some (ok, st') \<Longrightarrow> index_keeps (ch_mapBlockIndex st) (ch_mapBlockIndex st')"
  unfolding SetBestChainInner_def Let_def
  by (auto split: bind_splits if_splits dest!: connect_at_index abort_invalid_index; blast intro: index_keeps_trans relinked_index)

lemma connect_postponed_index: "connect_postponed env v st = Some st' \<Longrightarrow> index_keeps (ch_mapBlockIndex st) (ch_mapBlockIndex st')"
proof (induction v arbitrary: st)
  case (Cons pindex v)
  then show ?case
    by (auto simp: Let_def split: option.splits bind_splits if_splits dest!: SetBestChainInner_index; blast intro: index_keeps_trans)
qed simp

lemma switch_branch_index: "switch_branch env pindexNew st = Some (ok, st') \<Longrightarrow> index_keeps (ch_mapBlockIndex st) (ch_mapBlockIndex st')"
  unfolding switch_branch_def
  by (auto split: bind_splits if_splits prod.splits dest!: Reorganize_index abort_invalid_index connect_postponed_index; blast intro: index_keeps_trans)

lemma set_best_index: "set_best hash pindexNew st = Some st' \<Longrightarrow> index_keeps (ch_mapBlockIndex st) (ch_mapBlockIndex st')"
  unfolding set_best_def by (auto split: bind_splits)

lemma SetBestChain_index: "SetBestChain env block pindexNew st = Some (ok, st') \<Longrightarrow> index_keeps (ch_mapBlockIndex st) (ch_mapBlockIndex st')"
  unfolding SetBestChain_def Let_def
  by (auto split: bind_splits if_splits dest!: SetBestChainInner_index switch_branch_index set_best_index; blast intro: index_keeps_trans)

section \<open>A new block\<close>

text \<open>What holds of the result of every path that returns.\<close>

definition ends_in :: "('a \<Rightarrow> bool) \<Rightarrow> 'a option \<Rightarrow> bool" where
  "ends_in Q r \<longleftrightarrow> (\<forall>x. r = Some x \<longrightarrow> Q x)"

lemma ends_in_intros:
  "(c \<Longrightarrow> ends_in Q a) \<Longrightarrow> (\<not> c \<Longrightarrow> ends_in Q b) \<Longrightarrow> ends_in Q (if c then a else b)"
  "(\<And>x. m = Some x \<Longrightarrow> ends_in Q (f x)) \<Longrightarrow> ends_in Q (m \<bind> f)"
  "(\<And>a b. x = (a, b) \<Longrightarrow> ends_in Q (g a b)) \<Longrightarrow> ends_in Q (case x of (a, b) \<Rightarrow> g a b)"
  by (auto simp: ends_in_def split: bind_splits prod.splits)

lemma ends_in_Let: "(\<And>x. x = a \<Longrightarrow> ends_in Q (f x)) \<Longrightarrow> ends_in Q (Let a f)"
  by simp

lemma ends_in_option:
  "(o' = None \<Longrightarrow> ends_in Q a) \<Longrightarrow> (\<And>x. o' = Some x \<Longrightarrow> ends_in Q (g x)) \<Longrightarrow> ends_in Q (case o' of None \<Rightarrow> a | Some x \<Rightarrow> g x)"
  by (cases o') simp_all

lemma SetStakeModifier_position: "bi_nFile (SetStakeModifier x m g) = bi_nFile x \<and> bi_nBlockPos (SetStakeModifier x m g) = bi_nBlockPos x"
  by (simp add: SetStakeModifier_def Let_def)

lemma SetStakeEntropyBit_position: "SetStakeEntropyBit x e = (ok, y) \<Longrightarrow> bi_nFile y = bi_nFile x \<and> bi_nBlockPos y = bi_nBlockPos x"
  by (auto simp: SetStakeEntropyBit_def split: if_splits)

lemma new_CBlockIndex_position: "bi_nFile (new_CBlockIndex n p block) = n \<and> bi_nBlockPos (new_CBlockIndex n p block) = p"
  by (simp add: new_CBlockIndex_def SetProofOfStake_def Let_def)

text \<open>The entry that is stored has the position: no later assignment to it changes that.\<close>

lemma indexed_at_set:
  "map_ok m \<Longrightarrow> indexed_at h n p (map_set h node m) \<longleftrightarrow> bi_nFile (bn_index node) = n \<and> bi_nBlockPos (bn_index node) = p"
  by (simp add: indexed_at_def)

lemma proof_position:
  "bi_nFile (case b of True \<Rightarrow> case o' of None \<Rightarrow> x | Some proof \<Rightarrow> x\<lparr> bi_hashProofOfStake := proof \<rparr> | False \<Rightarrow> x) = bi_nFile x"
  "bi_nBlockPos (case b of True \<Rightarrow> case o' of None \<Rightarrow> x | Some proof \<Rightarrow> x\<lparr> bi_hashProofOfStake := proof \<rparr> | False \<Rightarrow> x) = bi_nBlockPos x"
  by (cases b; cases o'; simp)+

lemma SetBestChain_indexed:
  "SetBestChain env block h st = Some (ok, st') \<Longrightarrow> map_ok (ch_mapBlockIndex st) \<Longrightarrow> indexed_at k n p (ch_mapBlockIndex st) \<Longrightarrow>
    map_ok (ch_mapBlockIndex st') \<and> indexed_at k n p (ch_mapBlockIndex st')"
  by (drule SetBestChain_index) (simp add: index_keeps_def)

lemma AddToBlockIndex_index:
  assumes "AddToBlockIndex env block nFile nBlockPos st = Some (True, st')" "map_ok (ch_mapBlockIndex st)"
  shows "map_ok (ch_mapBlockIndex st') \<and> indexed_at (CBlockHeader_GetHash (ce_block env) block) nFile nBlockPos (ch_mapBlockIndex st')"
proof -
  have "ends_in (\<lambda>(ok, st'). ok \<longrightarrow> map_ok (ch_mapBlockIndex st') \<and>
      indexed_at (CBlockHeader_GetHash (ce_block env) block) nFile nBlockPos (ch_mapBlockIndex st')) (AddToBlockIndex env block nFile nBlockPos st)"
    unfolding AddToBlockIndex_def
    by (intro ends_in_intros ends_in_Let ends_in_option; simp add: ends_in_def;
      use assms(2) in \<open>auto simp: indexed_at_set SetStakeModifier_position proof_position new_CBlockIndex_position
        split: if_splits dest!: SetStakeEntropyBit_position [OF sym] elim!: SetBestChain_indexed\<close>)
  with assms(1) show ?thesis by (simp add: ends_in_def)
qed

section \<open>The pending checkpoint\<close>

lemma switch_to_index: "switch_to env h st = Some (r, st') \<Longrightarrow> index_keeps (cs_map st) (cs_map st')"
  unfolding switch_to_def by (auto split: bind_splits if_splits option.splits dest!: SetBestChain_index)

lemma cp_WriteSyncCheckpoint_index: "cp_WriteSyncCheckpoint ldb h st = Some (ok, st') \<Longrightarrow> index_keeps (cs_map st) (cs_map st')"
  unfolding cp_WriteSyncCheckpoint_def Let_def by (auto split: bind_splits if_splits)

lemma ValidateSyncCheckpoint_index: "ValidateSyncCheckpoint h st = (ok, st') \<Longrightarrow> cs_chain st' = cs_chain st"
  unfolding ValidateSyncCheckpoint_def by (auto split: option.splits if_splits list.splits)

lemma AcceptPendingSyncCheckpoint_index:
  "AcceptPendingSyncCheckpoint env st = Some (ok, st') \<Longrightarrow> index_keeps (cs_map st) (cs_map st')"
  unfolding AcceptPendingSyncCheckpoint_def Let_def
  by (auto split: bind_splits if_splits prod.splits switch_result.splits
      dest!: ValidateSyncCheckpoint_index switch_to_index cp_WriteSyncCheckpoint_index; blast intro: index_keeps_trans)

end
