(* ===== verification/Block_Files.thy ===== *)
theory Block_Files
  imports Block_Connect
begin

text \<open>
  The files of blocks (\<^verbatim>\<open>src/src/file_operate/file_open.h\<close>, \<^verbatim>\<open>WriteToDisk\<close> and \<^verbatim>\<open>ReadFromDisk\<close> of
  \<^verbatim>\<open>src/src/block/block.cpp\<close> and \<^verbatim>\<open>src/src/block/transaction.cpp\<close>): a block is appended to the current file, and a
  block or a transaction is read from a position. Reads and writes of the operating system succeed; whether a
  file can be opened for writing is a parameter.
\<close>

section \<open>The files\<close>

record block_files =
  bf_files :: "(32 word, bytes) std_map"
  nCurrentBlockFile :: "32 word"

text \<open>The contents that a read from the position sees, if there is such a file.\<close>

definition OpenBlockFile_rb :: "block_files \<Rightarrow> 32 word \<Rightarrow> 32 word \<Rightarrow> bytes option" where
  "OpenBlockFile_rb bf nFile nBlockPos =
     (if nFile < 1 \<or> nFile = 0xffffffff then None
      else map_option (drop (unat nBlockPos)) (map_find nFile (bf_files bf)))"

text \<open>Opening for appending makes the file if there is none.\<close>

definition OpenBlockFile_ab :: "(32 word \<Rightarrow> bool) \<Rightarrow> block_files \<Rightarrow> 32 word \<Rightarrow> (bytes \<times> block_files) option" where
  "OpenBlockFile_ab fopen bf nFile =
     (if nFile < 1 \<or> nFile = 0xffffffff then None
      else if \<not> fopen nFile then None
      else let file = (case map_find nFile (bf_files bf) of None \<Rightarrow> [] | Some file \<Rightarrow> file) in
        Some (file, bf\<lparr> bf_files := map_set nFile file (bf_files bf) \<rparr>))"

definition max_file :: nat where "max_file = 0x7F000000 - MAX_SIZE"

lemma AppendBlockFile_next: "n \<noteq> 0xffffffff \<Longrightarrow> unat (0xfffffffe - n) < unat (0xffffffff - n :: 32 word)"
proof -
  assume "n \<noteq> 0xffffffff"
  then have "0xffffffff - n \<noteq> 0" by simp
  moreover have "0xffffffff - n - 1 = 0xfffffffe - n" by simp
  ultimately show ?thesis using measure_unat [of "0xffffffff - n"] by metis
qed

text \<open>The loop goes on to the next file while the current one is full.\<close>

function AppendBlockFile :: "(32 word \<Rightarrow> bool) \<Rightarrow> block_files \<Rightarrow> 32 word option \<times> block_files" where
  "AppendBlockFile fopen bf =
     (case OpenBlockFile_ab fopen bf (nCurrentBlockFile bf) of
        None \<Rightarrow> (None, bf)
      | Some (file, bf) \<Rightarrow>
          if length file < max_file then (Some (nCurrentBlockFile bf), bf)
          else AppendBlockFile fopen (bf\<lparr> nCurrentBlockFile := nCurrentBlockFile bf + 1 \<rparr>))"
  by pat_completeness auto

termination
  by (relation "measure (\<lambda>(_, bf). unat (0xffffffff - nCurrentBlockFile bf))")
    (auto simp: OpenBlockFile_ab_def Let_def intro: AppendBlockFile_next split: if_splits)

definition gpchMessageStart :: bytes where "gpchMessageStart = [0xe4, 0xe8, 0xe9, 0xe5]"

text \<open>\<open>Some (None, bf)\<close> is the result false, \<open>None\<close> a failed assertion when the block is written.\<close>

definition WriteToDisk :: "(32 word \<Rightarrow> bool) \<Rightarrow> CBlock \<Rightarrow> block_files \<Rightarrow> ((32 word \<times> 32 word) option \<times> block_files) option" where
  "WriteToDisk fopen block bf =
     (case AppendBlockFile fopen bf of
        (None, bf) \<Rightarrow> Some (None, bf)
      | (Some nFile, bf) \<Rightarrow> do {
          file \<leftarrow> map_find nFile (bf_files bf);
          nSize \<leftarrow> CBlock_size block;
          bytes \<leftarrow> CBlock_Serialize block;
          let file = file @ gpchMessageStart @ Serialize_word (word_of_nat nSize :: 32 word);
          Some (Some (nFile, word_of_nat (length file)), bf\<lparr> bf_files := map_set nFile (file @ bytes) (bf_files bf) \<rparr>) })"

text \<open>
  Reading a block and the header of a block. The flag for the header alone is not looked at by the reader
  of a block, which takes \<open>nType\<close> to be zero, so that the transactions are read with it.
\<close>

definition read_block :: "block_files \<Rightarrow> 32 word \<Rightarrow> 32 word \<Rightarrow> CBlock option" where
  "read_block bf nFile nBlockPos =
     (case OpenBlockFile_rb bf nFile nBlockPos of
        None \<Rightarrow> None
      | Some filein \<Rightarrow> (case CBlock_Unserialize filein of Inl _ \<Rightarrow> None | Inr (block, _) \<Rightarrow> Some block))"

definition read_header_time :: "block_files \<Rightarrow> 32 word \<Rightarrow> 32 word \<Rightarrow> int option" where
  "read_header_time bf nFile nBlockPos = map_option bh_GetBlockTime (read_block bf nFile nBlockPos)"

definition read_tx :: "block_files \<Rightarrow> CDiskTxPos \<Rightarrow> CTransaction option" where
  "read_tx bf pos =
     (case OpenBlockFile_rb bf (get_nFile pos) 0 of
        None \<Rightarrow> None
      | Some filein \<Rightarrow> (case CTransaction_Unserialize (drop (unat (get_nTxPos pos)) filein) of Inl _ \<Rightarrow> None | Inr (tx, _) \<Rightarrow> Some tx))"

section \<open>What is appended is read back\<close>

text \<open>The files after a write: every file is there with more bytes at its end.\<close>

definition extends :: "block_files \<Rightarrow> block_files \<Rightarrow> bool" where
  "extends bf bf' \<longleftrightarrow> map_ok (bf_files bf') \<and> (\<forall>n f. map_find n (bf_files bf) = Some f \<longrightarrow> (\<exists>x. map_find n (bf_files bf') = Some (f @ x)))"

lemma extends_refl: "map_ok (bf_files bf) \<Longrightarrow> extends bf bf"
  by (auto simp: extends_def)

lemma extends_trans: "extends bf bf' \<Longrightarrow> extends bf' bf'' \<Longrightarrow> extends bf bf''"
  by (fastforce simp: extends_def)

lemma extends_set:
  assumes "map_ok (bf_files bf)" "map_find n (bf_files bf) = Some f \<or> map_find n (bf_files bf) = None \<and> f = []"
  shows "extends bf (bf\<lparr> bf_files := map_set n (f @ x) (bf_files bf) \<rparr>)"
  using assms by (auto simp: extends_def)

declare AppendBlockFile.simps [simp del]

lemma AppendBlockFile_spec:
  assumes "AppendBlockFile fopen bf = (r, bf')" "map_ok (bf_files bf)"
  shows "extends bf bf' \<and> (\<forall>nFile. r = Some nFile \<longrightarrow>
    nFile \<noteq> 0 \<and> nFile \<noteq> 0xffffffff \<and> (\<exists>dat. map_find nFile (bf_files bf') = Some dat \<and> length dat < max_file))"
  using assms
proof (induction fopen bf arbitrary: r bf' rule: AppendBlockFile.induct)
  case (1 fopen bf)
  show ?case
  proof (cases "OpenBlockFile_ab fopen bf (nCurrentBlockFile bf)")
    case None
    then show ?thesis using "1.prems" by (simp add: AppendBlockFile.simps [of fopen bf] extends_refl)
  next
    case (Some p)
    then obtain dat bf1 where p: "p = (dat, bf1)" by (cases p)
    have opened: "nCurrentBlockFile bf \<noteq> 0" "nCurrentBlockFile bf \<noteq> 0xffffffff" "bf1 = bf\<lparr> bf_files := map_set (nCurrentBlockFile bf) (dat @ []) (bf_files bf) \<rparr>"
      "map_find (nCurrentBlockFile bf) (bf_files bf) = Some dat \<or> map_find (nCurrentBlockFile bf) (bf_files bf) = None \<and> dat = []"
      using Some p by (auto simp: OpenBlockFile_ab_def Let_def linorder_not_less split: if_splits option.splits)
    have e: "extends bf bf1" unfolding opened(3) by (rule extends_set [OF "1.prems"(2) opened(4)])
    show ?thesis
    proof (cases "length dat < max_file")
      case True
      then show ?thesis using "1.prems" Some p e opened by (auto simp: AppendBlockFile.simps [of fopen bf])
    next
      case False
      then have "AppendBlockFile fopen (bf1\<lparr> nCurrentBlockFile := nCurrentBlockFile bf1 + 1 \<rparr>) = (r, bf')"
        using "1.prems"(1) Some p by (simp add: AppendBlockFile.simps [of fopen bf])
      from "1.IH" [OF Some p [symmetric] False this] e have "extends (bf1\<lparr> nCurrentBlockFile := nCurrentBlockFile bf1 + 1 \<rparr>) bf' \<and> (\<forall>nFile. r = Some nFile \<longrightarrow>
        nFile \<noteq> 0 \<and> nFile \<noteq> 0xffffffff \<and> (\<exists>dat. map_find nFile (bf_files bf') = Some dat \<and> length dat < max_file))"
        by (simp add: extends_def)
      moreover have "extends bf (bf1\<lparr> nCurrentBlockFile := nCurrentBlockFile bf1 + 1 \<rparr>)" using e by (simp add: extends_def)
      ultimately show ?thesis by (blast intro: extends_trans)
    qed
  qed
qed

lemma CBlock_Serialize_body: "CBlock_Serialize block = Some b \<Longrightarrow> b = block_body block"
  by (auto simp: CBlock_Serialize_def block_body_def Serialize_vector_def serialize_vtx_iff)

lemma OpenBlockFile_extends:
  assumes "extends bf bf'" "OpenBlockFile_rb bf n p = Some f" "f \<noteq> []"
  shows "\<exists>x. OpenBlockFile_rb bf' n p = Some (f @ x)"
proof -
  from assms(2) obtain dat where dat: "map_find n (bf_files bf) = Some dat" "f = drop (unat p) dat" "\<not> (n < 1 \<or> n = 0xffffffff)"
    by (auto simp: OpenBlockFile_rb_def split: if_splits)
  from assms(1) dat(1) obtain x where "map_find n (bf_files bf') = Some (dat @ x)" by (auto simp: extends_def)
  moreover have "unat p < length dat" using assms(3) dat(2) by simp
  ultimately show ?thesis using dat by (auto simp: OpenBlockFile_rb_def)
qed

lemma read_block_extends:
  assumes "extends bf bf'" "read_block bf n p = Some block"
  shows "read_block bf' n p = Some block"
proof -
  from assms(2) obtain f rest where f: "OpenBlockFile_rb bf n p = Some f" "CBlock_Unserialize f = Inr (block, rest)"
    by (auto simp: read_block_def split: option.splits sum.splits)
  then have b: "wf_block block" "f = block_body block @ rest" by (simp_all add: codec_block.unser_iff)
  have "f \<noteq> []" using b(2) by (auto simp: block_body_def dest: arg_cong [of _ _ length])
  from OpenBlockFile_extends [OF assms(1) f(1) this] obtain x where "OpenBlockFile_rb bf' n p = Some (f @ x)" by blast
  with b show ?thesis by (simp add: read_block_def codec_block.read_back)
qed

lemma read_tx_extends:
  assumes "extends bf bf'" "read_tx bf pos = Some tx"
  shows "read_tx bf' pos = Some tx"
proof -
  from assms(2) obtain f rest where f: "OpenBlockFile_rb bf (get_nFile pos) 0 = Some f" "CTransaction_Unserialize (drop (unat (get_nTxPos pos)) f) = Inr (tx, rest)"
    by (auto simp: read_tx_def split: option.splits sum.splits)
  then have b: "wf_tx tx" "drop (unat (get_nTxPos pos)) f = tx_body tx @ rest" by (simp_all add: codec_tx.unser_iff)
  have ne: "drop (unat (get_nTxPos pos)) f \<noteq> []" using b(2) by (auto dest: arg_cong [of _ _ length] simp: length_tx_body)
  then have "f \<noteq> []" by auto
  from OpenBlockFile_extends [OF assms(1) f(1) this] obtain x where "OpenBlockFile_rb bf' (get_nFile pos) 0 = Some (f @ x)" by blast
  moreover have "unat (get_nTxPos pos) < length f" using ne by simp
  then have "drop (unat (get_nTxPos pos)) (f @ x) = tx_body tx @ rest @ x" using b(2) by simp
  ultimately show ?thesis using b(1) by (simp add: read_tx_def codec_tx.read_back)
qed

lemma WriteToDisk_spec:
  assumes "WriteToDisk fopen block bf = Some (Some (nFile, nBlockPos), bf')" "map_ok (bf_files bf)" "wf_block block"
  shows "read_block bf' nFile nBlockPos = Some block \<and>
    (\<forall>n p b. read_block bf n p = Some b \<longrightarrow> read_block bf' n p = Some b) \<and>
    (\<forall>pos tx. read_tx bf pos = Some tx \<longrightarrow> read_tx bf' pos = Some tx)"
proof -
  from assms(1) obtain bf1 dat nSize where w: "AppendBlockFile fopen bf = (Some nFile, bf1)" "map_find nFile (bf_files bf1) = Some dat"
    "nBlockPos = word_of_nat (length (dat @ gpchMessageStart @ Serialize_word (word_of_nat nSize :: 32 word)))"
    "bf' = bf1\<lparr> bf_files := map_set nFile (dat @ gpchMessageStart @ Serialize_word (word_of_nat nSize :: 32 word) @ block_body block) (bf_files bf1) \<rparr>"
    unfolding WriteToDisk_def Let_def by (auto split: prod.splits option.splits bind_splits dest!: CBlock_Serialize_body)
  note spec = AppendBlockFile_spec [OF w(1) assms(2)]
  then have m: "map_ok (bf_files bf1)" "nFile \<noteq> 0" "nFile \<noteq> 0xffffffff" "length dat < max_file" using w(2) by (auto simp: extends_def)
  have e: "extends bf bf'" using spec extends_set [OF m(1), of nFile dat] w(2) unfolding w(4) by (blast intro: extends_trans)
  define pre where "pre = dat @ gpchMessageStart @ Serialize_word (word_of_nat nSize :: 32 word)"
  have len: "length pre < 2 ^ 32" using m(4) by (simp add: pre_def max_file_def MAX_SIZE_def gpchMessageStart_def Serialize_word_def)
  have "nBlockPos = word_of_nat (length pre)" using w(3) by (simp add: pre_def)
  then have "unat nBlockPos = length pre" using len by (simp add: unat_of_nat)
  moreover have "map_find nFile (bf_files bf') = Some (pre @ block_body block)" using m(1) by (simp add: w(4) pre_def)
  ultimately have "OpenBlockFile_rb bf' nFile nBlockPos = Some (block_body block)"
    using m(2,3) by (simp add: OpenBlockFile_rb_def linorder_not_less)
  then have "read_block bf' nFile nBlockPos = Some block"
    using codec_block.read_back [OF assms(3), of "[]"] by (simp add: read_block_def)
  with read_block_extends [OF e] read_tx_extends [OF e] show ?thesis by blast
qed

text \<open>
  C13. Blocks on disk. A block that \<^verbatim>\<open>WriteToDisk\<close> appended is read back from the position it returns, and every block and
  every transaction that could be read before is read from its position as before.
\<close>

theorem WriteToDisk_roundtrip:
  assumes "WriteToDisk fopen block bf = Some (Some (nFile, nBlockPos), bf')" "map_ok (bf_files bf)" "wf_block block"
  shows "read_block bf' nFile nBlockPos = Some block \<and>
    (\<forall>n p b. read_block bf n p = Some b \<longrightarrow> read_block bf' n p = Some b) \<and>
    (\<forall>pos tx. read_tx bf pos = Some tx \<longrightarrow> read_tx bf' pos = Some tx)"
  by (rule WriteToDisk_spec [OF assms])

section \<open>The positions in the index\<close>

text \<open>
  After the transactions of the hashes \<open>H\<close>: their entries name positions at which they are read, the other
  entries have the positions they had.
\<close>

definition placed :: "'d node_env \<Rightarrow> block_files \<Rightarrow> (uint256 \<rightharpoonup> CTxIndex) \<Rightarrow> uint256 set \<Rightarrow> (uint256 \<rightharpoonup> CTxIndex) \<Rightarrow> bool" where
  "placed env bf V0 H V \<longleftrightarrow> (\<forall>h.
     if h \<in> H then \<exists>x tx. V h = Some x \<and> read_tx bf (get_pos x) = Some tx \<and> GetHash env tx = Some h
     else map_option get_pos (V h) = map_option get_pos (V0 h))"

lemma spend_marks_pos: "map_option get_pos (spend_marks p vin V h) = map_option get_pos (V h)"
  by (cases "V h") (simp_all add: spend_marks_def)

lemma placed_step:
  assumes "placed env bf V0 H V" "read_tx bf q = Some tx" "GetHash env tx = Some hash"
  shows "placed env bf V0 (insert hash H) ((spend_marks p vin V)(hash \<mapsto> new_CTxIndex q n))"
  unfolding placed_def
proof (intro allI)
  fix h
  let ?V = "(spend_marks p vin V)(hash \<mapsto> new_CTxIndex q n)"
  have pos: "map_option get_pos (?V h) = (if h = hash then Some q else map_option get_pos (V h))"
    using spend_marks_pos [of p vin V h] by (simp add: new_CTxIndex_def)
  show "if h \<in> insert hash H then \<exists>x tx. ?V h = Some x \<and> read_tx bf (get_pos x) = Some tx \<and> GetHash env tx = Some h
    else map_option get_pos (?V h) = map_option get_pos (V0 h)"
  proof (cases "h = hash")
    case True
    then show ?thesis using assms(2,3) by (simp add: new_CTxIndex_def)
  next
    case False
    with pos have eq: "map_option get_pos (?V h) = map_option get_pos (V h)" by simp
    show ?thesis
    proof (cases "h \<in> H")
      case True
      with assms(1) [unfolded placed_def, rule_format, of h] obtain x tx'
        where x: "V h = Some x" "read_tx bf (get_pos x) = Some tx'" "GetHash env tx' = Some h" by auto
      with eq obtain y where "?V h = Some y" "get_pos y = get_pos x" by (auto simp: map_option_eq_Some)
      with x True show ?thesis by auto
    qed (use assms(1) [unfolded placed_def, rule_format, of h] eq False in auto)
  qed
qed

lemma connect_spender_pos:
  "connect_spender env db pool chain fScriptChecks p tx st = Some (None, st') \<Longrightarrow> bs_nTxPos st' = bs_nTxPos st"
  unfolding connect_spender_def Let_def by (auto split: bind_splits fetched.splits if_splits)

lemma connect_tx_pos:
  assumes "connect_tx env db pool chain False fScriptChecks tx st = Some (None, st')"
  shows "\<exists>n. tx_size tx = Some n \<and> bs_nTxPos st' = bs_nTxPos st + word_of_nat n"
  using assms unfolding connect_tx_def Let_def
  by (auto split: bind_splits if_splits option.splits prod.splits dest!: connect_spender_pos)

lemma connect_txs_positions:
  assumes "connect_txs env db pool chain False fScriptChecks vtx st = Some (None, st')"
    and "tx_hashes (env_Hash (ne_crypto (be_node env))) vtx = Some hashes" "distinct hashes"
    and "txdb_ok (ne_ldb (be_node env)) content db" "bi_nFile (hd chain) \<noteq> 0xffffffff" "map_ok (bs_mapQueuedChanges st)"
    and "view_ok (block_view content db st)" "\<forall>tx \<in> set vtx. wf_tx tx \<and> length (get_vout tx) \<le> MAX_SIZE"
    and "placed (be_node env) bf V0 H (block_view content db st)"
    and "OpenBlockFile_rb bf (bi_nFile (hd chain)) 0 = Some f" "drop (unat (bs_nTxPos st)) f = concat (map tx_body vtx) @ rest"
    and "unat (bs_nTxPos st) + length (concat (map tx_body vtx)) < 2 ^ 32"
  shows "placed (be_node env) bf V0 (H \<union> set hashes) (block_view content db st')"
  using assms
proof (induction vtx arbitrary: st hashes H)
  case (Cons tx vtx)
  obtain hash hs where hs: "GetHash (be_node env) tx = Some hash" "tx_hashes (env_Hash (ne_crypto (be_node env))) vtx = Some hs" "hashes = hash # hs"
    using Cons.prems(2) by (auto split: bind_splits)
  obtain st1 where st1: "connect_tx env db pool chain False fScriptChecks tx st = Some (None, st1)"
      "connect_txs env db pool chain False fScriptChecks vtx st1 = Some (None, st')"
    using Cons.prems(1) by (auto split: option.splits prod.splits)
  let ?V = "block_view content db st" and ?V1 = "block_view content db st1" and ?p = "tx_pos chain st"
  have "nulls_ok ?V" using Cons.prems(7) by (simp add: view_ok_def)
  note v = connect_tx_view [OF st1(1) hs(1) Cons.prems(4-6) this]
  have p: "\<not> CDiskTxPos_IsNull ?p" using Cons.prems(5) by (simp add: tx_pos_def CDiskTxPos_IsNull_def)
  have V1: "view_ok ?V1" unfolding v(2) using view_ok_step [OF Cons.prems(7) p] Cons.prems(8) by simp
  have "CTransaction_Unserialize (drop (unat (bs_nTxPos st)) f) = Inr (tx, concat (map tx_body vtx) @ rest)"
    using Cons.prems(8) by (simp add: Cons.prems(11) codec_tx.read_back)
  then have "read_tx bf ?p = Some tx" using Cons.prems(10) by (simp add: read_tx_def tx_pos_def)
  then have r1: "placed (be_node env) bf V0 (insert hash H) ?V1" unfolding v(2) by (rule placed_step [OF Cons.prems(9) _ hs(1)])
  from connect_tx_pos [OF st1(1)] obtain n where n: "tx_size tx = Some n" "bs_nTxPos st1 = bs_nTxPos st + word_of_nat n" by blast
  then have "n = length (tx_body tx)" by (auto simp: tx_size_def CTransaction_Serialize_def split: if_splits)
  moreover from this have pos: "unat (bs_nTxPos st1) = unat (bs_nTxPos st) + length (tx_body tx)"
    using Cons.prems(12) n(2) by (subst n(2), subst unat_word_ariths) (simp add: unat_of_nat)
  moreover have "drop (unat (bs_nTxPos st) + length (tx_body tx)) f = concat (map tx_body vtx) @ rest"
    using Cons.prems(11) by (simp add: add.commute flip: drop_drop)
  ultimately show ?case
    using Cons.IH [OF st1(2) hs(2) _ Cons.prems(4,5) v(1) V1 _ r1 Cons.prems(10)] Cons.prems(3,8,12) by (simp add: hs(3))
qed simp

text \<open>
  C14. Positions. When \<^verbatim>\<open>ConnectBlock\<close> accepts a block that its index entry finds on the disk, the transaction index has
  for each of its transactions a position at which that transaction is read: the positions that are counted
  up over the block, from the size of an empty one, are right. No other entry changes its position.
\<close>

theorem ConnectBlock_positions:
  assumes "ConnectBlock env db pool block chain hashNext False cache = Some ((True, penalty), db1, pindex, cache')"
    and "txdb_ok (ne_ldb (be_node env)) content db" "activeBatch db \<noteq> None" "nulls_ok (txdb_index content db)"
    and "read_block bf (bi_nFile (hd chain)) (bi_nBlockPos (hd chain)) = Some block" "unat (bi_nBlockPos (hd chain)) < 2 ^ 31"
  shows "\<exists>hashes. tx_hashes (env_Hash (ne_crypto (be_node env))) (get_vtx block) = Some hashes \<and>
    (\<forall>h \<in> set hashes. \<exists>x tx. txdb_index content db1 h = Some x \<and> read_tx bf (get_pos x) = Some tx \<and> GetHash (be_node env) tx = Some h) \<and>
    (\<forall>h. h \<notin> set hashes \<longrightarrow> map_option get_pos (txdb_index content db1 h) = map_option get_pos (txdb_index content db h))"
proof -
  obtain nTxPos st cache1 where c: "valid_block env block True True False" "first_tx_pos block (hd chain) = Some nTxPos"
    "connect_txs env db pool chain False (sint (bi_nHeight (hd chain)) \<ge> be_TotalBlocksEstimate env) (get_vtx block)
      \<lparr> bs_mapQueuedChanges = [], bs_nFees = 0, bs_nValueIn = 0, bs_nValueOut = 0, bs_nSigOps = 0, bs_nTxPos = nTxPos,
        bs_checks = [], bs_cache = cache \<rparr> = Some (None, st)"
    "write_block env db chain hashNext False st cache1 = Some ((True, penalty), db1, pindex, cache')"
    by (rule ConnectBlock_TrueE [OF assms(1)]) simp
  let ?st = "\<lparr> bs_mapQueuedChanges = [], bs_nFees = 0, bs_nValueIn = 0, bs_nValueOut = 0, bs_nSigOps = 0, bs_nTxPos = nTxPos,
        bs_checks = [], bs_cache = cache \<rparr>"
  have V: "block_view content db ?st = txdb_index content db" by (simp add: block_view_def)
  obtain hashes where h: "tx_hashes (env_Hash (ne_crypto (be_node env))) (get_vtx block) = Some hashes" "distinct hashes"
    using c(1) by (auto simp: valid_block_def)
  from assms(5) obtain f0 rest where f0: "OpenBlockFile_rb bf (bi_nFile (hd chain)) (bi_nBlockPos (hd chain)) = Some f0" "f0 = block_body block @ rest" "wf_block block"
    by (auto simp: read_block_def codec_block.unser_iff split: option.splits sum.splits)
  then obtain f where f: "bi_nFile (hd chain) \<noteq> 0xffffffff" "OpenBlockFile_rb bf (bi_nFile (hd chain)) 0 = Some f"
    "drop (unat (bi_nBlockPos (hd chain))) f = block_body block @ rest"
    by (auto simp: OpenBlockFile_rb_def split: if_splits)
  define k where "k = 80 + GetSizeOfCompactSize (length (get_vtx block))"
  have body: "block_body block = (Serialize_CBlockHeader block @ WriteCompactSize (length (get_vtx block))) @ concat (map tx_body (get_vtx block)) @ Serialize_bytes (get_vchBlockSig block)"
    by (simp add: block_body_def Serialize_vector_def)
  have k: "length (Serialize_CBlockHeader block @ WriteCompactSize (length (get_vtx block))) = k" by (simp add: k_def GetSizeOfCompactSize_length)
  have small: "length (block_body block) \<le> 1000000" using c(1) by (simp add: valid_block_def)
  have "k \<le> 90" by (simp add: k_def GetSizeOfCompactSize_def)
  have "nTxPos = bi_nBlockPos (hd chain) + word_of_nat k"
    using c(2) by (auto simp: first_tx_pos_def k_def CBlock_size_def CBlock_Serialize_def CBlock_SetNull_def Serialize_bytes_def WriteCompactSize_def GetSizeOfCompactSize_def)
  then have pos: "unat nTxPos = unat (bi_nBlockPos (hd chain)) + k"
    using assms(6) \<open>k \<le> 90\<close> by (subst \<open>nTxPos = _\<close>, subst unat_word_ariths) (simp add: unat_of_nat)
  have at: "drop (unat nTxPos) f = concat (map tx_body (get_vtx block)) @ Serialize_bytes (get_vchBlockSig block) @ rest"
    unfolding pos add.commute [of _ k] drop_drop [symmetric] f(3) body using k by simp
  have view: "view_ok (block_view content db ?st)" unfolding V using assms(4) txdb.wf_index [OF assms(2)] by (auto simp: view_ok_def)
  have outs: "\<forall>tx \<in> set (get_vtx block). wf_tx tx \<and> length (get_vout tx) \<le> MAX_SIZE"
    using c(1) valid_tx_outputs f0(3) by (auto simp: valid_block_def wf_block_def list_all_iff)
  have "unat nTxPos + length (concat (map tx_body (get_vtx block))) < 2 ^ 32"
    using pos assms(6) small \<open>k \<le> 90\<close> unfolding body by simp
  then have r: "placed (be_node env) bf (txdb_index content db) ({} \<union> set hashes) (block_view content db st)"
    using view outs f(2) at by (intro connect_txs_positions [OF c(3) h assms(2) f(1)]) (simp_all add: V placed_def)
  have "map_ok (bs_mapQueuedChanges st)" "view_ok (block_view content db st)"
    using connect_txs_undoes [OF c(3) h assms(2) f(1)] view outs connect_txs_fully_spent [OF c(3) h(1) assms(2)] unfolding V by auto
  then have "txdb_index content db1 = block_view content db st"
    by (rule write_block_index [OF assms(2,3), of st chain hashNext cache1]) (use c(4) in simp)
  with r h(1) show ?thesis by (auto simp: placed_def split: if_splits)
qed

section \<open>A file with a block\<close>

lemma wf_demo_block: "wf_block demo_block" "CBlock_Serialize demo_block = Some (block_body demo_block)"
  by (simp_all add: wf_block_def demo_block_def demo_coinbase_def spend_tx_def wf_tx_def wf_txin_def wf_txout_def MAX_SIZE_def push_vector_def
      CBlock_Serialize_def block_body_def Serialize_vector_def serialize_vtx_iff CTransaction_Serialize_def)

theorem WriteToDisk_roundtrip_witness:
  "\<exists>bf'. WriteToDisk (\<lambda>_. True) demo_block \<lparr> bf_files = [], nCurrentBlockFile = 1 \<rparr> = Some (Some (1, 8), bf') \<and>
     read_block bf' 1 8 = Some demo_block"
proof -
  have "AppendBlockFile (\<lambda>_. True) \<lparr> bf_files = [], nCurrentBlockFile = 1 \<rparr> = (Some 1, \<lparr> bf_files = [(1, [])], nCurrentBlockFile = 1 \<rparr>)"
    by (simp add: AppendBlockFile.simps [of _ "\<lparr> bf_files = [], nCurrentBlockFile = 1 \<rparr>"] OpenBlockFile_ab_def max_file_def MAX_SIZE_def)
  then obtain bf' where w: "WriteToDisk (\<lambda>_. True) demo_block \<lparr> bf_files = [], nCurrentBlockFile = 1 \<rparr> = Some (Some (1, 8), bf')"
    using wf_demo_block(2) by (simp add: WriteToDisk_def CBlock_size_def map_find_Cons gpchMessageStart_def Serialize_word_def)
  with WriteToDisk_roundtrip [OF w _ wf_demo_block(1)] show ?thesis by simp
qed

definition demo_files :: block_files where
  "demo_files = \<lparr> bf_files = [(1, replicate 8 0 @ block_body demo_block)], nCurrentBlockFile = 1 \<rparr>"

theorem ConnectBlock_positions_witness:
  "\<exists>db1 pindex cache' x tx. ConnectBlock demo_env spend_db [] demo_block demo_chain 0 False empty_cache = Some ((True, 0), db1, pindex, cache') \<and>
     txdb_index map_of db1 70 = Some x \<and> read_tx demo_files (get_pos x) = Some tx \<and> GetHash (be_node demo_env) tx = Some 70"
proof -
  obtain db1 pindex cache' where c: "ConnectBlock demo_env spend_db [] demo_block demo_chain 0 False empty_cache = Some ((True, 0), db1, pindex, cache')"
    using demo_ConnectBlock by blast
  have ok: "txdb_ok (ne_ldb (be_node demo_env)) map_of spend_db" using spend_db_ok by (simp add: spend_env_def)
  have "read_block demo_files 1 8 = Some demo_block"
    using codec_block.read_back [OF wf_demo_block(1), of "[]"] by (simp add: read_block_def OpenBlockFile_rb_def demo_files_def map_find_Cons)
  then have "read_block demo_files (bi_nFile (hd demo_chain)) (bi_nBlockPos (hd demo_chain)) = Some demo_block"
    "unat (bi_nBlockPos (hd demo_chain)) < 2 ^ 31" by (simp_all add: demo_chain_def sample_index_def)
  from ConnectBlock_positions [OF c ok spend_side_conditions(7) demo_nulls this] demo_hashes c show ?thesis by fastforce
qed

end
