(* ===== verification/Autocheck.thy ===== *)
theory Autocheck
  imports Block_Tree
begin

text \<open>
  The automatic checkpoints (\<^verbatim>\<open>src/src/prime/autocheckpoint.cpp\<close>): the blocks of the best chain at prime heights,
  written to a file at the start of the node and compared with the best chain when a block is accepted.
  \<open>None\<close> is a failed assertion, an exception that is not caught or the use of a null pointer.
\<close>

section \<open>The entries of the file\<close>

record AutoCheckData =
  ac_sig :: "32 word"
  ac_nHeight :: "32 word"
  ac_nTime :: "32 word"
  ac_hash :: uint256

type_synonym AutoCheckpoints = "(32 word, AutoCheckData) std_map"

text \<open>The signature is the four characters \<^verbatim>\<open>doge\<close> in memory.\<close>

definition doge :: "32 word" where "doge = word_of_nat (le_nat [0x64, 0x6f, 0x67, 0x65])"

definition new_AutoCheckData :: AutoCheckData where
  "new_AutoCheckData = \<lparr> ac_sig = doge, ac_nHeight = 0, ac_nTime = 0, ac_hash = 0 \<rparr>"

definition Serialize_AutoCheckData :: "AutoCheckData \<Rightarrow> bytes" where
  "Serialize_AutoCheckData data =
     Serialize_word (ac_sig data) @ Serialize_word (ac_nHeight data) @ Serialize_word (ac_nTime data) @ Serialize_word (ac_hash data)"

definition Unserialize_AutoCheckData :: "AutoCheckData reader" where
  "Unserialize_AutoCheckData =
     bind_reader Unserialize_word (\<lambda>sig. bind_reader Unserialize_word (\<lambda>height. bind_reader Unserialize_word (\<lambda>time.
     bind_reader Unserialize_word (\<lambda>hash.
     return_reader \<lparr> ac_sig = sig, ac_nHeight = height, ac_nTime = time, ac_hash = hash \<rparr>))))"

interpretation codec_autocheck: codec Serialize_AutoCheckData Unserialize_AutoCheckData "\<lambda>_. True"
proof -
  have iff: "Unserialize_AutoCheckData s = Inr (x, rest) \<longleftrightarrow> True \<and> s = Serialize_AutoCheckData x @ rest" for s x rest
    by (cases x) (auto simp: Unserialize_AutoCheckData_def Serialize_AutoCheckData_def bind_reader_Inr return_reader_def word_reads)
  show "codec Serialize_AutoCheckData Unserialize_AutoCheckData (\<lambda>_. True)"
    by unfold_locales (simp_all add: iff)
qed

lemma length_AutoCheckData: "length (Serialize_AutoCheckData x) = 44"
  by (simp add: Serialize_AutoCheckData_def Serialize_word_def)

section \<open>Prime heights\<close>

definition lowerBlockHeight :: int where "lowerBlockHeight = 440000"

text \<open>The trial divisions; \<open>i * i\<close> stays far below \<open>2 ^ 31\<close> for the heights it is called with.\<close>

lemma square_bound: "i * i \<le> n \<Longrightarrow> i \<le> (n :: int)"
proof (cases "i \<le> 0")
  case True
  then show "i * i \<le> n \<Longrightarrow> i \<le> n" using zero_le_square [of i] by linarith
next
  case False
  then have "i * 1 \<le> i * i" by (intro mult_left_mono) simp_all
  then show "i * i \<le> n \<Longrightarrow> i \<le> n" by simp
qed

function prime_loop :: "int \<Rightarrow> int \<Rightarrow> bool" where
  "prime_loop in_height i =
     (if i * i \<le> in_height
      then if in_height mod i = 0 then False
        else if in_height mod (i + 2) = 0 then False
        else prime_loop in_height (i + 6)
      else True)"
  by pat_completeness auto
termination
  by (relation "measure (\<lambda>(n, i). nat (n - i + 1))") (auto dest: square_bound)

definition is_prime :: "int \<Rightarrow> bool" where
  "is_prime in_height \<longleftrightarrow>
     (if in_height \<le> lowerBlockHeight \<or> in_height \<ge> 15000000 then False
      else if in_height mod 2 = 0 \<or> in_height mod 3 = 0 then False
      else prime_loop in_height 5)"

section \<open>Reading the file\<close>

text \<open>
  What the functions use of the files: the hash of 65536 bits, whether the temporary file can be opened,
  whether a write to it after the bytes written so far succeeds, and whether it can be renamed.
\<close>

record auto_env =
  ac_Hash65536 :: "bytes \<Rightarrow> 65536 word"
  ac_open :: bool
  ac_write :: "bytes \<Rightarrow> bytes \<Rightarrow> bool"
  ac_rename :: bool

text \<open>The loop over the entries.\<close>

function read_points :: "bytes \<Rightarrow> AutoCheckpoints \<Rightarrow> (bool \<times> AutoCheckpoints) option" where
  "read_points ssda mapAutocheck =
     (if ssda = [] then Some (True, mapAutocheck)
      else case Unserialize_AutoCheckData ssda of
        Inl _ \<Rightarrow> None
      | Inr (data, ssda') \<Rightarrow>
          if ac_sig data = doge then read_points ssda' (map_insert (ac_nHeight data) data mapAutocheck) else Some (False, mapAutocheck))"
  by pat_completeness auto
termination
  by (relation "measure (\<lambda>(s, _). length s)") (auto simp: codec_autocheck.unser_iff length_AutoCheckData)

definition sizeof_uint65536 :: nat where "sizeof_uint65536 = 8192"

text \<open>
  The data are all but the checksum at the end. A file shorter than the checksum wraps the unsigned size
  around, and the vector cannot be resized.
\<close>

definition Buildmap :: "auto_env \<Rightarrow> bytes option \<Rightarrow> AutoCheckpoints \<Rightarrow> (bool \<times> AutoCheckpoints) option" where
  "Buildmap env file mapAutocheck =
     (case file of
        None \<Rightarrow> Some (False, mapAutocheck)
      | Some filein \<Rightarrow>
          let dataSize = (word_of_nat (length filein) :: 64 word) - word_of_nat sizeof_uint65536 in
          if dataSize = 0 then Some (False, mapAutocheck)
          else if length filein < sizeof_uint65536 then None
          else let vchData = take (unat dataSize) filein in
            case Unserialize_word (drop (unat dataSize) filein) of
              Inl _ \<Rightarrow> Some (False, mapAutocheck)
            | Inr (hashIn, _) \<Rightarrow>
                if hashIn \<noteq> ac_Hash65536 env vchData then Some (False, mapAutocheck)
                else read_points vchData [])"

section \<open>The check\<close>

definition nCheckBlocks :: nat where "nCheckBlocks = 25"

text \<open>The loop over the last heights of the best chain; the inner loop walks back to the height.\<close>

fun check_points :: "AutoCheckpoints \<Rightarrow> chain \<Rightarrow> int list \<Rightarrow> bool option" where
  "check_points mapAutocheck best [] = Some True"
| "check_points mapAutocheck best (nHeight # rest) =
     (case map_find (word_of_int nHeight) mapAutocheck of
        None \<Rightarrow> check_points mapAutocheck best rest
      | Some autocp \<Rightarrow>
          (case find (\<lambda>target. sint (bi_nHeight target) = nHeight) best of
             None \<Rightarrow> None
           | Some target \<Rightarrow>
               if ac_hash autocp \<noteq> bi_hashBlock target then Some False else check_points mapAutocheck best rest))"

definition auto_Check :: "AutoCheckpoints \<Rightarrow> block_map \<Rightarrow> uint256 \<Rightarrow> bool option" where
  "auto_Check mapAutocheck m hashBestChain =
     (if m = [] then Some False
      else let best = chain_at m (Some hashBestChain) in
        if best = [] then None
        else check_points mapAutocheck best (map (\<lambda>i. sint (bi_nHeight (hd best)) - int i) [0..<nCheckBlocks]))"

section \<open>Writing the file\<close>

definition auto_data :: "CBlockIndex \<Rightarrow> AutoCheckData" where
  "auto_data header =
     new_AutoCheckData\<lparr> ac_nHeight := bi_nHeight header, ac_nTime := bi_nTime header, ac_hash := bi_hashBlock header \<rparr>"

definition auto_Write :: "auto_env \<Rightarrow> CBlockIndex \<Rightarrow> bytes \<Rightarrow> bytes \<Rightarrow> (bool \<times> bytes \<times> bytes) option" where
  "auto_Write env header fileout whash =
     (if bi_hashPrevBlock header = 0 then None
      else let ssda = Serialize_AutoCheckData (auto_data header) in
        if ac_write env fileout ssda then Some (True, fileout @ ssda, whash @ ssda) else Some (False, fileout, whash))"

text \<open>
  The two walks along \<^verbatim>\<open>hashPrevBlock\<close>, with the number of entries of the index as fuel: the first one
  looks for a prime height, the second one writes the blocks at prime heights until the counter is zero.
\<close>

fun first_prime :: "block_map \<Rightarrow> nat \<Rightarrow> uint256 \<Rightarrow> bool option" where
  "first_prime m 0 h = None"
| "first_prime m (Suc n) h =
     (case map_find h m of
        None \<Rightarrow> None
      | Some block \<Rightarrow>
          if sint (bi_nHeight (bn_index block)) \<le> lowerBlockHeight then Some False
          else if is_prime (sint (bi_nHeight (bn_index block))) then Some True
          else if bi_hashPrevBlock (bn_index block) = 0 then Some False
          else first_prime m n (bi_hashPrevBlock (bn_index block)))"

fun write_points :: "auto_env \<Rightarrow> block_map \<Rightarrow> nat \<Rightarrow> uint256 \<Rightarrow> nat \<Rightarrow> bytes \<Rightarrow> bytes \<Rightarrow> (bool \<times> bytes \<times> bytes) option" where
  "write_points env m 0 h counter fileout whash = None"
| "write_points env m (Suc n) h counter fileout whash =
     (case map_find h m of
        None \<Rightarrow> None
      | Some block \<Rightarrow>
          let hashPrev = bi_hashPrevBlock (bn_index block) in
          if sint (bi_nHeight (bn_index block)) \<le> lowerBlockHeight then Some (True, fileout, whash)
          else if is_prime (sint (bi_nHeight (bn_index block)))
          then if bn_pprev block \<noteq> Some hashPrev then None
            else (case auto_Write env (bn_index block) fileout whash of
                None \<Rightarrow> None
              | Some (False, fileout, whash) \<Rightarrow> Some (False, fileout, whash)
              | Some (True, fileout, whash) \<Rightarrow>
                  if counter = 1 then Some (True, fileout, whash)
                  else if hashPrev = 0 then Some (True, fileout, whash)
                  else write_points env m n hashPrev (counter - 1) fileout whash)
          else if hashPrev = 0 then Some (True, fileout, whash)
          else write_points env m n hashPrev counter fileout whash)"

record auto_state =
  at_file :: "bytes option"
  at_mapAutocheck :: AutoCheckpoints

definition BuildAutocheckPoints :: "auto_env \<Rightarrow> block_map \<Rightarrow> uint256 \<Rightarrow> auto_state \<Rightarrow> (bool \<times> auto_state) option" where
  "BuildAutocheckPoints env m hashBestChain st = do {
     block \<leftarrow> map_find hashBestChain m;
     if bi_hashPrevBlock (bn_index block) = 0 then Some (True, st)
     else do {
       fprime \<leftarrow> first_prime m (length m) hashBestChain;
       if \<not> fprime then Some (True, st)
       else if \<not> ac_open env then Some (False, st)
       else do {
         (ok, fileout, whash) \<leftarrow> write_points env m (length m) hashBestChain nCheckBlocks [] [];
         if \<not> ok then Some (False, st)
         else do {
           let dhash = Serialize_word (ac_Hash65536 env whash);
           if \<not> ac_write env fileout dhash then Some (False, st)
           else if \<not> ac_rename env then Some (False, st)
           else do {
             let st = st\<lparr> at_file := Some (fileout @ dhash) \<rparr>;
             (ok, mapAutocheck) \<leftarrow> Buildmap env (at_file st) (at_mapAutocheck st);
             let st = st\<lparr> at_mapAutocheck := mapAutocheck \<rparr>;
             if \<not> ok then Some (False, st)
             else do {
               ok \<leftarrow> auto_Check (at_mapAutocheck st) m hashBestChain;
               Some (ok, st) } } } } } }"

section \<open>The loop finds the primes\<close>

declare prime_loop.simps [simp del]

definition prime_number :: "int \<Rightarrow> bool" where
  "prime_number n \<longleftrightarrow> n > 1 \<and> (\<forall>d. 1 < d \<and> d < n \<longrightarrow> \<not> d dvd n)"

lemma not_prime_number: "d dvd n \<Longrightarrow> 1 < d \<Longrightarrow> d < n \<Longrightarrow> \<not> prime_number n"
  by (auto simp: prime_number_def)

text \<open>A number below the square of \<open>i\<close> with no divisor below \<open>i\<close> is a prime.\<close>

lemma no_small_divisor:
  assumes "\<forall>d. 1 < d \<and> d < i \<longrightarrow> \<not> d dvd n" "n < i * i" "1 < n" "0 \<le> (i :: int)"
  shows "prime_number n"
  unfolding prime_number_def
proof (intro conjI allI impI notI)
  fix d assume d: "1 < d \<and> d < n" "d dvd n"
  then obtain k where k: "n = d * k" by blast
  have "1 < k" using d(1) k assms(3) by (smt (verit) mult_cancel_left1 mult_le_0_iff)
  moreover have "d < i \<or> k < i" using mult_mono [of i d i k] k assms(2,4) d(1) by fastforce
  ultimately show False using assms(1) d k by (metis dvd_triv_right)
qed (use assms in simp)

lemma prime_loop_iff:
  assumes "odd n" "\<not> 3 dvd n" "i mod 6 = 5" "5 \<le> i" "1 < n" "\<forall>d. 1 < d \<and> d < i \<longrightarrow> \<not> d dvd n"
  shows "prime_loop n i \<longleftrightarrow> prime_number n"
  using assms
proof (induction n i rule: prime_loop.induct)
  case (1 n i)
  show ?case
  proof (cases "i * i \<le> n")
    case True
    have "i * 5 \<le> i * i" using "1.prems"(4) by (intro mult_left_mono) simp_all
    then have less: "i + 2 < n" using True "1.prems"(4) by linarith
    show ?thesis
    proof (cases "i dvd n \<or> i + 2 dvd n")
      case div: True
      then have "\<not> prime_number n" using less "1.prems"(4) not_prime_number [of i n] not_prime_number [of "i + 2" n] by auto
      with div True show ?thesis by (subst prime_loop.simps) (auto simp: dvd_eq_mod_eq_0)
    next
      case False
      then have mods: "n mod i \<noteq> 0" "n mod (i + 2) \<noteq> 0" by (auto simp: dvd_eq_mod_eq_0)
      have "\<not> d dvd n" if "1 < d \<and> d < i + 6" for d
      proof (cases "d < i")
        case ge: False
        then have "d = i \<or> d = i + 2 \<or> even d \<or> 3 dvd d" using that "1.prems"(3) by presburger
        then show ?thesis using False "1.prems"(1,2) by (auto dest: dvd_trans)
      qed (use that "1.prems"(6) in blast)
      moreover have "(i + 6) mod 6 = 5" using "1.prems"(3) by presburger
      ultimately have "prime_loop n (i + 6) = prime_number n" using "1.IH" [OF True mods] "1.prems" by simp
      with True mods show ?thesis by (subst prime_loop.simps) simp
    qed
  next
    case False
    then have "prime_number n" using no_small_divisor "1.prems" by simp
    with False show ?thesis by (subst prime_loop.simps) simp
  qed
qed

text \<open>
  Prime heights. The test by trial division is right: in its range, \<^verbatim>\<open>is_prime\<close> accepts exactly the heights that are
  prime numbers, and outside of it none.
\<close>

theorem is_prime_iff: "is_prime h \<longleftrightarrow> 440000 < h \<and> h < 15000000 \<and> prime_number h"
proof (cases "440000 < h \<and> h < 15000000")
  case True
  then have *: "\<not> (h \<le> lowerBlockHeight \<or> 15000000 \<le> h)" by (simp add: lowerBlockHeight_def)
  show ?thesis
  proof (cases "h mod 2 = 0 \<or> h mod 3 = 0")
    case div: True
    then have "2 dvd h \<or> 3 dvd h" by (auto simp: dvd_eq_mod_eq_0)
    then have "\<not> prime_number h" using True not_prime_number [of 2 h] not_prime_number [of 3 h] by auto
    with div show ?thesis by (simp add: is_prime_def)
  next
    case False
    then have odd: "odd h" "\<not> 3 dvd h" by (auto simp: dvd_eq_mod_eq_0)
    have "\<not> d dvd h" if "1 < d \<and> d < 5" for d
    proof -
      from that consider "d = 2" | "d = 3" | "d = 4" by linarith
      then show ?thesis using odd by cases (auto dest: dvd_trans [of 2 4, rotated])
    qed
    then have "prime_loop h 5 = prime_number h" using odd True by (intro prime_loop_iff) auto
    with * False True show ?thesis by (simp add: is_prime_def)
  qed
qed (auto simp: is_prime_def lowerBlockHeight_def)

section \<open>The check compares the last blocks\<close>

lemma check_points_chain:
  assumes "chain_ok m c" "\<And>k v. map_find k mapAutocheck = Some v \<Longrightarrow> sint k \<ge> 0" "\<forall>H \<in> set hs. H < int (length c)" "\<forall>H \<in> set hs. - (2 ^ 31) \<le> H"
  shows "check_points mapAutocheck c hs =
    Some (\<forall>H \<in> set hs. \<forall>x \<in> set c. sint (bi_nHeight x) = H \<longrightarrow> (\<forall>cp. map_find (bi_nHeight x) mapAutocheck = Some cp \<longrightarrow> ac_hash cp = bi_hashBlock x))"
  using assms(3,4)
proof (induction hs)
  case (Cons H hs)
  have bound: "sint (bi_nHeight x) < 2 ^ 31" if "x \<in> set c" for x using sint_less [of "bi_nHeight x"] by simp
  show ?case
  proof (cases "0 \<le> H")
    case True
    then have i: "nat (int (length c) - 1 - H) < length c" "int (length c) - 1 - int (nat (int (length c) - 1 - H)) = H" using Cons.prems(1) by auto
    define x where "x = c ! nat (int (length c) - 1 - H)"
    have f: "find (\<lambda>x. sint (bi_nHeight x) = H) c = Some x" using chain_ok_find [OF assms(1) i(1)] i(2) by (simp add: x_def)
    have x: "x \<in> set c" "sint (bi_nHeight x) = H" using chain_ok_nth [OF assms(1) i(1)] i by (simp_all add: x_def)
    then have w: "word_of_int H = bi_nHeight x" by (simp flip: x(2))
    have uniq: "y = x" if "y \<in> set c" "sint (bi_nHeight y) = H" for y
      using that chain_ok_nth [OF assms(1)] i by (auto simp: x_def in_set_conv_nth intro!: arg_cong [of _ _ "(!) c"])
    from Cons.IH Cons.prems have IH: "check_points mapAutocheck c hs =
      Some (\<forall>H \<in> set hs. \<forall>x \<in> set c. sint (bi_nHeight x) = H \<longrightarrow> (\<forall>cp. map_find (bi_nHeight x) mapAutocheck = Some cp \<longrightarrow> ac_hash cp = bi_hashBlock x))" by simp
    have one: "(\<forall>y \<in> set c. sint (bi_nHeight y) = H \<longrightarrow> Q y) \<longleftrightarrow> Q x" for Q using x uniq by blast
    have all: "(\<forall>H \<in> set (H # hs). Q H) \<longleftrightarrow> Q H \<and> (\<forall>H \<in> set hs. Q H)" for Q by simp
    show ?thesis unfolding all one check_points.simps f w IH by (simp split: option.split)
  next
    case False
    have "sint (word_of_int H :: 32 word) = H" using False Cons.prems(2) using sint_less [of "word_of_int H :: 32 word"] by (simp add: sint_sbintrunc' signed_take_bit_int_eq_self)
    then have "map_find (word_of_int H) mapAutocheck = None" using assms(2) [of "word_of_int H"] False by (cases "map_find (word_of_int H) mapAutocheck") auto
    moreover have "sint (bi_nHeight x) \<noteq> H" if "x \<in> set c" for x
      using that chain_ok_nth [OF assms(1)] False by (auto simp: in_set_conv_nth)
    ultimately show ?thesis using Cons by simp
  qed
qed simp

text \<open>
  The check. On a well-formed tree \<^verbatim>\<open>Check\<close> returns, and its result is whether each of the last 25 blocks of the best
  chain, at whose height there is a checkpoint, is the block of the checkpoint: a reorganisation that
  replaced a block with a checkpoint among them is noticed.
\<close>

theorem auto_Check_decides:
  assumes "tree_ok m" "map_find b m \<noteq> None" "list_all (\<lambda>(k, _). sint k \<ge> 0) mapAutocheck"
  shows "auto_Check mapAutocheck m b = Some (\<forall>x \<in> set (take 25 (chain_at m (Some b))). \<forall>cp.
    map_find (bi_nHeight x) mapAutocheck = Some cp \<longrightarrow> ac_hash cp = bi_hashBlock x)"
proof -
  let ?c = "chain_at m (Some b)"
  obtain node where n: "map_find b m = Some node" using assms(2) by blast
  note walk = chain_at_walk [OF assms(1) n]
  have ne: "?c \<noteq> []" "m \<noteq> []" using walk(3) n by auto
  have tip: "sint (bi_nHeight (hd ?c)) = int (length ?c) - 1" using chain_ok_nth [OF walk(2), of 0] ne by (simp add: hd_conv_nth)
  have keys: "sint k \<ge> 0" if "map_find k mapAutocheck = Some v" for k v
    using that assms(3) by (auto simp: list_all_iff map_find_def dest: map_of_SomeD)
  let ?hs = "map (\<lambda>i. sint (bi_nHeight (hd ?c)) - int i) [0..<25]"
  have hs: "\<forall>H \<in> set ?hs. H < int (length ?c)" "\<forall>H \<in> set ?hs. - (2 ^ 31) \<le> H" using tip by auto
  have "(\<forall>H \<in> set ?hs. \<forall>x \<in> set ?c. sint (bi_nHeight x) = H \<longrightarrow> P x) = (\<forall>x \<in> set (take 25 ?c). P x)" for P
  proof -
    have "x \<in> set (take 25 ?c) \<longleftrightarrow> x \<in> set ?c \<and> sint (bi_nHeight x) \<in> set ?hs" for x
    proof
      assume "x \<in> set (take 25 ?c)"
      then obtain i where i: "i < 25" "i < length ?c" "x = ?c ! i" by (auto simp: in_set_conv_nth)
      then show "x \<in> set ?c \<and> sint (bi_nHeight x) \<in> set ?hs" using chain_ok_nth [OF walk(2) i(2)] tip by auto
    next
      assume "x \<in> set ?c \<and> sint (bi_nHeight x) \<in> set ?hs"
      then obtain i j where i: "i < length ?c" "x = ?c ! i" "j < 25" "sint (bi_nHeight x) = sint (bi_nHeight (hd ?c)) - int j" by (auto simp: in_set_conv_nth)
      then have "i = j" using chain_ok_nth [OF walk(2) i(1)] tip by simp
      with i show "x \<in> set (take 25 ?c)" by (auto simp: in_set_conv_nth intro!: exI [of _ i])
    qed
    then show ?thesis by blast
  qed
  with check_points_chain [OF walk(2) keys hs] ne show ?thesis by (simp add: auto_Check_def nCheckBlocks_def)
qed

section \<open>Building the checkpoints\<close>

text \<open>An index that was loaded from disk: every entry has the hash of the block before it, and no block has the hash zero.\<close>

definition loaded :: "block_map \<Rightarrow> bool" where
  "loaded m \<longleftrightarrow> list_all (\<lambda>(h, node). h \<noteq> 0 \<and> bi_hashPrevBlock (bn_index node) = (case bn_pprev node of None \<Rightarrow> 0 | Some p \<Rightarrow> p)) m"

definition writes :: "auto_env \<Rightarrow> bool" where
  "writes env \<longleftrightarrow> ac_open env \<and> (\<forall>f s. ac_write env f s) \<and> ac_rename env"

text \<open>The blocks of a chain that become checkpoints: the highest 25 at prime heights.\<close>

definition prime_blocks :: "chain \<Rightarrow> CBlockIndex list" where
  "prime_blocks c = filter (\<lambda>x. is_prime (sint (bi_nHeight x))) c"

definition checkpoint_blocks :: "chain \<Rightarrow> CBlockIndex list" where
  "checkpoint_blocks c = take 25 (prime_blocks c)"

abbreviation written :: "CBlockIndex list \<Rightarrow> bytes" where
  "written xs \<equiv> concat (map (\<lambda>x. Serialize_AutoCheckData (auto_data x)) xs)"

lemma loadedD:
  assumes "loaded m" "map_find h m = Some node"
  shows "h \<noteq> 0" "bi_hashPrevBlock (bn_index node) = (case bn_pprev node of None \<Rightarrow> 0 | Some p \<Rightarrow> p)"
  using assms by (auto simp: loaded_def list_all_iff map_find_def dest!: map_of_SomeD)

lemma is_prime_low: "h \<le> lowerBlockHeight \<Longrightarrow> \<not> is_prime h"
  by (simp add: is_prime_def)

lemma prime_blocks_low:
  assumes "chain_ok m c" "int (length c) \<le> lowerBlockHeight + 1"
  shows "prime_blocks c = []"
  using chain_ok_nth [OF assms(1)] assms(2) by (auto simp: prime_blocks_def filter_empty_conv in_set_conv_nth intro!: is_prime_low)

text \<open>A step of the walks on a well-formed tree above the lowest height.\<close>

lemma walk_step:
  assumes "tree_ok m" "loaded m" "map_find h m = Some node" "\<not> bn_height node \<le> lowerBlockHeight"
  obtains p prev where "bn_pprev node = Some p" "bi_hashPrevBlock (bn_index node) = p" "p \<noteq> 0" "map_find p m = Some prev"
    "bn_height node = bn_height prev + 1" "chain_at m (Some h) = bn_index node # chain_at m (Some p)"
proof -
  have "bn_pprev node \<noteq> None" using tree_node(3) [OF assms(1,3)] assms(4) by (auto simp: lowerBlockHeight_def)
  then obtain p where p: "bn_pprev node = Some p" by blast
  from tree_node(4) [OF assms(1,3) p] obtain prev where "map_find p m = Some prev" "bn_height node = bn_height prev + 1" by blast
  then show ?thesis using that [OF p] loadedD [OF assms(2)] assms(3) p chain_at_step [OF assms(1,3)] by simp
qed

lemma low_node:
  assumes "tree_ok m" "map_find h m = Some node" "bn_height node \<le> lowerBlockHeight"
  shows "prime_blocks (chain_at m (Some h)) = []"
  using chain_at_walk(3) [OF assms(1,2)] assms(3) tree_node(2) [OF assms(1,2)] by (intro prime_blocks_low [OF chain_at_walk(2) [OF assms(1,2)]]) simp

lemma first_prime_chain:
  assumes "tree_ok m" "loaded m"
  shows "map_find h m = Some node \<Longrightarrow> nat (bn_height node) < n \<Longrightarrow> first_prime m n h = Some (prime_blocks (chain_at m (Some h)) \<noteq> [])"
proof (induction n arbitrary: h node)
  case (Suc n)
  show ?case
  proof (cases "bn_height node \<le> lowerBlockHeight")
    case True
    with Suc.prems low_node [OF assms(1) Suc.prems(1) True] show ?thesis by (simp add: bn_height_def)
  next
    case False
    from walk_step [OF assms Suc.prems(1) False] obtain p prev where p: "bi_hashPrevBlock (bn_index node) = p" "p \<noteq> 0" "map_find p m = Some prev"
      "bn_height node = bn_height prev + 1" "chain_at m (Some h) = bn_index node # chain_at m (Some p)" by metis
    then have "nat (bn_height prev) < n" using Suc.prems(2) False by (simp add: lowerBlockHeight_def)
    from Suc.IH [OF p(3) this] Suc.prems p False show ?thesis by (simp add: prime_blocks_def bn_height_def)
  qed
qed simp

lemma write_points_chain:
  assumes "tree_ok m" "loaded m" "writes env"
  shows "map_find h m = Some node \<Longrightarrow> nat (bn_height node) < n \<Longrightarrow> counter > 0 \<Longrightarrow>
    write_points env m n h counter f w =
      Some (True, f @ written (take counter (prime_blocks (chain_at m (Some h)))), w @ written (take counter (prime_blocks (chain_at m (Some h)))))"
proof (induction n arbitrary: h node counter f w)
  case (Suc n)
  show ?case
  proof (cases "bn_height node \<le> lowerBlockHeight")
    case True
    with Suc.prems low_node [OF assms(1) Suc.prems(1) True] show ?thesis by (simp add: bn_height_def Let_def)
  next
    case False
    from walk_step [OF assms(1,2) Suc.prems(1) False] obtain p prev where p: "bn_pprev node = Some p" "bi_hashPrevBlock (bn_index node) = p" "p \<noteq> 0"
      "map_find p m = Some prev" "bn_height node = bn_height prev + 1" "chain_at m (Some h) = bn_index node # chain_at m (Some p)" by metis
    then have fuel: "nat (bn_height prev) < n" using Suc.prems(2) False by (simp add: lowerBlockHeight_def)
    have w: "auto_Write env (bn_index node) f w =
      Some (True, f @ Serialize_AutoCheckData (auto_data (bn_index node)), w @ Serialize_AutoCheckData (auto_data (bn_index node)))"
      using p assms(3) by (simp add: auto_Write_def writes_def Let_def)
    show ?thesis
    proof (cases "is_prime (sint (bi_nHeight (bn_index node)))")
      case True
      show ?thesis
      proof (cases "counter = 1")
        case one: True
        with True Suc.prems p False w show ?thesis by (simp add: prime_blocks_def bn_height_def)
      next
        case more: False
        then obtain k where k: "counter = Suc (Suc k)" using Suc.prems(3) by (cases counter; cases "counter - 1") auto
        with True Suc.prems p False w Suc.IH [OF p(4) fuel, of "Suc k"] show ?thesis by (simp add: prime_blocks_def bn_height_def)
      qed
    next
      case composite: False
      with Suc.prems p False Suc.IH [OF p(4) fuel, of counter] show ?thesis by (simp add: prime_blocks_def bn_height_def)
    qed
  qed
qed simp

declare read_points.simps [simp del]

abbreviation points_of :: "CBlockIndex list \<Rightarrow> AutoCheckpoints \<Rightarrow> AutoCheckpoints" where
  "points_of xs acc \<equiv> fold (\<lambda>x. map_insert (bi_nHeight x) (auto_data x)) xs acc"

lemma auto_data_simps [simp]: "ac_sig (auto_data x) = doge" "ac_nHeight (auto_data x) = bi_nHeight x" "ac_hash (auto_data x) = bi_hashBlock x"
  by (simp_all add: auto_data_def new_AutoCheckData_def)

lemma read_points_written: "read_points (written xs) acc = Some (True, points_of xs acc)"
proof (induction xs arbitrary: acc)
  case (Cons x xs)
  define s where "s = written (x # xs)"
  have "s \<noteq> []" using length_AutoCheckData [of "auto_data x"] by (auto simp: s_def)
  moreover have "Unserialize_AutoCheckData s = Inr (auto_data x, written xs)" by (simp add: s_def codec_autocheck.read_back)
  ultimately have "read_points s acc = read_points (written xs) (map_insert (bi_nHeight x) (auto_data x) acc)" by (simp add: read_points.simps [of s])
  with Cons show ?case by (simp add: s_def)
qed (simp add: read_points.simps)

lemma points_of_find:
  assumes "map_ok acc"
  shows "map_ok (points_of xs acc) \<and> map_find k (points_of xs acc) =
    (case map_find k acc of None \<Rightarrow> map_option auto_data (find (\<lambda>x. bi_nHeight x = k) xs) | Some w \<Rightarrow> Some w)"
  using assms
proof (induction xs arbitrary: acc)
  case (Cons x xs)
  with Cons.IH [of "map_insert (bi_nHeight x) (auto_data x) acc"] show ?case by (auto split: option.splits)
qed (simp split: option.split)

lemma length_written: "length (written xs) = 44 * length xs"
  by (induction xs) (simp_all add: length_AutoCheckData)

interpretation codec_uint65536: codec Serialize_word "Unserialize_word :: 65536 word reader" "\<lambda>_. True"
  by (rule codec_word [of 8192]) simp

text \<open>The file of the checkpoints is read back.\<close>

lemma Buildmap_written:
  assumes "xs \<noteq> []" "length xs \<le> 25"
  shows "Buildmap env (Some (written xs @ Serialize_word (ac_Hash65536 env (written xs)))) acc = Some (True, points_of xs [])"
proof -
  define s where "s = written xs"
  define d where "d = Serialize_word (ac_Hash65536 env s)"
  have len: "length s = 44 * length xs" "length d = 8192" by (simp_all add: s_def length_written d_def Serialize_word_def)
  have "unat ((word_of_nat (length (s @ d)) :: 64 word) - word_of_nat sizeof_uint65536) = length s"
  proof -
    have "(word_of_nat (length (s @ d)) :: 64 word) - word_of_nat sizeof_uint65536 = word_of_nat (length s)" using len by (simp add: sizeof_uint65536_def)
    moreover have "length s < 2 ^ 64" using len(1) assms(2) by simp
    ultimately show ?thesis by (simp add: unat_of_nat)
  qed
  moreover have "(word_of_nat (length (s @ d)) :: 64 word) - word_of_nat sizeof_uint65536 \<noteq> 0" using calculation len(1) assms(1) by fastforce
  moreover have "Unserialize_word d = Inr (ac_Hash65536 env s, [])" using codec_uint65536.read_back [of _ "[]"] by (simp add: d_def)
  ultimately show ?thesis using len read_points_written [of xs "[]"]
    by (simp add: Buildmap_def Let_def sizeof_uint65536_def flip: s_def d_def)
qed

lemma prime_blocks_key: "x \<in> set (prime_blocks c) \<Longrightarrow> sint (bi_nHeight x) > 440000"
  by (auto simp: prime_blocks_def is_prime_def lowerBlockHeight_def split: if_splits)

text \<open>
  C15. Building. On an index that was loaded from disk and with no failure of the file, \<^verbatim>\<open>BuildAutocheckPoints\<close> returns and
  succeeds. Without a block at a prime height nothing changes; otherwise the checkpoints are exactly the
  highest 25 blocks of the best chain at prime heights, the file is read back to the same checkpoints by
  \<^verbatim>\<open>Buildmap\<close>, whatever the map held, and the best chain passes the check.
\<close>

theorem BuildAutocheckPoints_builds:
  assumes "tree_ok m" "loaded m" "writes env" "map_find b m \<noteq> None"
  shows "\<exists>st'. BuildAutocheckPoints env m b st = Some (True, st') \<and>
    (let xs = checkpoint_blocks (chain_at m (Some b)) in
     if xs = [] then st' = st
     else (\<forall>k. map_find k (at_mapAutocheck st') = map_option auto_data (find (\<lambda>x. bi_nHeight x = k) xs)) \<and>
       (\<forall>old. Buildmap env (at_file st') old = Some (True, at_mapAutocheck st')) \<and>
       auto_Check (at_mapAutocheck st') m b = Some True)"
proof -
  obtain node where n: "map_find b m = Some node" using assms(4) by blast
  let ?c = "chain_at m (Some b)" and ?xs = "checkpoint_blocks (chain_at m (Some b))"
  note walk = chain_at_walk [OF assms(1) n]
  have fuel: "nat (bn_height node) < length m" using chain_ok_length [OF walk(2)] walk(3) by simp
  show ?thesis
  proof (cases "?xs = []")
    case True
    then have "prime_blocks ?c = []" by (simp add: checkpoint_blocks_def)
    with True show ?thesis using n first_prime_chain [OF assms(1,2) n fuel] by (simp add: BuildAutocheckPoints_def)
  next
    case False
    then have primes: "prime_blocks ?c \<noteq> []" by (auto simp: checkpoint_blocks_def)
    have "bi_hashPrevBlock (bn_index node) \<noteq> 0"
      using low_node [OF assms(1) n] primes walk_step [OF assms(1,2) n] by (metis linorder_not_le)
    define pts where "pts = points_of ?xs []"
    define dat where "dat = written ?xs @ Serialize_word (ac_Hash65536 env (written ?xs))"
    have len: "length ?xs \<le> 25" by (simp add: checkpoint_blocks_def)
    have find_pts: "map_find k pts = map_option auto_data (find (\<lambda>x. bi_nHeight x = k) ?xs)" "map_ok pts" for k
      using points_of_find [of "[]" ?xs k] by (simp_all add: pts_def)
    have data: "\<exists>x \<in> set ?xs. bi_nHeight x = k \<and> v = auto_data x" if "map_find k pts = Some v" for k v
      using that by (auto simp: find_pts find_Some_iff)
    have xs: "x \<in> set (prime_blocks ?c)" if "x \<in> set ?xs" for x using that by (auto simp: checkpoint_blocks_def dest: in_set_takeD)
    have keys: "list_all (\<lambda>(k, _). sint k \<ge> 0) pts"
      using data xs prime_blocks_key by (fastforce simp: list_all_iff map_find_eq_Some [OF find_pts(2), symmetric])
    have same: "ac_hash cp = bi_hashBlock x" if "x \<in> set ?c" "map_find (bi_nHeight x) pts = Some cp" for x cp
    proof -
      from data [OF that(2)] obtain y where y: "y \<in> set ?xs" "bi_nHeight y = bi_nHeight x" "cp = auto_data y" by blast
      have "y \<in> set ?c" using xs [OF y(1)] by (simp add: prime_blocks_def)
      then have "y = x" using that(1) y(2) chain_ok_unique [OF walk(2)] by metis
      with y(3) show ?thesis by simp
    qed
    then have chk: "auto_Check pts m b = Some True" unfolding auto_Check_decides [OF assms(1,4) keys] by (auto dest: in_set_takeD)
    let ?st = "st\<lparr> at_file := Some dat, at_mapAutocheck := pts \<rparr>"
    have "BuildAutocheckPoints env m b st = Some (True, ?st)"
      using n \<open>bi_hashPrevBlock (bn_index node) \<noteq> 0\<close> first_prime_chain [OF assms(1,2) n fuel] primes assms(3)
        write_points_chain [OF assms(1-3) n fuel, of nCheckBlocks "[]" "[]"] Buildmap_written [OF False len, of env] chk
      by (simp add: BuildAutocheckPoints_def writes_def nCheckBlocks_def Let_def dat_def pts_def flip: checkpoint_blocks_def)
    then show ?thesis using False find_pts chk Buildmap_written [OF False len, of env] by (intro exI [of _ ?st]) (simp add: dat_def pts_def)
  qed
qed

section \<open>A long chain\<close>

definition line_block :: "nat \<Rightarrow> CBlockIndex" where
  "line_block i = sample_index\<lparr> bi_hashBlock := word_of_nat (Suc i), bi_nHeight := word_of_nat i, bi_hashPrevBlock := word_of_nat i \<rparr>"

definition line_node :: "nat \<Rightarrow> block_node" where
  "line_node i = \<lparr> bn_index = line_block i, bn_pprev = (if i = 0 then None else Some (word_of_nat i)), bn_pnext = None \<rparr>"

definition line_tree :: "nat \<Rightarrow> block_map" where
  "line_tree n = map (\<lambda>i. (word_of_nat (Suc i), line_node i)) [0..<n]"

lemma line_tree_facts:
  assumes "n < 2 ^ 31"
  shows "tree_ok (line_tree n)" "loaded (line_tree n)" "i < n \<Longrightarrow> map_find (word_of_nat (Suc i)) (line_tree n) = Some (line_node i)"
proof -
  have less: "(word_of_nat (Suc i) :: uint256) < word_of_nat (Suc j) \<longleftrightarrow> i < j" if "i < n" "j < n" for i j
    using that assms by (simp add: word_less_nat_alt unat_of_nat del: of_nat_Suc)
  have ok: "map_ok (line_tree n)"
    by (auto simp: map_ok_def line_tree_def sorted_wrt_map o_def less simp del: of_nat_Suc intro!: sorted_wrt_mono_rel [OF _ sorted_wrt_upt])
  show found: "map_find (word_of_nat (Suc i)) (line_tree n) = Some (line_node i)" if "i < n" for i
  proof -
    have "(word_of_nat (Suc i), line_node i) \<in> set (line_tree n)" using that by (auto simp: line_tree_def simp del: of_nat_Suc)
    then show ?thesis unfolding map_find_eq_Some [OF ok] .
  qed
  have height: "bn_height (line_node i) = int i" if "i < n" for i
    using that assms by (simp add: bn_height_def line_node_def line_block_def signed_of_nat signed_take_bit_int_eq_self)
  have node: "node_ok (line_tree n) (word_of_nat (Suc i)) (line_node i)" if "i < n" for i
  proof (cases i)
    case (Suc j)
    then have "map_find (word_of_nat i) (line_tree n) = Some (line_node j)" using found [of j] that by simp
    then show ?thesis using height [of i] height [of j] that Suc by (simp add: node_ok_def line_node_def line_block_def del: of_nat_Suc)
  qed (use height [of 0] that in \<open>simp add: node_ok_def line_node_def line_block_def\<close>)
  show "tree_ok (line_tree n)" unfolding tree_ok_def using ok node by (auto simp: list_all_iff line_tree_def)
  have "(word_of_nat (Suc i) :: uint256) \<noteq> 0" if "i < n" for i
    using that assms by (simp add: unat_eq_zero [symmetric] unat_of_nat del: of_nat_Suc)
  then show "loaded (line_tree n)" by (auto simp: loaded_def list_all_iff line_tree_def line_node_def line_block_def)
qed

definition auto_demo :: auto_env where
  "auto_demo = \<lparr> ac_Hash65536 = (\<lambda>s. word_of_nat (length s)), ac_open = True, ac_write = (\<lambda>_ _. True), ac_rename = True \<rparr>"

lemma line_tree_chain:
  assumes "i < n" "n < 2 ^ 31"
  shows "\<exists>c. chain_at (line_tree n) (Some (word_of_nat (Suc i))) = line_block i # c"
  using chain_at_step [OF line_tree_facts(1) line_tree_facts(3)] assms by (auto simp: line_node_def simp del: of_nat_Suc)

text \<open>A checkpoint with the hash of another block is noticed.\<close>

theorem auto_Check_decides_witness:
  "auto_Check [(2, (auto_data (line_block 2))\<lparr> ac_hash := 9 \<rparr>)] (line_tree 3) 3 = Some False"
proof -
  let ?m = "[(2 :: 32 word, (auto_data (line_block 2))\<lparr> ac_hash := 9 \<rparr>)]"
  have f: "map_find 3 (line_tree 3) \<noteq> None" using line_tree_facts(3) [of 3 2] by simp
  obtain c where c: "chain_at (line_tree 3) (Some 3) = line_block 2 # c" using line_tree_chain [of 2 3] by auto
  have "list_all (\<lambda>(k, _). sint k \<ge> 0) ?m" by simp
  from auto_Check_decides [OF line_tree_facts(1) f this] c show ?thesis
    by (simp add: map_find_Cons line_block_def)
qed

theorem BuildAutocheckPoints_builds_witness:
  "\<exists>st'. BuildAutocheckPoints auto_demo (line_tree 440010) 440010 \<lparr> at_file = None, at_mapAutocheck = [] \<rparr> = Some (True, st') \<and>
     map_find 440009 (at_mapAutocheck st') = Some (auto_data (line_block 440009)) \<and>
     Buildmap auto_demo (at_file st') [] = Some (True, at_mapAutocheck st')"
proof -
  have f: "map_find 440010 (line_tree 440010) \<noteq> None" using line_tree_facts(3) [of 440010 440009] by simp
  have w: "writes auto_demo" by (simp add: writes_def auto_demo_def)
  obtain c where c: "chain_at (line_tree 440010) (Some 440010) = line_block 440009 # c" using line_tree_chain [of 440009 440010] by auto
  have "is_prime 440009" by (simp add: is_prime_def lowerBlockHeight_def prime_loop.simps)
  moreover have h: "bi_nHeight (line_block 440009) = 440009" by (simp add: line_block_def)
  ultimately have "checkpoint_blocks (line_block 440009 # c) = line_block 440009 # take 24 (prime_blocks c)"
    by (simp add: checkpoint_blocks_def prime_blocks_def)
  with BuildAutocheckPoints_builds [OF line_tree_facts(1,2) w f, of "\<lparr> at_file = None, at_mapAutocheck = [] \<rparr>"] c h show ?thesis by auto
qed

end
