(* ===== verification/Block_Accept.thy ===== *)
theory Block_Accept
  imports Block_Index Block_Files Autocheck
begin

text \<open>
  The acceptance of a block (\<^verbatim>\<open>AcceptBlock\<close> of \<^verbatim>\<open>src/src/block/block.cpp\<close>) and what a node does with a block it
  receives (\<^verbatim>\<open>ProcessBlock\<close> of \<^verbatim>\<open>src/src/block/block_process.cpp\<close>) with the pool of blocks whose previous block is
  missing. \<open>None\<close> is a failed assertion, an exception or the use of a null pointer. Of the messages to peers
  only the penalty is modelled.
\<close>

section \<open>The state\<close>

record ('d, 'f) core_state =
  co_cp :: "('d, 'f) cp_state"
  co_files :: block_files
  co_mapProofOfStake :: "(uint256, uint256) std_map"

text \<open>
  What the functions read besides: whether a file of blocks can be opened and the disk has room, the mode of
  the checkpoints, the automatic checkpoints, and OpenSSL's decoding and encoding of a signature.
\<close>

record ('d, 'f) accept_cfg =
  ac_chain :: "('d, 'f) chain_env"
  ac_fopen :: "32 word \<Rightarrow> bool"
  ac_DiskSpace :: "nat \<Rightarrow> bool"
  ac_CheckpointsMode :: CPMode
  ac_mapAutocheck :: AutoCheckpoints
  ac_d2i_i2d :: "bytes \<Rightarrow> bytes option"

abbreviation ac_block :: "('d, 'f) accept_cfg \<Rightarrow> 'd block_env" where "ac_block cfg \<equiv> ce_block (ac_chain cfg)"
abbreviation ac_diff :: "('d, 'f) accept_cfg \<Rightarrow> diff_env" where "ac_diff cfg \<equiv> ce_diff (ac_chain cfg)"
abbreviation co_map :: "('d, 'f) core_state \<Rightarrow> block_map" where "co_map st \<equiv> cs_map (co_cp st)"

text \<open>The surroundings of the chain functions: they read the files of blocks and the proofs of stake.\<close>

definition with_files :: "block_files \<Rightarrow> 'd node_env \<Rightarrow> 'd node_env" where
  "with_files bf env = env\<lparr> ne_files := read_tx bf, ne_block_time := read_header_time bf \<rparr>"

definition chain_env_at :: "('d, 'f) accept_cfg \<Rightarrow> ('d, 'f) core_state \<Rightarrow> ('d, 'f) chain_env" where
  "chain_env_at cfg st = (ac_chain cfg)\<lparr>
     ce_block := (ac_block cfg)\<lparr> be_node := with_files (co_files st) (be_node (ac_block cfg)) \<rparr>,
     ce_pool := (ce_pool (ac_chain cfg))\<lparr> pe_node := with_files (co_files st) (pe_node (ce_pool (ac_chain cfg))) \<rparr>,
     ce_files := read_block (co_files st),
     ce_mapProofOfStake := co_mapProofOfStake st \<rparr>"

section \<open>AcceptBlock\<close>

definition BLOCKS_ADMIT_HOURS_SWITCH_TIME :: int where "BLOCKS_ADMIT_HOURS_SWITCH_TIME = 1556668800"

definition nMaxOffset :: "diff_env \<Rightarrow> CBlockIndex \<Rightarrow> int" where
  "nMaxOffset env pindexPrev =
     (if fTestNet env \<or> uint (bi_nTime pindexPrev) < BLOCKS_ADMIT_HOURS_SWITCH_TIME then 168 * (60 * 60) else 36 * (60 * 60))"

text \<open>The script that the coin base has to begin with; a block without transactions has been refused before.\<close>

definition height_in_coinbase :: "int \<Rightarrow> CBlock \<Rightarrow> bool option" where
  "height_in_coinbase nHeight block =
     (case get_vtx block of
        [] \<Rightarrow> None
      | tx # _ \<Rightarrow> (case get_vin tx of
          [] \<Rightarrow> None
        | txin # _ \<Rightarrow> Some (take (length (push_int64 nHeight)) (get_scriptSig txin) = push_int64 nHeight)))"

text \<open>The checks, up to the writes. The result has the penalty.\<close>

definition accept_checks :: "('d, 'f) accept_cfg \<Rightarrow> CBlock \<Rightarrow> ('d, 'f) core_state \<Rightarrow> verdict option" where
  "accept_checks cfg block st =
     (let m = co_map st; hash = CBlockHeader_GetHash (ac_block cfg) block in
      if map_find hash m \<noteq> None then Some (False, 0)
      else case map_find (bh_hashPrevBlock block) m of
        None \<Rightarrow> Some (DoS 10 False)
      | Some prev \<Rightarrow> do {
          let prevs = chain_at m (Some (bh_hashPrevBlock block));
          let pindexPrev = bn_index prev;
          let nHeight = bn_height prev + 1;
          if bh_nBits block \<noteq> GetNextTargetRequired (ac_diff cfg) prevs (IsProofOfStake block) then Some (DoS 100 False)
          else do {
            nMedianTimePast \<leftarrow> GetMedianTimePast prevs;
            if bh_GetBlockTime block \<le> nMedianTimePast \<or> FutureDrift (bh_GetBlockTime block) < GetBlockTime pindexPrev then Some (False, 0)
            else if bn_height prev > 1 \<and> nMedianTimePast + nMaxOffset (ac_diff cfg) pindexPrev < bh_GetBlockTime block then Some (False, 0)
            else if \<not> list_all (\<lambda>tx. IsFinal (ch_nBestHeight (cs_chain (co_cp st))) (be_AdjustedTime (ac_block cfg)) tx nHeight (bh_GetBlockTime block))
              (get_vtx block) then Some (DoS 10 False)
            else if \<not> CheckHardened (ac_diff cfg) nHeight hash then Some (DoS 100 False)
            else do {
              cpSatisfies \<leftarrow> CheckSync (ac_diff cfg) hash (bh_hashPrevBlock block) (co_cp st);
              if ac_CheckpointsMode cfg = STRICT \<and> \<not> cpSatisfies then Some (False, 0)
              else do {
                fHeight \<leftarrow> height_in_coinbase nHeight block;
                Some (if fHeight then (True, 0) else DoS 100 False) } } } })"

definition AcceptBlock :: "('d, 'f) accept_cfg \<Rightarrow> CBlock \<Rightarrow> ('d, 'f) core_state \<Rightarrow> (verdict \<times> ('d, 'f) core_state) option" where
  "AcceptBlock cfg block st = do {
     v \<leftarrow> accept_checks cfg block st;
     if \<not> fst v then Some (v, st)
     else do {
       nSize \<leftarrow> CBlock_size block;
       if \<not> ac_DiskSpace cfg nSize then Some ((False, 0), st)
       else do {
         (pos, files) \<leftarrow> WriteToDisk (ac_fopen cfg) block (co_files st);
         let st = st\<lparr> co_files := files \<rparr>;
         case pos of
           None \<Rightarrow> Some ((False, 0), st)
         | Some (nFile, nBlockPos) \<Rightarrow> do {
             (ok, chain) \<leftarrow> AddToBlockIndex (chain_env_at cfg st) block nFile nBlockPos (cs_chain (co_cp st));
             let st = st\<lparr> co_cp := (co_cp st)\<lparr> cs_chain := chain \<rparr> \<rparr>;
             if \<not> ok then Some ((False, 0), st)
             else do {
               (_, cp) \<leftarrow> AcceptPendingSyncCheckpoint (chain_env_at cfg st) (co_cp st);
               let st = st\<lparr> co_cp := cp \<rparr>;
               ok \<leftarrow> auto_Check (ac_mapAutocheck cfg) (co_map st) (ch_hashBestChain (cs_chain (co_cp st)));
               Some ((ok, 0), st) } } } } }"

section \<open>The pool of orphans\<close>

text \<open>
  \<^verbatim>\<open>mapOrphanBlocks\<close>, \<^verbatim>\<open>mapOrphanBlocksByPrev\<close> and \<^verbatim>\<open>setStakeSeenOrphan\<close>. The second is a multimap: equal keys stay in
  the order of insertion. The blocks of both maps are the same objects.
\<close>

record orphan_pool =
  mapOrphanBlocks :: "(uint256, CBlock) std_map"
  mapOrphanBlocksByPrev :: "(uint256 \<times> CBlock) list"
  setStakeSeenOrphan :: "(COutPoint \<times> 32 word) set"

fun multimap_insert :: "'k::linorder \<Rightarrow> 'v \<Rightarrow> ('k \<times> 'v) list \<Rightarrow> ('k \<times> 'v) list" where
  "multimap_insert k v [] = [(k, v)]"
| "multimap_insert k v ((k', v') # m) = (if k < k' then (k, v) # (k', v') # m else (k', v') # multimap_insert k v m)"

text \<open>The walk back over the orphans, with their number as fuel: the block whose previous block is no orphan.\<close>

fun orphan_walk :: "(uint256, CBlock) std_map \<Rightarrow> nat \<Rightarrow> CBlock \<Rightarrow> CBlock option" where
  "orphan_walk m n pblock =
     (case map_find (bh_hashPrevBlock pblock) m of
        None \<Rightarrow> Some pblock
      | Some pprev \<Rightarrow> (case n of 0 \<Rightarrow> None | Suc n \<Rightarrow> orphan_walk m n pprev))"

declare orphan_walk.simps [simp del]

definition GetOrphanRoot :: "'d block_env \<Rightarrow> orphan_pool \<Rightarrow> CBlock \<Rightarrow> uint256 option" where
  "GetOrphanRoot env pool pblock =
     map_option (CBlockHeader_GetHash env) (orphan_walk (mapOrphanBlocks pool) (length (mapOrphanBlocks pool)) pblock)"

definition WantedByOrphan :: "orphan_pool \<Rightarrow> CBlock \<Rightarrow> uint256 option" where
  "WantedByOrphan pool pblockOrphan =
     map_option bh_hashPrevBlock (orphan_walk (mapOrphanBlocks pool) (length (mapOrphanBlocks pool)) pblockOrphan)"

definition WantedByPendingSyncCheckpoint :: "orphan_pool \<Rightarrow> ('d, 'f) cp_state \<Rightarrow> uint256 \<Rightarrow> bool option" where
  "WantedByPendingSyncCheckpoint pool st hashBlock =
     (if hashPendingCheckpoint st = 0 then Some False
      else if hashBlock = hashPendingCheckpoint st then Some True
      else case map_find (hashPendingCheckpoint st) (mapOrphanBlocks pool) of
        None \<Rightarrow> Some False
      | Some orphan \<Rightarrow> map_option (\<lambda>wanted. hashBlock = wanted) (WantedByOrphan pool orphan))"

section \<open>ProcessBlock\<close>

definition ReserealizeSignature :: "('d, 'f) accept_cfg \<Rightarrow> bytes \<Rightarrow> bool \<times> bytes" where
  "ReserealizeSignature cfg vchSig =
     (if vchSig = [] then (False, vchSig)
      else case ac_d2i_i2d cfg vchSig of None \<Rightarrow> (False, vchSig) | Some sig \<Rightarrow> (True, sig))"

definition ReserealizeBlockSignature :: "('d, 'f) accept_cfg \<Rightarrow> CBlock \<Rightarrow> bool \<times> CBlock" where
  "ReserealizeBlockSignature cfg block =
     (if IsProofOfWork block then (True, block\<lparr> get_vchBlockSig := [] \<rparr>)
      else let (ok, sig) = ReserealizeSignature cfg (get_vchBlockSig block) in (ok, block\<lparr> get_vchBlockSig := sig \<rparr>))"

definition IsCanonicalBlockSignature :: "CBlock \<Rightarrow> bool option" where
  "IsCanonicalBlockSignature block =
     (if IsProofOfWork block then Some (get_vchBlockSig block = []) else IsDERSignature (get_vchBlockSig block) False False)"

text \<open>The children of an accepted block, in the order of the multimap: the hashes of those that are accepted.\<close>

fun accept_children :: "('d, 'f) accept_cfg \<Rightarrow> CBlock list \<Rightarrow> ('d, 'f) core_state \<Rightarrow> (uint256 list \<times> ('d, 'f) core_state) option" where
  "accept_children cfg [] st = Some ([], st)"
| "accept_children cfg (orphan # rest) st = do {
     (v, st) \<leftarrow> AcceptBlock cfg orphan st;
     (accepted, st) \<leftarrow> accept_children cfg rest st;
     Some (if fst v then CBlockHeader_GetHash (ac_block cfg) orphan # accepted else accepted, st) }"

definition children :: "orphan_pool \<Rightarrow> uint256 \<Rightarrow> CBlock list" where
  "children pool hashPrev = map snd (filter (\<lambda>(k, _). k = hashPrev) (mapOrphanBlocksByPrev pool))"

definition forget_children :: "'d block_env \<Rightarrow> orphan_pool \<Rightarrow> uint256 \<Rightarrow> orphan_pool" where
  "forget_children env pool hashPrev = \<lparr>
     mapOrphanBlocks = fold (\<lambda>orphan. map_erase (CBlockHeader_GetHash env orphan)) (children pool hashPrev) (mapOrphanBlocks pool),
     mapOrphanBlocksByPrev = filter (\<lambda>(k, _). k \<noteq> hashPrev) (mapOrphanBlocksByPrev pool),
     setStakeSeenOrphan = setStakeSeenOrphan pool - GetProofOfStake ` set (children pool hashPrev) \<rparr>"

lemma length_accept_children: "accept_children cfg blocks st = Some (accepted, st') \<Longrightarrow> length accepted \<le> length blocks"
  by (induction blocks arbitrary: st accepted) (fastforce split: bind_splits if_splits)+

lemma length_forget_children:
  "length (children pool h) + length (mapOrphanBlocksByPrev (forget_children env pool h)) = length (mapOrphanBlocksByPrev pool)"
  using sum_length_filter_compl [of "\<lambda>(k, _). k = h" "mapOrphanBlocksByPrev pool"] by (simp add: children_def forget_children_def split_def)

lemma accept_children_measure:
  "accept_children cfg (children pool h) st = Some (accepted, st') \<Longrightarrow>
    length accepted + length (mapOrphanBlocksByPrev (forget_children (ac_block cfg) pool h)) < Suc (length (mapOrphanBlocksByPrev pool))"
  using length_accept_children [of cfg "children pool h" st accepted st'] length_forget_children [of pool h "ac_block cfg"] by auto

function process_queue ::
  "('d, 'f) accept_cfg \<Rightarrow> uint256 list \<Rightarrow> orphan_pool \<Rightarrow> ('d, 'f) core_state \<Rightarrow> (orphan_pool \<times> ('d, 'f) core_state) option" where
  "process_queue cfg [] pool st = Some (pool, st)"
| "process_queue cfg (hashPrev # vWorkQueue) pool st =
     (case accept_children cfg (children pool hashPrev) st of
        None \<Rightarrow> None
      | Some (accepted, st) \<Rightarrow> process_queue cfg (vWorkQueue @ accepted) (forget_children (ac_block cfg) pool hashPrev) st)"
  by pat_completeness auto
termination
  by (relation "measure (\<lambda>(_, queue, pool, _). length queue + length (mapOrphanBlocksByPrev pool))")
    (auto dest!: accept_children_measure)

text \<open>The proof of stake of a block, with the signature cache of the node; a proof that holds is remembered.\<close>

definition check_stake_of :: "('d, 'f) accept_cfg \<Rightarrow> CBlock \<Rightarrow> ('d, 'f) core_state \<Rightarrow> (bool \<times> ('d, 'f) core_state) option" where
  "check_stake_of cfg block st =
     (if IsProofOfWork block then Some (True, st)
      else let env = chain_env_at cfg st; chain = cs_chain (co_cp st); hash = CBlockHeader_GetHash (ac_block cfg) block in do {
        (v, hashProofOfStake, _, cache) \<leftarrow> CheckProofOfStake (ce_block env) (read_block (co_files st)) (co_map st) (ch_txdb chain)
          (get_vtx block ! 1) (bh_nBits block) (as_cache (ch_pool chain));
        let st = st\<lparr> co_cp := (co_cp st)\<lparr> cs_chain := chain\<lparr> ch_pool := (ch_pool chain)\<lparr> as_cache := cache \<rparr> \<rparr> \<rparr> \<rparr>;
        Some (if fst v then (True, st\<lparr> co_mapProofOfStake := map_insert hash hashProofOfStake (co_mapProofOfStake st) \<rparr>) else (False, st)) })"

text \<open>A block off the best chain needs at least the work or stake that can follow the checkpoint by now.\<close>

definition too_little_work :: "('d, 'f) accept_cfg \<Rightarrow> CBlock \<Rightarrow> ('d, 'f) core_state \<Rightarrow> bool option" where
  "too_little_work cfg block st =
     (case GetLastSyncCheckpoint (co_cp st) of
        None \<Rightarrow> Some False
      | Some hashCheckpoint \<Rightarrow>
          (let env = ac_diff cfg; checkpoint = chain_at (co_map st) (Some hashCheckpoint);
             deltaTime = bh_GetBlockTime block - uint (bi_nTime (hd checkpoint));
             last = GetLastBlockIndex checkpoint (IsProofOfStake block) in
           if last = [] then None
           else let nBase = bi_nBits (hd last) in
             Some (SetCompact (de_bn env) (bh_nBits block) > SetCompact (de_bn env)
               (if IsProofOfStake block then ComputeMinStake env nBase deltaTime (bh_nTime block) else ComputeMinWork env nBase deltaTime))))"

text \<open>A block whose previous block is missing goes into the pool, unless its stake was seen in it.\<close>

definition has_child :: "orphan_pool \<Rightarrow> uint256 \<Rightarrow> bool" where
  "has_child pool hash \<longleftrightarrow> children pool hash \<noteq> []"

definition add_orphan :: "'d block_env \<Rightarrow> CBlock \<Rightarrow> orphan_pool \<Rightarrow> orphan_pool" where
  "add_orphan env block pool = pool\<lparr>
     mapOrphanBlocks := map_insert (CBlockHeader_GetHash env block) block (mapOrphanBlocks pool),
     mapOrphanBlocksByPrev := multimap_insert (bh_hashPrevBlock block) block (mapOrphanBlocksByPrev pool) \<rparr>"

definition keep_orphan :: "('d, 'f) accept_cfg \<Rightarrow> bool \<Rightarrow> CBlock \<Rightarrow> orphan_pool \<Rightarrow> ('d, 'f) core_state \<Rightarrow> (bool \<times> orphan_pool) option" where
  "keep_orphan cfg fPeer block pool st =
     (let hash = CBlockHeader_GetHash (ac_block cfg) block in do {
        fDuplicate \<leftarrow> (if IsProofOfStake block \<and> GetProofOfStake block \<in> setStakeSeenOrphan pool \<and> \<not> has_child pool hash
          then map_option Not (WantedByPendingSyncCheckpoint pool (co_cp st) hash) else Some False);
        if fDuplicate then Some (False, pool)
        else do {
          let pool = (if IsProofOfStake block then pool\<lparr> setStakeSeenOrphan := insert (GetProofOfStake block) (setStakeSeenOrphan pool) \<rparr> else pool);
          let pool = add_orphan (ac_block cfg) block pool;
          _ \<leftarrow> (if fPeer then GetOrphanRoot (ac_block cfg) pool block else Some 0);
          Some (True, pool) } })"

text \<open>The result, the penalty of the peer that sent the block, and the penalty that the block carries.\<close>

type_synonym process_verdict = "bool \<times> nat \<times> nat"

definition ProcessBlock ::
  "('d, 'f) accept_cfg \<Rightarrow> bool \<Rightarrow> CBlock \<Rightarrow> orphan_pool \<Rightarrow> ('d, 'f) core_state \<Rightarrow>
    (process_verdict \<times> orphan_pool \<times> ('d, 'f) core_state) option" where
  "ProcessBlock cfg fPeer block pool st =
     (let hash = CBlockHeader_GetHash (ac_block cfg) block in
      if map_find hash (co_map st) \<noteq> None then Some ((False, 0, 0), pool, st)
      else if map_find hash (mapOrphanBlocks pool) \<noteq> None then Some ((False, 0, 0), pool, st)
      else if \<not> CheckBanned (ac_diff cfg) hash then Some ((False, if fPeer then 100 else 0, 0), pool, st)
      else do {
        fDuplicate \<leftarrow> (if IsProofOfStake block \<and> GetProofOfStake block \<in> ch_setStakeSeen (cs_chain (co_cp st)) \<and> \<not> has_child pool hash
          then map_option Not (WantedByPendingSyncCheckpoint pool (co_cp st) hash) else Some False);
        if fDuplicate then Some ((False, 0, 0), pool, st)
        else do {
          canonical \<leftarrow> IsCanonicalBlockSignature block;
          let block = (if canonical then block else snd (ReserealizeBlockSignature cfg block));
          v \<leftarrow> CheckBlock (ce_block (chain_env_at cfg st)) block True True (uint (bh_nTime block) > GetLastCheckpointTime (ac_diff cfg));
          if \<not> fst v then Some ((False, 0, snd v), pool, st)
          else do {
            (ok, st) \<leftarrow> check_stake_of cfg block st;
            if \<not> ok then Some ((False, 0, 0), pool, st)
            else do {
              wanted \<leftarrow> (if GetLastSyncCheckpoint (co_cp st) \<noteq> None \<and> bh_hashPrevBlock block \<noteq> ch_hashBestChain (cs_chain (co_cp st))
                then WantedByPendingSyncCheckpoint pool (co_cp st) hash else Some True);
              little \<leftarrow> (if wanted then Some False else too_little_work cfg block st);
              if little then Some ((False, if fPeer then 100 else 0, 0), pool, st)
              else if map_find (bh_hashPrevBlock block) (co_map st) = None
              then map_option (\<lambda>(ok, pool). ((ok, 0, 0), pool, st)) (keep_orphan cfg fPeer block pool st)
              else do {
                (v, st) \<leftarrow> AcceptBlock cfg block st;
                if \<not> fst v then Some ((False, 0, snd v), pool, st)
                else do {
                  (pool, st) \<leftarrow> process_queue cfg [hash] pool st;
                  Some ((True, 0, 0), pool, st) } } } } } })"

section \<open>The rules for a block in its place\<close>

text \<open>What the rules ask of a block because of the blocks before it, with the checkpoint as a block of the branch.\<close>

definition coinbase_starts_with_height :: "int \<Rightarrow> CBlock \<Rightarrow> bool" where
  "coinbase_starts_with_height h block \<longleftrightarrow>
     (\<exists>tx txs txin ins. get_vtx block = tx # txs \<and> get_vin tx = txin # ins \<and> prefix (push_int64 h) (get_scriptSig txin))"

definition fits_after :: "('d, 'f) accept_cfg \<Rightarrow> CBlock \<Rightarrow> ('d, 'f) core_state \<Rightarrow> block_node \<Rightarrow> int \<Rightarrow> bool" where
  "fits_after cfg block st prev t \<longleftrightarrow>
     bh_nBits block = GetNextTargetRequired (ac_diff cfg) (chain_at (co_map st) (Some (bh_hashPrevBlock block))) (IsProofOfStake block) \<and>
     t < bh_GetBlockTime block \<and> GetBlockTime (bn_index prev) \<le> FutureDrift (bh_GetBlockTime block) \<and>
     (bn_height prev > 1 \<longrightarrow> bh_GetBlockTime block \<le> t + nMaxOffset (ac_diff cfg) (bn_index prev)) \<and>
     (\<forall>tx \<in> set (get_vtx block). IsFinal (ch_nBestHeight (cs_chain (co_cp st))) (be_AdjustedTime (ac_block cfg)) tx (bn_height prev + 1) (bh_GetBlockTime block)) \<and>
     CheckHardened (ac_diff cfg) (bn_height prev + 1) (CBlockHeader_GetHash (ac_block cfg) block) \<and>
     (ac_CheckpointsMode cfg = STRICT \<and> \<not> fTestNet (ac_diff cfg) \<longrightarrow> hashSyncCheckpoint (co_cp st) \<in> set (branch (co_map st) (Some (bh_hashPrevBlock block)))) \<and>
     coinbase_starts_with_height (bn_height prev + 1) block"

definition fits_in_chain :: "('d, 'f) accept_cfg \<Rightarrow> CBlock \<Rightarrow> ('d, 'f) core_state \<Rightarrow> bool" where
  "fits_in_chain cfg block st \<longleftrightarrow> map_find (CBlockHeader_GetHash (ac_block cfg) block) (co_map st) = None \<and>
     (\<exists>prev t. map_find (bh_hashPrevBlock block) (co_map st) = Some prev \<and>
        GetMedianTimePast (chain_at (co_map st) (Some (bh_hashPrevBlock block))) = Some t \<and> fits_after cfg block st prev t)"

lemma prefix_iff_take: "prefix xs ys \<longleftrightarrow> take (length xs) ys = xs"
  by (metis append_eq_conv_conj append_take_drop_id prefix_def)

lemma height_in_coinbase_iff: "height_in_coinbase h block = Some f \<Longrightarrow> f \<longleftrightarrow> coinbase_starts_with_height h block"
  "height_in_coinbase h block = None \<Longrightarrow> \<not> coinbase_starts_with_height h block"
  by (auto simp: height_in_coinbase_def coinbase_starts_with_height_def prefix_iff_take split: list.splits)

text \<open>A block that is not known yet agrees with the checkpoint when it descends from it.\<close>

lemma CheckSync_new:
  assumes "tree_ok (cs_map st)" "map_find p (cs_map st) = Some prev" "map_find h (cs_map st) = None"
  shows "CheckSync env h p st =
    (if fTestNet env then Some True
     else if map_find (hashSyncCheckpoint st) (cs_map st) = None then None
     else Some (hashSyncCheckpoint st \<in> set (branch (cs_map st) (Some p))))"
proof (cases "map_find (hashSyncCheckpoint st) (cs_map st)")
  case (Some sync)
  then show ?thesis
    using ancestor_lower(1) [OF assms(1) _ Some assms(2)] assms(3) by (auto simp: CheckSync_decides [OF assms(1,2)] agrees_with_sync_def)
qed (simp add: CheckSync_decides [OF assms(1,2)])

lemma accept_checks_decide:
  assumes "accept_checks cfg block st = Some v" "tree_ok (co_map st)"
  shows "fst v \<longleftrightarrow> fits_in_chain cfg block st"
proof (cases "map_find (CBlockHeader_GetHash (ac_block cfg) block) (co_map st) = None \<and> map_find (bh_hashPrevBlock block) (co_map st) \<noteq> None")
  case True
  then obtain prev where p: "map_find (CBlockHeader_GetHash (ac_block cfg) block) (co_map st) = None" "map_find (bh_hashPrevBlock block) (co_map st) = Some prev"
    by blast
  let ?c = "chain_at (co_map st) (Some (bh_hashPrevBlock block))"
  obtain t where t: "GetMedianTimePast ?c = Some t" using chain_at_step [OF assms(2) p(2)] by (simp add: GetMedianTimePast_def)
  note checks = assms(1) [unfolded accept_checks_def Let_def CheckSync_new [OF assms(2) p(2) p(1)]]
  show ?thesis
  proof (cases "height_in_coinbase (bn_height prev + 1) block")
    case None
    then show ?thesis
      using checks p t height_in_coinbase_iff(2) [OF None] unfolding fits_in_chain_def fits_after_def by (auto simp: DoS_def split: if_splits)
  next
    case (Some f)
    then show ?thesis
      using checks p t height_in_coinbase_iff(1) [OF Some] unfolding fits_in_chain_def fits_after_def
      by (simp add: DoS_def list_all_iff not_le not_less split: if_splits) (auto simp: DoS_def)
  qed
qed (use assms(1) in \<open>auto simp: accept_checks_def fits_in_chain_def Let_def DoS_def split: option.splits if_splits\<close>)

text \<open>
  C8. The place of a block. \<^verbatim>\<open>AcceptBlock\<close> accepts only blocks that meet the rules for their place: not known yet, the target that
  the branch requires, a time after the median of the last blocks and not too late, final transactions, the hardened
  checkpoints, in strict mode on the main network a descendant of the synchronised checkpoint, and the height at the start of the coin base.
  A block that fails one of them changes nothing. On the test network, which has no checkpoints, the rule of the synchronised
  one is void; on the main network a result means that the checkpoint is a known block, or that an earlier rule failed.
\<close>

theorem AcceptBlock_rules:
  assumes "AcceptBlock cfg block st = Some (v, st')" "tree_ok (co_map st)"
  shows "(fst v \<longrightarrow> fits_in_chain cfg block st) \<and> (fits_in_chain cfg block st \<or> st' = st)"
proof -
  from assms(1) obtain v1 where v1: "accept_checks cfg block st = Some v1" "fst v1 \<or> (v = v1 \<and> st' = st)"
    by (auto simp: AcceptBlock_def split: bind_splits if_splits)
  with accept_checks_decide [OF v1(1) assms(2)] show ?thesis by blast
qed

text \<open>A block that is accepted is in the index under its hash, and its entry leads to the block on the disk.\<close>

definition block_stored :: "'d block_env \<Rightarrow> CBlock \<Rightarrow> ('d, 'f) core_state \<Rightarrow> bool" where
  "block_stored env block st \<longleftrightarrow>
     (\<exists>node. map_find (CBlockHeader_GetHash env block) (co_map st) = Some node \<and>
        read_block (co_files st) (bi_nFile (bn_index node)) (bi_nBlockPos (bn_index node)) = Some block)"

lemma stored_after_writes:
  assumes "WriteToDisk fopen block (co_files st) = Some (Some (nFile, nBlockPos), files)"
    and "AddToBlockIndex (chain_env_at cfg st1) block nFile nBlockPos (cs_chain (co_cp st)) = Some (True, chain)"
    and "AcceptPendingSyncCheckpoint env ((co_cp st)\<lparr> cs_chain := chain \<rparr>) = Some (r, cp)"
    and "map_ok (co_map st)" "map_ok (bf_files (co_files st))" "wf_block block"
  shows "block_stored (ac_block cfg) block (st\<lparr> co_files := files, co_cp := cp \<rparr>)"
proof -
  have "CBlockHeader_GetHash (ce_block (chain_env_at cfg st1)) block = CBlockHeader_GetHash (ac_block cfg) block"
    by (simp add: chain_env_at_def with_files_def CBlockHeader_GetHash_def)
  with AddToBlockIndex_index [OF assms(2,4)]
  have i: "map_ok (ch_mapBlockIndex chain)" "indexed_at (CBlockHeader_GetHash (ac_block cfg) block) nFile nBlockPos (ch_mapBlockIndex chain)" by simp_all
  have "read_block files nFile nBlockPos = Some block" using WriteToDisk_spec [OF assms(1,5,6)] by blast
  moreover have "indexed_at (CBlockHeader_GetHash (ac_block cfg) block) nFile nBlockPos (cs_map cp)"
    using AcceptPendingSyncCheckpoint_index [OF assms(3)] i by (simp add: index_keeps_def)
  ultimately show ?thesis by (auto simp: block_stored_def indexed_at_def)
qed

lemma AcceptBlock_stores:
  assumes "AcceptBlock cfg block st = Some (v, st')" "fst v"
    and "map_ok (co_map st)" "map_ok (bf_files (co_files st))" "wf_block block"
  shows "block_stored (ac_block cfg) block st'"
proof -
  have "ends_in (\<lambda>(v, st'). fst v \<longrightarrow> block_stored (ac_block cfg) block st') (AcceptBlock cfg block st)"
    unfolding AcceptBlock_def
    by (intro ends_in_intros ends_in_Let ends_in_option; simp add: ends_in_def;
      use stored_after_writes [OF _ _ _ assms(3-5)] in fastforce)
  with assms(1,2) show ?thesis by (auto simp: ends_in_def)
qed

text \<open>
  C16. The automatic checkpoints come too late. What \<^verbatim>\<open>AcceptBlock\<close> does to the node does not depend on the automatic
  checkpoints: with any others the node ends in the same state. So a well-formed block that some checkpoints accept is, when others
  refuse it, all the same in the index, with an entry that leads to the block on the disk, and the best chain may end with it.
\<close>

theorem AcceptBlock_autocheck_late:
  assumes "AcceptBlock cfg block st = Some (v1, st1)" "AcceptBlock (cfg\<lparr> ac_mapAutocheck := points \<rparr>) block st = Some (v2, st2)"
    and "map_ok (co_map st)" "map_ok (bf_files (co_files st))" "wf_block block"
  shows "st2 = st1 \<and> (fst v1 \<or> fst v2 \<longrightarrow>
    (\<exists>node. map_find (CBlockHeader_GetHash (ac_block cfg) block) (co_map st2) = Some node \<and>
       read_block (co_files st2) (bi_nFile (bn_index node)) (bi_nBlockPos (bn_index node)) = Some block))"
proof -
  have f: "ac_chain (cfg\<lparr> ac_mapAutocheck := points \<rparr>) = ac_chain cfg"
    "ac_CheckpointsMode (cfg\<lparr> ac_mapAutocheck := points \<rparr>) = ac_CheckpointsMode cfg" by simp_all
  have c: "accept_checks (cfg\<lparr> ac_mapAutocheck := points \<rparr>) block st = accept_checks cfg block st"
    "chain_env_at (cfg\<lparr> ac_mapAutocheck := points \<rparr>) st = chain_env_at cfg st" for st
    by (simp_all only: accept_checks_def chain_env_at_def f)
  have same: "st2 = st1"
    using assms(1,2) unfolding AcceptBlock_def c f Let_def by (auto split: bind_splits if_splits option.splits)
  have "block_stored (ac_block cfg) block st2" if "fst v1 \<or> fst v2"
    using that AcceptBlock_stores [OF assms(1) _ assms(3-5)] AcceptBlock_stores [OF assms(2) _ assms(3-5)] same by auto
  with same show ?thesis by (simp add: block_stored_def)
qed

section \<open>The pool of orphans\<close>

text \<open>Both maps hold the same blocks, one by their hash and the other by the hash they wait for.\<close>

definition pool_ok :: "'d block_env \<Rightarrow> orphan_pool \<Rightarrow> bool" where
  "pool_ok env pool \<longleftrightarrow> map_ok (mapOrphanBlocks pool) \<and> sorted (map fst (mapOrphanBlocksByPrev pool)) \<and> distinct (mapOrphanBlocksByPrev pool) \<and>
     (\<forall>h b. map_find h (mapOrphanBlocks pool) = Some b \<longrightarrow> h = CBlockHeader_GetHash env b) \<and>
     (\<forall>p b. (p, b) \<in> set (mapOrphanBlocksByPrev pool) \<longleftrightarrow>
        p = bh_hashPrevBlock b \<and> map_find (CBlockHeader_GetHash env b) (mapOrphanBlocks pool) = Some b)"

lemma set_multimap_insert: "set (multimap_insert k v m) = insert (k, v) (set m)"
  by (induction m) (auto split: if_splits)

lemma sorted_multimap_insert: "sorted (map fst m) \<Longrightarrow> sorted (map fst (multimap_insert k v m))"
proof (induction m)
  case (Cons x m)
  then show ?case using order.strict_trans2 [of k "fst x"] by (cases x) (auto simp: set_multimap_insert not_less order.strict_implies_order)
qed simp

lemma distinct_multimap_insert: "distinct m \<Longrightarrow> (k, v) \<notin> set m \<Longrightarrow> distinct (multimap_insert k v m)"
  by (induction m) (auto simp: set_multimap_insert split: if_splits)

lemma set_children: "b \<in> set (children pool h) \<longleftrightarrow> (h, b) \<in> set (mapOrphanBlocksByPrev pool)"
  by (force simp: children_def)

lemma map_find_fold_erase: "map_find k (fold (\<lambda>b. map_erase (f b)) bs m) = (if k \<in> f ` set bs then None else map_find k m)"
  by (induction bs arbitrary: m) auto

lemma map_ok_fold_erase: "map_ok m \<Longrightarrow> map_ok (fold (\<lambda>b. map_erase (f b)) bs m)"
  by (induction bs arbitrary: m) auto

lemma pool_ok_facts:
  assumes "pool_ok env pool"
  shows "map_ok (mapOrphanBlocks pool)" "map_find h (mapOrphanBlocks pool) = Some b \<Longrightarrow> h = CBlockHeader_GetHash env b"
    "(p, b) \<in> set (mapOrphanBlocksByPrev pool) \<longleftrightarrow> p = bh_hashPrevBlock b \<and> map_find (CBlockHeader_GetHash env b) (mapOrphanBlocks pool) = Some b"
    "b \<in> set (children pool h) \<longleftrightarrow> h = bh_hashPrevBlock b \<and> map_find (CBlockHeader_GetHash env b) (mapOrphanBlocks pool) = Some b"
  using assms by (simp_all add: pool_ok_def set_children)

lemma child_hash:
  assumes "pool_ok env pool" "map_find (CBlockHeader_GetHash env b) (mapOrphanBlocks pool) = Some b"
  shows "CBlockHeader_GetHash env b \<in> CBlockHeader_GetHash env ` set (children pool h) \<longleftrightarrow> bh_hashPrevBlock b = h"
proof
  assume "CBlockHeader_GetHash env b \<in> CBlockHeader_GetHash env ` set (children pool h)"
  then obtain c where "CBlockHeader_GetHash env b = CBlockHeader_GetHash env c" "c \<in> set (children pool h)" by auto
  then show "bh_hashPrevBlock b = h" using assms pool_ok_facts(4) [OF assms(1)] by auto
next
  assume "bh_hashPrevBlock b = h"
  then have "b \<in> set (children pool h)" using assms pool_ok_facts(4) [OF assms(1)] by auto
  then show "CBlockHeader_GetHash env b \<in> CBlockHeader_GetHash env ` set (children pool h)" by (rule imageI)
qed

lemma forget_children_find:
  assumes "pool_ok env pool"
  shows "map_find k (mapOrphanBlocks (forget_children env pool h)) = Some b \<longleftrightarrow>
    map_find k (mapOrphanBlocks pool) = Some b \<and> bh_hashPrevBlock b \<noteq> h"
  using child_hash [OF assms, of b h] pool_ok_facts(2) [OF assms, of k b]
  by (auto simp: forget_children_def map_find_fold_erase split: if_splits)

lemma forget_children_ok:
  assumes "pool_ok env pool"
  shows "pool_ok env (forget_children env pool h)"
  unfolding pool_ok_def forget_children_find [OF assms]
proof (intro conjI allI impI)
  show "map_ok (mapOrphanBlocks (forget_children env pool h))"
    using assms by (simp add: forget_children_def map_ok_fold_erase pool_ok_def)
  show "sorted (map fst (mapOrphanBlocksByPrev (forget_children env pool h)))" "distinct (mapOrphanBlocksByPrev (forget_children env pool h))"
    using assms by (simp_all add: forget_children_def pool_ok_def sorted_filter)
qed (use pool_ok_facts [OF assms] in \<open>auto simp: forget_children_def\<close>)

lemma add_orphan_ok:
  assumes "pool_ok env pool" "map_find (CBlockHeader_GetHash env b) (mapOrphanBlocks pool) = None"
  shows "pool_ok env (add_orphan env b pool)"
  using assms unfolding pool_ok_def add_orphan_def
  by (auto simp: map_insert_def set_multimap_insert sorted_multimap_insert intro!: distinct_multimap_insert split: if_splits)

lemma children_forget: "children (forget_children env pool h) h' = (if h' = h then [] else children pool h')"
  by (auto simp: children_def forget_children_def filter_empty_conv intro!: arg_cong [where f = "map snd"] filter_cong)

definition orphan :: "'d block_env \<Rightarrow> orphan_pool \<Rightarrow> CBlock \<Rightarrow> bool" where
  "orphan env pool b \<longleftrightarrow> map_find (CBlockHeader_GetHash env b) (mapOrphanBlocks pool) = Some b"

lemma children_orphan:
  "pool_ok env pool \<Longrightarrow> b \<in> set (children pool h) \<longleftrightarrow> orphan env pool b \<and> bh_hashPrevBlock b = h"
  using pool_ok_facts(4) by (auto simp: orphan_def)

lemma forget_children_orphan:
  "pool_ok env pool \<Longrightarrow> orphan env (forget_children env pool h) b \<longleftrightarrow> orphan env pool b \<and> bh_hashPrevBlock b \<noteq> h"
  unfolding orphan_def by (rule forget_children_find)

lemma distinct_children: "pool_ok env pool \<Longrightarrow> distinct (children pool h)"
  by (auto simp: pool_ok_def children_def distinct_map inj_on_def)

text \<open>
  A run of \<^verbatim>\<open>AcceptBlock\<close> over blocks, with its answer for each of them, and the hashes of those it accepted.
\<close>

inductive accept_run :: "('d, 'f) accept_cfg \<Rightarrow> (CBlock \<times> bool) list \<Rightarrow> ('d, 'f) core_state \<Rightarrow> ('d, 'f) core_state \<Rightarrow> bool" for cfg where
  run_end: "accept_run cfg [] st st"
| run_block: "AcceptBlock cfg b st = Some (v, st1) \<Longrightarrow> accept_run cfg run st1 st2 \<Longrightarrow> accept_run cfg ((b, fst v) # run) st st2"

inductive_cases accept_run_ConsE: "accept_run cfg (x # run) st st'"

definition accepted_hashes :: "'d block_env \<Rightarrow> (CBlock \<times> bool) list \<Rightarrow> uint256 list" where
  "accepted_hashes env run = map (\<lambda>(b, _). CBlockHeader_GetHash env b) (filter snd run)"

lemma accepted_hashes_simps [simp]:
  "accepted_hashes env [] = []"
  "accepted_hashes env ((b, ok) # run) = (if ok then [CBlockHeader_GetHash env b] else []) @ accepted_hashes env run"
  "accepted_hashes env (run @ run') = accepted_hashes env run @ accepted_hashes env run'"
  by (simp_all add: accepted_hashes_def)

lemma accept_run_append: "accept_run cfg run st st1 \<Longrightarrow> accept_run cfg run' st1 st2 \<Longrightarrow> accept_run cfg (run @ run') st st2"
  by (induction rule: accept_run.induct) (auto intro: run_block)

lemma accept_children_run:
  assumes "accept_children cfg blocks st = Some (accepted, st')"
  shows "\<exists>run. accept_run cfg run st st' \<and> map fst run = blocks \<and> accepted_hashes (ac_block cfg) run = accepted"
  using assms
proof (induction blocks arbitrary: st accepted)
  case (Cons b blocks)
  from Cons.prems obtain v st1 accepted1 where a: "AcceptBlock cfg b st = Some (v, st1)" "accept_children cfg blocks st1 = Some (accepted1, st')"
    "accepted = (if fst v then CBlockHeader_GetHash (ac_block cfg) b # accepted1 else accepted1)" by (auto split: bind_splits)
  from Cons.IH [OF a(2)] obtain run where "accept_run cfg run st1 st'" "map fst run = blocks" "accepted_hashes (ac_block cfg) run = accepted1" by blast
  moreover from this a(1) have "accept_run cfg ((b, fst v) # run) st st'" by (blast intro: run_block)
  ultimately show ?case using a(3) by (intro exI [of _ "(b, fst v) # run"]) simp
qed (auto intro: run_end)

text \<open>The order of a run: every block comes after the one it waited for, which is of the queue or was accepted before.\<close>

definition run_ordered :: "'d block_env \<Rightarrow> uint256 list \<Rightarrow> (CBlock \<times> bool) list \<Rightarrow> bool" where
  "run_ordered env queue run \<longleftrightarrow> (\<forall>run1 b ok run2. run = run1 @ (b, ok) # run2 \<longrightarrow>
     bh_hashPrevBlock b \<in> set queue \<union> set (accepted_hashes env run1))"

lemma run_ordered_append:
  assumes "\<And>b ok. (b, ok) \<in> set run0 \<Longrightarrow> bh_hashPrevBlock b = h" "run_ordered env (queue @ accepted_hashes env run0) run1"
  shows "run_ordered env (h # queue) (run0 @ run1)"
  unfolding run_ordered_def
proof (intro allI impI)
  fix r1 b ok r2
  assume "run0 @ run1 = r1 @ (b, ok) # r2"
  then consider "(b, ok) \<in> set run0" | r where "r1 = run0 @ r" "run1 = r @ (b, ok) # r2"
    by (auto simp: append_eq_append_conv2 append_eq_Cons_conv)
  then show "bh_hashPrevBlock b \<in> set (h # queue) \<union> set (accepted_hashes env r1)"
  proof cases
    case 1
    then show ?thesis using assms(1) by simp
  next
    case 2
    then show ?thesis using assms(2) by (auto simp: run_ordered_def)
  qed
qed

lemma process_queue_run:
  assumes "process_queue cfg queue pool st = Some (pool', st')" "pool_ok (ac_block cfg) pool"
  shows "pool_ok (ac_block cfg) pool' \<and> (\<forall>b. orphan (ac_block cfg) pool' b \<longrightarrow> orphan (ac_block cfg) pool b) \<and>
    (\<exists>run. accept_run cfg run st st' \<and> distinct (map fst run) \<and>
      set (map fst run) = {b. orphan (ac_block cfg) pool b \<and> \<not> orphan (ac_block cfg) pool' b} \<and>
      (\<forall>h \<in> set queue \<union> set (accepted_hashes (ac_block cfg) run). children pool' h = []) \<and>
      run_ordered (ac_block cfg) queue run)"
  using assms
proof (induction cfg queue pool st rule: process_queue.induct)
  case (2 cfg h queue pool st)
  let ?env = "ac_block cfg" and ?p = "forget_children (ac_block cfg) pool h"
  from 2(2) obtain accepted st1 where a: "accept_children cfg (children pool h) st = Some (accepted, st1)"
    "process_queue cfg (queue @ accepted) ?p st1 = Some (pool', st')" by (auto split: option.splits)
  from accept_children_run [OF a(1)] obtain run0 where r0: "accept_run cfg run0 st st1" "map fst run0 = children pool h"
    "accepted_hashes ?env run0 = accepted" by blast
  from 2(1) [OF a(1) refl a(2) forget_children_ok [OF 2(3)]] obtain run1
    where ok: "pool_ok ?env pool'" and sub: "\<And>b. orphan ?env pool' b \<Longrightarrow> orphan ?env ?p b"
      and r1: "accept_run cfg run1 st1 st'" "distinct (map fst run1)" "set (map fst run1) = {b. orphan ?env ?p b \<and> \<not> orphan ?env pool' b}"
        "\<And>k. k \<in> set (queue @ accepted) \<union> set (accepted_hashes ?env run1) \<Longrightarrow> children pool' k = []"
        "run_ordered ?env (queue @ accepted) run1" by blast
  note o = forget_children_orphan [OF 2(3), of h] and c = children_orphan [OF 2(3), of _ h]
  have prev0: "bh_hashPrevBlock b = h" if "(b, x) \<in> set run0" for b x
    using that r0(2) c by (metis fst_conv image_eqI list.set_map)
  have "children pool' h = []"
    using children_orphan [OF ok, of _ h] sub o by (metis list.set_intros(1) neq_Nil_conv)
  then have all: "\<forall>k \<in> set (h # queue) \<union> set (accepted_hashes ?env (run0 @ run1)). children pool' k = []"
    using r1(4) r0(3) by auto
  have dist: "distinct (map fst (run0 @ run1))"
    using r0(2) r1(2,3) distinct_children [OF 2(3), of h] o c by (auto simp del: set_map)
  have gone: "set (map fst (run0 @ run1)) = {b. orphan ?env pool b \<and> \<not> orphan ?env pool' b}"
    unfolding map_append set_append r0(2) r1(3) using o c sub by blast
  have ordered: "run_ordered ?env (h # queue) (run0 @ run1)"
    by (rule run_ordered_append) (use prev0 r1(5) r0(3) in auto)
  show ?case
  proof (intro conjI exI)
    show "accept_run cfg (run0 @ run1) st st'" using r0(1) r1(1) by (rule accept_run_append)
    show "\<forall>b. orphan ?env pool' b \<longrightarrow> orphan ?env pool b" using sub o by blast
  qed (fact ok dist gone all ordered)+
qed (auto intro!: exI [of _ "[]"] run_end simp: run_ordered_def)

text \<open>
  C9. The orphans of an accepted block. Working through its queue of accepted blocks, \<^verbatim>\<open>ProcessBlock\<close> calls \<^verbatim>\<open>AcceptBlock\<close> once for every
  orphan that it takes out of the pool, and for no other block. Each of them waited for a block of the queue or for an
  orphan that was accepted earlier in the run, and in the end no orphan waits for a block of the queue or for an orphan that was
  accepted. The two maps of the pool keep agreeing.
\<close>

theorem process_queue_adopts:
  assumes "process_queue cfg queue pool st = Some (pool', st')" "pool_ok (ac_block cfg) pool"
  shows "pool_ok (ac_block cfg) pool' \<and> (\<forall>b. orphan (ac_block cfg) pool' b \<longrightarrow> orphan (ac_block cfg) pool b) \<and>
    (\<exists>run. accept_run cfg run st st' \<and> distinct (map fst run) \<and>
      set (map fst run) = {b. orphan (ac_block cfg) pool b \<and> \<not> orphan (ac_block cfg) pool' b} \<and>
      (\<forall>h \<in> set queue \<union> set (accepted_hashes (ac_block cfg) run). children pool' h = []) \<and>
      (\<forall>run1 b ok run2. run = run1 @ (b, ok) # run2 \<longrightarrow>
        bh_hashPrevBlock b \<in> set queue \<union> set (accepted_hashes (ac_block cfg) run1)))"
  using process_queue_run [OF assms] unfolding run_ordered_def .

lemma hash_unsigned [simp]: "CBlockHeader_GetHash env (block\<lparr> get_vchBlockSig := sig \<rparr>) = CBlockHeader_GetHash env block"
  by (simp add: CBlockHeader_GetHash_def Serialize_CBlockHeader_def)

lemma hash_reserialized [simp]: "CBlockHeader_GetHash env (snd (ReserealizeBlockSignature cfg block)) = CBlockHeader_GetHash env block"
  by (simp add: ReserealizeBlockSignature_def split_def Let_def)

lemma keep_orphan_ok:
  assumes "keep_orphan cfg fPeer block pool st = Some (ok, pool')" "pool_ok (ac_block cfg) pool"
    "map_find (CBlockHeader_GetHash (ac_block cfg) block) (mapOrphanBlocks pool) = None"
  shows "pool_ok (ac_block cfg) pool'"
proof -
  have "pool_ok (ac_block cfg) (pool\<lparr> setStakeSeenOrphan := S \<rparr>)" for S using assms(2) by (simp add: pool_ok_def)
  then have "pool_ok (ac_block cfg) (add_orphan (ac_block cfg) block (pool\<lparr> setStakeSeenOrphan := S \<rparr>))" for S
    using assms(3) by (intro add_orphan_ok) simp_all
  moreover have "pool_ok (ac_block cfg) (add_orphan (ac_block cfg) block pool)" using assms(2,3) by (rule add_orphan_ok)
  ultimately show ?thesis
    using assms(1,2) unfolding keep_orphan_def Let_def by (auto split: bind_splits if_splits)
qed

text \<open>
  C10. The pool of orphans. \<^verbatim>\<open>ProcessBlock\<close> keeps the two maps of orphans in agreement on every path: the same blocks, one by
  one, under their hash in the one and in the order of the hash they wait for in the other.
\<close>

theorem ProcessBlock_pool_ok:
  assumes "ProcessBlock cfg fPeer block pool st = Some (v, pool', st')" "pool_ok (ac_block cfg) pool"
  shows "pool_ok (ac_block cfg) pool'"
proof -
  let ?h = "CBlockHeader_GetHash (ac_block cfg) block"
  have "ends_in (\<lambda>(_, p, _). pool_ok (ac_block cfg) p) (ProcessBlock cfg fPeer block pool st)"
    unfolding ProcessBlock_def Let_def
    by (intro ends_in_intros)
      (use assms(2) in \<open>auto simp: ends_in_def simp del: process_queue.simps dest: process_queue_run [THEN conjunct1] keep_orphan_ok\<close>)
  with assms(1) show ?thesis by (simp add: ends_in_def)
qed

section \<open>A block on top of the genesis block\<close>

definition accept_prev :: CBlockIndex where
  "accept_prev = sample_index\<lparr> bi_nFlags := BLOCK_STAKE_MODIFIER \<rparr>"

definition accept_tx :: CTransaction where
  "accept_tx = demo_coinbase\<lparr> get_vin :=
     [\<lparr> get_prevout = COutPoint_null, get_scriptSig = [0x51, 1], get_nSequence = 0, get_scriptWitness = [] \<rparr>] \<rparr>"

definition accept_block :: CBlock where
  "accept_block = demo_block\<lparr> bh_nTime := 1533549700, bh_nBits := GetNextTargetRequired main_net [accept_prev] False, get_vtx := [accept_tx] \<rparr>"

definition accept_node :: block_node where
  "accept_node = \<lparr> bn_index = accept_prev, bn_pprev = None, bn_pnext = None \<rparr>"

lemma accept_node_facts [simp]: "bn_index accept_node = accept_prev" "bn_height accept_node = 0" "bn_pprev accept_node = None"
  by (simp_all add: accept_node_def bn_height_def accept_prev_def sample_index_def)

definition accept_with :: "AutoCheckpoints \<Rightarrow> ((bytes \<times> bytes) list, nat) accept_cfg" where
  "accept_with points = \<lparr> ac_chain = demo_chain_env, ac_fopen = (\<lambda>_. True), ac_DiskSpace = (\<lambda>_. True), ac_CheckpointsMode = STRICT,
     ac_mapAutocheck = points, ac_d2i_i2d = (\<lambda>_. None) \<rparr>"

definition accept_chain :: "((bytes \<times> bytes) list, nat) chain_state" where
  "accept_chain = failing_state\<lparr> ch_mapBlockIndex := [(7, accept_node)],
     ch_hashBestChain := 7, ch_nBestChainTrust := 5 \<rparr>"

definition accept_state0 :: "((bytes \<times> bytes) list, nat) core_state" where
  "accept_state0 = \<lparr> co_cp = (cp_demo 7)\<lparr> cs_chain := accept_chain \<rparr>, co_files = \<lparr> bf_files = [], nCurrentBlockFile = 1 \<rparr>, co_mapProofOfStake = [] \<rparr>"

lemma accept_facts:
  "co_map accept_state0 = [(7, accept_node)]" "hashSyncCheckpoint (co_cp accept_state0) = 7"
  "ac_diff (accept_with points) = main_net" "CBlockHeader_GetHash (ac_block (accept_with points)) b = 0" "\<not> IsProofOfStake accept_block"
  "\<not> fTestNet main_net"
  by (simp_all add: accept_state0_def accept_chain_def cp_demo_def accept_with_def demo_chain_env_def CBlockHeader_GetHash_def IsProofOfStake_def
      accept_block_def main_net_def)

lemma accept_tree: "chain_at [(7, accept_node)] (Some 7) = [accept_prev]"
  "tree_ok [(7, accept_node)]"
  by (simp_all add: chain_at_def map_find_Cons tree_ok_def map_ok_def node_ok_def accept_prev_def sample_index_def)

lemma accept_checks_pass: "accept_checks (accept_with points) accept_block accept_state0 = Some (True, 0)"
proof -
  have "push_int64 1 = [0x51]" by (simp add: push_int64_def)
  then have h: "height_in_coinbase 1 accept_block = Some True" by (simp add: height_in_coinbase_def accept_block_def accept_tx_def)
  have prev: "bh_hashPrevBlock accept_block = 7" "bh_nBits accept_block = GetNextTargetRequired main_net [accept_prev] False"
    "bh_GetBlockTime accept_block = 1533549700" "get_vtx accept_block = [accept_tx]" "get_nLockTime accept_tx = 0"
    by (simp_all add: accept_block_def demo_block_def accept_tx_def demo_coinbase_def bh_GetBlockTime_def)
  have t: "GetMedianTimePast [accept_prev] = Some 1533549600" "GetBlockTime accept_prev = 1533549600"
    by (simp_all add: GetMedianTimePast_def GetBlockTime_def accept_prev_def sample_index_def)
  have sync: "CheckSync main_net 0 7 (co_cp accept_state0) = Some True"
    using CheckSync_new [of "co_cp accept_state0" 7 accept_node 0 main_net] accept_tree
    by (simp add: accept_facts map_find_Cons accept_prev_def sample_index_def)
  have hard: "CheckHardened main_net 1 0" by (simp add: CheckHardened_def checkpoints_of_def main_net_def mapCheckpoints_def map_find_Cons)
  show ?thesis
    unfolding accept_checks_def Let_def accept_facts prev accept_tree
    by (simp add: map_find_Cons accept_tree t sync hard h IsFinal_def prev FutureDrift_def accept_facts)
qed

lemma accept_on_disk:
  "\<exists>bf. WriteToDisk (\<lambda>_. True) accept_block \<lparr> bf_files = [], nCurrentBlockFile = 1 \<rparr> = Some (Some (1, 8), bf)"
  "CBlock_size accept_block \<noteq> None"
proof -
  have a: "AppendBlockFile (\<lambda>_. True) \<lparr> bf_files = [], nCurrentBlockFile = 1 \<rparr> = (Some 1, \<lparr> bf_files = [(1, [])], nCurrentBlockFile = 1 \<rparr>)"
    by (simp add: AppendBlockFile.simps [of _ "\<lparr> bf_files = [], nCurrentBlockFile = 1 \<rparr>"] OpenBlockFile_ab_def max_file_def MAX_SIZE_def)
  have s: "\<exists>b. CBlock_Serialize accept_block = Some b"
    by (simp add: CBlock_Serialize_def serialize_vtx_iff CTransaction_Serialize_def accept_block_def accept_tx_def demo_coinbase_def)
  then show "CBlock_size accept_block \<noteq> None" by (auto simp: CBlock_size_def)
  from s a show "\<exists>bf. WriteToDisk (\<lambda>_. True) accept_block \<lparr> bf_files = [], nCurrentBlockFile = 1 \<rparr> = Some (Some (1, 8), bf)"
    by (auto simp: WriteToDisk_def CBlock_size_def map_find_Cons gpchMessageStart_def Serialize_word_def)
qed

lemma accept_env:
  fixes bf points
  defines "env \<equiv> chain_env_at (accept_with points) (accept_state0\<lparr> co_files := bf \<rparr>)"
  shows "CBlockHeader_GetHash (ce_block env) b = 0" "ce_diff env = main_net" "ce_ldb env = list_db" "ce_mapProofOfStake env = []"
    "be_fUseFastIndex (ce_block env) = False"
  by (simp_all add: env_def chain_env_at_def accept_with_def demo_chain_env_def CBlockHeader_GetHash_def with_files_def accept_state0_def demo_env_def
      spend_env_def)

lemma accept_write: "\<exists>db. WriteBlockIndex (ce_block (chain_env_at (accept_with points) (accept_state0\<lparr> co_files := bf \<rparr>))) x
    (spend_db\<lparr> activeBatch := Some [] \<rparr>) = Some (True, db) \<and> activeBatch db \<noteq> None \<and> \<not> fSecure db"
  using accept_env(3) [of points bf]
  by (simp add: WriteBlockIndex_def db_Write_def WriteNormal_def spend_db_def split_def Let_def)

lemma accept_trust: "\<exists>k. GetBlockTrust bn (pindex # [accept_prev]) = Some k \<and> k \<le> 1"
  by (simp add: GetBlockTrust_def Let_def accept_prev_def sample_index_def)

lemma accept_modifier: "ComputeNextStakeModifier Hash env m (pindex # [accept_prev]) = Some (0, False)"
  by (simp add: ComputeNextStakeModifier_def GetLastStakeModifier_def GeneratedStakeModifier_def accept_prev_def sample_index_def)

lemma accept_indexed:
  "\<exists>chain. AddToBlockIndex (chain_env_at (accept_with points) (accept_state0\<lparr> co_files := bf \<rparr>)) accept_block 1 8 accept_chain = Some (True, chain) \<and>
     map_find 0 (ch_mapBlockIndex chain) \<noteq> None \<and> chain_at (ch_mapBlockIndex chain) (Some 7) = [accept_prev] \<and> ch_hashBestChain chain = 7"
proof -
  have prev: "bh_hashPrevBlock accept_block = 7" by (simp add: accept_block_def demo_block_def)
  have find: "map_find (0 :: uint256) [(7, accept_node)] = None" "map_find (7 :: uint256) [(7, accept_node)] = Some accept_node" by (simp_all add: map_find_Cons)
  have st: "ch_mapBlockIndex accept_chain = [(7, accept_node)]" "ch_txdb accept_chain = spend_db\<lparr> activeBatch := None \<rparr>"
    "ch_hashBestChain accept_chain = 7" "ch_nBestChainTrust accept_chain = 5" by (simp_all add: accept_chain_def failing_state_def)
  let ?p = "(new_CBlockIndex 1 8 accept_block)\<lparr> bi_hashBlock := 0, bi_nHeight := 1 \<rparr>"
  have p: "bi_nHeight accept_prev + 1 = 1" "bi_nChainTrust accept_prev = 1"
    by (simp_all add: accept_prev_def sample_index_def)
  obtain k where k: "GetBlockTrust (de_bn main_net) (?p # [accept_prev]) = Some k" "k \<le> 1" using accept_trust by blast
  have e: "CBlock_GetStakeEntropyBit (ce_block (chain_env_at (accept_with points) (accept_state0\<lparr> co_files := bf \<rparr>))) accept_block = 0"
    by (simp add: CBlock_GetStakeEntropyBit_def accept_env)
  have ps: "\<not> bi_IsProofOfStake (?p\<lparr> bi_nChainTrust := t \<rparr>)" for t
    by (simp add: bi_IsProofOfStake_def new_CBlockIndex_def accept_facts)
  have cp: "CheckStakeModifierCheckpoints (fTestNet main_net) 1 c" for c
    by (simp add: CheckStakeModifierCheckpoints_def mapStakeModifierCheckpoints_def main_net_def)
  have le: "\<not> 5 < 1 + k" using k(2) by unat_arith
  have bt: "TxnBegin (spend_db\<lparr> activeBatch := None \<rparr>) = Some (True, spend_db\<lparr> activeBatch := Some [] \<rparr>)" by (simp add: TxnBegin_def spend_db_def)
  obtain w where w: "\<And>x. WriteBlockIndex (ce_block (chain_env_at (accept_with points) (accept_state0\<lparr> co_files := bf \<rparr>))) x
    (spend_db\<lparr> activeBatch := Some [] \<rparr>) = Some (True, w x) \<and> activeBatch (w x) \<noteq> None \<and> \<not> fSecure (w x)" using accept_write by metis
  have "\<exists>db. TxnCommit list_db (w x) = Some (True, db)" for x using w [of x] by (auto simp: TxnCommit_def list_db_def)
  then obtain z where z: "\<And>x. TxnCommit list_db (w x) = Some (True, z x)" by metis
  have tree: "chain_at [(0, n), (7, accept_node)] (Some 7) = [accept_prev]" "\<exists>y. map_find (0 :: uint256) [(0, n), (7, accept_node)] = Some y" for n
    by (simp_all add: chain_at_def map_find_Cons)
  show ?thesis 
    unfolding AddToBlockIndex_def Let_def accept_env prev st find
    by (simp add: accept_tree accept_modifier p k e SetStakeEntropyBit_def ps GetStakeModifierChecksum_def SetStakeModifier_def cp bt w z st tree le
        cong: if_cong option.case_cong)
qed

lemma check_no_points: "check_points [] best heights = Some True"
  by (induction heights) simp_all

lemma check_point_0: "check_points [(0, new_AutoCheckData)] [accept_prev] (0 # heights) = Some False"
  by (simp add: map_find_Cons new_AutoCheckData_def accept_prev_def sample_index_def)

text \<open>
  The block is accepted; with an automatic checkpoint that contradicts the best chain the verdict is false, and the block is in
  the index all the same.
\<close>

lemma accept_results:
  assumes "\<And>heights. check_points points [accept_prev] (0 # heights) = Some ok"
  shows "\<exists>st. AcceptBlock (accept_with points) accept_block accept_state0 = Some ((ok, 0), st) \<and> map_find 0 (co_map st) \<noteq> None"
proof -
  obtain size where size: "CBlock_size accept_block = Some size" using accept_on_disk(2) by blast
  obtain bf where bf: "WriteToDisk (\<lambda>_. True) accept_block \<lparr> bf_files = [], nCurrentBlockFile = 1 \<rparr> = Some (Some (1, 8), bf)"
    using accept_on_disk(1) by blast
  have c: "ac_fopen (accept_with points) = (\<lambda>_. True)" "ac_DiskSpace (accept_with points) = (\<lambda>_. True)" "ac_mapAutocheck (accept_with points) = points"
    "co_files accept_state0 = \<lparr> bf_files = [], nCurrentBlockFile = 1 \<rparr>" "cs_chain (co_cp accept_state0) = accept_chain"
    "hashPendingCheckpoint (co_cp accept_state0) = 0"
    by (simp_all add: accept_with_def accept_state0_def cp_demo_def)
  from accept_indexed [of points bf] obtain chain where chain:
    "AddToBlockIndex (chain_env_at (accept_with points) (accept_state0\<lparr> co_files := bf \<rparr>)) accept_block 1 8 accept_chain = Some (True, chain)"
    "map_find 0 (ch_mapBlockIndex chain) \<noteq> None" "chain_at (ch_mapBlockIndex chain) (Some 7) = [accept_prev]" "ch_hashBestChain chain = 7" by blast
  have pend: "AcceptPendingSyncCheckpoint env (cp\<lparr> cs_chain := ch \<rparr>) = Some (False, cp\<lparr> cs_chain := ch \<rparr>)" if "hashPendingCheckpoint cp = 0"
    for env :: "((bytes \<times> bytes) list, nat) chain_env" and cp ch using that by (simp add: AcceptPendingSyncCheckpoint_def)
  have "map (\<lambda>i. sint (bi_nHeight (hd [accept_prev])) - int i) [0..<nCheckBlocks] = 0 # map (\<lambda>i. - int i) [1..<nCheckBlocks]"
    unfolding nCheckBlocks_def by (subst upt_conv_Cons) (simp_all add: accept_prev_def sample_index_def)
  moreover have "ch_mapBlockIndex chain \<noteq> []" using chain(2) by auto
  ultimately have "auto_Check points (ch_mapBlockIndex chain) 7 = Some ok"
    by (simp only: auto_Check_def Let_def chain(3) assms list.distinct if_False simp_thms)
  then show ?thesis
    unfolding AcceptBlock_def accept_checks_pass using chain by (simp add: size c bf pend)
qed

theorem AcceptBlock_rules_witness:
  "\<exists>st. AcceptBlock (accept_with []) accept_block accept_state0 = Some ((True, 0), st) \<and> fits_in_chain (accept_with []) accept_block accept_state0"
proof -
  obtain st where a: "AcceptBlock (accept_with []) accept_block accept_state0 = Some ((True, 0), st)"
    using accept_results [OF check_no_points] by blast
  have "tree_ok (co_map accept_state0)" using accept_tree(2) by (simp add: accept_facts)
  from AcceptBlock_rules [OF a this] a show ?thesis by auto
qed

lemma wf_accept_block: "wf_block accept_block"
  by (simp add: wf_block_def accept_block_def accept_tx_def demo_block_def demo_coinbase_def wf_tx_def wf_txin_def wf_txout_def MAX_SIZE_def)

theorem AcceptBlock_autocheck_late_witness:
  "\<exists>st node. AcceptBlock (accept_with []) accept_block accept_state0 = Some ((True, 0), st) \<and>
     AcceptBlock (accept_with [(0, new_AutoCheckData)]) accept_block accept_state0 = Some ((False, 0), st) \<and> map_find 0 (co_map st) = Some node \<and>
     read_block (co_files st) (bi_nFile (bn_index node)) (bi_nBlockPos (bn_index node)) = Some accept_block"
proof -
  obtain st where a: "AcceptBlock (accept_with []) accept_block accept_state0 = Some ((True, 0), st)"
    using accept_results [OF check_no_points] by blast
  obtain st2 where b: "AcceptBlock ((accept_with [])\<lparr> ac_mapAutocheck := [(0, new_AutoCheckData)] \<rparr>) accept_block accept_state0 = Some ((False, 0), st2)"
    using accept_results [OF check_point_0] by (auto simp: accept_with_def)
  have points: "(accept_with [])\<lparr> ac_mapAutocheck := [(0, new_AutoCheckData)] \<rparr> = accept_with [(0, new_AutoCheckData)]" by (simp add: accept_with_def)
  have "map_ok (co_map accept_state0)" "map_ok (bf_files (co_files accept_state0))"
    by (simp_all add: accept_facts map_ok_Cons) (simp add: accept_state0_def)
  from AcceptBlock_autocheck_late [OF a b this wf_accept_block] a b show ?thesis by (auto simp: points accept_facts)
qed

section \<open>A pool with an orphan\<close>

text \<open>The orphan waits for the genesis block; it is accepted when the queue comes to that block.\<close>

definition demo_pool :: orphan_pool where
  "demo_pool = \<lparr> mapOrphanBlocks = [(0, accept_block)], mapOrphanBlocksByPrev = [(7, accept_block)], setStakeSeenOrphan = {} \<rparr>"

lemma demo_pool_ok: "pool_ok (ac_block (accept_with [])) demo_pool"
proof -
  have "bh_hashPrevBlock accept_block = 7" by (simp add: accept_block_def demo_block_def)
  then show ?thesis by (auto simp: pool_ok_def demo_pool_def accept_facts map_ok_def map_find_Cons)
qed

theorem process_queue_adopts_witness:
  "\<exists>pool' st'. process_queue (accept_with []) [7] demo_pool accept_state0 = Some (pool', st') \<and>
     \<not> orphan (ac_block (accept_with [])) pool' accept_block \<and> pool_ok (ac_block (accept_with [])) pool' \<and>
     (\<exists>ok. accept_run (accept_with []) [(accept_block, ok)] accept_state0 st')"
proof -
  have prev: "bh_hashPrevBlock accept_block = 7" by (simp add: accept_block_def demo_block_def)
  obtain st where a: "AcceptBlock (accept_with []) accept_block accept_state0 = Some ((True, 0), st)"
    using accept_results [OF check_no_points] by blast
  have "children demo_pool 7 = [accept_block]" by (simp add: children_def demo_pool_def)
  moreover have "children (forget_children (ac_block (accept_with [])) demo_pool 7) 0 = []"
    by (simp add: children_forget) (simp add: children_def demo_pool_def)
  ultimately obtain pool' st' where q: "process_queue (accept_with []) [7] demo_pool accept_state0 = Some (pool', st')"
    using a by (simp add: accept_facts)
  from process_queue_adopts [OF q demo_pool_ok] obtain run where p: "pool_ok (ac_block (accept_with [])) pool'" "children pool' 7 = []"
    and r: "accept_run (accept_with []) run accept_state0 st'" "distinct (map fst run)"
      "set (map fst run) = {b. orphan (ac_block (accept_with [])) demo_pool b \<and> \<not> orphan (ac_block (accept_with [])) pool' b}" by auto
  then have gone: "\<not> orphan (ac_block (accept_with [])) pool' accept_block"
    using children_orphan [OF p(1), of accept_block 7] prev by simp
  have "orphan (ac_block (accept_with [])) demo_pool b \<longleftrightarrow> b = accept_block" for b
    by (auto simp: orphan_def demo_pool_def accept_facts map_find_Cons)
  then have "set (map fst run) = {accept_block}" unfolding r(3) using gone by auto
  then obtain ok where "run = [(accept_block, ok)]"
    using r(2) by (cases run; cases "tl run") auto
  with q p(1) gone r(1) show ?thesis by blast
qed

text \<open>A node without blocks takes a block as an orphan.\<close>

definition no_blocks :: "((bytes \<times> bytes) list, nat) core_state" where
  "no_blocks = accept_state0\<lparr> co_cp := (cp_demo 7)\<lparr> cs_chain := accept_chain\<lparr> ch_mapBlockIndex := [] \<rparr> \<rparr> \<rparr>"

definition no_orphans :: orphan_pool where
  "no_orphans = \<lparr> mapOrphanBlocks = [], mapOrphanBlocksByPrev = [], setStakeSeenOrphan = {} \<rparr>"

theorem ProcessBlock_pool_ok_witness:
  "\<exists>pool'. ProcessBlock (accept_with []) False demo_block no_orphans no_blocks = Some ((True, 0, 0), pool', no_blocks) \<and>
     mapOrphanBlocks pool' = [(0, demo_block)] \<and> pool_ok (ac_block (accept_with [])) pool'"
proof -
  have env: "ce_block (chain_env_at (accept_with []) no_blocks) = demo_env\<lparr> be_node := with_files (co_files no_blocks) (be_node demo_env) \<rparr>"
    by (simp add: chain_env_at_def accept_with_def demo_chain_env_def)
  have "valid_block (ce_block (chain_env_at (accept_with []) no_blocks)) demo_block True True False"
    using demo_valid demo_kinds(4) unfolding env by (simp add: valid_block_def valid_work_def CBlockHeader_GetHash_def with_files_def)
  then have valid: "CheckBlock (ce_block (chain_env_at (accept_with []) no_blocks)) demo_block True True False = Some (True, 0)"
    by (simp add: CheckBlock_True)
  have pow: "\<not> IsProofOfStake demo_block" "IsCanonicalBlockSignature demo_block = Some True" "bh_hashPrevBlock demo_block = 7"
    "\<not> GetLastCheckpointTime main_net < uint (bh_nTime demo_block)" "CheckBanned main_net 0"
    using demo_kinds(4) by (simp_all add: IsCanonicalBlockSignature_def demo_block_def GetLastCheckpointTime_def CheckBanned_def main_net_def listBanned_def)
  have st: "co_map no_blocks = []" "GetLastSyncCheckpoint (co_cp no_blocks) = None"
    by (simp_all add: no_blocks_def GetLastSyncCheckpoint_def)
  define pool' where "pool' = add_orphan (ac_block (accept_with [])) demo_block no_orphans"
  have keep: "keep_orphan (accept_with []) False demo_block no_orphans no_blocks = Some (True, pool')"
    by (simp add: keep_orphan_def pow pool'_def)
  have p: "ProcessBlock (accept_with []) False demo_block no_orphans no_blocks = Some ((True, 0, 0), pool', no_blocks)"
    unfolding ProcessBlock_def Let_def accept_facts st pow
    by (simp add: no_orphans_def [THEN arg_cong [of _ _ mapOrphanBlocks]] pow valid check_stake_of_def st keep)
  have "pool_ok (ac_block (accept_with [])) no_orphans" by (simp add: pool_ok_def no_orphans_def)
  from ProcessBlock_pool_ok [OF p this] p show ?thesis
    by (simp add: pool'_def add_orphan_def no_orphans_def map_insert_def accept_facts)
qed

end
