(* ===== verification/Check_Queue.thy ===== *)
theory Check_Queue
  imports Prelude
begin

text \<open>
  The queue of script checks (\<^verbatim>\<open>src/src/checkqueue.h\<close>): worker threads and one master take batches of checks
  from a stack under a mutex and run them outside of it. A section under the mutex is one step; a
  thread that waits on a condition variable can be woken by a notification or spuriously. The
  verdict of a check is a function of the check, since it does not depend on the signature cache.
\<close>

section \<open>The queue\<close>

record 'c CCheckQueue =
  cq_queue :: "'c list"
  nIdle :: int
  nTotal :: int
  fAllOk :: bool
  nTodo :: nat
  fQuit :: bool
  nBatchSize :: nat

text \<open>
  Where a thread is in \<^verbatim>\<open>Loop\<close>: outside, waiting (and notified or not), at work on what is left of a batch
  of a given size with the local \<^verbatim>\<open>fOk\<close>, returned with a result, or returned because of a shutdown.
\<close>

datatype 'c pc = Out | Waiting bool | Working "'c list" nat bool | Returned bool | Aborted nat

definition new_CCheckQueue :: "nat \<Rightarrow> 'c CCheckQueue" where
  "new_CCheckQueue nBatchSizeIn =
     \<lparr> cq_queue = [], nIdle = 0, nTotal = 0, fAllOk = True, nTodo = 0, fQuit = False, nBatchSize = nBatchSizeIn \<rparr>"

text \<open>The part of \<^verbatim>\<open>Loop\<close> from the test of the queue to the end of the critical section. The back of the vector is the head.\<close>

definition batch_size :: "'c CCheckQueue \<Rightarrow> nat" where
  "batch_size q = max 1 (min (nBatchSize q) (nat (int (length (cq_queue q)) div (nTotal q + nIdle q + 1))))"

definition acquire :: "bool \<Rightarrow> 'c CCheckQueue \<Rightarrow> 'c pc \<times> 'c CCheckQueue" where
  "acquire fMaster q =
     (if cq_queue q = []
      then if (fMaster \<or> fQuit q) \<and> nTodo q = 0
        then let q = q\<lparr> nTotal := nTotal q - 1 \<rparr>; fRet = fAllOk q in
          (Returned fRet, if fMaster then q\<lparr> fAllOk := True \<rparr> else q)
        else (Waiting False, q\<lparr> nIdle := nIdle q + 1 \<rparr>)
      else let nNow = batch_size q in
        (Working (take nNow (cq_queue q)) nNow (fAllOk q), q\<lparr> cq_queue := drop nNow (cq_queue q) \<rparr>))"

definition enter :: "bool \<Rightarrow> 'c CCheckQueue \<Rightarrow> 'c pc \<times> 'c CCheckQueue" where
  "enter fMaster q = acquire fMaster (q\<lparr> nTotal := nTotal q + 1 \<rparr>)"

definition wake :: "bool \<Rightarrow> 'c CCheckQueue \<Rightarrow> 'c pc \<times> 'c CCheckQueue" where
  "wake fMaster q = acquire fMaster (q\<lparr> nIdle := nIdle q - 1 \<rparr>)"

text \<open>The clean-up after a batch; it notifies the master when a worker has finished the last check.\<close>

definition clean_up :: "nat \<Rightarrow> bool \<Rightarrow> 'c CCheckQueue \<Rightarrow> 'c CCheckQueue" where
  "clean_up nNow fOk q = q\<lparr> fAllOk := fAllOk q \<and> fOk, nTodo := nTodo q - nNow \<rparr>"

definition finish :: "bool \<Rightarrow> nat \<Rightarrow> bool \<Rightarrow> 'c CCheckQueue \<Rightarrow> 'c pc \<times> 'c CCheckQueue" where
  "finish fMaster nNow fOk q = acquire fMaster (clean_up nNow fOk q)"

definition notifies_master :: "bool \<Rightarrow> nat \<Rightarrow> 'c CCheckQueue \<Rightarrow> bool" where
  "notifies_master fMaster nNow q \<longleftrightarrow> nTodo q - nNow = 0 \<and> \<not> fMaster"

definition cq_Add :: "'c list \<Rightarrow> 'c CCheckQueue \<Rightarrow> 'c CCheckQueue" where
  "cq_Add vChecks q = q\<lparr> cq_queue := rev vChecks @ cq_queue q, nTodo := nTodo q + length vChecks \<rparr>"

definition cq_Quit :: "'c CCheckQueue \<Rightarrow> 'c CCheckQueue" where
  "cq_Quit q = q\<lparr> fQuit := True \<rparr>"

definition IsIdle :: "'c CCheckQueue \<Rightarrow> bool" where
  "IsIdle q \<longleftrightarrow> nTotal q = nIdle q \<and> nTodo q = 0 \<and> fAllOk q"

section \<open>Threads\<close>

text \<open>The queue, the threads (the first one is the master), the flag \<^verbatim>\<open>fShutdown\<close>, and what was added since the last result.\<close>

record 'c threads =
  shared :: "'c CCheckQueue"
  pcs :: "'c pc list"
  fShutdown :: bool
  added :: "'c list"

definition set_thread :: "nat \<Rightarrow> 'c pc \<times> 'c CCheckQueue \<Rightarrow> 'c threads \<Rightarrow> 'c threads" where
  "set_thread t r s = s\<lparr> pcs := (pcs s)[t := fst r], shared := snd r \<rparr>"

fun notified :: "'c pc \<Rightarrow> 'c pc" where
  "notified (Waiting _) = Waiting True"
| "notified pc = pc"

definition notify_master :: "bool \<Rightarrow> 'c threads \<Rightarrow> 'c threads" where
  "notify_master b s = (if b then s\<lparr> pcs := (pcs s)[0 := notified (pcs s ! 0)] \<rparr> else s)"

text \<open>
  What the call of \<^verbatim>\<open>Wait\<close> has returned: the status, or at a shutdown the \<^verbatim>\<open>false\<close> after the loop; \<open>None\<close> while it runs.
\<close>

fun wait_result :: "'c pc \<Rightarrow> bool option" where
  "wait_result (Returned b) = Some b"
| "wait_result (Aborted n) = Some False"
| "wait_result pc = None"

text \<open>The steps of threads inside of \<^verbatim>\<open>Loop\<close>.\<close>

inductive work_step :: "('c \<Rightarrow> bool) \<Rightarrow> 'c threads \<Rightarrow> 'c threads \<Rightarrow> bool" for ok :: "'c \<Rightarrow> bool" where
  run: "t < length (pcs s) \<Longrightarrow> pcs s ! t = Working (c # cs) nNow fOk \<Longrightarrow>
    work_step ok s (s\<lparr> pcs := (pcs s)[t := Working cs nNow (if fOk then ok c else False)] \<rparr>)"
| finish: "t < length (pcs s) \<Longrightarrow> pcs s ! t = Working [] nNow fOk \<Longrightarrow> \<not> fShutdown s \<Longrightarrow>
    work_step ok s (set_thread t (finish (t = 0) nNow fOk (shared s)) (notify_master (notifies_master (t = 0) nNow (shared s)) s))"
| abort: "t < length (pcs s) \<Longrightarrow> pcs s ! t = Working [] nNow fOk \<Longrightarrow> fShutdown s \<Longrightarrow>
    work_step ok s (s\<lparr> pcs := (pcs s)[t := Aborted nNow] \<rparr>)"
| wake: "t < length (pcs s) \<Longrightarrow> pcs s ! t = Waiting True \<Longrightarrow> work_step ok s (set_thread t (wake (t = 0) (shared s)) s)"

text \<open>The calls from outside, and spurious wake-ups. The master adds checks before it waits, never during it.\<close>

inductive call_step :: "'c threads \<Rightarrow> 'c threads \<Rightarrow> bool" where
  add: "pcs s ! 0 = Out \<Longrightarrow> woken \<subseteq> {0<..} \<Longrightarrow>
    call_step s (s\<lparr> shared := cq_Add vChecks (shared s), added := vChecks @ added s,
      pcs := map (\<lambda>t. if t \<in> woken then notified (pcs s ! t) else pcs s ! t) [0..<length (pcs s)] \<rparr>)"
| start: "t < length (pcs s) \<Longrightarrow> pcs s ! t = Out \<Longrightarrow> call_step s (set_thread t (enter (t = 0) (shared s)) s)"
| spurious: "t < length (pcs s) \<Longrightarrow> pcs s ! t = Waiting False \<Longrightarrow> call_step s (set_thread t (wake (t = 0) (shared s)) s)"
| result: "pcs s ! 0 = Returned b \<Longrightarrow> call_step s (s\<lparr> pcs := (pcs s)[0 := Out], added := [] \<rparr>)"
| quit: "woken \<subseteq> {0<..} \<Longrightarrow> call_step s (s\<lparr> shared := cq_Quit (shared s),
      pcs := map (\<lambda>t. if t \<in> woken then notified (pcs s ! t) else pcs s ! t) [0..<length (pcs s)] \<rparr>)"
| shutdown: "call_step s (s\<lparr> fShutdown := True \<rparr>)"

inductive cq_reaches :: "('c \<Rightarrow> bool) \<Rightarrow> 'c threads \<Rightarrow> bool" for ok :: "'c \<Rightarrow> bool" where
  new: "n > 0 \<Longrightarrow> cq_reaches ok \<lparr> shared = new_CCheckQueue nBatch, pcs = replicate n Out, fShutdown = False, added = [] \<rparr>"
| work: "cq_reaches ok s \<Longrightarrow> work_step ok s s' \<Longrightarrow> cq_reaches ok s'"
| call: "cq_reaches ok s \<Longrightarrow> call_step s s' \<Longrightarrow> cq_reaches ok s'"

section \<open>The invariant\<close>

fun pending :: "'c pc \<Rightarrow> nat" where
  "pending (Working cs n f) = n" | "pending (Aborted n) = n" | "pending pc = 0"

fun left :: "'c pc \<Rightarrow> 'c list" where
  "left (Working cs n f) = cs" | "left pc = []"

fun failed :: "'c pc \<Rightarrow> bool" where
  "failed (Working cs n f) = (\<not> f)" | "failed pc = False"

fun in_loop :: "'c pc \<Rightarrow> int" where
  "in_loop Out = 0" | "in_loop (Returned b) = 0" | "in_loop pc = 1"

fun idle :: "'c pc \<Rightarrow> int" where
  "idle (Waiting b) = 1" | "idle pc = 0"

fun pc_ok :: "'c pc \<Rightarrow> bool" where
  "pc_ok (Working cs n f) = (length cs \<le> n \<and> (f \<or> n > 0))" | "pc_ok pc = True"

text \<open>What is counted: the checks that are not done, the threads in the loop, and those that wait.\<close>

definition counts_ok :: "'c CCheckQueue \<Rightarrow> 'c pc list \<Rightarrow> bool" where
  "counts_ok q ts \<longleftrightarrow> nTodo q = length (cq_queue q) + sum_list (map pending ts) \<and> nTotal q = sum_list (map in_loop ts) \<and>
     nIdle q = sum_list (map idle ts) \<and> list_all pc_ok ts \<and> ts \<noteq> []"

text \<open>
  The verdict so far: a failure is recorded only if there is one, and what is neither waiting nor at
  work is done and valid, unless a failure is recorded or the process shuts down.
\<close>

definition verdict_ok :: "('c \<Rightarrow> bool) \<Rightarrow> 'c CCheckQueue \<Rightarrow> 'c pc list \<Rightarrow> 'c list \<Rightarrow> bool" where
  "verdict_ok ok q ts cs \<longleftrightarrow>
     (\<not> fAllOk q \<or> list_ex failed ts \<longrightarrow> (\<exists>c \<in> set cs. \<not> ok c)) \<and>
     (fAllOk q \<and> \<not> list_ex failed ts \<and> (\<forall>n. Aborted n \<in> set ts \<longrightarrow> n = 0) \<longrightarrow>
        (\<forall>c \<in> set cs. ok c \<or> c \<in> set (cq_queue q) \<or> (\<exists>pc \<in> set ts. c \<in> set (left pc))))"

definition master_ok :: "('c \<Rightarrow> bool) \<Rightarrow> 'c CCheckQueue \<Rightarrow> 'c pc list \<Rightarrow> 'c list \<Rightarrow> bool" where
  "master_ok ok q ts cs \<longleftrightarrow>
     (case ts ! 0 of
        Returned b \<Rightarrow> b = (\<forall>c \<in> set cs. ok c) \<and> cq_queue q = [] \<and> nTodo q = 0 \<and> fAllOk q
      | pc \<Rightarrow> verdict_ok ok q ts cs \<and> (pc = Waiting False \<longrightarrow> cq_queue q = [] \<and> nTodo q > 0))"

definition cq_ok :: "('c \<Rightarrow> bool) \<Rightarrow> 'c CCheckQueue \<Rightarrow> 'c pc list \<Rightarrow> 'c list \<Rightarrow> bool" where
  "cq_ok ok q ts cs \<longleftrightarrow> counts_ok q ts \<and> master_ok ok q ts cs \<and>
     set (cq_queue q) \<subseteq> set cs \<and> (\<forall>pc \<in> set ts. set (left pc) \<subseteq> set cs)"

text \<open>A thread inside of the critical section.\<close>

abbreviation (input) inside :: "'c pc" where "inside \<equiv> Working [] 0 True"

lemma sum_list_map_update:
  fixes f :: "'a \<Rightarrow> 'b :: ab_group_add"
  assumes "t < length xs"
  shows "sum_list (map f (xs[t := x])) = sum_list (map f xs) - f (xs ! t) + f x"
  using assms by (induction xs arbitrary: t) (auto simp: algebra_simps split: nat.split)

lemma sum_list_map_update_nat:
  fixes f :: "'a \<Rightarrow> nat"
  assumes "t < length xs"
  shows "sum_list (map f (xs[t := x])) + f (xs ! t) = sum_list (map f xs) + f x"
  using assms by (induction xs arbitrary: t) (auto split: nat.split)

lemma batch_size_bounds:
  assumes "cq_queue q \<noteq> []"
  shows "0 < batch_size q" "batch_size q \<le> length (cq_queue q)"
proof -
  have "int (length (cq_queue q)) div (nTotal q + nIdle q + 1) \<le> int (length (cq_queue q))"
    using assms by (intro int_div_le_self) auto
  with assms show "batch_size q \<le> length (cq_queue q)" "0 < batch_size q"
    by (cases "cq_queue q") (auto simp: batch_size_def)
qed

lemma nothing_pending:
  assumes "counts_ok q ts" "nTodo q = 0"
  shows "cq_queue q = []" "pc \<in> set ts \<Longrightarrow> pending pc = 0 \<and> left pc = [] \<and> \<not> failed pc"
proof -
  have s: "sum_list (map pending ts) = 0" "cq_queue q = []" using assms by (auto simp: counts_ok_def)
  then show "cq_queue q = []" by simp
  assume m: "pc \<in> set ts"
  with s(1) have "pending pc = 0" by auto
  moreover have "pc_ok pc" using assms(1) m by (auto simp: counts_ok_def list_all_iff)
  ultimately show "pending pc = 0 \<and> left pc = [] \<and> \<not> failed pc" by (cases pc) auto
qed

text \<open>What holds of some thread, with one thread apart.\<close>

definition other :: "nat \<Rightarrow> 'c pc list \<Rightarrow> ('c pc \<Rightarrow> bool) \<Rightarrow> bool" where
  "other t ts P \<longleftrightarrow> (\<exists>i < length ts. i \<noteq> t \<and> P (ts ! i))"

lemma ex_thread: "t < length ts \<Longrightarrow> (\<exists>pc \<in> set ts. P pc) \<longleftrightarrow> P (ts ! t) \<or> other t ts P"
  unfolding other_def Bex_def in_set_conv_nth by blast

lemma other_update [simp]: "other t (ts[t := pc]) P \<longleftrightarrow> other t ts P"
  by (auto simp: other_def)

lemma ex_thread_update: "t < length ts \<Longrightarrow> (\<exists>pc' \<in> set (ts[t := pc]). P pc') \<longleftrightarrow> P pc \<or> other t ts P"
  by (subst ex_thread [of t]) auto

definition aborted :: "'c pc \<Rightarrow> bool" where
  "aborted pc \<longleftrightarrow> (\<exists>n > 0. pc = Aborted n)"

lemma verdict_ok_ex:
  "verdict_ok ok q ts cs \<longleftrightarrow>
     (\<not> fAllOk q \<or> (\<exists>pc \<in> set ts. failed pc) \<longrightarrow> (\<exists>c \<in> set cs. \<not> ok c)) \<and>
     (fAllOk q \<and> \<not> (\<exists>pc \<in> set ts. failed pc) \<and> \<not> (\<exists>pc \<in> set ts. aborted pc) \<longrightarrow>
        (\<forall>c \<in> set cs. ok c \<or> c \<in> set (cq_queue q) \<or> (\<exists>pc \<in> set ts. c \<in> set (left pc))))"
  by (auto simp: verdict_ok_def list_ex_iff aborted_def)

lemma left_subset: "(\<forall>pc \<in> set ts. set (left pc) \<subseteq> S) \<longleftrightarrow> \<not> (\<exists>pc \<in> set ts. \<not> set (left pc) \<subseteq> S)"
  by auto

lemma list_all_ex: "list_all P ts \<longleftrightarrow> \<not> (\<exists>x \<in> set ts. \<not> P x)"
  by (auto simp: list_all_iff)

lemmas thread_simps = verdict_ok_ex ex_thread_update left_subset list_all_ex aborted_def

lemma acquire_counts:
  assumes "counts_ok q ts" "t < length ts" "ts ! t = inside" "acquire m q = (pc, q')"
  shows "counts_ok q' (ts[t := pc])"
proof -
  have u: "sum_list (map pending (ts[t := pc])) = sum_list (map pending ts) + pending pc"
      "sum_list (map in_loop (ts[t := pc])) = sum_list (map in_loop ts) - 1 + in_loop pc"
      "sum_list (map idle (ts[t := pc])) = sum_list (map idle ts) + idle pc"
    using sum_list_map_update_nat [OF assms(2), of pending pc] sum_list_map_update [OF assms(2), of in_loop pc]
      sum_list_map_update [OF assms(2), of idle pc] assms(3) by simp_all
  have "list_all pc_ok (ts[t := pc])" if "pc_ok pc"
    using assms(1,2) that by (auto simp: counts_ok_def list_all_iff dest!: set_update_subset_insert [THEN subsetD])
  then show ?thesis
    using assms(1,4) batch_size_bounds [of q]
    by (auto simp: counts_ok_def acquire_def Let_def u split: if_splits)
qed

lemma acquireE:
  assumes "acquire m q = (pc, q')"
  obtains (ret) "cq_queue q = []" "nTodo q = 0" "pc = Returned (fAllOk q)"
      "q' = q\<lparr> nTotal := nTotal q - 1, fAllOk := m \<or> fAllOk q \<rparr>"
    | (wait) "cq_queue q = []" "\<not> (m \<and> nTodo q = 0)" "pc = Waiting False" "q' = q\<lparr> nIdle := nIdle q + 1 \<rparr>"
    | (take) n where "cq_queue q \<noteq> []" "n = batch_size q" "pc = Working (take n (cq_queue q)) n (fAllOk q)"
      "q' = q\<lparr> cq_queue := drop n (cq_queue q) \<rparr>"
  using assms by (auto simp: acquire_def Let_def split: if_splits)

lemma acquire_verdict:
  assumes "verdict_ok ok q ts cs" "t < length ts" "ts ! t = inside" "acquire m q = (pc, q')" "\<And>b. pc \<noteq> Returned b \<or> \<not> m"
  shows "verdict_ok ok q' (ts[t := pc]) cs"
  using assms(4)
proof (cases rule: acquireE)
  case ret
  with assms(1,2,3,5) show ?thesis by (auto simp: thread_simps ex_thread [OF assms(2)])
next
  case wait
  with assms(1,2,3) show ?thesis by (auto simp: thread_simps ex_thread [OF assms(2)])
next
  case (take n)
  have "c \<in> set (cq_queue q) \<longleftrightarrow> c \<in> set (take n (cq_queue q)) \<or> c \<in> set (drop n (cq_queue q))" for c
    using set_append [of "take n (cq_queue q)" "drop n (cq_queue q)"] by auto
  with take assms(1,2,3) show ?thesis by (auto simp: thread_simps ex_thread [OF assms(2)])
qed

lemma acquire_ok:
  assumes "cq_ok ok q ts cs" "t < length ts" "ts ! t = inside" "acquire (t = 0) q = (pc, q')"
  shows "cq_ok ok q' (ts[t := pc]) cs"
proof -
  have c: "counts_ok q ts" "counts_ok q' (ts[t := pc])"
    using assms acquire_counts by (auto simp: cq_ok_def)
  have sub: "set (cq_queue q) \<subseteq> set cs" "\<not> other t ts (\<lambda>pc. \<not> set (left pc) \<subseteq> set cs)"
    using assms(1,2) by (auto simp: cq_ok_def left_subset ex_thread [OF assms(2)])
  have "x \<in> set (take n (cq_queue q)) \<Longrightarrow> x \<in> set cs" "x \<in> set (drop n (cq_queue q)) \<Longrightarrow> x \<in> set cs" for n x
    using sub(1) by (auto dest: in_set_takeD in_set_dropD)
  then have sub': "set (cq_queue q') \<subseteq> set cs" "\<forall>pc \<in> set (ts[t := pc]). set (left pc) \<subseteq> set cs"
    using assms(4) sub by (auto simp: left_subset ex_thread_update [OF assms(2)] acquire_def Let_def split: if_splits)
  have "master_ok ok q' (ts[t := pc]) cs"
  proof (cases "t = 0")
    case True
    have v: "verdict_ok ok q ts cs" using assms(1,3) True by (simp add: cq_ok_def master_ok_def)
    show ?thesis
      using assms(4)
    proof (cases rule: acquireE)
      case ret
      have "\<not> failed pc \<and> \<not> aborted pc \<and> left pc = []" if "pc \<in> set ts" for pc
        using nothing_pending(2) [OF c(1) ret(2) that] by (cases pc) (auto simp: aborted_def)
      then have "fAllOk q = (\<forall>c \<in> set cs. ok c)" using v ret(1) by (auto simp: verdict_ok_ex)
      with ret True assms(2) show ?thesis by (simp add: master_ok_def)
    next
      case wait
      with acquire_verdict [OF v assms(2-4)] True assms(2) show ?thesis by (simp add: master_ok_def)
    next
      case (take n)
      with acquire_verdict [OF v assms(2-4)] True assms(2) show ?thesis by (simp add: master_ok_def)
    qed
  next
    case False
    then have m: "ts[t := pc] ! 0 = ts ! 0" by simp
    show ?thesis
    proof (cases "\<exists>b. ts ! 0 = Returned b")
      case True
      then have "cq_queue q = []" using assms(1) by (auto simp: cq_ok_def master_ok_def)
      with True False assms(1,4) show ?thesis
        by (auto simp: cq_ok_def master_ok_def m acquire_def Let_def split: if_splits)
    next
      case no: False
      then have v: "verdict_ok ok q ts cs" "ts ! 0 = Waiting False \<Longrightarrow> cq_queue q = [] \<and> 0 < nTodo q"
        using assms(1) by (auto simp: cq_ok_def master_ok_def split: pc.splits)
      have "verdict_ok ok q' (ts[t := pc]) cs" using acquire_verdict [OF v(1) assms(2-4)] False by simp
      moreover have "ts ! 0 = Waiting False \<Longrightarrow> cq_queue q' = [] \<and> 0 < nTodo q'"
        using v(2) assms(4) by (auto simp: acquire_def Let_def split: if_splits)
      ultimately show ?thesis using no by (simp add: master_ok_def m split: pc.split)
    qed
  qed
  with c(2) sub' show ?thesis by (simp add: cq_ok_def)
qed

section \<open>The steps keep the invariant\<close>

lemma notified_simps [simp]:
  "pending (notified pc) = pending pc" "left (notified pc) = left pc" "failed (notified pc) = failed pc"
  "in_loop (notified pc) = in_loop pc" "idle (notified pc) = idle pc" "pc_ok (notified pc) = pc_ok pc"
  "aborted (notified pc) = aborted pc" "notified pc = Returned b \<longleftrightarrow> pc = Returned b" "notified pc = Aborted n \<longleftrightarrow> pc = Aborted n" "notified pc \<noteq> Waiting False"
  by (cases pc; simp add: aborted_def)+

text \<open>A change of threads that the invariant does not see.\<close>

definition same_thread :: "'c pc \<Rightarrow> 'c pc \<Rightarrow> bool" where
  "same_thread pc pc' \<longleftrightarrow> pc' = pc \<or> pc' = notified pc"

lemma same_threads_ok:
  assumes "cq_ok ok q ts cs" "list_all2 same_thread ts ts'"
  shows "cq_ok ok q ts' cs"
proof -
  have m: "map f ts' = map f ts" if "\<And>pc. f (notified pc) = f pc" for f :: "'a pc \<Rightarrow> 'b"
    using assms(2) that by (auto simp: list_all2_conv_all_nth same_thread_def intro!: nth_equalityI)
  have b: "(\<exists>pc \<in> set ts'. P pc) \<longleftrightarrow> (\<exists>pc \<in> set ts. P pc)" if "\<And>pc. P (notified pc) = P pc" for P :: "'a pc \<Rightarrow> bool"
  proof -
    have "(\<exists>pc \<in> set ts. P pc) \<longleftrightarrow> True \<in> set (map P ts)" for ts by auto
    then show ?thesis by (simp only: m [of P, OF that])
  qed
  have "verdict_ok ok q ts' cs \<longleftrightarrow> verdict_ok ok q ts cs" by (simp add: verdict_ok_ex b)
  moreover have "ts' ! 0 = ts ! 0 \<or> ts' ! 0 = notified (ts ! 0)"
    using assms by (auto simp: cq_ok_def counts_ok_def list_all2_conv_all_nth same_thread_def)
  ultimately have "master_ok ok q ts' cs"
    using assms(1) by (cases "ts ! 0") (auto simp: cq_ok_def master_ok_def)
  moreover have "ts' \<noteq> []" using assms by (auto simp: cq_ok_def counts_ok_def)
  ultimately show ?thesis
    using assms(1) unfolding cq_ok_def counts_ok_def list_all_ex left_subset by (simp add: m b)
qed

lemma pending_le: "cq_ok ok q ts cs \<Longrightarrow> t < length ts \<Longrightarrow> pending (ts ! t) \<le> nTodo q"
proof -
  assume a: "cq_ok ok q ts cs" "t < length ts"
  have "pending (ts ! t) \<in> set (map pending ts)" using a(2) by simp
  then have "pending (ts ! t) \<le> sum_list (map pending ts)" by (rule member_le_sum_list) simp
  with a(1) show ?thesis by (simp add: cq_ok_def counts_ok_def)
qed

lemma run_ok:
  assumes "cq_ok ok q ts cs" "t < length ts" "ts ! t = Working (c # r) n f"
  shows "cq_ok ok q (ts[t := Working r n (if f then ok c else False)]) cs"
proof -
  let ?pc = "Working r n (if f then ok c else False)"
  have u: "sum_list (map pending (ts[t := ?pc])) = sum_list (map pending ts)" "sum_list (map in_loop (ts[t := ?pc])) = sum_list (map in_loop ts)"
      "sum_list (map idle (ts[t := ?pc])) = sum_list (map idle ts)"
    using sum_list_map_update_nat [OF assms(2), of pending ?pc] sum_list_map_update [OF assms(2), of in_loop ?pc]
      sum_list_map_update [OF assms(2), of idle ?pc] assms(3) by simp_all
  have p: "length (c # r) \<le> n" "c \<in> set cs" "set r \<subseteq> set cs"
    using assms by (auto simp: cq_ok_def counts_ok_def left_subset list_all_ex ex_thread [OF assms(2)])
  have c: "counts_ok q (ts[t := ?pc])"
    using assms p(1) by (auto simp: cq_ok_def counts_ok_def u list_all_ex ex_thread [OF assms(2)] ex_thread_update [OF assms(2)])
  have "n \<le> nTodo q" using pending_le [OF assms(1,2)] assms(3) by simp
  then have nr: "ts ! 0 \<noteq> Returned b" for b
    using p(1) assms(1) by (auto simp: cq_ok_def master_ok_def)
  then have v: "verdict_ok ok q ts cs" "ts ! 0 = Waiting False \<longrightarrow> cq_queue q = [] \<and> 0 < nTodo q"
    using assms(1) by (auto simp: cq_ok_def master_ok_def split: pc.splits)
  have "verdict_ok ok q (ts[t := ?pc]) cs"
    using v(1) p(2) assms(3) by (auto simp: thread_simps ex_thread [OF assms(2)] ex_thread_update [OF assms(2)])
  then have "master_ok ok q (ts[t := ?pc]) cs"
    using nr v(2) assms(2) by (cases "t = 0") (auto simp: master_ok_def split: pc.split)
  moreover have "\<forall>pc \<in> set (ts[t := ?pc]). set (left pc) \<subseteq> set cs"
    using assms(1) p(3) by (auto simp: cq_ok_def left_subset ex_thread [OF assms(2)] ex_thread_update [OF assms(2)])
  ultimately show ?thesis using c assms(1) by (simp add: cq_ok_def)
qed

lemma abort_ok:
  assumes "cq_ok ok q ts cs" "t < length ts" "ts ! t = Working [] n f"
  shows "cq_ok ok q (ts[t := Aborted n]) cs"
proof -
  let ?pc = "Aborted n"
  have u: "sum_list (map pending (ts[t := ?pc])) = sum_list (map pending ts)" "sum_list (map in_loop (ts[t := ?pc])) = sum_list (map in_loop ts)"
      "sum_list (map idle (ts[t := ?pc])) = sum_list (map idle ts)"
    using sum_list_map_update_nat [OF assms(2), of pending ?pc] sum_list_map_update [OF assms(2), of in_loop ?pc]
      sum_list_map_update [OF assms(2), of idle ?pc] assms(3) by simp_all
  have f: "f \<or> n > 0"
    using assms by (auto simp: cq_ok_def counts_ok_def list_all_ex ex_thread [OF assms(2)])
  have "verdict_ok ok q (ts[t := ?pc]) cs" if "verdict_ok ok q ts cs"
    using that f assms(3) by (auto simp: thread_simps ex_thread [OF assms(2)] ex_thread_update [OF assms(2)])
  then have "master_ok ok q (ts[t := ?pc]) cs"
    using assms by (cases "t = 0") (auto simp: cq_ok_def master_ok_def split: pc.splits)
  then show ?thesis
    using assms by (auto simp: cq_ok_def counts_ok_def u list_all_ex left_subset ex_thread [OF assms(2)] ex_thread_update [OF assms(2)])
qed

text \<open>A thread goes into the critical section, at the start, after a wait, or after a batch.\<close>

lemma inside_ok:
  assumes "cq_ok ok q ts cs" "t < length ts" "ts ! t = Working [] n f"
    and "ts ! 0 = Waiting False \<Longrightarrow> nTodo q - n \<noteq> 0"
  shows "cq_ok ok (clean_up n f q) (ts[t := inside]) cs"
proof -
  let ?q = "clean_up n f q"
  have u: "sum_list (map pending (ts[t := inside])) = sum_list (map pending ts) - n"
      "sum_list (map in_loop (ts[t := inside])) = sum_list (map in_loop ts)" "sum_list (map idle (ts[t := inside])) = sum_list (map idle ts)"
      "n \<le> sum_list (map pending ts)"
    using sum_list_map_update_nat [OF assms(2), of pending inside] sum_list_map_update [OF assms(2), of in_loop inside]
      sum_list_map_update [OF assms(2), of idle inside] assms(3) by simp_all
  have f: "f \<or> n > 0" using assms by (auto simp: cq_ok_def counts_ok_def list_all_ex ex_thread [OF assms(2)])
  have v: "verdict_ok ok ?q (ts[t := inside]) cs" if "verdict_ok ok q ts cs"
    using that assms(3) by (auto simp: thread_simps clean_up_def ex_thread [OF assms(2)] ex_thread_update [OF assms(2)])
  have "master_ok ok ?q (ts[t := inside]) cs"
  proof (cases "ts ! 0")
    case (Returned b)
    then have "nTodo q = 0" using assms(1) by (auto simp: cq_ok_def master_ok_def)
    then have "n = 0" using pending_le [OF assms(1,2)] assms(3) by simp
    moreover have "t \<noteq> 0" using Returned assms(3) by (cases t) auto
    ultimately show ?thesis using Returned assms(1) f by (simp add: cq_ok_def master_ok_def clean_up_def)
  qed (use assms v in \<open>cases "t = 0"; auto simp: cq_ok_def master_ok_def clean_up_def\<close>)+
  then show ?thesis
    using assms(1-3) u by (auto simp: cq_ok_def counts_ok_def clean_up_def list_all_ex left_subset ex_thread [OF assms(2)] ex_thread_update [OF assms(2)])
qed

lemma finish_ok:
  assumes "cq_ok ok q ts cs" "t < length ts" "ts ! t = Working [] n f"
    and "ts' = (if notifies_master (t = 0) n q then ts[0 := notified (ts ! 0)] else ts)" "finish (t = 0) n f q = (pc, q')"
  shows "cq_ok ok q' (ts'[t := pc]) cs"
proof -
  have "ts \<noteq> []" using assms(2) by auto
  then have s: "list_all2 same_thread ts ts'"
    unfolding assms(4) by (auto simp: list_all2_conv_all_nth same_thread_def nth_list_update)
  have l: "t < length ts'" "ts' ! t = Working [] n f"
    using assms(2-4) by (auto simp: nth_list_update notifies_master_def)
  have "cq_ok ok (clean_up n f q) (ts'[t := inside]) cs"
    using assms(3,4) \<open>ts \<noteq> []\<close> by (intro inside_ok [OF same_threads_ok [OF assms(1) s] l]) (auto simp: notifies_master_def split: if_splits)
  from acquire_ok [OF this, of t] l(1) assms(5) show ?thesis by (simp add: finish_def)
qed

lemma enter_wake_ok:
  assumes "cq_ok ok q ts cs" "t < length ts"
    and "ts ! t = Out \<and> q1 = q\<lparr> nTotal := nTotal q + 1 \<rparr> \<or> ts ! t = Waiting b \<and> q1 = q\<lparr> nIdle := nIdle q - 1 \<rparr>"
    and "acquire (t = 0) q1 = (pc, q')"
  shows "cq_ok ok q' (ts[t := pc]) cs"
proof -
  have u: "sum_list (map pending (ts[t := inside])) = sum_list (map pending ts) - pending (ts ! t)"
      "sum_list (map in_loop (ts[t := inside])) = sum_list (map in_loop ts) - in_loop (ts ! t) + 1"
      "sum_list (map idle (ts[t := inside])) = sum_list (map idle ts) - idle (ts ! t)"
    using sum_list_map_update_nat [OF assms(2), of pending inside] sum_list_map_update [OF assms(2), of in_loop inside]
      sum_list_map_update [OF assms(2), of idle inside] by simp_all
  have "verdict_ok ok q1 (ts[t := inside]) cs" if "verdict_ok ok q ts cs"
    using that assms(3) by (auto simp: thread_simps ex_thread [OF assms(2)] ex_thread_update [OF assms(2)])
  then have "master_ok ok q1 (ts[t := inside]) cs"
    using assms(1-3) by (cases "t = 0") (auto simp: cq_ok_def master_ok_def split: pc.splits)
  then have "cq_ok ok q1 (ts[t := inside]) cs"
    using assms(1-3) u by (auto simp: cq_ok_def counts_ok_def list_all_ex left_subset ex_thread [OF assms(2)] ex_thread_update [OF assms(2)])
  from acquire_ok [OF this, of t] assms(2,4) show ?thesis by simp
qed

lemma add_ok:
  assumes "cq_ok ok q ts cs" "ts ! 0 = Out"
  shows "cq_ok ok (cq_Add vs q) ts (vs @ cs)"
  using assms by (auto simp: cq_ok_def counts_ok_def master_ok_def verdict_ok_ex cq_Add_def)

lemma result_ok:
  assumes "cq_ok ok q ts cs" "ts ! 0 = Returned b"
  shows "cq_ok ok q (ts[0 := Out]) []"
proof -
  have q: "cq_queue q = []" "nTodo q = 0" "fAllOk q" "counts_ok q ts" using assms by (auto simp: cq_ok_def master_ok_def)
  have l: "0 < length ts" using q(4) by (auto simp: counts_ok_def)
  have "\<not> (\<exists>pc \<in> set ts. failed pc \<or> left pc \<noteq> [])" using nothing_pending(2) [OF q(4,2)] by blast
  then have "\<not> other 0 ts (\<lambda>pc. failed pc \<or> left pc \<noteq> [])" by (simp add: ex_thread [OF l])
  then have "\<not> other 0 ts failed" "\<not> other 0 ts (\<lambda>pc. \<not> set (left pc) \<subseteq> set [])" by (auto simp: other_def)
  moreover have "counts_ok q (ts[0 := Out])"
    using q(4) assms(2) sum_list_map_update_nat [OF l, of pending Out] sum_list_map_update [OF l, of in_loop Out]
      sum_list_map_update [OF l, of idle Out] by (auto simp: counts_ok_def list_all_ex ex_thread [OF l] ex_thread_update [OF l])
  ultimately show ?thesis
    using q l unfolding cq_ok_def left_subset verdict_ok_ex ex_thread_update [OF l] by (simp add: master_ok_def verdict_ok_ex ex_thread_update [OF l])
qed

definition all_ok :: "('c \<Rightarrow> bool) \<Rightarrow> 'c threads \<Rightarrow> bool" where
  "all_ok ok s \<longleftrightarrow> cq_ok ok (shared s) (pcs s) (added s)"

lemma woken_same: "list_all2 same_thread ts (map (\<lambda>t. if t \<in> woken then notified (ts ! t) else ts ! t) [0..<length ts])"
  by (auto simp: list_all2_conv_all_nth same_thread_def)

lemma work_step_ok: "work_step ok s s' \<Longrightarrow> all_ok ok s \<Longrightarrow> all_ok ok s'"
proof (induction rule: work_step.induct)
  case (finish t s nNow fOk)
  obtain pc q' where f: "finish (t = 0) nNow fOk (shared s) = (pc, q')" by fastforce
  from finish_ok [OF finish(4) [unfolded all_ok_def] finish(1,2) refl f] show ?case
    by (simp add: all_ok_def set_thread_def notify_master_def f split: if_splits)
next
  case (run t s c cs nNow fOk)
  then show ?case using run_ok [of ok "shared s" "pcs s" "added s" t c cs nNow fOk] by (simp add: all_ok_def)
next
  case (wake t s)
  obtain pc q' where w: "wake (t = 0) (shared s) = (pc, q')" by fastforce
  from enter_wake_ok [OF wake(3) [unfolded all_ok_def] wake(1), of _ True pc q'] wake(2) w show ?case
    by (auto simp: all_ok_def set_thread_def wake_def)
qed (auto simp: all_ok_def intro: abort_ok)

lemma call_step_ok: "call_step s s' \<Longrightarrow> all_ok ok s \<Longrightarrow> all_ok ok s'"
proof (induction rule: call_step.induct)
  case (add s woken vChecks)
  from same_threads_ok [OF add_ok woken_same] add show ?case by (auto simp: all_ok_def)
next
  case (start t s)
  obtain pc q' where w: "enter (t = 0) (shared s) = (pc, q')" by fastforce
  from enter_wake_ok [OF start(3) [unfolded all_ok_def] start(1), of _ True pc q'] start(2) w show ?case
    by (auto simp: all_ok_def set_thread_def enter_def)
next
  case (spurious t s)
  obtain pc q' where w: "wake (t = 0) (shared s) = (pc, q')" by fastforce
  from enter_wake_ok [OF spurious(3) [unfolded all_ok_def] spurious(1), of _ False pc q'] spurious(2) w show ?case
    by (auto simp: all_ok_def set_thread_def wake_def)
next
  case (result s b)
  then show ?case by (auto simp: all_ok_def intro: result_ok)
next
  case (quit woken s)
  have "cq_ok ok (cq_Quit (shared s)) (pcs s) (added s)"
    using quit(2) by (auto simp: all_ok_def cq_ok_def counts_ok_def master_ok_def verdict_ok_def cq_Quit_def split: pc.splits)
  from same_threads_ok [OF this woken_same] show ?case by (simp add: all_ok_def)
qed (simp add: all_ok_def)

lemma cq_reaches_ok: "cq_reaches ok s \<Longrightarrow> all_ok ok s"
proof (induction rule: cq_reaches.induct)
  case (new n nBatch)
  then show ?case
    by (auto simp: all_ok_def cq_ok_def counts_ok_def master_ok_def verdict_ok_def new_CCheckQueue_def sum_list_replicate list_all_iff list_ex_iff)
qed (auto intro: work_step_ok call_step_ok)

section \<open>Progress\<close>

fun weight :: "'c pc \<Rightarrow> nat" where
  "weight (Waiting True) = 1" | "weight (Working cs n f) = 2 + length cs" | "weight pc = 0"

definition work_left :: "'c threads \<Rightarrow> nat" where
  "work_left s = 4 * length (cq_queue (shared s)) + sum_list (map weight (pcs s))"

lemma weight_notified: "weight (notified pc) \<le> weight pc + 1"
  by (cases pc rule: weight.cases) auto

lemma acquire_weight:
  assumes "acquire m q = (pc, q')"
  shows "4 * length (cq_queue q') + weight pc \<le> 4 * length (cq_queue q)"
  using assms
proof (cases rule: acquireE)
  case (take n)
  with batch_size_bounds [OF take(1)] show ?thesis by auto
qed auto

lemma work_left_set_thread:
  assumes "t < length (pcs s)" "4 * length (cq_queue (snd r)) + weight (fst r) \<le> 4 * length (cq_queue (shared s))"
  shows "work_left (set_thread t r s) + weight (pcs s ! t) \<le> work_left s"
  using assms sum_list_map_update_nat [OF assms(1), of weight "fst r"] by (simp add: work_left_def set_thread_def)

lemma work_step_decreases: "work_step ok s s' \<Longrightarrow> work_left s' < work_left s"
proof (induction rule: work_step.induct)
  case (run t s c cs nNow fOk)
  then show ?case
    using sum_list_map_update_nat [OF run(1), of weight "Working cs nNow (if fOk then ok c else False)"] by (simp add: work_left_def)
next
  case (abort t s nNow fOk)
  then show ?case using sum_list_map_update_nat [OF abort(1), of weight "Aborted nNow"] by (simp add: work_left_def)
next
  case (wake t s)
  obtain pc q' where w: "wake (t = 0) (shared s) = (pc, q')" by fastforce
  have "4 * length (cq_queue q') + weight pc \<le> 4 * length (cq_queue (shared s))"
    using acquire_weight [OF w [unfolded wake_def]] by simp
  with work_left_set_thread [OF wake(1), of "(pc, q')"] wake(2) show ?case by (simp add: w)
next
  case (finish t s nNow fOk)
  let ?s = "notify_master (notifies_master (t = 0) nNow (shared s)) s"
  have l: "pcs s \<noteq> []" using finish(1) by auto
  then have "work_left ?s \<le> work_left s + 1"
    using sum_list_map_update_nat [of 0 "pcs s" weight "notified (pcs s ! 0)"] weight_notified [of "pcs s ! 0"]
    by (simp add: work_left_def notify_master_def)
  moreover have p: "t < length (pcs ?s)" "pcs ?s ! t = Working [] nNow fOk" "shared ?s = shared s"
    using finish l by (auto simp: notify_master_def nth_list_update)
  moreover obtain pc q' where w: "finish (t = 0) nNow fOk (shared s) = (pc, q')" by fastforce
  moreover have "4 * length (cq_queue q') + weight pc \<le> 4 * length (cq_queue (shared s))"
    using acquire_weight [OF w [unfolded finish_def]] by (simp add: clean_up_def)
  ultimately show ?case using work_left_set_thread [OF p(1), of "(pc, q')"] by simp
qed

lemma acquire_not_Aborted [simp]: "fst (acquire m q) \<noteq> Aborted n"
  by (simp add: acquire_def Let_def)

lemma nth_update_first: "i < length xs \<Longrightarrow> xs[0 := x] ! i = (if i = 0 then x else xs ! i)"
  by (auto simp: nth_list_update)

lemma notify_master_simps [simp]:
  "length (pcs (notify_master b s)) = length (pcs s)" "shared (notify_master b s) = shared s" "fShutdown (notify_master b s) = fShutdown s"
  "added (notify_master b s) = added s"
  "i < length (pcs s) \<Longrightarrow> pcs (notify_master b s) ! i = (if b \<and> i = 0 then notified (pcs s ! 0) else pcs s ! i)"
  by (auto simp: notify_master_def nth_list_update)

lemma aborted_shutdown: "cq_reaches ok s \<Longrightarrow> i < length (pcs s) \<Longrightarrow> pcs s ! i = Aborted n \<Longrightarrow> fShutdown s"
proof (induction rule: cq_reaches.induct)
  case (work s s')
  from work(2-5) show ?case
    by (induction rule: work_step.induct)
      (auto simp: set_thread_def finish_def wake_def nth_list_update split: if_splits)
next
  case (call s s')
  from call(2-5) show ?case
    by (induction rule: call_step.induct)
      (auto simp: set_thread_def enter_def wake_def nth_list_update nth_update_first split: if_splits)
qed auto

text \<open>As long as the master is in the loop, a thread can make a step.\<close>

lemma cq_not_stuck:
  assumes "cq_reaches ok s" "\<not> fShutdown s" "pcs s ! 0 \<noteq> Out" "\<And>b. pcs s ! 0 \<noteq> Returned b"
  shows "\<exists>s'. work_step ok s s'"
proof -
  have ok: "cq_ok ok (shared s) (pcs s) (added s)" using cq_reaches_ok [OF assms(1)] by (simp add: all_ok_def)
  then have l: "0 < length (pcs s)" by (auto simp: cq_ok_def counts_ok_def)
  have working: "\<exists>s'. work_step ok s s'" if "t < length (pcs s)" "pcs s ! t = Working cs n f" for t cs n f
  proof (cases cs)
    case Nil
    show ?thesis using work_step.finish [OF that(1) that(2) [unfolded Nil] assms(2)] by blast
  next
    case (Cons c r)
    show ?thesis using work_step.run [OF that(1) that(2) [unfolded Cons]] by blast
  qed
  show ?thesis
  proof (cases "pcs s ! 0")
    case (Waiting b)
    show ?thesis
    proof (cases b)
      case True
      with Waiting l show ?thesis by (auto intro: work_step.wake)
    next
      case False
      with Waiting ok have q: "cq_queue (shared s) = []" "0 < nTodo (shared s)" by (auto simp: cq_ok_def master_ok_def)
      have "nTodo (shared s) = length (cq_queue (shared s)) + sum_list (map pending (pcs s))"
        using ok by (simp only: cq_ok_def counts_ok_def)
      with q have "\<exists>pc \<in> set (pcs s). pending pc \<noteq> 0" by (metis (no_types) add_0 list.size(3) sum_list_eq_0_iff image_iff set_map less_irrefl)
      then obtain t where "t < length (pcs s)" "pending (pcs s ! t) \<noteq> 0" by (auto simp: in_set_conv_nth)
      with working aborted_shutdown [OF assms(1), of t] assms(2) show ?thesis by (cases "pcs s ! t") auto
    qed
  next
    case (Working cs n f)
    with working l show ?thesis by blast
  next
    case (Aborted n)
    with aborted_shutdown [OF assms(1) l] assms(2) show ?thesis by simp
  qed (use assms in auto)
qed

lemma work_step_frame:
  "work_step ok s s' \<Longrightarrow> fShutdown s' = fShutdown s \<and> added s' = added s \<and> length (pcs s') = length (pcs s)"
  by (induction rule: work_step.induct) (auto simp: set_thread_def notify_master_def)

lemma acquire_not_Out [simp]: "fst (acquire m q) \<noteq> Out"
  by (simp add: acquire_def Let_def)

lemma work_step_master: "work_step ok s s' \<Longrightarrow> pcs s \<noteq> [] \<Longrightarrow> pcs s ! 0 \<noteq> Out \<Longrightarrow> pcs s' ! 0 \<noteq> Out"
proof (induction rule: work_step.induct)
  case (finish t s nNow fOk)
  then show ?case by (cases "pcs s ! 0") (auto simp: set_thread_def notify_master_def finish_def nth_list_update)
qed (auto simp: set_thread_def wake_def nth_list_update)

lemma work_steps:
  assumes "(work_step ok)\<^sup>*\<^sup>* s s'" "cq_reaches ok s" "\<not> fShutdown s" "pcs s ! 0 \<noteq> Out"
  shows "cq_reaches ok s' \<and> \<not> fShutdown s' \<and> pcs s' ! 0 \<noteq> Out \<and> added s' = added s"
  using assms(1)
proof (induction rule: rtranclp_induct)
  case (step s1 s2)
  have "pcs s1 \<noteq> []" using cq_reaches_ok [of ok s1] step.IH by (auto simp: all_ok_def cq_ok_def counts_ok_def)
  with step work_step_frame [OF step(2)] work_step_master [OF step(2)] show ?case by (auto intro: cq_reaches.work)
qed (use assms in auto)

section \<open>Shutdown\<close>

text \<open>A worker that leaves because of a shutdown does not count its batch as done; a master that waits stays.\<close>

definition hangs :: "nat \<Rightarrow> nat \<Rightarrow> 'c threads \<Rightarrow> bool" where
  "hangs t n s \<longleftrightarrow> fShutdown s \<and> (\<exists>b. pcs s ! 0 = Waiting b) \<and> cq_queue (shared s) = [] \<and>
     0 < t \<and> t < length (pcs s) \<and> pcs s ! t = Aborted n \<and> 0 < n"

lemma hangs_acquire:
  assumes "all_ok ok s" "hangs t n s" "cq_queue q = []" "nTodo q = nTodo (shared s)"
  shows "acquire m q = (Waiting False, q\<lparr> nIdle := nIdle q + 1 \<rparr>)"
proof -
  have "0 < nTodo q" using assms pending_le [of ok "shared s" "pcs s" "added s" t] by (simp add: all_ok_def hangs_def)
  with assms(3) show ?thesis by (simp add: acquire_def)
qed

lemma work_step_hangs:
  assumes "work_step ok s s'" "all_ok ok s" "hangs h n s"
  shows "hangs h n s'"
  using assms
proof (induction rule: work_step.induct)
  case (wake t s)
  with hangs_acquire [OF wake(3,4), of "shared s\<lparr> nIdle := nIdle (shared s) - 1 \<rparr>"] show ?case
    by (auto simp: hangs_def wake_def set_thread_def nth_list_update)
qed (auto simp: hangs_def nth_list_update intro!: Nat.gr0I)

lemma call_step_hangs:
  assumes "call_step s s'" "all_ok ok s" "hangs h n s"
  shows "hangs h n s'"
  using assms
proof (induction rule: call_step.induct)
  case (start t s)
  with hangs_acquire [OF start(3,4), of "shared s\<lparr> nTotal := nTotal (shared s) + 1 \<rparr>"] show ?case
    by (auto simp: hangs_def enter_def set_thread_def nth_list_update)
next
  case (spurious t s)
  with hangs_acquire [OF spurious(3,4), of "shared s\<lparr> nIdle := nIdle (shared s) - 1 \<rparr>"] show ?case
    by (auto simp: hangs_def wake_def set_thread_def nth_list_update)
next
  case (quit woken s)
  then have "pcs s \<noteq> []" by (auto simp: hangs_def)
  with quit show ?case by (auto simp: hangs_def cq_Quit_def nth_append)
qed (auto simp: hangs_def)

text \<open>Any run of the system from a state.\<close>

definition cq_run :: "('c \<Rightarrow> bool) \<Rightarrow> 'c threads \<Rightarrow> 'c threads \<Rightarrow> bool" where
  "cq_run ok = (\<lambda>s s'. work_step ok s s' \<or> call_step s s')\<^sup>*\<^sup>*"

lemma cq_run_hangs:
  assumes "cq_run ok s s'" "all_ok ok s" "hangs h n s"
  shows "all_ok ok s' \<and> hangs h n s'"
  using assms(1) unfolding cq_run_def
proof (induction rule: rtranclp_induct)
  case (step s1 s2)
  then show ?case using work_step_hangs call_step_hangs work_step_ok call_step_ok by blast
qed (use assms in auto)

section \<open>The properties of the queue\<close>

text \<open>
  C20. What \<^verbatim>\<open>CCheckQueue::Wait\<close> returns, however the master and the workers interleave, wake up spuriously or
  quit. True always means that every check that was added since the last result succeeds. False means that one of them fails,
  unless the process shuts down: then the master can leave its loop after a batch with false whatever the checks are, and
  the result says nothing of them. When \<^verbatim>\<open>Wait\<close> returns the status and not because of a shutdown, no check is queued or
  counted as open, and the status is reset.
\<close>

theorem check_queue_verdict:
  assumes "cq_reaches ok s" "wait_result (pcs s ! 0) = Some b"
  shows "(b \<longrightarrow> (\<forall>c \<in> set (added s). ok c)) \<and> (\<not> b \<longrightarrow> (\<exists>c \<in> set (added s). \<not> ok c) \<or> fShutdown s) \<and>
    (pcs s ! 0 = Returned b \<longrightarrow> b = (\<forall>c \<in> set (added s). ok c) \<and> cq_queue (shared s) = [] \<and> nTodo (shared s) = 0 \<and> fAllOk (shared s))"
proof -
  have ret: "pcs s ! 0 = Returned b \<Longrightarrow> b = (\<forall>c \<in> set (added s). ok c) \<and> cq_queue (shared s) = [] \<and> nTodo (shared s) = 0 \<and> fAllOk (shared s)"
    using cq_reaches_ok [OF assms(1)] by (simp add: all_ok_def cq_ok_def master_ok_def)
  have "0 < length (pcs s)" using cq_reaches_ok [OF assms(1)] by (auto simp: all_ok_def cq_ok_def counts_ok_def)
  then have shut: "pcs s ! 0 = Aborted n \<Longrightarrow> fShutdown s" for n using aborted_shutdown [OF assms(1)] by blast
  from assms(2) show ?thesis by (cases "pcs s ! 0") (use ret shut in auto)
qed

text \<open>Runs of a master and one worker, for the witnesses.\<close>

definition queue_with :: "nat list \<Rightarrow> int \<Rightarrow> int \<Rightarrow> nat \<Rightarrow> nat CCheckQueue" where
  "queue_with cs ni nt todo =
     \<lparr> cq_queue = cs, nIdle = ni, nTotal = nt, fAllOk = True, nTodo = todo, fQuit = False, nBatchSize = 128 \<rparr>"

lemmas demo_simps = queue_with_def cq_Add_def set_thread_def enter_def finish_def wake_def acquire_def batch_size_def
  clean_up_def notifies_master_def notify_master_def Let_def numeral_2_eq_2

lemma demo_added:
  "cq_reaches ok \<lparr> shared = queue_with (rev cs) 0 0 (length cs), pcs = [Out, Out], fShutdown = False, added = cs \<rparr>"
proof -
  have "cq_reaches ok \<lparr> shared = new_CCheckQueue 128, pcs = replicate 2 Out, fShutdown = False, added = [] \<rparr>"
    by (rule cq_reaches.new) simp
  from cq_reaches.call [OF this call_step.add [where woken = "{}" and vChecks = cs]] show ?thesis
    by (simp add: new_CCheckQueue_def demo_simps)
qed

text \<open>The worker takes the second of two checks, the master the first.\<close>

lemma demo_both:
  "cq_reaches ok \<lparr> shared = queue_with [] 0 2 2, pcs = [Working [1] 1 True, Working [2] 1 True], fShutdown = False, added = [1, 2] \<rparr>"
proof -
  from cq_reaches.call [OF demo_added [of _ "[1, 2]"] call_step.start [where t = 1]]
  have "cq_reaches ok \<lparr> shared = queue_with [1] 0 1 2, pcs = [Out, Working [2] 1 True], fShutdown = False, added = [1, 2] \<rparr>"
    by (simp add: demo_simps)
  from cq_reaches.call [OF this call_step.start [where t = 0]] show ?thesis by (simp add: demo_simps)
qed

theorem check_queue_verdict_witness:
  "\<exists>s. cq_reaches (\<lambda>c. c \<noteq> 2) s \<and> pcs s ! 0 = Returned False \<and> added s = [1, 2 :: nat] \<and> cq_queue (shared s) = [] \<and> nTodo (shared s) = 0"
proof -
  let ?ok = "\<lambda>c. c \<noteq> (2 :: nat)"
  let ?r = "cq_reaches ?ok"
  from cq_reaches.work [OF demo_both [of ?ok] work_step.run [where t = 1]]
  have "?r \<lparr> shared = queue_with [] 0 2 2, pcs = [Working [1] 1 True, Working [] 1 False], fShutdown = False, added = [1, 2] \<rparr>" by simp
  from cq_reaches.work [OF this work_step.finish [where t = 1 and fOk = False]]
  have "?r \<lparr> shared = (queue_with [] 1 2 1)\<lparr> fAllOk := False \<rparr>, pcs = [Working [1] 1 True, Waiting False], fShutdown = False, added = [1, 2] \<rparr>"
    by (simp add: demo_simps)
  from cq_reaches.work [OF this work_step.run [where t = 0]]
  have "?r \<lparr> shared = (queue_with [] 1 2 1)\<lparr> fAllOk := False \<rparr>, pcs = [Working [] 1 True, Waiting False], fShutdown = False, added = [1, 2] \<rparr>"
    by simp
  from cq_reaches.work [OF this work_step.finish [where t = 0 and fOk = True]]
  have "?r \<lparr> shared = queue_with [] 1 1 0, pcs = [Returned False, Waiting False], fShutdown = False, added = [1, 2] \<rparr>"
    by (simp add: demo_simps)
  from check_queue_verdict [OF this, of False] this show ?thesis
    by (intro exI [of _ "\<lparr> shared = queue_with [] 1 1 0, pcs = [Returned False, Waiting False], fShutdown = False, added = [1, 2] \<rparr>"]) simp
qed

text \<open>
  C21. Without a shutdown a \<^verbatim>\<open>Wait\<close> that has begun always returns: no run of the threads is infinite, whatever
  the scheduler does, and where no thread can go on the master has returned the verdict of the checks.
\<close>

theorem check_queue_progress:
  assumes "cq_reaches ok s" "\<not> fShutdown s" "pcs s ! 0 \<noteq> Out"
  shows "(\<nexists>f. f 0 = s \<and> (\<forall>i. work_step ok (f i) (f (Suc i)))) \<and>
    (\<forall>s'. (work_step ok)\<^sup>*\<^sup>* s s' \<and> (\<nexists>s''. work_step ok s' s'') \<longrightarrow> pcs s' ! 0 = Returned (\<forall>c \<in> set (added s). ok c))"
proof (intro conjI allI impI notI)
  assume "\<exists>f. f 0 = s \<and> (\<forall>i. work_step ok (f i) (f (Suc i)))"
  then obtain f where "\<And>i. work_step ok (f i) (f (Suc i))" by blast
  then have "\<forall>i. (f (Suc i), f i) \<in> measure work_left" using work_step_decreases by auto
  then show False using wf_measure [of "work_left :: 'a threads \<Rightarrow> nat"] by (auto simp: wf_iff_no_infinite_down_chain)
next
  fix s' assume a: "(work_step ok)\<^sup>*\<^sup>* s s' \<and> (\<nexists>s''. work_step ok s' s'')"
  with work_steps [of ok s s'] assms have s': "cq_reaches ok s'" "\<not> fShutdown s'" "pcs s' ! 0 \<noteq> Out" "added s' = added s" by auto
  with a cq_not_stuck [of ok s'] obtain b where b: "pcs s' ! 0 = Returned b" by blast
  with cq_reaches_ok [OF s'(1)] s'(4) show "pcs s' ! 0 = Returned (\<forall>c \<in> set (added s). ok c)"
    by (simp add: all_ok_def cq_ok_def master_ok_def)
qed

theorem check_queue_progress_witness:
  "\<exists>s. cq_reaches (\<lambda>c. c \<noteq> 2) s \<and> pcs s = [Working [1] 1 True, Working [2 :: nat] 1 True] \<and>
    (\<nexists>f. f 0 = s \<and> (\<forall>i. work_step (\<lambda>c. c \<noteq> 2) (f i) (f (Suc i)))) \<and>
    (\<nexists>s'. (work_step (\<lambda>c. c \<noteq> 2))\<^sup>*\<^sup>* s s' \<and> (\<nexists>s''. work_step (\<lambda>c. c \<noteq> 2) s' s'') \<and> pcs s' ! 0 \<noteq> Returned False)"
  using demo_both [of "\<lambda>c. c \<noteq> 2"] check_queue_progress [OF demo_both [of "\<lambda>c. c \<noteq> 2"]]
  by (intro exI [of _ "\<lparr> shared = queue_with [] 0 2 2, pcs = [Working [1] 1 True, Working [2] 1 True], fShutdown = False, added = [1, 2] \<rparr>"]) auto

text \<open>
  C22. A shutdown can leave \<^verbatim>\<open>Wait\<close> stuck for good: a worker that sees \<^verbatim>\<open>fShutdown\<close> after its batch leaves the loop
  without taking the batch off \<^verbatim>\<open>nTodo\<close> and without a notification. There is a reachable state from which,
  whatever happens later, the master waits; a single check was added before.
\<close>

theorem check_queue_shutdown_hangs:
  "\<exists>s. cq_reaches ok s \<and> (\<nexists>s'. cq_run ok s s' \<and> (\<nexists>b. pcs s' ! 0 = Waiting b)) \<and> added s = [1 :: nat]"
proof -
  let ?r = "cq_reaches ok"
  from cq_reaches.call [OF demo_added [of _ "[1]"] call_step.start [where t = 1]]
  have "?r \<lparr> shared = queue_with [] 0 1 1, pcs = [Out, Working [1] 1 True], fShutdown = False, added = [1] \<rparr>" by (simp add: demo_simps)
  from cq_reaches.call [OF this call_step.start [where t = 0]]
  have "?r \<lparr> shared = queue_with [] 1 2 1, pcs = [Waiting False, Working [1] 1 True], fShutdown = False, added = [1] \<rparr>"
    by (simp add: demo_simps)
  from cq_reaches.work [OF cq_reaches.call [OF this call_step.shutdown] work_step.run [where t = 1]]
  have "?r \<lparr> shared = queue_with [] 1 2 1, pcs = [Waiting False, Working [] 1 (ok 1)], fShutdown = True, added = [1] \<rparr>" by simp
  from cq_reaches.work [OF this work_step.abort [where t = 1]]
  have r: "?r \<lparr> shared = queue_with [] 1 2 1, pcs = [Waiting False, Aborted 1], fShutdown = True, added = [1] \<rparr>" by simp
  let ?s = "\<lparr> shared = queue_with [] 1 2 1, pcs = [Waiting False, Aborted 1], fShutdown = True, added = [1] \<rparr>"
  have "hangs 1 1 ?s" by (auto simp: hangs_def queue_with_def)
  from cq_run_hangs [OF _ cq_reaches_ok [OF r] this] r show ?thesis by (intro exI [of _ ?s]) (auto simp: hangs_def)
qed

end
