(* ===== verification/Spec2Isabelle.thy ===== *)
theory Spec2Isabelle
  imports Keystore Script_Sign Block_Accept Check_Queue
begin

text \<open>
  Verification of the consensus and key-handling core of SorachanCoin (\<^verbatim>\<open>src/src\<close>).

  \<^bold>\<open>The program.\<close> A node receives transactions and blocks from peers (\<^verbatim>\<open>serialize.h\<close> reads them),
  decides whether a transaction may spend the outputs it refers to (\<^verbatim>\<open>block/transaction.cpp\<close> checks the
  amounts and marks what is spent, \<^verbatim>\<open>script/script.cpp\<close> evaluates the scripts of input and output,
  \<^verbatim>\<open>key/pubkey.cpp\<close> verifies signatures), records the result in its index (\<^verbatim>\<open>txdb-leveldb.cpp\<close> over
  \<^verbatim>\<open>db.h\<close>), requires of every block a target that follows from the chain (\<^verbatim>\<open>miner/diff.cpp\<close>) and of a
  staked block a kernel (\<^verbatim>\<open>kernel.cpp\<close>), follows the branch with the most trust (\<^verbatim>\<open>block/block.cpp\<close>), and keeps
  the keys of its wallet (\<^verbatim>\<open>keystore.cpp\<close>), with which it signs.

  \<^bold>\<open>The theories.\<close>
  \<^item> \<^verbatim>\<open>Prelude\<close>: bytes, little-endian numbers and the collections of simplification rules.
  \<^item> \<^verbatim>\<open>Std_Map\<close>: \<^verbatim>\<open>std::map\<close> as entries in the order of their keys.
  \<^item> \<^verbatim>\<open>Script_Num\<close>: \<^verbatim>\<open>CScriptNum\<close> of \<^verbatim>\<open>script/scriptnum.h\<close>. Numbers round-trip, the minimal encoding is
    unique, the arithmetic of the interpreter stays in 64 bits.
  \<^item> \<^verbatim>\<open>Script_Ops\<close>: the opcode table, the writers (\<^verbatim>\<open>operator<<\<close>) and the reader \<^verbatim>\<open>GetScriptOp\<close>; the
    specification of a script is the list of its opcodes.
  \<^item> \<^verbatim>\<open>Script_Query\<close>: the member functions of \<^verbatim>\<open>CScript\<close> that walk a script, against that specification.
  \<^item> \<^verbatim>\<open>Script_Sig\<close>: the encoding rules of signatures, keys and pushes; \<^verbatim>\<open>IsDERSignature\<close> accepts exactly
    the strict DER encodings.
  \<^item> \<^verbatim>\<open>Serialize\<close>: readers and writers of the wire format. The interface is the locale \<^verbatim>\<open>codec\<close>, a
    writer, a reader and the values they fit, interpreted on each format.
  \<^item> \<^verbatim>\<open>Tx\<close>: the data of transactions (\<^verbatim>\<open>block/transaction.h\<close>), their predicates and serialised form.
  \<^item> \<^verbatim>\<open>Sig_Check\<close>: \<^verbatim>\<open>SignatureHash\<close>, \<^verbatim>\<open>CSignatureCache\<close> and \<^verbatim>\<open>CheckSig\<close>. The contract of a cache of
    verdicts is the locale \<^verbatim>\<open>verdict_cache\<close>, interpreted on the signature cache.
  \<^item> \<^verbatim>\<open>Script_Eval\<close>: \<^verbatim>\<open>EvalScript\<close>, one definition for each group of cases of its switch. The state is
    the record \<^verbatim>\<open>eval_state\<close>; leaving early is \<open>RetFalse\<close> with the state left behind, a failed
    assertion is \<open>Abort\<close>. \<^verbatim>\<open>Script_Eval_Safe\<close> shows that it never aborts, \<^verbatim>\<open>Script_Eval_Inv\<close> that every
    iteration keeps the limits (rule induction over the states it reaches), \<^verbatim>\<open>Script_Eval_Sem\<close> that
    the signature cache does not matter and what CHECKMULTISIG decides.
  \<^item> \<^verbatim>\<open>Script_Verify\<close>: \<^verbatim>\<open>VerifyScript\<close> and the scripts of destinations; what spends a key hash and a
    script hash.
  \<^item> \<^verbatim>\<open>Script_Solver\<close>: the recognition of standard outputs.
  \<^item> \<^verbatim>\<open>Keystore\<close>: the two key stores, the second a record that extends the first; all operations as a
    labelled step relation, which of them can leave secrets in the clear, and encryption as a round trip.
  \<^item> \<^verbatim>\<open>Script_Sign\<close>: signing over the interface of the key stores, and the combination of partly signed
    inputs; what is signed is spent.
  \<^item> \<^verbatim>\<open>Tx_Check\<close>: the checks of a transaction that need no other one, against the specification
    \<open>valid_tx\<close> of amounts as numbers.
  \<^item> \<^verbatim>\<open>Level_DB\<close>: \<^verbatim>\<open>CLevelDB\<close> with its write batch, as a refinement of a map that changes atomically.
  \<^item> \<^verbatim>\<open>Tx_DB\<close>: the records of \<^verbatim>\<open>CTxDB\<close>. The contract of the index is the locale \<^verbatim>\<open>tx_index\<close>, interpreted
    on the functions of the database.
  \<^item> \<^verbatim>\<open>Bignum\<close>, \<^verbatim>\<open>Difficulty\<close>: the conversions of \<^verbatim>\<open>CBigNum\<close> with the compact form of targets; the target
    of the next block, the rewards and the median time.
  \<^item> \<^verbatim>\<open>Tx_Connect\<close>: fetching, connecting and disconnecting the inputs of a transaction. Connecting is
    sound (no double spend, no money from nothing) and disconnecting undoes it; the loops over the
    index are proved once in the locale \<^verbatim>\<open>tx_index\<close>.
  \<^item> \<^verbatim>\<open>Mempool\<close>: the pool of transactions that wait for a block, and the acceptance of a transaction with
    all its checks; the invariant of the pool over the states its operations reach.
  \<^item> \<^verbatim>\<open>Merkle\<close>: the tree over the transactions of a block; a branch of the tree proves membership.
  \<^item> \<^verbatim>\<open>Block\<close>: headers, blocks and index entries, \<^verbatim>\<open>CheckBlock\<close>, \<^verbatim>\<open>ConnectBlock\<close> and \<^verbatim>\<open>DisconnectBlock\<close>.
    \<^verbatim>\<open>Block_Check\<close> compares \<^verbatim>\<open>CheckBlock\<close> with the specification \<open>valid_block\<close>, \<^verbatim>\<open>Block_Connect\<close> shows that
    disconnecting undoes connecting, \<^verbatim>\<open>Block_Supply\<close> that a block creates at most the subsidy at the height
    of the best chain, which the code takes for the height of the block.
  \<^item> \<^verbatim>\<open>Block_Tree\<close>: the index of blocks (\<^verbatim>\<open>mapBlockIndex\<close>) with the links between its entries, the trust of
    a block, the fork of two branches, the relinking of the main chain, block locators. The fork is the
    last common block, the relinked tree marks exactly the new chain, a locator leads to a common block.
  \<^item> \<^verbatim>\<open>Kernel\<close>: the stake modifier, the check of a proof of stake and the searches for a kernel. The
    modifier is made of selected blocks, the search backward finds only kernels that the check
    accepts, the search forward runs into an assertion that always fails.
  \<^item> \<^verbatim>\<open>Chain\<close>: \<^verbatim>\<open>AddToBlockIndex\<close>, \<^verbatim>\<open>SetBestChain\<close> and \<^verbatim>\<open>Reorganize\<close> over the tree, the database and the pool;
    what a reorganisation has changed when it succeeds and what is left alone when it fails.
    \<^verbatim>\<open>Block_Index\<close>: none of them takes a block out of the index or changes where it is on the disk.
  \<^item> \<^verbatim>\<open>Block_Files\<close>: the files of blocks (\<^verbatim>\<open>file_operate/file_open.h\<close>, \<^verbatim>\<open>WriteToDisk\<close>, the two \<^verbatim>\<open>ReadFromDisk\<close>).
    A written block is read back and spoils nothing, and the positions that \<^verbatim>\<open>ConnectBlock\<close> puts into the
    transaction index are those of the transactions in the file.
  \<^item> \<^verbatim>\<open>Checkpoints\<close>: the hardened checkpoints and the synchronised one (\<^verbatim>\<open>checkpoints.cpp\<close>): which blocks it
    admits, which checkpoints may follow it, and what the acceptance of a message has changed.
  \<^item> \<^verbatim>\<open>Autocheck\<close>: the automatic checkpoints (\<^verbatim>\<open>prime/autocheckpoint.cpp\<close>): the blocks of prime height that are
    written to the file are those that are read back and checked.
  \<^item> \<^verbatim>\<open>Block_Accept\<close>: \<^verbatim>\<open>AcceptBlock\<close> and \<^verbatim>\<open>ProcessBlock\<close> with the pool of orphan blocks, over the theories of
    the chain, the files and the checkpoints: the rules for a block in its place, where an accepted block is
    stored, the invariant of the pool, and the runs of \<^verbatim>\<open>AcceptBlock\<close> over the orphans that an accepted block brings in.
  \<^item> \<^verbatim>\<open>Check_Queue\<close>: the queue of script checks (\<^verbatim>\<open>checkqueue.h\<close>) with its master and workers, a step
    relation over all interleavings and spurious wake-ups: the verdict is right but for the \<^verbatim>\<open>false\<close> of a
    shutdown, without a shutdown it is always reached, with a shutdown the master can hang. The end of this theory puts it together
    with the script checks of a block.

  \<^bold>\<open>Conventions.\<close> Machine integers are words where they wrap and \<open>int\<close> or \<open>nat\<close> where the code or a
  theorem keeps them in range. A stack is a list with its top first. An exception or a failed
  assertion is \<open>None\<close> or \<open>Inl\<close>; loops are recursive functions with a measure, so that every definition
  is total. The walks along the links of the block tree have the number of its entries as fuel, which is
  enough on every well-formed tree (\<open>chain_at_walk\<close>, \<open>GetKernelStakeModifier_returns\<close>, \<open>first_prime_chain\<close>,
  \<open>write_points_chain\<close>). The walk back over the orphans has their number as fuel; only a cycle of hashes,
  on which the code does not end either, uses it up.

  \<^bold>\<open>Parameters.\<close> Hash functions and signature verification are the fields of \<open>crypto_env\<close>; curve
  arithmetic and the encryption of one secret those of \<open>key_env\<close>. Laws about them are named where they
  are used (\<open>digest_lengths\<close>, \<open>crypter_law\<close>). The library leveldb is the record \<open>leveldb\<close> with
  \<open>leveldb_law\<close>, the numbers of OpenSSL the record \<open>bn_env\<close> with \<open>bn_law\<close>; the blocks on disk, the
  kind of network and the checkpoints are fields of \<open>node_env\<close>, \<open>diff_env\<close> and \<open>block_env\<close>.

  \<^bold>\<open>Not modelled.\<close> The network layer and the handlers of its messages, the sending of checkpoints by the
  holder of the master key, alerts, the wallet, the graphical interface, the RPC server, the
  miner threads and the witness code that the current version does not reach; the vendored
  libraries (leveldb, secp256k1, json); locks other than the mutex of the check
  queue, so that two threads that run the same other operations are not interleaved here.
\<close>

section \<open>The queue checks what the block needs\<close>

text \<open>The verdict of a script check, which no sound signature cache changes.\<close>

definition check_verdict :: "crypto_env \<Rightarrow> CScriptCheck \<Rightarrow> bool" where
  "check_verdict env check = (case run_CScriptCheck env empty_cache check of Some (b, _) \<Rightarrow> b | None \<Rightarrow> False)"

definition wf_check :: "CScriptCheck \<Rightarrow> bool" where
  "wf_check check \<longleftrightarrow> get_nVersion (sc_txTo check) \<in> {1, 2} \<and> sc_nIn check < length (get_vin (sc_txTo check))"

lemma run_CScriptCheck_verdict:
  assumes "digest_lengths env" "cache_ok env cache" "wf_check check"
  obtains cache' where "run_CScriptCheck env cache check = Some (check_verdict env check, cache')" "cache_ok env cache'"
proof -
  let ?a = "\<lparr> a_env = env, a_txTo = sc_txTo check, a_nIn = sc_nIn check, a_flags = sc_nFlags check, a_nHashType = sc_nHashType check \<rparr>"
  have "args_ok ?a" using assms(3) by (simp add: args_ok_def wf_check_def)
  then obtain b d d' where "VerifyScript ?a cache (get_scriptSig (get_vin (sc_txTo check) ! sc_nIn check)) (sc_scriptPubKey check) = Inr (b, d)"
      "VerifyScript ?a empty_cache (get_scriptSig (get_vin (sc_txTo check) ! sc_nIn check)) (sc_scriptPubKey check) = Inr (b, d')"
      "cache_ok env d"
    using VerifyScript_two_caches [of ?a cache empty_cache] assms(1,2) cache_ok_empty by fastforce
  then show ?thesis by (intro that [of d]) (simp_all add: run_CScriptCheck_def check_verdict_def)
qed

lemma run_checks_all:
  assumes "digest_lengths env" "cache_ok env cache" "\<forall>check \<in> set vChecks. wf_check check"
  shows "\<exists>cache'. run_checks env vChecks fOk cache = Some (fOk \<and> (\<forall>check \<in> set vChecks. check_verdict env check), cache')"
  using assms(2,3)
proof (induction vChecks arbitrary: fOk cache)
  case (Cons check vChecks)
  obtain cache' where "run_CScriptCheck env cache check = Some (check_verdict env check, cache')" "cache_ok env cache'"
    using run_CScriptCheck_verdict [OF assms(1) Cons.prems(1)] Cons.prems(2) by auto
  with Cons.IH [of cache' "check_verdict env check"] Cons.IH [OF Cons.prems(1), of False] Cons.prems(2) show ?case by auto
qed simp

text \<open>
  C17. The threads and \<^verbatim>\<open>ConnectBlock\<close> agree: when the master returns the status from \<^verbatim>\<open>Wait\<close> (and not because of a
  shutdown), after any interleaving with the workers, its result is the one of running the script checks of the block one after another in one
  thread, whatever sound signature cache either of them uses.
\<close>

theorem queue_runs_block_checks:
  assumes "digest_lengths env" "cache_ok env cache" "\<forall>check \<in> set vChecks. wf_check check"
    and "cq_reaches (check_verdict env) s" "pcs s ! 0 = Returned b" "set (added s) = set vChecks"
  shows "\<exists>cache'. run_checks env vChecks True cache = Some (b, cache')"
proof -
  have "b = (\<forall>check \<in> set vChecks. check_verdict env check)"
    using cq_reaches_ok [OF assms(4)] assms(5,6) by (simp add: all_ok_def cq_ok_def master_ok_def)
  with run_checks_all [OF assms(1-3), of True] show ?thesis by simp
qed

theorem queue_runs_block_checks_witness:
  "\<exists>s cache'. cq_reaches (check_verdict sample_env) s \<and> pcs s ! 0 = Returned True \<and>
     added s = [new_CScriptCheck prev_tx spend_tx 0 0 0] \<and>
     run_checks sample_env [new_CScriptCheck prev_tx spend_tx 0 0 0] True empty_cache = Some (True, cache')"
proof -
  let ?c = "new_CScriptCheck prev_tx spend_tx 0 0 0" and ?r = "cq_reaches (check_verdict sample_env)"
  let ?q = "\<lambda>cs total todo. \<lparr> cq_queue = cs, nIdle = 0, nTotal = total, fAllOk = True, nTodo = todo, fQuit = False, nBatchSize = 128 \<rparr>"
  let ?s = "\<lambda>q pc. \<lparr> shared = q, pcs = [pc], fShutdown = False, added = [?c] \<rparr>"
  have v: "check_verdict sample_env ?c"
    by (simp add: check_verdict_def run_CScriptCheck_def new_CScriptCheck_def spend_tx_def prev_tx_def VerifyScript_spend)
  have "?r \<lparr> shared = new_CCheckQueue 128, pcs = replicate 1 Out, fShutdown = False, added = [] \<rparr>" by (rule cq_reaches.new) simp
  from cq_reaches.call [OF this call_step.add [where woken = "{}" and vChecks = "[?c]"]]
  have "?r (?s (?q [?c] 0 1) Out)" by (simp add: new_CCheckQueue_def demo_simps)
  from cq_reaches.call [OF this call_step.start [where t = 0]] have "?r (?s (?q [] 1 1) (Working [?c] 1 True))" by (simp add: demo_simps)
  from cq_reaches.work [OF this work_step.run [where t = 0]] have "?r (?s (?q [] 1 1) (Working [] 1 True))" using v by simp
  from cq_reaches.work [OF this work_step.finish [where t = 0 and fOk = True]] have s: "?r (?s (?q [] 0 0) (Returned True))" by (simp add: demo_simps)
  have "wf_check ?c" by (simp add: wf_check_def new_CScriptCheck_def spend_tx_def)
  with queue_runs_block_checks [OF digest_lengths_sample cache_ok_empty _ s, of "[?c]" True] s show ?thesis by fastforce
qed

end
